(* ===== verification/Prelude.thy ===== *)
theory Prelude
  imports Main "HOL-Library.Word" "HOL-Library.Monad_Syntax"
begin

text \<open>
  Shared vocabulary of the development.

  The C code aborts the process on \<^verbatim>\<open>psc_assert\<close> and \<^verbatim>\<open>psc_fatal\<close>. A routine that can do
  so returns an \<open>option\<close>: \<^const>\<open>None\<close> is the abort. The same value stands for an access
  outside an allocation, which C leaves undefined, so a theorem that an operation returns
  \<^const>\<open>Some\<close> also says that it stays inside its buffers. An error code handed to the
  caller is an ordinary part of the returned value.

  C computes on bytes after promoting them to \<^verbatim>\<open>int\<close> and truncates when it stores the
  result; \<open>to_int\<close> and \<open>to_u8\<close> are these two conversions, and the collection \<open>c_bits\<close>
  holds the rules that read a single bit of such an expression.
\<close>

unbundle bit_operations_syntax

named_theorems c_bits "single bits of C integer expressions"
named_theorems mem_simps "checked reads and writes"

type_synonym u8 = "8 word"
type_synonym u16 = "16 word"
type_synonym u32 = "32 word"
type_synonym u64 = "64 word"

subsection \<open>Bytes and promoted integers\<close>

definition to_int :: "u8 \<Rightarrow> u32" where
  "to_int b = ucast b"

definition to_u8 :: "u32 \<Rightarrow> u8" where
  "to_u8 w = ucast w"

lemma bit_u8_bound: "bit (b :: u8) i \<Longrightarrow> i < 8"
  using bit_imp_le_length [of b i] by simp

lemma bit_u32_bound: "bit (b :: u32) i \<Longrightarrow> i < 32"
  using bit_imp_le_length [of b i] by simp

lemma bit_to_int [c_bits]: "bit (to_int b) i \<longleftrightarrow> bit b i"
  by (auto simp: to_int_def bit_simps dest: bit_u8_bound)

lemma bit_to_u8 [c_bits]: "bit (to_u8 w) i \<longleftrightarrow> i < 8 \<and> bit w i"
  by (auto simp: to_u8_def bit_simps)

lemma bit_ff [c_bits]: "bit (0xff :: u32) i \<longleftrightarrow> i < 8"
proof -
  have "(0xff :: u32) = mask 8" by (simp add: mask_eq_exp_minus_1)
  then have "bit (0xff :: u32) i = bit (mask 8 :: u32) i" by simp
  then show ?thesis by (auto simp only: bit_simps) simp
qed

lemma bit_ff_int [c_bits]: "bit (0xff :: int) i \<longleftrightarrow> i < 8"
proof -
  have "(0xff :: int) = mask 8" by (simp add: mask_eq_exp_minus_1)
  then have "bit (0xff :: int) i = bit (mask 8 :: int) i" by simp
  then show ?thesis by (auto simp only: bit_simps) simp
qed

lemma bit_one32 [c_bits]: "bit (1 :: u32) i \<longleftrightarrow> i = 0"
  by (simp add: bit_simps)

lemma bit_shl32 [c_bits]:
  "bit (push_bit n (w :: u32)) i \<longleftrightarrow> n \<le> i \<and> i < 32 \<and> bit w (i - n)"
  by (auto simp: bit_simps)

lemma bit_shr32 [c_bits]: "bit (drop_bit n (w :: u32)) i \<longleftrightarrow> bit w (n + i)"
  by (simp add: bit_simps)

lemma bit_not32 [c_bits]: "bit (NOT w :: u32) i \<longleftrightarrow> i < 32 \<and> \<not> bit w i"
  by (auto simp: bit_simps)

lemmas bit_and_or [c_bits] = bit_and_iff bit_or_iff bit_xor_iff

lemma unat_u32_less: "unat (w :: u32) < 2 ^ 32"
  by (rule order.strict_trans2 [OF unsigned_less]) simp

lemma unat_word32: "m < 2 ^ 32 \<Longrightarrow> unat (word_of_nat m :: u32) = m"
  by (simp add: unat_of_nat)

lemma u8_eqI: "(\<And>i. i < 8 \<Longrightarrow> bit (a :: u8) i = bit b i) \<Longrightarrow> a = b"
  by (rule bit_word_eqI) simp

lemma u8_eq_ff_iff: "(b :: u8) = 0xff \<longleftrightarrow> (\<forall>i < 8. bit b i)"
proof
  assume all: "\<forall>i < 8. bit b i"
  have "b = (- 1 :: u8)"
    using all by (intro u8_eqI) simp
  then show "b = 0xff" by simp
next
  assume "b = 0xff"
  then have "b = (- 1 :: u8)" by simp
  then show "\<forall>i < 8. bit b i" by simp
qed

lemma u8_eq_0_iff: "(b :: u8) = 0 \<longleftrightarrow> (\<forall>i < 8. \<not> bit b i)"
proof
  assume "\<forall>i < 8. \<not> bit b i"
  then show "b = 0" by (intro u8_eqI) simp
qed simp

subsection \<open>Checked memory access\<close>

definition rd :: "'a list \<Rightarrow> nat \<Rightarrow> 'a option" where
  "rd xs i = (if i < length xs then Some (xs ! i) else None)"

definition wr :: "'a list \<Rightarrow> nat \<Rightarrow> 'a \<Rightarrow> 'a list option" where
  "wr xs i v = (if i < length xs then Some (xs[i := v]) else None)"

definition psc_assert :: "bool \<Rightarrow> unit option" where
  "psc_assert b = (if b then Some () else None)"

lemma rd_Some [mem_simps]: "i < length xs \<Longrightarrow> rd xs i = Some (xs ! i)"
  by (simp add: rd_def)

lemma wr_Some [mem_simps]: "i < length xs \<Longrightarrow> wr xs i v = Some (xs[i := v])"
  by (simp add: wr_def)

lemma rd_eq_Some_iff: "rd xs i = Some x \<longleftrightarrow> i < length xs \<and> xs ! i = x"
  by (auto simp: rd_def)

lemma wr_eq_Some_iff: "wr xs i v = Some ys \<longleftrightarrow> i < length xs \<and> ys = xs[i := v]"
  by (auto simp: wr_def)

lemma psc_assert_True [simp]: "psc_assert True = Some ()"
  by (simp add: psc_assert_def)

lemma psc_assert_False [simp]: "psc_assert False = None"
  by (simp add: psc_assert_def)

lemma psc_assert_eq_Some_iff [simp]: "psc_assert b = Some u \<longleftrightarrow> b"
  by (simp add: psc_assert_def)

lemma psc_assert_bind [simp]: "psc_assert b \<bind> k = (if b then k () else None)"
  by (simp add: psc_assert_def)

subsection \<open>Bits of a byte buffer\<close>

definition buf_bit :: "u8 list \<Rightarrow> nat \<Rightarrow> bool" where
  "buf_bit bs i = bit (bs ! (i div 8)) (i mod 8)"

lemma byte_index_less: "i < 8 * n \<Longrightarrow> i div 8 < (n :: nat)"
  by (simp add: less_mult_imp_div_less mult.commute)

lemma byte_index_less_iff: "i div 8 < n \<longleftrightarrow> i < 8 * (n :: nat)"
  by (simp add: div_less_iff_less_mult mult.commute)

lemma byte_pos_eq: "r < 8 \<Longrightarrow> (8 * q + r) div 8 = (q :: nat) \<and> (8 * q + r) mod 8 = r"
  by simp

lemma buf_bit_at [simp]: "r < 8 \<Longrightarrow> buf_bit bs (8 * q + r) = bit (bs ! q) r"
  by (simp add: buf_bit_def)

lemma byte_pos_cases:
  obtains q r where "i = 8 * q + r" "r < (8 :: nat)"
  by (rule that [of "i div 8" "i mod 8"]) simp_all

lemma byte_range_iff:
  fixes p k q :: nat
  assumes "j < 8" "r < 8"
  shows "8 * p \<le> 8 * k + j \<and> 8 * k + j < 8 * p + (8 * q + r) \<longleftrightarrow>
           p \<le> k \<and> k < p + q \<or> k = p + q \<and> j < r"
  using assms by arith

lemma byte_subrange_iff:
  fixes k k' :: nat
  assumes "j < 8" "s + len \<le> 8"
  shows "8 * k + s \<le> 8 * k' + j \<and> 8 * k' + j < 8 * k + s + len \<longleftrightarrow>
           k' = k \<and> s \<le> j \<and> j < s + len"
  using assms by (cases "k' = k") auto

lemma buf_bit_update:
  assumes "k < length bs"
  shows "buf_bit (bs[k := b]) i = (if i div 8 = k then bit b (i mod 8) else buf_bit bs i)"
  using assms by (auto simp: buf_bit_def)

lemma buf_bit_append: "i < 8 * length xs \<Longrightarrow> buf_bit (xs @ ys) i = buf_bit xs i"
  using byte_index_less [of i "length xs"] by (simp add: buf_bit_def nth_append)

end
