(* ===== verification/VBitmap.thy ===== *)
theory VBitmap
  imports Prelude
begin

text \<open>
  The variable-sized bitmap of \<^verbatim>\<open>src/pfl/vbitmap.c\<close>: a byte array that is reallocated as it
  grows, with a cursor where the search for a free bit resumes. The on-disk table and the
  multi-waiter use it as their slot allocator.

  Pointers into the array are offsets from \<^verbatim>\<open>vb_start\<close>; \<open>vb_isnull\<close> says that \<^verbatim>\<open>vb_start\<close>
  is \<^verbatim>\<open>NULL\<close> (a bitmap declared with \<^verbatim>\<open>VBITMAP_INIT_AUTO\<close>). \<open>vb_bits\<close> is the abstraction:
  the list of the bits the bitmap represents. The theorems relate each operation to the
  corresponding operation on that list.
\<close>

subsection \<open>State\<close>

record vbitmap =
  vb_isnull :: bool
  vb_buf :: "u8 list"
  vb_end :: nat
  vb_pos :: nat
  vb_lastsize :: nat
  vb_flags :: u32

definition PVBF_AUTO :: u32 where "PVBF_AUTO = 1"
definition PVBF_STATIC :: u32 where "PVBF_STATIC = 2"
definition PVBF_EXTALLOC :: u32 where "PVBF_EXTALLOC = 4"

definition EINVAL :: nat where "EINVAL = 22"

definition VBITMAP_INIT_AUTO :: vbitmap where
  "VBITMAP_INIT_AUTO = \<lparr>vb_isnull = True, vb_buf = [], vb_end = 0, vb_pos = 0,
     vb_lastsize = 0, vb_flags = PVBF_AUTO OR PVBF_STATIC\<rparr>"

definition psc_vbitmap_getsize :: "vbitmap \<Rightarrow> nat" where
  "psc_vbitmap_getsize vb = vb_end vb * 8 + vb_lastsize vb"

text \<open>The sum of two \<^verbatim>\<open>size_t\<close> values.\<close>

definition size_add :: "nat \<Rightarrow> nat \<Rightarrow> nat" where
  "size_add a b = (a + b) mod 2 ^ 64"

definition howmany :: "nat \<Rightarrow> nat \<Rightarrow> nat" where
  "howmany x y = (x + (y - 1)) div y"

subsection \<open>Construction and single bits\<close>

definition psc_vbitmap_newf :: "nat \<Rightarrow> u32 \<Rightarrow> vbitmap" where
  "psc_vbitmap_newf nelems flags =
     (let bytes = howmany nelems 8;
          lastsize = nelems mod 8
      in \<lparr>vb_isnull = False, vb_buf = replicate bytes 0,
          vb_end = (if bytes \<noteq> 0 then bytes - 1 else 0), vb_pos = 0,
          vb_lastsize = (if nelems \<noteq> 0 \<and> lastsize = 0 then 8 else lastsize),
          vb_flags = flags\<rparr>)"

definition VB_CLEAR_UNALLOC :: "vbitmap \<Rightarrow> vbitmap option" where
  "VB_CLEAR_UNALLOC vb =
     (if vb_lastsize vb \<noteq> 0 \<and> vb_lastsize vb \<noteq> 8 then
        do {
          b \<leftarrow> rd (vb_buf vb) (vb_end vb);
          bs \<leftarrow> wr (vb_buf vb) (vb_end vb)
                 (to_u8 (to_int b AND NOT (push_bit (vb_lastsize vb) 0xff)));
          Some (vb\<lparr>vb_buf := bs\<rparr>)
        }
      else Some vb)"

definition psc_vbitmap_setval :: "vbitmap \<Rightarrow> nat \<Rightarrow> bool \<Rightarrow> (vbitmap \<times> u32) option" where
  "psc_vbitmap_setval vb pos v =
     do {
       psc_assert (pos < psc_vbitmap_getsize vb);
       let bytes = pos div 8; let shft = pos mod 8;
       b \<leftarrow> rd (vb_buf vb) bytes;
       let oldval = drop_bit shft (to_int b) AND 1;
       bs \<leftarrow> wr (vb_buf vb) bytes
              (if v then to_u8 (to_int b OR push_bit shft 1)
               else to_u8 (to_int b AND NOT (push_bit shft 1)));
       Some (vb\<lparr>vb_buf := bs\<rparr>, oldval)
     }"

definition psc_vbitmap_get :: "vbitmap \<Rightarrow> nat \<Rightarrow> u32 option" where
  "psc_vbitmap_get vb pos =
     do {
       psc_assert (pos < psc_vbitmap_getsize vb);
       let bytes = pos div 8; let shft = pos mod 8;
       b \<leftarrow> rd (vb_buf vb) bytes;
       Some (drop_bit shft (to_int b AND push_bit shft 1))
     }"

subsection \<open>Ranges\<close>

fun vb_fill :: "u8 \<Rightarrow> u8 list \<Rightarrow> nat \<Rightarrow> nat \<Rightarrow> (u8 list \<times> nat \<times> nat) option" where
  "vb_fill v bs p sz =
     (if 8 \<le> sz then do { bs' \<leftarrow> wr bs p v; vb_fill v bs' (p + 1) (sz - 8) }
      else Some (bs, p, sz))"

declare vb_fill.simps [simp del]

text \<open>The three steps of \<^verbatim>\<open>psc_vbitmap_setval_range\<close>: first byte, whole bytes, last byte.\<close>

definition vb_range_first ::
  "u8 list \<Rightarrow> nat \<Rightarrow> nat \<Rightarrow> bool \<Rightarrow> (u8 list \<times> nat \<times> nat) option" where
  "vb_range_first bs pos sz val =
     (let bytes = pos div 8; shft = pos mod 8
      in if shft \<noteq> 0 then do {
           let len = min sz (8 - shft);
           b \<leftarrow> rd bs bytes;
           bs' \<leftarrow> wr bs bytes
             (if val then to_u8 (to_int b OR push_bit shft (NOT (push_bit len 0xff)))
              else to_u8 (to_int b AND
                     (push_bit (len + shft) 0xff OR drop_bit (8 - shft) 0xff)));
           Some (bs', bytes + 1, sz - len)
         } else Some (bs, bytes, sz))"

definition vb_range_last :: "u8 list \<Rightarrow> nat \<Rightarrow> nat \<Rightarrow> bool \<Rightarrow> u8 list option" where
  "vb_range_last bs p sz val =
     (if sz \<noteq> 0 then do {
        b \<leftarrow> rd bs p;
        wr bs p (if val then to_u8 (to_int b OR drop_bit (8 - sz) 0xff)
                 else to_u8 (to_int b AND drop_bit (8 - sz) 0xff))
      } else Some bs)"

definition psc_vbitmap_setval_range ::
  "vbitmap \<Rightarrow> nat \<Rightarrow> nat \<Rightarrow> bool \<Rightarrow> (vbitmap \<times> nat) option" where
  "psc_vbitmap_setval_range vb pos sz val =
     (if psc_vbitmap_getsize vb < size_add pos sz then Some (vb, EINVAL)
      else do {
        (bs, p, sz) \<leftarrow> vb_range_first (vb_buf vb) pos sz val;
        (bs, p, sz) \<leftarrow> vb_fill (if val then 0xff else 0) bs p sz;
        bs \<leftarrow> vb_range_last bs p sz val;
        Some (vb\<lparr>vb_buf := bs\<rparr>, 0)
      })"

function vb_each_byte :: "(u8 \<Rightarrow> u8) \<Rightarrow> vbitmap \<Rightarrow> nat \<Rightarrow> u8 list \<Rightarrow> u8 list option" where
  "vb_each_byte f vb p bs =
     (if p < vb_end vb \<or> (p = vb_end vb \<and> vb_lastsize vb \<noteq> 0) then
        do { b \<leftarrow> rd bs p; bs' \<leftarrow> wr bs p (f b); vb_each_byte f vb (p + 1) bs' }
      else Some bs)"
  by pat_completeness auto
termination
  by (relation "measure (\<lambda>(f, vb, p, bs). Suc (vb_end vb) - p)") auto

declare vb_each_byte.simps [simp del]

definition psc_vbitmap_invert :: "vbitmap \<Rightarrow> vbitmap option" where
  "psc_vbitmap_invert vb =
     do { bs \<leftarrow> vb_each_byte (\<lambda>b. to_u8 (NOT (to_int b))) vb 0 (vb_buf vb);
          Some (vb\<lparr>vb_buf := bs\<rparr>) }"

definition psc_vbitmap_setall :: "vbitmap \<Rightarrow> vbitmap option" where
  "psc_vbitmap_setall vb =
     do { bs \<leftarrow> vb_each_byte (\<lambda>_. 0xff) vb 0 (vb_buf vb); Some (vb\<lparr>vb_buf := bs\<rparr>) }"

definition psc_vbitmap_clearall :: "vbitmap \<Rightarrow> vbitmap option" where
  "psc_vbitmap_clearall vb =
     do { bs \<leftarrow> vb_each_byte (\<lambda>_. 0) vb 0 (vb_buf vb); Some (vb\<lparr>vb_buf := bs\<rparr>) }"

function vb_israngeset_tail :: "vbitmap \<Rightarrow> u8 \<Rightarrow> nat \<Rightarrow> nat \<Rightarrow> bool option" where
  "vb_israngeset_tail vb fv p len =
     (if p < vb_end vb \<and> 8 \<le> len then
        do { b \<leftarrow> rd (vb_buf vb) p;
             if b \<noteq> fv then Some False else vb_israngeset_tail vb fv (p + 1) (len - 8) }
      else if len = 0 then Some True
      else do {
        psc_assert (len \<le> 8);
        b \<leftarrow> rd (vb_buf vb) p;
        Some (if fv \<noteq> 0 then 0xff AND (to_int b OR push_bit len 0xff) = 0xff
              else to_int b AND NOT (push_bit len 0xff) = 0)
      })"
  by pat_completeness auto
termination
  by (relation "measure (\<lambda>(vb, fv, p, len). len)") auto

declare vb_israngeset_tail.simps [simp del]

definition pfl_vbitmap_israngeset :: "vbitmap \<Rightarrow> bool \<Rightarrow> nat \<Rightarrow> nat \<Rightarrow> bool option" where
  "pfl_vbitmap_israngeset vb val start len =
     (if len = 0 then Some True
      else do {
        let fv = (if val then 0xff else 0 :: u8);
        psc_assert (start < psc_vbitmap_getsize vb);
        psc_assert (start < size_add start len);
        psc_assert (size_add start len \<le> psc_vbitmap_getsize vb);
        let p = start div 8; let adj = start mod 8;
        if adj \<noteq> 0 then do {
          let m = push_bit adj (push_bit (min len 8) 1 - 1);
          b \<leftarrow> rd (vb_buf vb) p;
          if to_int b AND m \<noteq> to_int fv AND m then Some False
          else if len < 8 then Some True
          else vb_israngeset_tail vb fv (p + 1) (if len < adj then 0 else len - (8 - adj))
        } else vb_israngeset_tail vb fv p len
      })"

definition psc_vbitmap_isfull :: "vbitmap \<Rightarrow> bool option" where
  "psc_vbitmap_isfull vb = pfl_vbitmap_israngeset vb True 0 (psc_vbitmap_getsize vb)"

definition pfl_vbitmap_isempty :: "vbitmap \<Rightarrow> bool option" where
  "pfl_vbitmap_isempty vb = pfl_vbitmap_israngeset vb False 0 (psc_vbitmap_getsize vb)"

subsection \<open>Counting\<close>

function vb_nfree_loop :: "vbitmap \<Rightarrow> nat \<Rightarrow> nat \<Rightarrow> nat \<Rightarrow> nat option" where
  "vb_nfree_loop vb p j n =
     (if p \<le> vb_end vb then
        if j < (if p = vb_end vb then vb_lastsize vb else 8) then
          do { b \<leftarrow> rd (vb_buf vb) p;
               vb_nfree_loop vb p (j + 1) (if to_int b AND push_bit j 1 = 0 then n + 1 else n) }
        else vb_nfree_loop vb (p + 1) 0 n
      else Some n)"
  by pat_completeness auto
termination
  by (relation "measures [\<lambda>(vb, p, j, n). Suc (vb_end vb) - p,
        \<lambda>(vb, p, j, n). vb_lastsize vb + 8 - j]") (auto split: if_splits)

declare vb_nfree_loop.simps [simp del]

definition psc_vbitmap_nfree :: "vbitmap \<Rightarrow> nat option" where
  "psc_vbitmap_nfree vb = vb_nfree_loop vb 0 0 0"

definition psc_vbitmap_nset :: "vbitmap \<Rightarrow> nat option" where
  "psc_vbitmap_nset vb = map_option (\<lambda>n. psc_vbitmap_getsize vb - n) (psc_vbitmap_nfree vb)"

function vb_lcr_bits :: "u8 \<Rightarrow> nat \<Rightarrow> nat \<times> nat \<Rightarrow> nat \<times> nat" where
  "vb_lcr_bits b i (n, r) =
     (if i < 8 then
        if to_int b AND push_bit i 1 = 0 then vb_lcr_bits b (i + 1) (n + 1, r)
        else vb_lcr_bits b (i + 1) (0, if r < n then n else r)
      else (n, r))"
  by pat_completeness auto
termination
  by (relation "measure (\<lambda>(b, i, nr). 8 - i)") auto

declare vb_lcr_bits.simps [simp del]

function vb_lcr_loop :: "vbitmap \<Rightarrow> nat \<Rightarrow> nat \<Rightarrow> nat \<Rightarrow> nat option" where
  "vb_lcr_loop vb p n r =
     (if p < vb_end vb \<or> (p = vb_end vb \<and> vb_lastsize vb \<noteq> 0) then
        do {
          b \<leftarrow> rd (vb_buf vb) p;
          let (n, r) = (if b = 0 then (n + 8, r)
                        else if b = 0xff then (0, if r < n then n else r)
                        else vb_lcr_bits b 0 (n, r));
          vb_lcr_loop vb (p + 1) n r
        }
      else Some (if r < n then n else r))"
  by pat_completeness auto
termination
  by (relation "measure (\<lambda>(vb, p, n, r). Suc (vb_end vb) - p)") auto

declare vb_lcr_loop.simps [simp del]

definition psc_vbitmap_lcr :: "vbitmap \<Rightarrow> (vbitmap \<times> nat) option" where
  "psc_vbitmap_lcr vb =
     do { vb \<leftarrow> VB_CLEAR_UNALLOC vb; r \<leftarrow> vb_lcr_loop vb 0 0 0; Some (vb, r) }"

text \<open>
  The local macro \<^verbatim>\<open>TEST_AND_SET\<close> of \<^verbatim>\<open>psc_vbitmap_getncontig\<close>, on \<^verbatim>\<open>t1\<close>, \<^verbatim>\<open>t2\<close> and the best
  region \<^verbatim>\<open>[sbit, ebit)\<close> so far.
\<close>

definition test_and_set :: "int \<Rightarrow> int \<Rightarrow> int \<times> int \<Rightarrow> int \<times> int" where
  "test_and_set t1 t2 = (\<lambda>(sbit, ebit). if t2 - t1 > ebit - sbit then (t1, t2) else (sbit, ebit))"

function vb_contig_loop ::
  "vbitmap \<Rightarrow> int \<Rightarrow> nat \<Rightarrow> nat \<Rightarrow> int \<Rightarrow> int \<Rightarrow> int \<times> int \<Rightarrow> (int \<times> int \<times> (int \<times> int)) option"
where
  "vb_contig_loop vb nslots p i t1 t2 se =
     (if p \<le> vb_end vb then
        if i < (if p = vb_end vb then vb_lastsize vb else 8) then
          do {
            b \<leftarrow> rd (vb_buf vb) p;
            if to_int b AND push_bit i 1 \<noteq> 0
            then vb_contig_loop vb nslots p (i + 1) (t2 + 1) (t2 + 1) (test_and_set t1 t2 se)
            else if t2 - t1 = nslots then Some (t1, t2, se)
            else vb_contig_loop vb nslots p (i + 1) t1 (t2 + 1) se
          }
        else vb_contig_loop vb nslots (p + 1) 0 t1 t2 se
      else Some (t1, t2, se))"
  by pat_completeness auto
termination
  by (relation "measures [\<lambda>(vb, nslots, p, i, t1, t2, se). Suc (vb_end vb) - p,
        \<lambda>(vb, nslots, p, i, t1, t2, se). vb_lastsize vb + 8 - i]") (auto split: if_splits)

declare vb_contig_loop.simps [simp del]

fun vb_mark_bits :: "u8 list \<Rightarrow> nat list \<Rightarrow> u8 list option" where
  "vb_mark_bits bs [] = Some bs"
| "vb_mark_bits bs (i # is) =
     do { b \<leftarrow> rd bs (i div 8);
          bs' \<leftarrow> wr bs (i div 8) (to_u8 (to_int b OR push_bit (i mod 8) 1));
          vb_mark_bits bs' is }"

text \<open>The result is the new bitmap, the value left in \<^verbatim>\<open>*nslots\<close> and the return value.\<close>

definition psc_vbitmap_getncontig :: "vbitmap \<Rightarrow> int \<Rightarrow> (vbitmap \<times> int \<times> int) option" where
  "psc_vbitmap_getncontig vb nslots =
     do {
       (t1, t2, se) \<leftarrow> vb_contig_loop vb nslots 0 0 0 0 (0, 0);
       let (sbit, ebit) = test_and_set t1 t2 se;
       if ebit - sbit \<noteq> 0 then do {
         bs \<leftarrow> vb_mark_bits (vb_buf vb) [nat sbit ..< nat ebit];
         Some (vb\<lparr>vb_buf := bs\<rparr>, sbit, ebit - sbit)
       } else Some (vb, nslots, 0)
     }"

subsection \<open>Resizing and allocation\<close>

text \<open>
  \<^verbatim>\<open>psc_realloc\<close> of an existing chunk to size zero is an assertion failure in
  \<^verbatim>\<open>_psc_realloc\<close>; bytes beyond the old chunk are zeroed by the caller.
\<close>

definition psc_vbitmap_resize :: "vbitmap \<Rightarrow> nat \<Rightarrow> vbitmap option" where
  "psc_vbitmap_resize vb newsize =
     do {
       let pos = vb_pos vb;
       let osiz = howmany (psc_vbitmap_getsize vb) 8;
       let nsiz = howmany newsize 8;
       vb \<leftarrow>
         (if \<not> vb_isnull vb \<and> nsiz = osiz then VB_CLEAR_UNALLOC vb
          else do {
            psc_assert (vb_isnull vb \<or> nsiz \<noteq> 0);
            Some (vb\<lparr>vb_isnull := False,
                     vb_buf := take nsiz (vb_buf vb) @ replicate (nsiz - osiz) 0,
                     vb_end := (if nsiz \<noteq> 0 then nsiz - 1 else 0)\<rparr>)
          });
       let lastsize = newsize mod 8;
       Some (vb\<lparr>vb_pos := (if vb_end vb < pos then 0 else pos),
                vb_lastsize := (if newsize \<noteq> 0 \<and> lastsize = 0 then 8 else lastsize)\<rparr>)
     }"

definition psc_vbitmap_setnextpos :: "vbitmap \<Rightarrow> nat \<Rightarrow> vbitmap option" where
  "psc_vbitmap_setnextpos vb pos =
     do { psc_assert (pos < psc_vbitmap_getsize vb); Some (vb\<lparr>vb_pos := pos div 8\<rparr>) }"

text \<open>\<^verbatim>\<open>ffs(3)\<close>: one plus the index of the least significant set bit, zero if there is none.\<close>

definition ffs :: "u32 \<Rightarrow> nat" where
  "ffs w = (case List.find (bit w) [0..<32] of None \<Rightarrow> 0 | Some i \<Rightarrow> Suc i)"

text \<open>The value \<^verbatim>\<open>~(char)(0x100 - (1 << vb_lastsize))\<close>, with a signed \<^verbatim>\<open>char\<close>.\<close>

definition vb_fullmask :: "nat \<Rightarrow> u32" where
  "vb_fullmask lastsize = NOT (scast (ucast (0x100 - push_bit lastsize 1 :: u32) :: u8))"

text \<open>
  The \<^verbatim>\<open>do\<close> loop of \<^verbatim>\<open>psc_vbitmap_next\<close>: \<open>Some (Some pos)\<close> is the jump to \<^verbatim>\<open>found\<close>,
  \<open>Some None\<close> the end of the loop.
\<close>

partial_function (option) vb_scan :: "vbitmap \<Rightarrow> nat \<Rightarrow> nat \<Rightarrow> nat option option" where
  "vb_scan vb start pos =
     do {
       hit \<leftarrow>
         (if pos = vb_end vb then
            if vb_lastsize vb = 8 then do { b \<leftarrow> rd (vb_buf vb) pos; Some (b \<noteq> 0xff) }
            else if vb_isnull vb then Some False
            else do { b \<leftarrow> rd (vb_buf vb) pos; Some (to_int b \<noteq> vb_fullmask (vb_lastsize vb)) }
          else do { b \<leftarrow> rd (vb_buf vb) pos; Some (b \<noteq> 0xff) });
       if hit then Some (Some pos)
       else let pos' = (if pos = vb_end vb then 0 else pos + 1)
            in if pos' = start then Some None else vb_scan vb start pos'
     }"

definition vb_take_slot :: "vbitmap \<Rightarrow> nat \<Rightarrow> (vbitmap \<times> nat) option" where
  "vb_take_slot vb pos =
     do {
       b \<leftarrow> rd (vb_buf vb) pos;
       let bytepos = ffs (NOT (to_int b)) - 1;
       bs \<leftarrow> wr (vb_buf vb) pos (to_u8 (to_int b OR push_bit bytepos 1));
       Some (vb\<lparr>vb_pos := pos, vb_buf := bs\<rparr>, 8 * pos + bytepos)
     }"

text \<open>The result pairs the bitmap with \<^verbatim>\<open>*elem\<close>, or with \<^const>\<open>None\<close> when the call returns 0.\<close>

partial_function (option) psc_vbitmap_next :: "vbitmap \<Rightarrow> (vbitmap \<times> nat option) option" where
  "psc_vbitmap_next vb =
     do {
       r \<leftarrow> vb_scan vb (vb_pos vb) (vb_pos vb);
       case r of
         Some pos \<Rightarrow> do { (vb, elem) \<leftarrow> vb_take_slot vb pos; Some (vb, Some elem) }
       | None \<Rightarrow>
           (if vb_flags vb AND (PVBF_AUTO OR PVBF_EXTALLOC) = PVBF_AUTO then do {
              let newsiz = (if psc_vbitmap_getsize vb \<noteq> 0 then 2 * psc_vbitmap_getsize vb
                            else 128);
              vb \<leftarrow> psc_vbitmap_resize vb newsiz;
              psc_vbitmap_next vb
            } else Some (vb, None))
     }"

subsection \<open>Abstraction and invariants\<close>

definition vb_bits :: "vbitmap \<Rightarrow> bool list" where
  "vb_bits vb = map (buf_bit (vb_buf vb)) [0..<psc_vbitmap_getsize vb]"

definition vb_wf :: "vbitmap \<Rightarrow> bool" where
  "vb_wf vb \<longleftrightarrow>
     (if vb_buf vb = [] then vb_end vb = 0 \<and> vb_lastsize vb = 0 \<and> vb_pos vb = 0
      else \<not> vb_isnull vb \<and> length (vb_buf vb) = Suc (vb_end vb) \<and>
           0 < vb_lastsize vb \<and> vb_lastsize vb \<le> 8 \<and> vb_pos vb \<le> vb_end vb)"

text \<open>The bits of the last byte that the bitmap does not represent are all zero.\<close>

definition vb_tailclear :: "vbitmap \<Rightarrow> bool" where
  "vb_tailclear vb \<longleftrightarrow>
     list_all (\<lambda>i. \<not> buf_bit (vb_buf vb) i)
       [psc_vbitmap_getsize vb ..< 8 * length (vb_buf vb)]"

definition fill_range :: "'a list \<Rightarrow> nat \<Rightarrow> nat \<Rightarrow> 'a \<Rightarrow> 'a list" where
  "fill_range xs pos sz v = take pos xs @ replicate sz v @ drop (pos + sz) xs"

definition range_has_tail :: "nat \<Rightarrow> nat \<Rightarrow> bool" where
  "range_has_tail pos sz \<longleftrightarrow> (pos + sz) mod 8 \<noteq> 0 \<and> (pos mod 8 = 0 \<or> 8 < pos mod 8 + sz)"

text \<open>A bitmap of sixteen bits, all set.\<close>

definition full16 :: vbitmap where
  "full16 = \<lparr>vb_isnull = False, vb_buf = [0xff, 0xff], vb_end = 1, vb_pos = 0, vb_lastsize = 8,
     vb_flags = 0\<rparr>"

named_theorems vb_defs "the abstraction and invariants of a bitmap"
declare vb_bits_def [vb_defs] psc_vbitmap_getsize_def [vb_defs]

lemma vb_tailclearD:
  "vb_tailclear vb \<Longrightarrow> psc_vbitmap_getsize vb \<le> i \<Longrightarrow> i < 8 * length (vb_buf vb) \<Longrightarrow>
     \<not> buf_bit (vb_buf vb) i"
  by (auto simp: vb_tailclear_def list_all_iff)

lemma vb_tailclearI:
  "(\<And>i. psc_vbitmap_getsize vb \<le> i \<Longrightarrow> i < 8 * length (vb_buf vb) \<Longrightarrow>
     \<not> buf_bit (vb_buf vb) i) \<Longrightarrow> vb_tailclear vb"
  by (auto simp: vb_tailclear_def list_all_iff)

lemma length_vb_bits [simp]: "length (vb_bits vb) = psc_vbitmap_getsize vb"
  by (simp add: vb_bits_def)

lemma nth_vb_bits [simp]:
  "i < psc_vbitmap_getsize vb \<Longrightarrow> vb_bits vb ! i = buf_bit (vb_buf vb) i"
  by (simp add: vb_bits_def)

lemma vb_wf_size_le: "vb_wf vb \<Longrightarrow> psc_vbitmap_getsize vb \<le> 8 * length (vb_buf vb)"
  by (auto simp: vb_wf_def psc_vbitmap_getsize_def split: if_splits)

lemma vb_wf_byte_less: "vb_wf vb \<Longrightarrow> i < psc_vbitmap_getsize vb \<Longrightarrow> i div 8 < length (vb_buf vb)"
  using vb_wf_size_le [of vb] by (intro byte_index_less) simp

lemma vb_wf_size_0 [simp]: "vb_wf vb \<Longrightarrow> psc_vbitmap_getsize vb = 0 \<longleftrightarrow> vb_buf vb = []"
  by (auto simp: vb_wf_def psc_vbitmap_getsize_def split: if_splits)

lemma vb_wf_nonempty:
  "vb_wf vb \<Longrightarrow> vb_buf vb \<noteq> [] \<Longrightarrow>
     \<not> vb_isnull vb \<and> length (vb_buf vb) = Suc (vb_end vb) \<and> 0 < vb_lastsize vb \<and>
     vb_lastsize vb \<le> 8 \<and> vb_pos vb \<le> vb_end vb"
  by (simp add: vb_wf_def)

lemma vb_wf_howmany: "vb_wf vb \<Longrightarrow> howmany (psc_vbitmap_getsize vb) 8 = length (vb_buf vb)"
  by (auto simp: vb_wf_def psc_vbitmap_getsize_def howmany_def split: if_splits)

lemma vb_wf_buf_update:
  "vb_wf vb \<Longrightarrow> length bs = length (vb_buf vb) \<Longrightarrow> vb_wf (vb\<lparr>vb_buf := bs\<rparr>)"
  by (cases "bs = []"; cases "vb_buf vb = []") (simp_all add: vb_wf_def)

lemma getsize_buf_update [simp]:
  "psc_vbitmap_getsize (vb\<lparr>vb_buf := bs\<rparr>) = psc_vbitmap_getsize vb"
  "psc_vbitmap_getsize (vb\<lparr>vb_pos := p\<rparr>) = psc_vbitmap_getsize vb"
  by (simp_all add: psc_vbitmap_getsize_def)

lemma vb_bits_pos_update [simp]: "vb_bits (vb\<lparr>vb_pos := p\<rparr>) = vb_bits vb"
  by (simp add: vb_bits_def)

lemma byte_bit_and_eq_0: "to_int b AND push_bit i 1 = 0 \<longleftrightarrow> \<not> bit b i"
  by (simp add: and_exp_eq_0_iff_not_bit c_bits)

lemma byte_bit_set: "bit (to_u8 (to_int b OR push_bit k 1)) i \<longleftrightarrow> i < 8 \<and> (bit b i \<or> i = k)"
  by (auto simp: c_bits simp del: push_bit_of_1)

lemma byte_bit_unset:
  "bit (to_u8 (to_int b AND NOT (push_bit k 1))) i \<longleftrightarrow> i < 8 \<and> bit b i \<and> i \<noteq> k"
  by (auto simp: c_bits simp del: push_bit_of_1)

subsection \<open>Construction and single bits\<close>

lemma buf_bit_replicate_0 [simp]: "i < 8 * n \<Longrightarrow> \<not> buf_bit (replicate n 0) i"
  using byte_index_less [of i n] by (simp add: buf_bit_def)

lemma howmany_0 [simp]: "howmany 0 8 = 0"
  by (simp add: howmany_def)

lemma howmany_pos: "n \<noteq> 0 \<Longrightarrow> 0 < howmany n 8"
  by (simp add: howmany_def)

lemma last_byte_split:
  assumes "n \<noteq> 0"
  shows "(howmany n 8 - 1) * 8 + (if n mod 8 = 0 then 8 else n mod 8) = n"
proof -
  define q r where "q = (n - 1) div 8" and "r = (n - 1) mod 8"
  have n: "n = 8 * q + r + 1" and r: "r < 8"
    using assms by (simp_all add: q_def r_def)
  have "(r + 8 * (q + 1)) div 8 = q + 1" using r by simp
  then have "howmany n 8 = q + 1"
    by (simp add: howmany_def n algebra_simps)
  moreover have "n mod 8 = (if r = 7 then 0 else r + 1)"
    using r by (auto simp: n mod_Suc)
  ultimately show ?thesis using n by simp
qed

lemma newf_size [simp]: "psc_vbitmap_getsize (psc_vbitmap_newf n fl) = n"
  using last_byte_split [of n] howmany_pos [of n]
  by (cases "n = 0") (simp_all add: psc_vbitmap_newf_def psc_vbitmap_getsize_def Let_def)

lemma newf_wf: "vb_wf (psc_vbitmap_newf n fl)"
  by (auto simp: psc_vbitmap_newf_def vb_wf_def Let_def howmany_def)

lemma newf_buf: "vb_buf (psc_vbitmap_newf n fl) = replicate (howmany n 8) 0"
  by (simp add: psc_vbitmap_newf_def Let_def)

lemma newf_tailclear: "vb_tailclear (psc_vbitmap_newf n fl)"
  by (rule vb_tailclearI) (simp add: newf_buf)

lemma newf_bits: "vb_bits (psc_vbitmap_newf n fl) = replicate n False"
  using vb_wf_size_le [OF newf_wf, of n fl]
  by (auto intro: nth_equalityI simp: newf_buf)

lemma buf_bit_set_bit:
  assumes "k div 8 < length bs"
  shows "buf_bit (bs[k div 8 := to_u8 (to_int (bs ! (k div 8)) OR push_bit (k mod 8) 1)]) i
           = (buf_bit bs i \<or> i = k)"
proof -
  have "i = k \<longleftrightarrow> i div 8 = k div 8 \<and> i mod 8 = k mod 8"
    by (metis div_mult_mod_eq)
  then show ?thesis
    using assms
    by (cases "i div 8 = k div 8")
       (auto simp: buf_bit_update byte_bit_set simp del: push_bit_of_1, simp_all add: buf_bit_def)
qed

lemma buf_bit_unset_bit:
  assumes "k div 8 < length bs"
  shows "buf_bit (bs[k div 8 := to_u8 (to_int (bs ! (k div 8)) AND NOT (push_bit (k mod 8) 1))]) i
           = (buf_bit bs i \<and> i \<noteq> k)"
proof -
  have "i = k \<longleftrightarrow> i div 8 = k div 8 \<and> i mod 8 = k mod 8"
    by (metis div_mult_mod_eq)
  then show ?thesis
    using assms
    by (cases "i div 8 = k div 8")
       (auto simp: buf_bit_update byte_bit_unset simp del: push_bit_of_1, simp_all add: buf_bit_def)
qed

lemma shifted_bit: "drop_bit k (to_int b) AND 1 = of_bool (bit b k)"
  by (rule bit_word_eqI) (auto simp: c_bits bit_of_bool_iff)

lemma setval_eq:
  assumes "vb_wf vb" "pos < psc_vbitmap_getsize vb"
  obtains bs where "psc_vbitmap_setval vb pos v =
      Some (vb\<lparr>vb_buf := bs\<rparr>, of_bool (vb_bits vb ! pos))"
    and "length bs = length (vb_buf vb)"
    and "\<And>i. buf_bit bs i = (if i = pos then v else buf_bit (vb_buf vb) i)"
proof -
  let ?b = "vb_buf vb ! (pos div 8)"
  let ?bs = "(vb_buf vb)[pos div 8 := (if v then to_u8 (to_int ?b OR push_bit (pos mod 8) 1)
               else to_u8 (to_int ?b AND NOT (push_bit (pos mod 8) 1)))]"
  have in_buf: "pos div 8 < length (vb_buf vb)"
    using assms by (rule vb_wf_byte_less)
  show thesis
  proof (rule that [of ?bs])
    show "psc_vbitmap_setval vb pos v = Some (vb\<lparr>vb_buf := ?bs\<rparr>, of_bool (vb_bits vb ! pos))"
      using assms(2) in_buf
      by (simp add: psc_vbitmap_setval_def mem_simps Let_def shifted_bit buf_bit_def)
  qed (use in_buf buf_bit_set_bit [OF in_buf] buf_bit_unset_bit [OF in_buf] in auto)
qed

lemma setval_spec:
  assumes "vb_wf vb" "pos < psc_vbitmap_getsize vb"
  shows "\<exists>vb'. psc_vbitmap_setval vb pos v = Some (vb', of_bool (vb_bits vb ! pos)) \<and>
           vb_bits vb' = (vb_bits vb)[pos := v] \<and> vb_wf vb' \<and>
           vb_tailclear vb' = vb_tailclear vb \<and> vb_flags vb' = vb_flags vb \<and>
           vb_pos vb' = vb_pos vb"
proof -
  obtain bs where eq: "psc_vbitmap_setval vb pos v =
      Some (vb\<lparr>vb_buf := bs\<rparr>, of_bool (vb_bits vb ! pos))"
    and len: "length bs = length (vb_buf vb)"
    and bits: "\<And>i. buf_bit bs i = (if i = pos then v else buf_bit (vb_buf vb) i)"
    using setval_eq [OF assms] by metis
  have "vb_bits (vb\<lparr>vb_buf := bs\<rparr>) = (vb_bits vb)[pos := v]"
    by (rule nth_equalityI) (auto simp: bits nth_list_update)
  moreover have "vb_tailclear (vb\<lparr>vb_buf := bs\<rparr>) = vb_tailclear vb"
    using assms(2) by (auto simp: vb_tailclear_def list_all_iff len bits)
  ultimately show ?thesis
    using eq vb_wf_buf_update [OF assms(1) len] by auto
qed

lemma get_spec:
  assumes "vb_wf vb" "pos < psc_vbitmap_getsize vb"
  shows "psc_vbitmap_get vb pos = Some (of_bool (vb_bits vb ! pos))"
proof -
  have "drop_bit (pos mod 8) (to_int b AND push_bit (pos mod 8) 1) = of_bool (bit b (pos mod 8))"
    for b
    by (rule bit_word_eqI) (auto simp: c_bits bit_of_bool_iff simp del: push_bit_of_1)
  then show ?thesis
    using assms vb_wf_byte_less [OF assms]
    by (simp add: psc_vbitmap_get_def mem_simps Let_def buf_bit_def)
qed

subsection \<open>Ranges\<close>

lemma fill_spec:
  assumes "8 * p + sz \<le> 8 * length bs"
  obtains bs' where "vb_fill v bs p sz = Some (bs', p + sz div 8, sz mod 8)"
    and "length bs' = length bs"
    and "\<And>q. bs' ! q = (if p \<le> q \<and> q < p + sz div 8 then v else bs ! q)"
proof -
  have "\<exists>bs'. vb_fill v bs p sz = Some (bs', p + sz div 8, sz mod 8) \<and> length bs' = length bs \<and>
          (\<forall>q. bs' ! q = (if p \<le> q \<and> q < p + sz div 8 then v else bs ! q))"
    using assms
  proof (induction v bs p sz rule: vb_fill.induct)
    case (1 v bs p sz)
    show ?case
    proof (cases "8 \<le> sz")
      case True
      have p: "p < length bs" using "1.prems" True by simp
      have wr: "wr bs p v = Some (bs[p := v])" using p by (rule wr_Some)
      have split: "sz div 8 = Suc ((sz - 8) div 8)" "sz mod 8 = (sz - 8) mod 8"
        using True by (simp_all add: le_div_geq le_mod_geq)
      have "8 * (p + 1) + (sz - 8) \<le> 8 * length (bs[p := v])"
        using "1.prems" True by simp
      from "1.IH" [OF True wr this] obtain bs' where
        eq: "vb_fill v (bs[p := v]) (p + 1) (sz - 8) = Some (bs', p + 1 + (sz - 8) div 8, (sz - 8) mod 8)"
        and len: "length bs' = length bs"
        and nth: "\<forall>q. bs' ! q = (if p + 1 \<le> q \<and> q < p + 1 + (sz - 8) div 8 then v else bs[p := v] ! q)"
        by auto
      have "vb_fill v bs p sz = Some (bs', p + sz div 8, sz mod 8)"
        using eq True wr by (simp add: vb_fill.simps [of v bs p sz] split)
      moreover have "bs' ! q = (if p \<le> q \<and> q < p + sz div 8 then v else bs ! q)" for q
        using p by (auto simp: nth split nth_list_update)
      ultimately show ?thesis using len by blast
    next
      case False
      then show ?thesis by (auto simp: vb_fill.simps)
    qed
  qed
  then show thesis using that by blast
qed

lemma range_first_byte:
  fixes sz :: nat
  assumes "s < 8" "0 < s" "k < length bs"
  defines "len \<equiv> min sz (8 - s)"
  obtains v where "vb_range_first bs (8 * k + s) sz val = Some (bs[k := v], k + 1, sz - len)"
    and "\<And>j. j < 8 \<Longrightarrow> bit v j = (if s \<le> j \<and> j < s + len then val else bit (bs ! k) j)"
proof -
  let ?v = "if val then to_u8 (to_int (bs ! k) OR push_bit s (NOT (push_bit len 0xff)))
     else to_u8 (to_int (bs ! k) AND (push_bit (len + s) 0xff OR drop_bit (8 - s) 0xff))"
  have len: "len + s \<le> 8" using assms(1) by (simp add: len_def)
  have "bit ?v j = (if s \<le> j \<and> j < s + len then val else bit (bs ! k) j)" if "j < 8" for j
    using that len assms(2) by (auto simp: c_bits)
  moreover have "vb_range_first bs (8 * k + s) sz val = Some (bs[k := ?v], k + 1, sz - len)"
    using assms(1-3) by (simp add: vb_range_first_def Let_def mem_simps len_def)
  ultimately show thesis using that by blast
qed

lemma range_last_set:
  assumes "r < 8" "r \<noteq> 0 \<Longrightarrow> p < length bs"
  obtains v where "vb_range_last bs p r True = Some (bs[p := v])"
    and "\<And>j. j < 8 \<Longrightarrow> bit v j = (j < r \<or> bit (bs ! p) j)"
proof -
  let ?v = "if r = 0 then bs ! p else to_u8 (to_int (bs ! p) OR drop_bit (8 - r) 0xff)"
  have "vb_range_last bs p r True = Some (bs[p := ?v])"
    using assms by (auto simp: vb_range_last_def mem_simps)
  moreover have "bit ?v j = (j < r \<or> bit (bs ! p) j)" if "j < 8" for j
    using that assms(1) by (auto simp: c_bits)
  ultimately show thesis using that by blast
qed

lemma range_last_clear:
  assumes "r < 8" "r \<noteq> 0 \<Longrightarrow> p < length bs"
  obtains v where "vb_range_last bs p r False = Some (bs[p := v])"
    and "\<And>j. j < 8 \<Longrightarrow> bit v j = (bit (bs ! p) j \<and> (r = 0 \<or> j < r))"
proof -
  let ?v = "if r = 0 then bs ! p else to_u8 (to_int (bs ! p) AND drop_bit (8 - r) 0xff)"
  have "vb_range_last bs p r False = Some (bs[p := ?v])"
    using assms by (auto simp: vb_range_last_def mem_simps)
  moreover have "bit ?v j = (bit (bs ! p) j \<and> (r = 0 \<or> j < r))" if "j < 8" for j
    using that assms(1) by (auto simp: c_bits)
  ultimately show thesis using that by blast
qed

lemma fill_last_clear:
  assumes "8 * p + sz \<le> 8 * length bs"
  shows "\<exists>bs'. do { (bs, p, sz) \<leftarrow> vb_fill 0 bs p sz; vb_range_last bs p sz False } = Some bs' \<and>
           length bs' = length bs \<and>
           (\<forall>k j. j < 8 \<longrightarrow> bit (bs' ! k) j =
              (bit (bs ! k) j \<and> \<not> (p \<le> k \<and> k < p + sz div 8) \<and>
               (k = p + sz div 8 \<and> sz mod 8 \<noteq> 0 \<longrightarrow> j < sz mod 8)))"
proof -
  obtain q r where sz: "sz = 8 * q + r" and r: "r < 8" by (rule byte_pos_cases)
  obtain bs1 where fill: "vb_fill 0 bs p sz = Some (bs1, p + q, r)"
    and len: "length bs1 = length bs"
    and nth: "\<And>k. bs1 ! k = (if p \<le> k \<and> k < p + q then 0 else bs ! k)"
    using fill_spec [OF assms, of 0] r by (auto simp: sz)
  have in1: "p + q < length bs1" if "r \<noteq> 0"
    using assms that by (simp add: len sz)
  obtain v where last: "vb_range_last bs1 (p + q) r False = Some (bs1[p + q := v])"
    and v: "\<And>j. j < 8 \<Longrightarrow> bit v j = (bit (bs1 ! (p + q)) j \<and> (r = 0 \<or> j < r))"
    using range_last_clear [OF r in1] by blast
  have "bit (bs1[p + q := v] ! k) j = (bit (bs ! k) j \<and> \<not> (p \<le> k \<and> k < p + q) \<and>
      (k = p + q \<and> r \<noteq> 0 \<longrightarrow> j < r))" if j: "j < 8" for k j
    using in1 v [OF j] by (cases "k = p + q"; cases "p + q < length bs1") (auto simp: nth list_update_beyond)
  then show ?thesis using fill last len r by (auto simp: sz)
qed

lemma fill_last_set:
  assumes "8 * p + sz \<le> 8 * length bs"
  shows "\<exists>bs'. do { (bs, p, sz) \<leftarrow> vb_fill 0xff bs p sz; vb_range_last bs p sz True } = Some bs' \<and>
           length bs' = length bs \<and>
           (\<forall>i. buf_bit bs' i = (buf_bit bs i \<or> (8 * p \<le> i \<and> i < 8 * p + sz)))"
proof -
  obtain q r where sz: "sz = 8 * q + r" and r: "r < 8" by (rule byte_pos_cases)
  obtain bs1 where fill: "vb_fill 0xff bs p sz = Some (bs1, p + q, r)"
    and len: "length bs1 = length bs"
    and nth: "\<And>k. bs1 ! k = (if p \<le> k \<and> k < p + q then 0xff else bs ! k)"
    using fill_spec [OF assms, of "0xff"] r by (auto simp: sz)
  have in1: "p + q < length bs1" if "r \<noteq> 0"
    using assms that by (simp add: len sz)
  obtain v where last: "vb_range_last bs1 (p + q) r True = Some (bs1[p + q := v])"
    and v: "\<And>j. j < 8 \<Longrightarrow> bit v j = (j < r \<or> bit (bs1 ! (p + q)) j)"
    using range_last_set [OF r in1] by blast
  have "buf_bit (bs1[p + q := v]) i = (buf_bit bs i \<or> (8 * p \<le> i \<and> i < 8 * p + sz))" for i
  proof -
    obtain k j where i: "i = 8 * k + j" and j: "j < 8" by (rule byte_pos_cases)
    have "8 * p \<le> i \<and> i < 8 * p + sz \<longleftrightarrow> p \<le> k \<and> k < p + q \<or> k = p + q \<and> j < r"
      using byte_range_iff [OF j r, of p k q] by (simp add: i sz)
    moreover have "bit (bs1[p + q := v] ! k) j =
        (bit (bs ! k) j \<or> (p \<le> k \<and> k < p + q \<or> k = p + q \<and> j < r))"
      using j in1 v [OF j] by (cases "k = p + q"; cases "p + q < length bs1") (auto simp: nth c_bits list_update_beyond)
    ultimately show ?thesis using j by (simp add: i)
  qed
  then show ?thesis using fill last len by auto
qed

text \<open>Overwriting \<open>sz\<close> elements from \<open>pos\<close> on with the same value.\<close>

lemma fill_range_eqI:
  assumes "pos + sz \<le> length xs" "length ys = length xs"
    and "\<And>i. i < length xs \<Longrightarrow> ys ! i = (if pos \<le> i \<and> i < pos + sz then v else xs ! i)"
  shows "ys = fill_range xs pos sz v"
  using assms by (intro nth_equalityI) (auto simp: fill_range_def nth_append)

lemma setval_range_eq:
  assumes "pos + sz \<le> psc_vbitmap_getsize vb" "psc_vbitmap_getsize vb < 2 ^ 64"
  shows "psc_vbitmap_setval_range vb pos sz val =
    do {
      (bs, p, sz) \<leftarrow> vb_range_first (vb_buf vb) pos sz val;
      bs \<leftarrow> do { (bs, p, sz) \<leftarrow> vb_fill (if val then 0xff else 0) bs p sz; vb_range_last bs p sz val };
      Some (vb\<lparr>vb_buf := bs\<rparr>, 0)
    }"
  using assms by (simp add: psc_vbitmap_setval_range_def size_add_def split_def)

lemma range_first_aligned [simp]: "vb_range_first bs (8 * k) sz val = Some (bs, k, sz)"
  by (simp add: vb_range_first_def)

lemma setrange_buf:
  assumes "pos + sz \<le> 8 * length bs"
  shows "\<exists>bs'. do { (bs, p, sz) \<leftarrow> vb_range_first bs pos sz True;
                    (bs, p, sz) \<leftarrow> vb_fill 0xff bs p sz; vb_range_last bs p sz True } = Some bs' \<and>
           length bs' = length bs \<and>
           (\<forall>i. buf_bit bs' i = (buf_bit bs i \<or> (pos \<le> i \<and> i < pos + sz)))"
proof -
  obtain k s where pos: "pos = 8 * k + s" and s: "s < 8" by (rule byte_pos_cases)
  show ?thesis
  proof (cases "s = 0")
    case True
    then show ?thesis using fill_last_set [of k sz bs] assms by (simp add: pos)
  next
    case False
    define len where "len = min sz (8 - s)"
    have len: "s + len \<le> 8" using s by (simp add: len_def)
    have k: "k < length bs" using assms False by (simp add: pos)
    obtain v where first: "vb_range_first bs pos sz True = Some (bs[k := v], k + 1, sz - len)"
      and v: "\<And>j. j < 8 \<Longrightarrow> bit v j = (if s \<le> j \<and> j < s + len then True else bit (bs ! k) j)"
      using range_first_byte [OF s _ k, of sz True] False by (auto simp: len_def pos)
    have room: "8 * (k + 1) + (sz - len) \<le> 8 * length (bs[k := v])"
      using assms k by (auto simp: len_def pos)
    have head: "buf_bit (bs[k := v]) i = (buf_bit bs i \<or> (pos \<le> i \<and> i < pos + len))" for i
    proof -
      obtain k' j where i: "i = 8 * k' + j" and j: "j < 8" by (rule byte_pos_cases)
      have "pos \<le> i \<and> i < pos + len \<longleftrightarrow> k' = k \<and> s \<le> j \<and> j < s + len"
        using byte_subrange_iff [OF j len, of k k'] by (simp add: i pos)
      then show ?thesis using j k v [OF j] by (auto simp: i nth_list_update)
    qed
    have "pos \<le> i \<and> i < pos + sz \<longleftrightarrow> pos \<le> i \<and> i < pos + len \<or>
        8 * (k + 1) \<le> i \<and> i < 8 * (k + 1) + (sz - len)" for i
      using s by (cases "sz \<le> 8 - s") (auto simp: pos len_def)
    then show ?thesis
      using fill_last_set [OF room] first by (auto simp: head)
  qed
qed

text \<open>
  Setting a range: for every range inside a well-formed bitmap the call succeeds, keeps the
  bitmap well-formed, and the bits afterwards are the old ones with exactly that range set.
\<close>

theorem setrange_spec:
  assumes "vb_wf vb" "pos + sz \<le> psc_vbitmap_getsize vb" "psc_vbitmap_getsize vb < 2 ^ 64"
  shows "\<exists>vb'. psc_vbitmap_setval_range vb pos sz True = Some (vb', 0) \<and> vb_wf vb' \<and>
           vb_tailclear vb' = vb_tailclear vb \<and>
           vb_bits vb' = fill_range (vb_bits vb) pos sz True"
proof -
  obtain bs' where eq: "do { (bs, p, sz) \<leftarrow> vb_range_first (vb_buf vb) pos sz True;
        (bs, p, sz) \<leftarrow> vb_fill 0xff bs p sz; vb_range_last bs p sz True } = Some bs'"
    and len: "length bs' = length (vb_buf vb)"
    and bits: "\<And>i. buf_bit bs' i = (buf_bit (vb_buf vb) i \<or> (pos \<le> i \<and> i < pos + sz))"
    using setrange_buf [of pos sz "vb_buf vb"] vb_wf_size_le [OF assms(1)] assms(2) by auto
  have "psc_vbitmap_setval_range vb pos sz True = Some (vb\<lparr>vb_buf := bs'\<rparr>, 0)"
    using eq by (auto simp: setval_range_eq [OF assms(2,3)] bind_eq_Some_conv split: prod.splits)
  moreover have "vb_bits (vb\<lparr>vb_buf := bs'\<rparr>) = fill_range (vb_bits vb) pos sz True"
    by (rule fill_range_eqI) (use assms(2) in \<open>auto simp: bits\<close>)
  moreover have "vb_tailclear (vb\<lparr>vb_buf := bs'\<rparr>) = vb_tailclear vb"
    using assms(2) by (auto simp: vb_tailclear_def list_all_iff len bits)
  ultimately show ?thesis using vb_wf_buf_update [OF assms(1) len] by blast
qed

text \<open>
  Whether clearing \<open>sz\<close> bits from \<open>pos\<close> on reaches the third step of the routine, which
  treats a partial last byte.
\<close>

lemma clear_from_byte:
  assumes "8 * p + sz \<le> 8 * length bs"
  shows "\<exists>bs'. do { (bs, p, sz) \<leftarrow> vb_fill 0 bs p sz; vb_range_last bs p sz False } = Some bs' \<and>
           length bs' = length bs \<and>
           (\<forall>i. buf_bit bs' i = (buf_bit bs i \<and>
              (if sz mod 8 = 0 then \<not> (8 * p \<le> i \<and> i < 8 * p + sz)
               else \<not> (8 * p \<le> i \<and> i < 8 * (p + sz div 8)) \<and>
                    (i div 8 = p + sz div 8 \<longrightarrow> i mod 8 < sz mod 8))))"
proof -
  obtain q r where sz: "sz = 8 * q + r" and r: "r < 8" by (rule byte_pos_cases)
  obtain bs' where eq: "do { (bs, p, sz) \<leftarrow> vb_fill 0 bs p sz; vb_range_last bs p sz False } = Some bs'"
    and len: "length bs' = length bs"
    and bits: "\<And>k j. j < 8 \<Longrightarrow> bit (bs' ! k) j =
       (bit (bs ! k) j \<and> \<not> (p \<le> k \<and> k < p + q) \<and> (k = p + q \<and> r \<noteq> 0 \<longrightarrow> j < r))"
    using fill_last_clear [OF assms] r by (auto simp: sz)
  have "buf_bit bs' i = (buf_bit bs i \<and>
              (if r = 0 then \<not> (8 * p \<le> i \<and> i < 8 * p + 8 * q)
               else \<not> (8 * p \<le> i \<and> i < 8 * (p + q)) \<and> (i div 8 = p + q \<longrightarrow> i mod 8 < r)))" for i
  proof -
    obtain k j where i: "i = 8 * k + j" and j: "j < 8" by (rule byte_pos_cases)
    have rng: "8 * p \<le> i \<and> i < 8 * p + 8 * q \<longleftrightarrow> p \<le> k \<and> k < p + q"
      using byte_range_iff [OF j, of 0 p k q] by (simp add: i)
    have at: "buf_bit bs' i = bit (bs' ! k) j" "buf_bit bs i = bit (bs ! k) j" "i div 8 = k" "i mod 8 = j"
      using j by (simp_all add: i)
    show ?thesis
      unfolding at bits [OF j] distrib_left rng by auto
  qed
  then show ?thesis using eq len r by (auto simp: sz)
qed

lemma unsetrange_buf:
  assumes "pos + sz \<le> 8 * length bs"
  shows "\<exists>bs'. do { (bs, p, sz) \<leftarrow> vb_range_first bs pos sz False;
                    (bs, p, sz) \<leftarrow> vb_fill 0 bs p sz; vb_range_last bs p sz False } = Some bs' \<and>
           length bs' = length bs \<and>
           (\<forall>i. buf_bit bs' i = (buf_bit bs i \<and>
              (if range_has_tail pos sz
               then \<not> (pos \<le> i \<and> i < 8 * ((pos + sz) div 8)) \<and>
                    (i div 8 = (pos + sz) div 8 \<longrightarrow> i mod 8 < (pos + sz) mod 8)
               else \<not> (pos \<le> i \<and> i < pos + sz))))"
proof -
  obtain k s where pos: "pos = 8 * k + s" and s: "s < 8" by (rule byte_pos_cases)
  show ?thesis
  proof (cases "s = 0")
    case True
    then show ?thesis
      using clear_from_byte [of k sz bs] assms
      by (cases "sz mod 8 = 0") (simp_all add: pos range_has_tail_def)
  next
    case False
    define len where "len = min sz (8 - s)"
    have len: "s + len \<le> 8" using s by (simp add: len_def)
    have k: "k < length bs" using assms False by (simp add: pos)
    obtain v where first: "vb_range_first bs pos sz False = Some (bs[k := v], k + 1, sz - len)"
      and v: "\<And>j. j < 8 \<Longrightarrow> bit v j = (if s \<le> j \<and> j < s + len then False else bit (bs ! k) j)"
      using range_first_byte [OF s _ k, of sz False] False by (auto simp: len_def pos)
    have head: "buf_bit (bs[k := v]) i = (buf_bit bs i \<and> \<not> (pos \<le> i \<and> i < pos + len))" for i
    proof -
      obtain k' j where i: "i = 8 * k' + j" and j: "j < 8" by (rule byte_pos_cases)
      have "pos \<le> i \<and> i < pos + len \<longleftrightarrow> k' = k \<and> s \<le> j \<and> j < s + len"
        using byte_subrange_iff [OF j len, of k k'] by (simp add: i pos)
      then show ?thesis using j k v [OF j] by (auto simp: i nth_list_update)
    qed
    show ?thesis
    proof (cases "8 - s < sz")
      case False
      then have "len = sz" by (simp add: len_def)
      moreover have "s + sz \<le> 8" using False s by simp
      then have "\<not> range_has_tail pos sz"
        using s \<open>s \<noteq> 0\<close> by (simp add: range_has_tail_def pos)
      ultimately show ?thesis
        using first head k by (simp add: vb_fill.simps vb_range_last_def)
    next
      case True
      define n where "n = sz - (8 - s)"
      have sz: "sz = (8 - s) + n" and rest: "sz - len = n" and lenv: "len = 8 - s"
        using True by (simp_all add: len_def n_def)
      have e: "pos + sz = 8 * (k + 1) + n" using s by (simp add: pos sz)
      have room: "8 * (k + 1) + n \<le> 8 * length (bs[k := v])"
        using assms by (simp only: e length_list_update)
      have dm: "(pos + sz) div 8 = k + 1 + n div 8" "(pos + sz) mod 8 = n mod 8"
        unfolding e by (simp_all only: mod_mult_self4 div_mult_self4)
      have "8 < s + sz" using True s by simp
      then have tail: "range_has_tail pos sz \<longleftrightarrow> n mod 8 \<noteq> 0"
        using s by (simp add: range_has_tail_def dm) (simp add: pos)
      have plen: "pos + len = 8 * (k + 1)" using s by (simp add: pos lenv)
      obtain bs' where "do { (bs, p, sz) \<leftarrow> vb_fill 0 (bs[k := v]) (k + 1) n;
            vb_range_last bs p sz False } = Some bs'"
        and "length bs' = length bs"
        and bits: "\<And>i. buf_bit bs' i = (buf_bit (bs[k := v]) i \<and>
              (if n mod 8 = 0 then \<not> (8 * (k + 1) \<le> i \<and> i < 8 * (k + 1) + n)
               else \<not> (8 * (k + 1) \<le> i \<and> i < 8 * (k + 1 + n div 8)) \<and>
                    (i div 8 = k + 1 + n div 8 \<longrightarrow> i mod 8 < n mod 8)))"
        using clear_from_byte [OF room] by auto
      moreover have "buf_bit bs' i = (buf_bit bs i \<and>
              (if range_has_tail pos sz
               then \<not> (pos \<le> i \<and> i < 8 * ((pos + sz) div 8)) \<and>
                    (i div 8 = (pos + sz) div 8 \<longrightarrow> i mod 8 < (pos + sz) mod 8)
               else \<not> (pos \<le> i \<and> i < pos + sz)))" for i
      proof (cases "n mod 8 = 0")
        case True
        then show ?thesis using plen unfolding bits head tail e by auto
      next
        case False
        have "8 * (k + 1 + n div 8) = 8 * (k + 1) + 8 * (n div 8)" by simp
        with False plen show ?thesis unfolding bits head tail dm by auto
      qed
      ultimately show ?thesis using first by (auto simp: rest)
    qed
  qed
qed

theorem setrange_spec_witness:
  "\<exists>vb'. psc_vbitmap_setval_range (psc_vbitmap_newf 20 0) 5 12 True = Some (vb', 0) \<and>
     vb_bits vb' = replicate 5 False @ replicate 12 True @ replicate 3 False"
  using setrange_spec [OF newf_wf, of 5 12 20 0] by (auto simp: newf_bits fill_range_def)

text \<open>
  Clearing a range: the exact effect. When the range ends on a byte boundary, or lies inside
  its first, unaligned byte, exactly the range is cleared. Otherwise (\<open>range_has_tail\<close>) the mask
  used for the last byte is inverted: the bits of the range in that byte keep their value and
  the bits after the range in that byte are cleared instead.
\<close>

theorem unsetrange_spec:
  assumes "vb_wf vb" "pos + sz \<le> psc_vbitmap_getsize vb" "psc_vbitmap_getsize vb < 2 ^ 64"
  shows "\<exists>vb'. psc_vbitmap_setval_range vb pos sz False = Some (vb', 0) \<and> vb_wf vb' \<and>
           (\<forall>i < psc_vbitmap_getsize vb. vb_bits vb' ! i = (vb_bits vb ! i \<and>
              (if range_has_tail pos sz
               then \<not> (pos \<le> i \<and> i < 8 * ((pos + sz) div 8)) \<and>
                    (i div 8 = (pos + sz) div 8 \<longrightarrow> i mod 8 < (pos + sz) mod 8)
               else \<not> (pos \<le> i \<and> i < pos + sz))))"
proof -
  obtain bs' where eq: "do { (bs, p, sz) \<leftarrow> vb_range_first (vb_buf vb) pos sz False;
        (bs, p, sz) \<leftarrow> vb_fill 0 bs p sz; vb_range_last bs p sz False } = Some bs'"
    and len: "length bs' = length (vb_buf vb)"
    and bits: "\<And>i. buf_bit bs' i = (buf_bit (vb_buf vb) i \<and>
              (if range_has_tail pos sz
               then \<not> (pos \<le> i \<and> i < 8 * ((pos + sz) div 8)) \<and>
                    (i div 8 = (pos + sz) div 8 \<longrightarrow> i mod 8 < (pos + sz) mod 8)
               else \<not> (pos \<le> i \<and> i < pos + sz)))"
    using unsetrange_buf [of pos sz "vb_buf vb"] vb_wf_size_le [OF assms(1)] assms(2) by auto
  have "psc_vbitmap_setval_range vb pos sz False = Some (vb\<lparr>vb_buf := bs'\<rparr>, 0)"
    using eq by (auto simp: setval_range_eq [OF assms(2,3)] bind_eq_Some_conv split: prod.splits)
  moreover have "vb_bits (vb\<lparr>vb_buf := bs'\<rparr>) ! i = buf_bit bs' i"
    if "i < psc_vbitmap_getsize vb" for i
    using that by simp
  ultimately show ?thesis
    using vb_wf_buf_update [OF assms(1) len] by (intro exI [of _ "vb\<lparr>vb_buf := bs'\<rparr>"]) (simp add: bits)
qed

lemma full16_facts [simp]:
  "vb_wf full16" "psc_vbitmap_getsize full16 = 16" "vb_tailclear full16" "vb_buf full16 \<noteq> []"
  "vb_bits full16 = replicate 16 True"
proof -
  show [simp]: "psc_vbitmap_getsize full16 = 16" by (simp add: full16_def psc_vbitmap_getsize_def)
  show "vb_wf full16" "vb_tailclear full16" "vb_buf full16 \<noteq> []"
    by (simp_all add: full16_def vb_wf_def psc_vbitmap_getsize_def vb_tailclear_def)
  have "buf_bit [0xff, 0xff] i" if "i < 16" for i
  proof -
    have "i div 8 = 0 \<or> i div 8 = 1" "i mod 8 < 8" using that by auto
    then show ?thesis by (auto simp: buf_bit_def c_bits)
  qed
  then show "vb_bits full16 = replicate 16 True"
    by (intro nth_equalityI) (auto simp: full16_def psc_vbitmap_getsize_def vb_bits_def)
qed

theorem unsetrange_spec_witness:
  "\<exists>vb'. psc_vbitmap_setval_range full16 8 3 False = Some (vb', 0) \<and>
     vb_bits vb' ! 9 \<and> \<not> vb_bits vb' ! 12"
proof -
  have "range_has_tail 8 3" by (simp add: range_has_tail_def)
  then obtain vb' where "psc_vbitmap_setval_range full16 8 3 False = Some (vb', 0)"
    and bits: "\<forall>i < 16. vb_bits vb' ! i = (vb_bits full16 ! i \<and>
        \<not> (8 \<le> i \<and> i < 8 * ((8 + 3) div 8)) \<and> (i div 8 = (8 + 3) div 8 \<longrightarrow> i mod 8 < (8 + 3) mod 8))"
    using unsetrange_spec [of full16 8 3] by (auto simp del: nth_vb_bits)
  then show ?thesis
    using bits [rule_format, of 9] bits [rule_format, of 12] by auto
qed

subsection \<open>Whole-bitmap operations\<close>

lemma each_byte_eq:
  assumes "length bs = Suc (vb_end vb)" "vb_lastsize vb \<noteq> 0" "p \<le> length bs"
  shows "vb_each_byte f vb p bs = Some (take p bs @ map f (drop p bs))"
  using assms
proof (induction f vb p bs rule: vb_each_byte.induct)
  case (1 f vb p bs)
  show ?case
  proof (cases "p < length bs")
    case True
    then have p: "p < vb_end vb \<or> p = vb_end vb \<and> vb_lastsize vb \<noteq> 0"
      using "1.prems" by auto
    have "vb_each_byte f vb (p + 1) (bs[p := f (bs ! p)]) =
        Some (take (p + 1) (bs[p := f (bs ! p)]) @ map f (drop (p + 1) (bs[p := f (bs ! p)])))"
      using p True "1.prems" by (intro "1.IH") (auto simp: mem_simps)
    then show ?thesis
      using True p by (subst vb_each_byte.simps)
        (simp add: mem_simps take_Suc_conv_app_nth Cons_nth_drop_Suc [symmetric])
  next
    case False
    then show ?thesis using "1.prems" by (simp add: vb_each_byte.simps)
  qed
qed

lemma each_byte_map:
  assumes "vb_wf vb"
  shows "vb_each_byte f vb 0 (vb_buf vb) = Some (map f (vb_buf vb))"
proof (cases "vb_buf vb = []")
  case True
  then show ?thesis using assms by (simp add: vb_each_byte.simps vb_wf_def)
next
  case False
  then show ?thesis using each_byte_eq [of "vb_buf vb" vb 0 f] vb_wf_nonempty [OF assms] by simp
qed

lemma bits_of_mapped_buf:
  assumes "vb_wf vb" and f: "\<And>b i. i < 8 \<Longrightarrow> bit (f b) i = g (bit b i)"
  shows "vb_bits (vb\<lparr>vb_buf := map f (vb_buf vb)\<rparr>) = map g (vb_bits vb)"
  by (rule nth_equalityI) (use vb_wf_byte_less [OF assms(1)] in \<open>auto simp: buf_bit_def f\<close>)

lemma invert_spec:
  assumes "vb_wf vb"
  obtains vb' where "psc_vbitmap_invert vb = Some vb'" "vb_wf vb'"
    "vb_bits vb' = map Not (vb_bits vb)"
proof (rule that)
  show "psc_vbitmap_invert vb = Some (vb\<lparr>vb_buf := map (\<lambda>b. to_u8 (NOT (to_int b))) (vb_buf vb)\<rparr>)"
    by (simp add: psc_vbitmap_invert_def each_byte_map [OF assms])
qed (auto intro: vb_wf_buf_update [OF assms] bits_of_mapped_buf [OF assms] simp: c_bits)

lemma setall_spec:
  assumes "vb_wf vb"
  obtains vb' where "psc_vbitmap_setall vb = Some vb'" "vb_wf vb'"
    "vb_bits vb' = replicate (psc_vbitmap_getsize vb) True"
proof (rule that)
  show "psc_vbitmap_setall vb = Some (vb\<lparr>vb_buf := map (\<lambda>_. 0xff) (vb_buf vb)\<rparr>)"
    by (simp add: psc_vbitmap_setall_def each_byte_map [OF assms])
  show "vb_bits (vb\<lparr>vb_buf := map (\<lambda>_. 0xff) (vb_buf vb)\<rparr>) =
      replicate (psc_vbitmap_getsize vb) True"
    using bits_of_mapped_buf [OF assms, of "\<lambda>_. 0xff" "\<lambda>_. True"]
    by (simp add: c_bits map_replicate_const)
qed (auto intro: vb_wf_buf_update [OF assms])

lemma clearall_spec:
  assumes "vb_wf vb"
  obtains vb' where "psc_vbitmap_clearall vb = Some vb'" "vb_wf vb'" "vb_tailclear vb'"
    "vb_bits vb' = replicate (psc_vbitmap_getsize vb) False"
proof (rule that)
  show "psc_vbitmap_clearall vb = Some (vb\<lparr>vb_buf := map (\<lambda>_. 0) (vb_buf vb)\<rparr>)"
    by (simp add: psc_vbitmap_clearall_def each_byte_map [OF assms])
  show "vb_bits (vb\<lparr>vb_buf := map (\<lambda>_. 0) (vb_buf vb)\<rparr>) =
      replicate (psc_vbitmap_getsize vb) False"
    using bits_of_mapped_buf [OF assms, of "\<lambda>_. 0" "\<lambda>_. False"]
    by (simp add: map_replicate_const)
  show "vb_tailclear (vb\<lparr>vb_buf := map (\<lambda>_. 0) (vb_buf vb)\<rparr>)"
    by (rule vb_tailclearI) (simp add: map_replicate_const)
qed (auto intro: vb_wf_buf_update [OF assms])

end
