(* ===== verification/VBitmap_Alloc.thy ===== *)
theory VBitmap_Alloc
  imports VBitmap
begin

text \<open>
  The slot allocator of \<^verbatim>\<open>src/pfl/vbitmap.c\<close>: \<^verbatim>\<open>psc_vbitmap_resize\<close> and
  \<^verbatim>\<open>psc_vbitmap_next\<close>. The scan over bytes that wraps around at the end is shown to return
  the first free bit in cyclic order from the cursor.
\<close>

subsection \<open>Specification\<close>

definition find_free :: "bool list \<Rightarrow> nat \<Rightarrow> nat option" where
  "find_free xs c = List.find (\<lambda>i. \<not> xs ! i) ([c..<length xs] @ [0..<c])"

definition vb_width :: "vbitmap \<Rightarrow> nat \<Rightarrow> nat" where
  "vb_width vb p = (if p = vb_end vb then vb_lastsize vb else 8)"

definition vb_block :: "vbitmap \<Rightarrow> nat \<Rightarrow> nat list" where
  "vb_block vb p = [8 * p..<8 * p + vb_width vb p]"

definition vb_hit :: "vbitmap \<Rightarrow> nat \<Rightarrow> bool" where
  "vb_hit vb p \<longleftrightarrow> (\<exists>i < vb_width vb p. \<not> bit (vb_buf vb ! p) i)"

definition scan_order :: "nat \<Rightarrow> nat \<Rightarrow> nat \<Rightarrow> nat list" where
  "scan_order lst start pos =
     (if start \<le> pos then [pos..<Suc lst] @ [0..<start] else [pos..<start])"

subsection \<open>Searching lists\<close>

lemma find_append:
  "List.find P (xs @ ys) = (case List.find P xs of None \<Rightarrow> List.find P ys | Some x \<Rightarrow> Some x)"
  by (induction xs) auto

lemma find_concat_map:
  "List.find P (concat (map f ps)) =
     (case List.find (\<lambda>p. \<exists>x \<in> set (f p). P x) ps of None \<Rightarrow> None | Some p \<Rightarrow> List.find P (f p))"
proof (induction ps)
  case (Cons p ps)
  show ?case
  proof (cases "\<exists>x \<in> set (f p). P x")
    case True
    then obtain y where "List.find P (f p) = Some y"
      by (metis find_None_iff not_None_eq)
    then show ?thesis using True by (simp add: find_append)
  next
    case False
    then have "List.find P (f p) = None" by (simp add: find_None_iff)
    then show ?thesis using False Cons.IH by (simp add: find_append)
  qed
qed simp

lemma find_SomeD: "List.find P xs = Some x \<Longrightarrow> x \<in> set xs \<and> P x"
  by (auto simp: find_Some_iff)

lemma find_cong_set: "(\<And>x. x \<in> set xs \<Longrightarrow> P x = Q x) \<Longrightarrow> List.find P xs = List.find Q xs"
  by (induction xs) auto

lemma upt_split: "a \<le> n \<Longrightarrow> n \<le> b \<Longrightarrow> [a..<b] = [a..<n] @ [n..<b]"
  using upt_add_eq_append [of a n "b - n"] by simp

lemma find_first_upt:
  assumes "a \<le> n" "n < b" "P n" "\<And>i. a \<le> i \<Longrightarrow> i < n \<Longrightarrow> \<not> P i"
  shows "List.find P [a..<b] = Some n"
proof -
  have "[a..<b] = [a..<n] @ n # [Suc n..<b]"
    using assms(1,2) upt_split [of a n b] by (simp add: upt_conv_Cons)
  moreover have "List.find P [a..<n] = None"
    using assms(4) by (auto simp: find_None_iff)
  ultimately show ?thesis using assms(3) by (simp add: find_append)
qed

lemma find_upt_Some:
  "List.find P [a..<b] = Some n \<longleftrightarrow> a \<le> n \<and> n < b \<and> P n \<and> (\<forall>i. a \<le> i \<longrightarrow> i < n \<longrightarrow> \<not> P i)"
  (is "?l \<longleftrightarrow> ?r")
proof
  assume ?l
  then obtain k where "k < b - a" "P (a + k)" "n = a + k" "\<forall>j < k. \<not> P (a + j)"
    by (auto simp: find_Some_iff)
  moreover have "\<not> P i" if "a \<le> i" "i < n" for i
    using calculation that by (metis add_diff_inverse_nat leD nat_add_left_cancel_less)
  ultimately show ?r by auto
qed (auto intro: find_first_upt)

lemma byte_blocks: "concat (map (\<lambda>p. [8 * p..<8 * p + 8]) [a..<b]) = [8 * a..<8 * max a b]"
proof (induction b)
  case (Suc b)
  then show ?case
    using upt_split [of "8 * a" "8 * b" "8 * b + 8"] by (cases "a \<le> b") (simp_all add: add.commute)
qed simp

subsection \<open>The scan\<close>

lemma fullmask_eq:
  assumes "0 < n" "n < 8"
  shows "vb_fullmask n = mask n"
proof -
  have "n \<in> {1, 2, 3, 4, 5, 6, 7}" using assms by auto
  then show ?thesis by (auto simp: vb_fullmask_def mask_eq_exp_minus_1)
qed

lemma byte_full_iff:
  assumes "0 < n" "n < 8" "\<And>i. n \<le> i \<Longrightarrow> i < 8 \<Longrightarrow> \<not> bit b i"
  shows "to_int b = vb_fullmask n \<longleftrightarrow> (\<forall>i < n. bit b i)"
proof -
  have "to_int b = mask n \<longleftrightarrow> (\<forall>i. bit (to_int b) i = bit (mask n :: u32) i)"
    by (metis bit_eq_iff)
  also have "\<dots> \<longleftrightarrow> (\<forall>i < n. bit b i)"
    using assms by (auto simp: c_bits bit_mask_iff dest: bit_u8_bound) (meson bit_u8_bound not_le)
  finally show ?thesis by (simp add: fullmask_eq assms)
qed

lemma vb_tail_bit:
  assumes "vb_wf vb" "vb_tailclear vb" "vb_buf vb \<noteq> []" "vb_lastsize vb \<le> i" "i < 8"
  shows "\<not> bit (vb_buf vb ! vb_end vb) i"
proof -
  have "\<not> buf_bit (vb_buf vb) (8 * vb_end vb + i)"
    using assms vb_wf_nonempty [OF assms(1,3)]
    by (intro vb_tailclearD) (auto simp: psc_vbitmap_getsize_def)
  then show ?thesis using assms(5) by simp
qed

lemma scan_step:
  assumes "vb_wf vb" "vb_tailclear vb" "vb_buf vb \<noteq> []" "pos \<le> vb_end vb"
  shows "vb_scan vb start pos =
    (if vb_hit vb pos then Some (Some pos)
     else let pos' = (if pos = vb_end vb then 0 else pos + 1)
          in if pos' = start then Some None else vb_scan vb start pos')"
proof -
  note wf = vb_wf_nonempty [OF assms(1,3)]
  have "to_int (vb_buf vb ! vb_end vb) = vb_fullmask (vb_lastsize vb) \<longleftrightarrow> \<not> vb_hit vb (vb_end vb)"
    if "vb_lastsize vb \<noteq> 8"
    using wf that vb_tail_bit [OF assms(1-3)]
    by (subst byte_full_iff) (auto simp: vb_hit_def vb_width_def)
  moreover have "vb_buf vb ! pos = 0xff \<longleftrightarrow> \<not> vb_hit vb pos"
    if "pos \<noteq> vb_end vb \<or> vb_lastsize vb = 8"
    using that by (auto simp: vb_hit_def vb_width_def u8_eq_ff_iff)
  ultimately show ?thesis
    using wf assms(4) by (subst vb_scan.simps) (auto simp: mem_simps Let_def)
qed

lemma scan_eq:
  assumes "vb_wf vb" "vb_tailclear vb" "vb_buf vb \<noteq> []" "pos \<le> vb_end vb" "start \<le> vb_end vb"
  shows "vb_scan vb start pos = Some (List.find (vb_hit vb) (scan_order (vb_end vb) start pos))"
  using assms(4)
proof (induction "length (scan_order (vb_end vb) start pos)" arbitrary: pos rule: less_induct)
  case less
  let ?pos' = "if pos = vb_end vb then 0 else pos + 1"
  have order: "scan_order (vb_end vb) start pos =
      pos # (if ?pos' = start then [] else scan_order (vb_end vb) start ?pos')"
    using less.prems assms(5)
    by (auto simp: scan_order_def upt_conv_Cons simp del: upt_Suc split: if_splits)
  show ?case
    using less.prems by (subst scan_step [OF assms(1-3)])
      (auto simp: order Let_def less.hyps simp del: upt_Suc)
qed

lemma scan_blocks:
  assumes "pos \<le> vb_end vb"
  shows "concat (map (vb_block vb) (scan_order (vb_end vb) pos pos)) =
           [8 * pos..<psc_vbitmap_getsize vb] @ [0..<8 * pos]"
proof -
  have full: "map (vb_block vb) [a..<b] = map (\<lambda>p. [8 * p..<8 * p + 8]) [a..<b]"
    if "b \<le> vb_end vb" for a b
    using that by (auto simp: vb_block_def vb_width_def)
  have "concat (map (vb_block vb) [pos..<Suc (vb_end vb)]) =
      [8 * pos..<8 * vb_end vb] @ [8 * vb_end vb..<psc_vbitmap_getsize vb]"
    using assms by (simp add: full byte_blocks max_def)
      (simp add: vb_block_def vb_width_def psc_vbitmap_getsize_def mult.commute)
  also have "\<dots> = [8 * pos..<psc_vbitmap_getsize vb]"
    using assms by (intro upt_split [symmetric]) (auto simp: psc_vbitmap_getsize_def)
  finally show ?thesis
    using assms by (simp add: scan_order_def full byte_blocks del: upt_Suc)
qed

lemma block_bound:
  assumes "vb_wf vb" "vb_buf vb \<noteq> []" "p \<le> vb_end vb" "i < vb_width vb p"
  shows "8 * p + i < psc_vbitmap_getsize vb" "i < 8"
  using assms vb_wf_nonempty [OF assms(1,2)]
  by (auto simp: vb_width_def psc_vbitmap_getsize_def split: if_splits)

lemma ex_block_iff: "(\<exists>x \<in> set (vb_block vb p). P x) \<longleftrightarrow> (\<exists>i < vb_width vb p. P (8 * p + i))"
proof -
  have "set (vb_block vb p) = (+) (8 * p) ` {..<vb_width vb p}"
    by (simp add: vb_block_def lessThan_atLeast0 add.commute)
  then show ?thesis by auto
qed

lemma find_free_scan:
  assumes "vb_wf vb" "vb_buf vb \<noteq> []" "pos \<le> vb_end vb"
  shows "find_free (vb_bits vb) (8 * pos) =
    (case List.find (vb_hit vb) (scan_order (vb_end vb) pos pos) of None \<Rightarrow> None
     | Some p \<Rightarrow> List.find (\<lambda>i. \<not> vb_bits vb ! i) (vb_block vb p))"
proof -
  have "vb_hit vb p = (\<exists>x \<in> set (vb_block vb p). \<not> vb_bits vb ! x)"
    if "p \<in> set (scan_order (vb_end vb) pos pos)" for p
  proof -
    have "p \<le> vb_end vb" using that assms(3) by (auto simp: scan_order_def)
    then show ?thesis
      unfolding ex_block_iff vb_hit_def using block_bound [OF assms(1,2)] by auto
  qed
  then have "List.find (vb_hit vb) (scan_order (vb_end vb) pos pos) =
      List.find (\<lambda>p. \<exists>x \<in> set (vb_block vb p). \<not> vb_bits vb ! x) (scan_order (vb_end vb) pos pos)"
    by (rule find_cong_set)
  then show ?thesis
    by (simp only: find_free_def length_vb_bits scan_blocks [OF assms(3), symmetric] find_concat_map)
qed

lemma ffs_not:
  assumes "k < 8" "\<not> bit b k" "\<And>i. i < k \<Longrightarrow> bit b i"
  shows "ffs (NOT (to_int b)) = Suc k"
proof -
  have "List.find (bit (NOT (to_int b))) [0..<32] = Some k"
    using assms by (intro find_first_upt) (auto simp: c_bits)
  then show ?thesis by (simp add: ffs_def)
qed

lemma take_slot_spec:
  assumes "vb_wf vb" "vb_buf vb \<noteq> []" "pos \<le> vb_end vb" "vb_hit vb pos"
  obtains e vb' where "vb_take_slot vb pos = Some (vb', e)"
    "List.find (\<lambda>i. \<not> vb_bits vb ! i) (vb_block vb pos) = Some e"
    "vb' = vb\<lparr>vb_pos := e div 8, vb_buf := vb_buf vb'\<rparr>"
    "length (vb_buf vb') = length (vb_buf vb)"
    "\<And>i. buf_bit (vb_buf vb') i = (buf_bit (vb_buf vb) i \<or> i = e)"
proof -
  define k where "k = (LEAST k. k < vb_width vb pos \<and> \<not> bit (vb_buf vb ! pos) k)"
  have k: "k < vb_width vb pos" "\<not> bit (vb_buf vb ! pos) k"
    using LeastI_ex [OF assms(4) [unfolded vb_hit_def]] by (auto simp: k_def)
  have least: "bit (vb_buf vb ! pos) i" if "i < k" for i
    using not_less_Least [OF that [unfolded k_def]] k(1) that by auto
  note bound = block_bound [OF assms(1-3)]
  have pos: "pos < length (vb_buf vb)" using vb_wf_nonempty [OF assms(1,2)] assms(3) by simp
  have below: "vb_bits vb ! i" if "8 * pos \<le> i" "i < 8 * pos + k" for i
    using that bound(1) [of "i - 8 * pos"] bound(2) [of "i - 8 * pos"] least [of "i - 8 * pos"] k(1)
      buf_bit_at [of "i - 8 * pos" "vb_buf vb" pos] by simp
  let ?bs = "(vb_buf vb)[pos := to_u8 (to_int (vb_buf vb ! pos) OR push_bit k 1)]"
  show thesis
  proof (rule that [of "vb\<lparr>vb_pos := pos, vb_buf := ?bs\<rparr>" "8 * pos + k"])
    show "vb_take_slot vb pos = Some (vb\<lparr>vb_pos := pos, vb_buf := ?bs\<rparr>, 8 * pos + k)"
      using pos k bound(2) [OF k(1)] least
      by (simp add: vb_take_slot_def mem_simps ffs_not Let_def)
    show "List.find (\<lambda>i. \<not> vb_bits vb ! i) (vb_block vb pos) = Some (8 * pos + k)"
      unfolding vb_block_def using k bound [OF k(1)] below by (intro find_first_upt) auto
    show "buf_bit (vb_buf (vb\<lparr>vb_pos := pos, vb_buf := ?bs\<rparr>)) i =
        (buf_bit (vb_buf vb) i \<or> i = 8 * pos + k)" for i
      using buf_bit_set_bit [of "8 * pos + k" "vb_buf vb" i] pos bound(2) [OF k(1)] by simp
  qed (use bound(2) [OF k(1)] in auto)
qed

subsection \<open>Resizing\<close>

lemma clear_unalloc_tailclear:
  assumes "vb_wf vb" "vb_tailclear vb"
  shows "VB_CLEAR_UNALLOC vb = Some vb"
proof (cases "vb_lastsize vb \<noteq> 0 \<and> vb_lastsize vb \<noteq> 8")
  case True
  then have ne: "vb_buf vb \<noteq> []" using assms(1) by (auto simp: vb_wf_def)
  let ?b = "vb_buf vb ! vb_end vb"
  have "to_u8 (to_int ?b AND NOT (push_bit (vb_lastsize vb) 0xff)) = ?b"
    using vb_tail_bit [OF assms ne]
    by (intro u8_eqI) (auto simp: c_bits not_le)
  then show ?thesis
    using True vb_wf_nonempty [OF assms(1) ne]
    by (simp add: VB_CLEAR_UNALLOC_def mem_simps del: push_bit_numeral)
qed (auto simp: VB_CLEAR_UNALLOC_def)

lemma resize_grow:
  assumes "vb_wf vb" "vb_tailclear vb" "psc_vbitmap_getsize vb \<le> n" "0 < n"
  obtains vb' where "psc_vbitmap_resize vb n = Some vb'" "vb_wf vb'" "vb_tailclear vb'"
    "vb_bits vb' = vb_bits vb @ replicate (n - psc_vbitmap_getsize vb) False"
    "vb_pos vb' = vb_pos vb" "vb_flags vb' = vb_flags vb" "\<not> vb_isnull vb'"
proof -
  define bs where "bs = vb_buf vb @ replicate (howmany n 8 - length (vb_buf vb)) 0"
  define vb' where "vb' = vb\<lparr>vb_isnull := False, vb_buf := bs, vb_end := howmany n 8 - 1,
      vb_lastsize := (if n mod 8 = 0 then 8 else n mod 8)\<rparr>"
  have le: "length (vb_buf vb) \<le> howmany n 8"
    using assms(3) by (simp flip: vb_wf_howmany [OF assms(1)] add: howmany_def div_le_mono)
  have pos: "vb_pos vb \<le> howmany n 8 - 1" and n8: "0 < howmany n 8"
    using assms(1,4) le howmany_pos [of n] by (auto simp: vb_wf_def split: if_splits)
  have size: "psc_vbitmap_getsize vb' = n"
    using assms(4) last_byte_split [of n] by (simp add: psc_vbitmap_getsize_def vb'_def)
  have len: "length bs = howmany n 8" and buf: "vb_buf vb' = bs"
    using le by (simp_all add: bs_def vb'_def)
  have bits: "buf_bit bs i \<longleftrightarrow> i < psc_vbitmap_getsize vb \<and> buf_bit (vb_buf vb) i"
    if "i < 8 * howmany n 8" for i
    using that le vb_tailclearD [OF assms(2), of i] vb_wf_size_le [OF assms(1)]
      byte_index_less [OF that]
    by (cases "i < 8 * length (vb_buf vb)"; cases "i < psc_vbitmap_getsize vb")
       (auto simp: bs_def buf_bit_def nth_append byte_index_less_iff)
  have in_buf: "i < 8 * howmany n 8" if "i < n" for i
    using that by (simp add: howmany_def)
  show thesis
  proof (rule that [of vb'])
    show "psc_vbitmap_resize vb n = Some vb'"
      using assms(4) pos n8 le vb_wf_nonempty [OF assms(1)] howmany_pos [of n]
      by (auto simp: psc_vbitmap_resize_def vb_wf_howmany [OF assms(1)] Let_def vb'_def bs_def
          clear_unalloc_tailclear [OF assms(1,2)])
    show "vb_wf vb'" using n8 pos len by (auto simp: vb_wf_def vb'_def)
    show "vb_tailclear vb'"
      using bits assms(3) by (intro vb_tailclearI) (auto simp: size buf len)
    show "vb_bits vb' = vb_bits vb @ replicate (n - psc_vbitmap_getsize vb) False"
      using assms(3) bits in_buf by (intro nth_equalityI) (simp_all add: size nth_append buf)
  qed (simp_all add: vb'_def)
qed

subsection \<open>The next free slot\<close>

lemma next_scan:
  assumes "vb_wf vb" "vb_tailclear vb" "vb_buf vb \<noteq> []"
  shows "vb_scan vb (vb_pos vb) (vb_pos vb) =
           Some (List.find (vb_hit vb) (scan_order (vb_end vb) (vb_pos vb) (vb_pos vb)))"
  using scan_eq [OF assms] vb_wf_nonempty [OF assms(1,3)] by simp

lemma scan_hit_bound:
  assumes "List.find (vb_hit vb) (scan_order (vb_end vb) pos pos) = Some p" "pos \<le> vb_end vb"
  shows "p \<le> vb_end vb" "vb_hit vb p"
  using find_SomeD [OF assms(1)] assms(2) by (auto simp: scan_order_def simp del: upt_Suc)

lemma next_found:
  assumes "vb_wf vb" "vb_tailclear vb" "vb_buf vb \<noteq> []"
    and free: "find_free (vb_bits vb) (8 * vb_pos vb) = Some e"
  obtains vb' where "psc_vbitmap_next vb = Some (vb', Some e)" "vb_wf vb'" "vb_tailclear vb'"
    "vb_bits vb' = (vb_bits vb)[e := True]" "vb_pos vb' = e div 8" "vb_flags vb' = vb_flags vb"
proof -
  have pos: "vb_pos vb \<le> vb_end vb" using vb_wf_nonempty [OF assms(1,3)] by simp
  obtain p where hit: "List.find (vb_hit vb) (scan_order (vb_end vb) (vb_pos vb) (vb_pos vb)) = Some p"
    and e: "List.find (\<lambda>i. \<not> vb_bits vb ! i) (vb_block vb p) = Some e"
    using free by (auto simp: find_free_scan [OF assms(1,3) pos] split: option.splits)
  have p: "p \<le> vb_end vb" "vb_hit vb p"
    using scan_hit_bound [OF hit pos] .
  obtain e' vb' where slot: "vb_take_slot vb p = Some (vb', e')"
    "List.find (\<lambda>i. \<not> vb_bits vb ! i) (vb_block vb p) = Some e'"
    "vb' = vb\<lparr>vb_pos := e' div 8, vb_buf := vb_buf vb'\<rparr>"
    "length (vb_buf vb') = length (vb_buf vb)"
    and bits: "\<And>i. buf_bit (vb_buf vb') i = (buf_bit (vb_buf vb) i \<or> i = e')"
    by (rule take_slot_spec [OF assms(1,3) p]) blast
  have [simp]: "e' = e" using slot(2) e by simp
  have "e < psc_vbitmap_getsize vb" 
    using e p block_bound [OF assms(1,3) p(1)]
    by (auto simp: vb_block_def find_upt_Some) (metis le_add_diff_inverse nat_add_left_cancel_less)
  then have "e div 8 \<le> vb_end vb"
    using vb_wf_byte_less [OF assms(1)] vb_wf_nonempty [OF assms(1,3)] by fastforce
  have size: "psc_vbitmap_getsize vb' = psc_vbitmap_getsize vb"
    by (subst slot(3)) (simp add: psc_vbitmap_getsize_def)
  show thesis
  proof (rule that [of vb'])
    show "psc_vbitmap_next vb = Some (vb', Some e)"
      by (subst psc_vbitmap_next.simps) (simp add: next_scan [OF assms(1-3)] hit slot(1))
    show "vb_wf vb'"
      using assms(1,3) slot(4) \<open>e div 8 \<le> vb_end vb\<close> vb_wf_nonempty [OF assms(1,3)]
      by (subst slot(3)) (auto simp: vb_wf_def)
    show "vb_tailclear vb'"
      using assms(2) \<open>e < psc_vbitmap_getsize vb\<close>
      by (auto simp: vb_tailclear_def list_all_iff size slot(4) bits)
    show "vb_bits vb' = (vb_bits vb)[e := True]"
      using \<open>e < psc_vbitmap_getsize vb\<close>
      by (intro nth_equalityI) (auto simp: size bits nth_list_update)
  qed (subst slot(3), simp)+
qed

lemma find_free_None_iff: "c \<le> length xs \<Longrightarrow> find_free xs c = None \<longleftrightarrow> list_all id xs"
  by (auto simp: find_free_def find_None_iff list_all_length)

lemma find_free_SomeD: "find_free xs c = Some e \<Longrightarrow> c \<le> length xs \<Longrightarrow> e < length xs \<and> \<not> xs ! e"
  by (auto simp: find_free_def dest!: find_SomeD)

lemma find_free_append:
  assumes "list_all id xs" "c \<le> length xs" "0 < k"
  shows "find_free (xs @ replicate k False) c = Some (length xs)"
proof -
  have "List.find (\<lambda>i. \<not> (xs @ replicate k False) ! i) [c..<length xs + k] = Some (length xs)"
    using assms by (intro find_first_upt) (auto simp: nth_append list_all_length)
  then show ?thesis by (simp add: find_free_def find_append)
qed

lemma vb_pos_le_size:
  assumes "vb_wf vb"
  shows "8 * vb_pos vb \<le> length (vb_bits vb)"
  using assms by (auto simp: vb_wf_def psc_vbitmap_getsize_def split: if_splits)

lemma vb_bits_eq_Nil [simp]: "vb_bits vb = [] \<longleftrightarrow> psc_vbitmap_getsize vb = 0"
  by (simp add: vb_bits_def)

lemma scan_full:
  assumes "vb_wf vb" "vb_tailclear vb" "vb_buf vb \<noteq> [] \<or> vb_isnull vb" "list_all id (vb_bits vb)"
  shows "vb_scan vb (vb_pos vb) (vb_pos vb) = Some None"
proof (cases "vb_buf vb = []")
  case True
  then have "vb_end vb = 0" "vb_lastsize vb = 0" "vb_pos vb = 0" "vb_isnull vb"
    using assms(1,3) by (auto simp: vb_wf_def)
  then show ?thesis by (subst vb_scan.simps) simp
next
  case False
  have pos: "vb_pos vb \<le> vb_end vb" using vb_wf_nonempty [OF assms(1) False] by simp
  have none: "find_free (vb_bits vb) (8 * vb_pos vb) = None"
    using assms(4) vb_pos_le_size [OF assms(1)] by (simp add: find_free_None_iff)
  show ?thesis
  proof (cases "List.find (vb_hit vb) (scan_order (vb_end vb) (vb_pos vb) (vb_pos vb))")
    case (Some p)
    then show ?thesis
      using take_slot_spec [OF assms(1) False scan_hit_bound [OF Some pos]] none
      by (auto simp: find_free_scan [OF assms(1) False pos])
  qed (simp add: next_scan [OF assms(1,2) False])
qed

lemma next_full:
  assumes "vb_wf vb" "vb_tailclear vb" "vb_buf vb \<noteq> [] \<or> vb_isnull vb" "list_all id (vb_bits vb)"
    and "vb_flags vb AND (PVBF_AUTO OR PVBF_EXTALLOC) \<noteq> PVBF_AUTO"
  shows "psc_vbitmap_next vb = Some (vb, None)"
  using scan_full [OF assms(1-4)] assms(5) by (subst psc_vbitmap_next.simps) simp

lemma next_grow:
  assumes "vb_wf vb" "vb_tailclear vb" "vb_buf vb \<noteq> [] \<or> vb_isnull vb"
    and full: "list_all id (vb_bits vb)"
    and auto: "vb_flags vb AND (PVBF_AUTO OR PVBF_EXTALLOC) = PVBF_AUTO"
  obtains vb' where "psc_vbitmap_next vb = Some (vb', Some (psc_vbitmap_getsize vb))"
    "vb_wf vb'" "vb_tailclear vb'" "vb_flags vb' = vb_flags vb" "vb_buf vb' \<noteq> []"
    "vb_bits vb' = vb_bits vb @ True #
       replicate (if psc_vbitmap_getsize vb = 0 then 127 else psc_vbitmap_getsize vb - 1) False"
proof -
  define n where "n = (if psc_vbitmap_getsize vb \<noteq> 0 then 2 * psc_vbitmap_getsize vb else 128)"
  have n: "psc_vbitmap_getsize vb < n" by (simp add: n_def)
  obtain vb1 where r: "psc_vbitmap_resize vb n = Some vb1" and vb1: "vb_wf vb1" "vb_tailclear vb1"
    "vb_bits vb1 = vb_bits vb @ replicate (n - psc_vbitmap_getsize vb) False"
    "vb_pos vb1 = vb_pos vb" "vb_flags vb1 = vb_flags vb" "\<not> vb_isnull vb1"
    using resize_grow [OF assms(1,2), of n] n by auto
  have ne: "vb_buf vb1 \<noteq> []"
    using vb1(3) n vb_wf_size_0 [OF vb1(1)] vb_bits_eq_Nil [of vb1] by auto
  have "find_free (vb_bits vb1) (8 * vb_pos vb1) = Some (psc_vbitmap_getsize vb)"
    using find_free_append [OF full, of "8 * vb_pos vb"] vb_pos_le_size [OF assms(1)] n
    by (simp add: vb1)
  then obtain vb' where vb': "psc_vbitmap_next vb1 = Some (vb', Some (psc_vbitmap_getsize vb))"
    "vb_wf vb'" "vb_tailclear vb'" "vb_bits vb' = (vb_bits vb1)[psc_vbitmap_getsize vb := True]"
    "vb_flags vb' = vb_flags vb1"
    using next_found [OF vb1(1,2) ne] by metis
  have "n - psc_vbitmap_getsize vb =
      Suc (if psc_vbitmap_getsize vb = 0 then 127 else psc_vbitmap_getsize vb - 1)"
    by (simp add: n_def)
  then have "vb_bits vb' = vb_bits vb @ True #
      replicate (if psc_vbitmap_getsize vb = 0 then 127 else psc_vbitmap_getsize vb - 1) False"
    by (simp add: vb'(4) vb1(3) list_update_append del: One_nat_def)
  moreover from this have "vb_buf vb' \<noteq> []"
    using vb_wf_size_0 [OF vb'(2)] vb_bits_eq_Nil [of vb'] by auto
  moreover have "psc_vbitmap_next vb = psc_vbitmap_next vb1"
    using scan_full [OF assms(1-4)] auto r
    by (subst psc_vbitmap_next.simps) (simp add: n_def Let_def)
  ultimately show thesis using that vb' vb1(5) by simp
qed

text \<open>
  C4. \<^verbatim>\<open>psc_vbitmap_next\<close> refines the search for the first free position in cyclic order from the
  cursor: it takes that bit and no other; when there is none, an automatic bitmap grows and
  hands out its first new bit, and any other bitmap reports failure unchanged.
\<close>

theorem next_refines:
  assumes "vb_wf vb" "vb_tailclear vb" "vb_buf vb \<noteq> [] \<or> vb_isnull vb"
  shows "\<exists>vb' r. psc_vbitmap_next vb = Some (vb', r) \<and> vb_wf vb' \<and> vb_tailclear vb' \<and>
           vb_flags vb' = vb_flags vb \<and>
           (case find_free (vb_bits vb) (8 * vb_pos vb) of
              Some e \<Rightarrow> r = Some e \<and> vb_bits vb' = (vb_bits vb)[e := True]
            | None \<Rightarrow>
                if vb_flags vb AND (PVBF_AUTO OR PVBF_EXTALLOC) = PVBF_AUTO
                then r = Some (length (vb_bits vb)) \<and>
                     vb_bits vb' = vb_bits vb @ True #
                       replicate (if vb_bits vb = [] then 127 else length (vb_bits vb) - 1) False
                else r = None \<and> vb' = vb)"
proof (cases "find_free (vb_bits vb) (8 * vb_pos vb)")
  case None
  then have full: "list_all id (vb_bits vb)"
    using vb_pos_le_size [OF assms(1)] by (simp add: find_free_None_iff)
  show ?thesis
  proof (cases "vb_flags vb AND (PVBF_AUTO OR PVBF_EXTALLOC) = PVBF_AUTO")
    case True
    show ?thesis
      by (rule next_grow [OF assms full True]) (use None True in auto)
  next
    case False
    then show ?thesis using None next_full [OF assms full False] assms by auto
  qed
next
  case (Some e)
  then have "vb_buf vb \<noteq> []"
    using find_free_SomeD [OF Some vb_pos_le_size [OF assms(1)]] vb_wf_size_0 [OF assms(1)] by auto
  then show ?thesis
    by (rule next_found [OF assms(1,2) _ Some]) (use Some in auto)
qed

theorem next_refines_witness:
  "psc_vbitmap_next full16 = Some (full16, None) \<and>
     (\<exists>vb'. psc_vbitmap_next (full16\<lparr>vb_flags := PVBF_AUTO\<rparr>) = Some (vb', Some 16))"
proof -
  let ?a = "full16\<lparr>vb_flags := PVBF_AUTO\<rparr>"
  have a: "vb_wf ?a" "vb_tailclear ?a" "vb_bits ?a = vb_bits full16"
    by (simp_all add: full16_def vb_wf_def psc_vbitmap_getsize_def vb_tailclear_def vb_bits_def)
  have "find_free (replicate 16 True) 0 = None"
    by (simp add: find_free_None_iff list_all_length)
  moreover have "vb_pos full16 = 0" "vb_flags full16 = 0" by (simp_all add: full16_def)
  ultimately show ?thesis
    using next_refines [of full16] next_refines [of ?a] a
    by (auto simp: PVBF_AUTO_def PVBF_EXTALLOC_def)
qed

end
