(* ===== verification/VBitmap_Count.thy ===== *)
theory VBitmap_Count
  imports VBitmap_Alloc
begin

text \<open>
  The queries of \<^verbatim>\<open>src/pfl/vbitmap.c\<close> over the whole bitmap: range tests, the number of free
  bits, the largest free region and the allocation of a contiguous region. Each is related to
  the list of bits the bitmap represents. Counts are unbounded here; the code keeps them in an
  \<^verbatim>\<open>int\<close>, which is enough for bitmaps of fewer than \<^verbatim>\<open>2^31\<close> bits.
\<close>

definition free_run :: "bool list \<Rightarrow> nat \<Rightarrow> nat \<Rightarrow> bool" where
  "free_run xs a l \<longleftrightarrow> a + l \<le> length xs \<and> (\<forall>i < l. \<not> xs ! (a + i))"

text \<open>
  The state of a left-to-right search for free runs after \<open>t\<close> bits: the run that ends there has
  length \<open>n\<close>, and no run seen so far is longer than \<open>n\<close> or \<open>r\<close>.
\<close>

definition run_inv :: "bool list \<Rightarrow> nat \<Rightarrow> nat \<Rightarrow> nat \<Rightarrow> bool" where
  "run_inv xs t n r \<longleftrightarrow>
     n \<le> t \<and> free_run xs (t - n) n \<and> (t = n \<or> xs ! (t - n - 1)) \<and>
     (\<exists>a. a + r \<le> t \<and> free_run xs a r) \<and>
     (\<forall>a l. a + l \<le> t \<longrightarrow> free_run xs a l \<longrightarrow> l \<le> max n r)"

definition range_is :: "u8 list \<Rightarrow> bool \<Rightarrow> nat \<Rightarrow> nat \<Rightarrow> bool" where
  "range_is bs val a l \<longleftrightarrow> (\<forall>i < l. buf_bit bs (a + i) = val)"

text \<open>
  The range test inspects \<open>range_checked\<close> bits: all of them, except that a range of fewer than
  eight bits that starts inside a byte is cut off at the end of that byte.
\<close>

definition range_checked :: "nat \<Rightarrow> nat \<Rightarrow> nat" where
  "range_checked start len =
     (if start mod 8 \<noteq> 0 \<and> len < 8 then min len (8 - start mod 8) else len)"

text \<open>The search of \<^verbatim>\<open>psc_vbitmap_getncontig\<close> over a list of bits.\<close>

fun contig_list ::
  "int \<Rightarrow> bool list \<Rightarrow> int \<Rightarrow> int \<Rightarrow> int \<times> int \<Rightarrow> int \<times> int \<times> (int \<times> int)" where
  "contig_list ns [] t1 t2 se = (t1, t2, se)"
| "contig_list ns (x # xs) t1 t2 se =
     (if x then contig_list ns xs (t2 + 1) (t2 + 1) (test_and_set t1 t2 se)
      else if t2 - t1 = ns then (t1, t2, se)
      else contig_list ns xs t1 (t2 + 1) se)"

subsection \<open>Free runs\<close>

lemma run_inv_0: "run_inv xs 0 0 0"
  by (auto simp: run_inv_def free_run_def)

lemma free_run_snoc:
  "free_run xs a (Suc l) \<longleftrightarrow> a + l < length xs \<and> \<not> xs ! (a + l) \<and> free_run xs a l"
  by (auto simp: free_run_def less_Suc_eq)

lemma run_inv_le:
  "run_inv xs t n r \<Longrightarrow> free_run xs a l \<Longrightarrow> a + l \<le> t \<or> l = 0 \<Longrightarrow> l \<le> max n r"
  unfolding run_inv_def by (metis le0)

lemma run_inv_best:
  assumes "run_inv xs t n r"
  shows "\<exists>a. a + max r n \<le> t \<and> free_run xs a (max r n)"
proof (cases "n \<le> r")
  case True
  then have "max r n = r" by simp
  then show ?thesis using assms unfolding run_inv_def by metis
next
  case False
  then have "max r n = n" by simp
  then show ?thesis using assms unfolding run_inv_def by (intro exI [of _ "t - n"]) simp
qed

lemma run_inv_set:
  assumes "run_inv xs t n r" "t < length xs" "xs ! t"
  shows "run_inv xs (Suc t) 0 (max r n)"
proof -
  have "\<exists>a. a + max r n \<le> Suc t \<and> free_run xs a (max r n)"
    using run_inv_best [OF assms(1)] by (auto intro: le_SucI)
  moreover have "l \<le> max r n" if "a + l \<le> Suc t" "free_run xs a l" for a l
  proof (cases "a + l = Suc t \<and> l \<noteq> 0")
    case True
    then have "\<not> xs ! t" using that(2) by (cases l) (auto simp: free_run_snoc)
    then show ?thesis using assms(3) by simp
  next
    case False
    then show ?thesis using that run_inv_le [OF assms(1) that(2)] by (auto simp: max.commute)
  qed
  ultimately show ?thesis using assms(2,3) by (auto simp: run_inv_def free_run_def)
qed

lemma run_inv_free:
  assumes "run_inv xs t n r" "t < length xs" "\<not> xs ! t"
  shows "run_inv xs (Suc t) (Suc n) r"
proof -
  have n: "n \<le> t" "free_run xs (t - n) n" "t = n \<or> xs ! (t - n - 1)"
    using assms(1) by (auto simp: run_inv_def)
  have "l \<le> max (Suc n) r" if "a + l \<le> Suc t" "free_run xs a l" for a l
  proof (cases "a + l = Suc t \<and> l \<noteq> 0")
    case True
    have "t - n \<le> a"
    proof (rule ccontr)
      assume "\<not> t - n \<le> a"
      then have "t - n - 1 = a + (t - n - 1 - a)" "t - n - 1 - a < l" "t \<noteq> n" using True n(1) by auto
      then show False using n(3) that(2) unfolding free_run_def by metis
    qed
    then show ?thesis using True n(1) by auto
  next
    case False
    then have "l \<le> max n r" using that run_inv_le [OF assms(1) that(2)] by auto
    then show ?thesis by auto
  qed
  then show ?thesis
    using n assms by (auto simp: run_inv_def free_run_snoc intro: le_SucI)
qed

lemma run_inv_end:
  assumes "run_inv xs (length xs) n r"
  shows "\<exists>a. free_run xs a (max r n)" "free_run xs a l \<Longrightarrow> l \<le> max r n"
  using run_inv_best [OF assms] run_inv_le [OF assms, of a l]
  by (auto simp: free_run_def max.commute)

subsection \<open>Number of free bits\<close>

lemma loop_pos:
  assumes "vb_wf vb"
  shows "p \<le> vb_end vb \<Longrightarrow> j < vb_width vb p \<Longrightarrow> 8 * p + j < psc_vbitmap_getsize vb \<and> j < 8 \<and>
           p < length (vb_buf vb)"
    "\<not> p \<le> vb_end vb \<Longrightarrow> psc_vbitmap_getsize vb \<le> 8 * p + k"
  using assms by (auto simp: vb_width_def vb_wf_def psc_vbitmap_getsize_def split: if_splits)

lemma next_byte_range:
  assumes "vb_wf vb" "p \<le> vb_end vb"
  shows "min (8 * p + vb_width vb p) (psc_vbitmap_getsize vb) = min (8 * (p + 1)) (psc_vbitmap_getsize vb)"
    "[8 * p + vb_width vb p..<psc_vbitmap_getsize vb] = [8 * (p + 1)..<psc_vbitmap_getsize vb]"
proof -
  have "8 * p + vb_width vb p = 8 * (p + 1) \<or>
      psc_vbitmap_getsize vb = 8 * p + vb_width vb p \<and> psc_vbitmap_getsize vb \<le> 8 * (p + 1)"
    using assms by (auto simp: vb_width_def vb_wf_def psc_vbitmap_getsize_def split: if_splits)
  then show "min (8 * p + vb_width vb p) (psc_vbitmap_getsize vb) =
      min (8 * (p + 1)) (psc_vbitmap_getsize vb)"
    "[8 * p + vb_width vb p..<psc_vbitmap_getsize vb] = [8 * (p + 1)..<psc_vbitmap_getsize vb]"
    by (auto simp: add.commute)
qed

lemma nfree_loop_eq:
  assumes "vb_wf vb" "p \<le> vb_end vb \<Longrightarrow> j \<le> vb_width vb p"
  shows "vb_nfree_loop vb p j n =
           Some (n + length (filter (\<lambda>i. \<not> buf_bit (vb_buf vb) i) [8 * p + j..<psc_vbitmap_getsize vb]))"
  using assms
proof (induction vb p j n rule: vb_nfree_loop.induct)
  case (1 vb p j n)
  show ?case
  proof (cases "p \<le> vb_end vb")
    case True
    show ?thesis
    proof (cases "j < vb_width vb p")
      case less: True
      then show ?thesis
        using True loop_pos(1) [OF "1.prems"(1) True less] "1.IH"(1) "1.prems"(1)
        by (subst vb_nfree_loop.simps)
          (simp add: mem_simps vb_width_def [symmetric] upt_conv_Cons byte_bit_and_eq_0
            del: push_bit_of_1)
    next
      case False
      then have "vb_nfree_loop vb p j n = vb_nfree_loop vb (p + 1) 0 n"
        using True by (subst vb_nfree_loop.simps) (simp add: vb_width_def [symmetric])
      moreover have "[8 * p + j..<psc_vbitmap_getsize vb] = [8 * (p + 1)..<psc_vbitmap_getsize vb]"
        using True False "1.prems"(2) next_byte_range(2) [OF "1.prems"(1) True] by simp
      ultimately show ?thesis
        using True False "1.IH"(2) "1.prems"(1) by (simp add: vb_width_def [symmetric])
    qed
  next
    case False
    then show ?thesis
      using loop_pos(2) [OF "1.prems"(1) False] by (subst vb_nfree_loop.simps) simp
  qed
qed

lemma nfree_eq:
  assumes "vb_wf vb"
  shows "psc_vbitmap_nfree vb = Some (length (filter Not (vb_bits vb)))"
proof -
  have "filter Not (vb_bits vb) =
      map (buf_bit (vb_buf vb))
        (filter (\<lambda>i. \<not> buf_bit (vb_buf vb) i) [0..<psc_vbitmap_getsize vb])"
    by (simp add: vb_bits_def filter_map comp_def)
  then show ?thesis
    using nfree_loop_eq [OF assms, of 0 0 0] by (simp add: psc_vbitmap_nfree_def)
qed

lemma nset_eq:
  assumes "vb_wf vb"
  shows "psc_vbitmap_nset vb = Some (length (filter id (vb_bits vb)))"
  using sum_length_filter_compl [of id "vb_bits vb"]
  by (simp add: psc_vbitmap_nset_def nfree_eq [OF assms] comp_def)

subsection \<open>Contiguous allocation\<close>

lemma test_and_set_eq:
  assumes "n \<le> t"
  shows "test_and_set (int (t - n)) (int t) (int s, int (s + r)) =
           (let s' = (if r < n then t - n else s) in (int s', int (s' + max r n)))"
  using assms by (simp add: test_and_set_def Let_def)

lemma best_region:
  assumes "run_inv xs t n r" "free_run xs s r"
  shows "free_run xs (if r < n then t - n else s) (max r n)"
  using assms by (auto simp: run_inv_def max_def)

lemma contig_loop_eq:
  assumes "vb_wf vb" "p \<le> vb_end vb \<Longrightarrow> i \<le> vb_width vb p"
  shows "vb_contig_loop vb ns p i t1 t2 se =
      Some (contig_list ns (map (buf_bit (vb_buf vb)) [8 * p + i..<psc_vbitmap_getsize vb]) t1 t2 se)"
  using assms
proof (induction vb ns p i t1 t2 se rule: vb_contig_loop.induct)
  case (1 vb ns p i t1 t2 se)
  show ?case
  proof (cases "p \<le> vb_end vb")
    case True
    show ?thesis
    proof (cases "i < vb_width vb p")
      case less: True
      then show ?thesis
        using True loop_pos(1) [OF "1.prems"(1) True less] "1.IH"(1,2) "1.prems"(1)
        by (subst vb_contig_loop.simps)
          (simp add: mem_simps vb_width_def [symmetric] upt_conv_Cons byte_bit_and_eq_0
            del: push_bit_of_1)
    next
      case False
      then have "vb_contig_loop vb ns p i t1 t2 se = vb_contig_loop vb ns (p + 1) 0 t1 t2 se"
        using True by (subst vb_contig_loop.simps) (simp add: vb_width_def [symmetric])
      moreover have "[8 * p + i..<psc_vbitmap_getsize vb] = [8 * (p + 1)..<psc_vbitmap_getsize vb]"
        using True False "1.prems"(2) next_byte_range [OF "1.prems"(1) True] by simp
      ultimately show ?thesis
        using True False "1.IH"(3) "1.prems"(1) by (simp add: vb_width_def [symmetric])
    qed
  next
    case False
    then show ?thesis
      using loop_pos(2) [OF "1.prems"(1) False] by (subst vb_contig_loop.simps) simp
  qed
qed

lemma contig_list_spec:
  assumes "run_inv bits T n r" "free_run bits s r" "int n \<le> ns" "int r \<le> ns" "T \<le> length bits"
  shows "\<exists>T' n' s' r'. contig_list ns (drop T bits) (int (T - n)) (int T) (int s, int (s + r)) =
            (int (T' - n'), int T', int s', int (s' + r')) \<and>
          run_inv bits T' n' r' \<and> free_run bits s' r' \<and> int n' \<le> ns \<and> int r' \<le> ns \<and>
          (T' = length bits \<or> int n' = ns)"
  using assms
proof (induction "length bits - T" arbitrary: T n r s)
  case 0
  then have "contig_list ns (drop T bits) (int (T - n)) (int T) (int s, int (s + r)) =
      (int (T - n), int T, int s, int (s + r))" "T = length bits"
    by simp_all
  then show ?case using 0 by blast
next
  case (Suc k)
  have T: "T < length bits" "k = length bits - Suc T" and n: "n \<le> T"
    using Suc.hyps(2) Suc.prems(1) by (auto simp: run_inv_def)
  have drop: "drop T bits = bits ! T # drop (Suc T) bits"
    using T by (simp add: Cons_nth_drop_Suc)
  consider "bits ! T" | "\<not> bits ! T" "int n = ns" | "\<not> bits ! T" "int n \<noteq> ns" by blast
  then show ?case
  proof cases
    case 1
    have "contig_list ns (drop T bits) (int (T - n)) (int T) (int s, int (s + r)) =
        contig_list ns (drop (Suc T) bits) (int (Suc T - 0)) (int (Suc T))
          (int (if r < n then T - n else s), int ((if r < n then T - n else s) + max r n))"
      using 1 n by (simp add: drop test_and_set_def) (simp add: add.commute)
    then show ?thesis
      using Suc.hyps(1) [OF T(2) run_inv_set [OF Suc.prems(1) T(1) 1]
          best_region [OF Suc.prems(1,2)]] T Suc.prems by simp
  next
    case 2
    then have "contig_list ns (drop T bits) (int (T - n)) (int T) (int s, int (s + r)) =
        (int (T - n), int T, int s, int (s + r))"
      using n by (simp add: drop)
    then show ?thesis using Suc.prems 2 by blast
  next
    case 3
    have "contig_list ns (drop T bits) (int (T - n)) (int T) (int s, int (s + r)) =
        contig_list ns (drop (Suc T) bits) (int (Suc T - Suc n)) (int (Suc T)) (int s, int (s + r))"
      using 3 n by (simp add: drop) (simp add: add.commute)
    then show ?thesis
      using Suc.hyps(1) [OF T(2) run_inv_free [OF Suc.prems(1) T(1) 3(1)] Suc.prems(2)]
        T Suc.prems 3 by simp
  qed
qed

lemma mark_bits_spec:
  assumes "\<And>i. i \<in> set is \<Longrightarrow> i < 8 * length bs"
  shows "\<exists>bs'. vb_mark_bits bs is = Some bs' \<and> length bs' = length bs \<and>
           (\<forall>i. buf_bit bs' i = (buf_bit bs i \<or> i \<in> set is))"
  using assms
proof (induction "is" arbitrary: bs)
  case (Cons k ks)
  have k: "k div 8 < length bs" using Cons.prems byte_index_less by simp
  let ?bs = "bs[k div 8 := to_u8 (to_int (bs ! (k div 8)) OR push_bit (k mod 8) 1)]"
  have "\<exists>bs'. vb_mark_bits ?bs ks = Some bs' \<and> length bs' = length ?bs \<and>
      (\<forall>i. buf_bit bs' i = (buf_bit ?bs i \<or> i \<in> set ks))"
    using Cons.prems by (intro Cons.IH) simp
  then show ?case
    using k by (auto simp: mem_simps buf_bit_set_bit simp del: push_bit_of_1)
qed simp

text \<open>
  \<^verbatim>\<open>psc_vbitmap_getncontig\<close> marks exactly the region it returns, which was free and no larger
  than requested; when it is smaller than requested, no larger free region exists.
\<close>

theorem getncontig_spec:
  assumes "vb_wf vb" "0 \<le> ns"
  shows "\<exists>vb' out n. psc_vbitmap_getncontig vb ns = Some (vb', out, int n) \<and> int n \<le> ns \<and>
     vb_wf vb' \<and> psc_vbitmap_getsize vb' = psc_vbitmap_getsize vb \<and>
     (n \<noteq> 0 \<longrightarrow> 0 \<le> out \<and> free_run (vb_bits vb) (nat out) n) \<and>
     (\<forall>i < psc_vbitmap_getsize vb. vb_bits vb' ! i =
        (vb_bits vb ! i \<or> nat out \<le> i \<and> i < nat out + n)) \<and>
     (int n = ns \<or> (\<forall>a l. free_run (vb_bits vb) a l \<longrightarrow> l \<le> n))"
proof -
  let ?bits = "vb_bits vb"
  have "vb_contig_loop vb ns 0 0 0 0 (0, 0) = Some (contig_list ns ?bits 0 0 (0, 0))"
    using contig_loop_eq [OF assms(1), of 0 0 ns 0 0 "(0, 0)"] by (simp add: vb_bits_def)
  then obtain T n s r where loop: "vb_contig_loop vb ns 0 0 0 0 (0, 0) =
      Some (int (T - n), int T, int s, int (s + r))"
    and inv: "run_inv ?bits T n r" "free_run ?bits s r" "int n \<le> ns" "int r \<le> ns"
      "T = length ?bits \<or> int n = ns"
    using contig_list_spec [OF run_inv_0 [of ?bits], of 0 ns] assms(2)
    by (auto simp: free_run_def)
  define a m where "a = (if r < n then T - n else s)" and "m = max r n"
  have run: "free_run ?bits a m" using best_region [OF inv(1,2)] by (simp add: a_def m_def)
  then have le: "a + m \<le> psc_vbitmap_getsize vb" by (simp add: free_run_def)
  have opt: "int m = ns \<or> (\<forall>a l. free_run ?bits a l \<longrightarrow> l \<le> m)" and m: "int m \<le> ns"
    using inv run_inv_end(2) [of ?bits n r] by (auto simp: m_def)
  have tas: "test_and_set (int (T - n)) (int T) (int s, int (s + r)) = (int a, int (a + m))"
    using inv(1) test_and_set_eq [of n T s r] by (simp add: run_inv_def a_def m_def Let_def)
  have eq: "psc_vbitmap_getncontig vb ns =
      (if m = 0 then Some (vb, ns, int m)
       else do { bs \<leftarrow> vb_mark_bits (vb_buf vb) [a..<a + m];
                 Some (vb\<lparr>vb_buf := bs\<rparr>, int a, int m) })"
    by (simp add: psc_vbitmap_getncontig_def loop tas nat_int_add del: of_nat_add) simp
  show ?thesis
  proof (cases "m = 0")
    case True
    then show ?thesis using eq m assms(1) opt
      by (intro exI [of _ vb] exI [of _ ns] exI [of _ 0]) auto
  next
    case False
    have "i < 8 * length (vb_buf vb)" if "i \<in> set [a..<a + m]" for i
      using that le vb_wf_size_le [OF assms(1)] by auto
    then obtain bs where bs: "vb_mark_bits (vb_buf vb) [a..<a + m] = Some bs"
      "length bs = length (vb_buf vb)"
      "\<forall>i. buf_bit bs i = (buf_bit (vb_buf vb) i \<or> i \<in> set [a..<a + m])"
      using mark_bits_spec by blast
    show ?thesis
      using eq False m run opt bs vb_wf_buf_update [OF assms(1) bs(2)]
      by (intro exI [of _ "vb\<lparr>vb_buf := bs\<rparr>"] exI [of _ "int a"] exI [of _ m]) auto
  qed
qed

theorem getncontig_spec_witness:
  "\<exists>vb' out. psc_vbitmap_getncontig (psc_vbitmap_newf 11 0) 4 = Some (vb', out, 4)"
proof -
  let ?vb = "psc_vbitmap_newf 11 0"
  obtain vb' out n where r: "psc_vbitmap_getncontig ?vb 4 = Some (vb', out, int n)" "int n \<le> 4"
    and opt: "int n = 4 \<or> (\<forall>a l. free_run (vb_bits ?vb) a l \<longrightarrow> l \<le> n)"
    using getncontig_spec [OF newf_wf, of 4 11 0] by auto
  have "free_run (vb_bits ?vb) 0 11" by (simp add: free_run_def newf_bits)
  then have "int n = 4 \<or> 11 \<le> n" using opt by blast
  then have "int n = 4" using r(2) by auto
  then show ?thesis using r(1) by auto
qed

subsection \<open>Largest free region\<close>

lemma lcr_bits_run:
  assumes "run_inv xs (8 * p + i) n r" "i \<le> 8" "8 * p + 8 \<le> length xs"
    and "\<And>j. j < 8 \<Longrightarrow> xs ! (8 * p + j) = bit b j"
    and "vb_lcr_bits b i (n, r) = (n', r')"
  shows "run_inv xs (8 * p + 8) n' r'"
  using assms
proof (induction b i "(n, r)" arbitrary: n r rule: vb_lcr_bits.induct)
  case (1 b i n r)
  show ?case
  proof (cases "i < 8")
    case True
    have "run_inv xs (8 * p + (i + 1)) (if bit b i then 0 else n + 1) (if bit b i then max r n else r)"
      using run_inv_set [OF "1.prems"(1)] run_inv_free [OF "1.prems"(1)] True "1.prems"(3,4) by simp
    then show ?thesis
      using True "1.hyps" "1.prems"(3-5)
      by (simp add: vb_lcr_bits.simps [of b i] byte_bit_and_eq_0 max_def del: push_bit_of_1
          split: if_splits)
  next
    case False
    then show ?thesis using "1.prems" by (simp add: vb_lcr_bits.simps)
  qed
qed

lemma lcr_bits_fast:
  "vb_lcr_bits 0 0 (n, r) = (n + 8, r)"
  "vb_lcr_bits 0xff 0 (n, r) = (0, if r < n then n else r)"
  by (simp_all add: vb_lcr_bits.simps to_int_def)

lemma lcr_loop_step:
  assumes "p < vb_end vb \<or> (p = vb_end vb \<and> vb_lastsize vb \<noteq> 0)" "p < length (vb_buf vb)"
  shows "vb_lcr_loop vb p n r = (let (n, r) = vb_lcr_bits (vb_buf vb ! p) 0 (n, r) in vb_lcr_loop vb (p + 1) n r)"
  using assms by (subst vb_lcr_loop.simps) (auto simp: mem_simps lcr_bits_fast Let_def)

lemma lcr_loop_spec:
  assumes "vb_wf vb" "vb_buf vb \<noteq> []" "p \<le> Suc (vb_end vb)"
    and "xs = map (buf_bit (vb_buf vb)) [0..<8 * length (vb_buf vb)]"
    and "run_inv xs (8 * p) n r"
  shows "\<exists>m. vb_lcr_loop vb p n r = Some m \<and> (\<exists>a. free_run xs a m) \<and>
           (\<forall>a l. free_run xs a l \<longrightarrow> l \<le> m)"
  using assms(3,5)
proof (induction "Suc (vb_end vb) - p" arbitrary: p n r)
  case 0
  note wf = vb_wf_nonempty [OF assms(1,2)]
  have "8 * p = length xs" "vb_end vb < p" using 0 wf by (auto simp: assms(4))
  moreover have "vb_lcr_loop vb p n r = Some (max r n)"
    using calculation by (subst vb_lcr_loop.simps) (simp add: max_def)
  ultimately show ?case using run_inv_end [of xs n r] 0 by auto
next
  case (Suc k)
  note wf = vb_wf_nonempty [OF assms(1,2)]
  obtain n' r' where nr: "vb_lcr_bits (vb_buf vb ! p) 0 (n, r) = (n', r')" by fastforce
  have p: "p \<le> vb_end vb" using Suc.hyps(2) by simp
  have "run_inv xs (8 * p + 8) n' r'"
  proof (rule lcr_bits_run)
    show "run_inv xs (8 * p + 0) n r" using Suc.prems by simp
    show "vb_lcr_bits (vb_buf vb ! p) 0 (n, r) = (n', r')" by (rule nr)
  qed (use p wf in \<open>auto simp: assms(4)\<close>)
  then have "\<exists>m. vb_lcr_loop vb (p + 1) n' r' = Some m \<and> (\<exists>a. free_run xs a m) \<and>
      (\<forall>a l. free_run xs a l \<longrightarrow> l \<le> m)"
    using Suc.hyps(2) by (intro Suc.hyps(1)) (auto simp: add.commute)
  moreover have "vb_lcr_loop vb p n r = vb_lcr_loop vb (p + 1) n' r'"
    using p wf by (subst lcr_loop_step) (auto simp: nr)
  ultimately show ?case by simp
qed

lemma clear_unalloc_spec:
  assumes "vb_wf vb"
  shows "\<exists>bs. VB_CLEAR_UNALLOC vb = Some (vb\<lparr>vb_buf := bs\<rparr>) \<and> length bs = length (vb_buf vb) \<and>
    (\<forall>i < 8 * length bs. buf_bit bs i = (buf_bit (vb_buf vb) i \<and> i < psc_vbitmap_getsize vb))"
proof (cases "vb_lastsize vb \<noteq> 0 \<and> vb_lastsize vb \<noteq> 8")
  case True
  then have "vb_buf vb \<noteq> []" using assms by (auto simp: vb_wf_def)
  note wf = vb_wf_nonempty [OF assms this]
  let ?b = "to_u8 (to_int (vb_buf vb ! vb_end vb) AND NOT (push_bit (vb_lastsize vb) 0xff))"
  have b: "bit ?b j \<longleftrightarrow> bit (vb_buf vb ! vb_end vb) j \<and> j < vb_lastsize vb" if "j < 8" for j
    using that wf by (auto simp: c_bits)
  have "buf_bit ((vb_buf vb)[vb_end vb := ?b]) i =
      (buf_bit (vb_buf vb) i \<and> i < psc_vbitmap_getsize vb)" if "i < 8 * length (vb_buf vb)" for i
  proof -
    obtain q r where i: "i = 8 * q + r" "r < 8" by (rule byte_pos_cases)
    then have "q \<le> vb_end vb" using that wf by simp
    then show ?thesis
      using wf b [OF i(2)] i by (auto simp: nth_list_update psc_vbitmap_getsize_def)
  qed
  then show ?thesis
    using True wf by (intro exI [of _ "(vb_buf vb)[vb_end vb := ?b]"])
      (auto simp: VB_CLEAR_UNALLOC_def mem_simps simp del: push_bit_numeral)
next
  case False
  then have "8 * length (vb_buf vb) = psc_vbitmap_getsize vb"
    using assms by (auto simp: vb_wf_def psc_vbitmap_getsize_def split: if_splits)
  then show ?thesis
    using False by (intro exI [of _ "vb_buf vb"]) (auto simp: VB_CLEAR_UNALLOC_def)
qed

text \<open>
  \<^verbatim>\<open>psc_vbitmap_lcr\<close> returns the length of the longest free region of the bitmap padded with
  free bits to a whole number of bytes, and changes none of the bits. For a size that is not a
  multiple of eight it can therefore exceed the longest free region of the bitmap itself.
\<close>

theorem lcr_spec:
  assumes "vb_wf vb"
    and "xs = vb_bits vb @ replicate (8 * length (vb_buf vb) - psc_vbitmap_getsize vb) False"
  shows "\<exists>vb' m. psc_vbitmap_lcr vb = Some (vb', m) \<and> vb_bits vb' = vb_bits vb \<and> vb_wf vb' \<and>
           (\<exists>a. free_run xs a m) \<and> (\<forall>a l. free_run xs a l \<longrightarrow> l \<le> m)"
proof -
  obtain bs where bs: "VB_CLEAR_UNALLOC vb = Some (vb\<lparr>vb_buf := bs\<rparr>)"
    "length bs = length (vb_buf vb)"
    "\<forall>i < 8 * length bs. buf_bit bs i = (buf_bit (vb_buf vb) i \<and> i < psc_vbitmap_getsize vb)"
    using clear_unalloc_spec [OF assms(1)] by blast
  let ?vb = "vb\<lparr>vb_buf := bs\<rparr>"
  have wf: "vb_wf ?vb" using assms(1) bs(2) by (rule vb_wf_buf_update)
  have bits: "vb_bits ?vb = vb_bits vb"
    using bs vb_wf_size_le [OF assms(1)] by (intro nth_equalityI) auto
  have xs: "xs = map (buf_bit bs) [0..<8 * length bs]"
    using bs vb_wf_size_le [OF assms(1)] by (intro nth_equalityI) (auto simp: assms(2) nth_append)
  show ?thesis
  proof (cases "bs = []")
    case True
    then have "vb_end vb = 0 \<and> vb_lastsize vb = 0" using wf by (simp add: vb_wf_def)
    then show ?thesis
      using True bs(1) bits wf
      by (auto simp: psc_vbitmap_lcr_def vb_lcr_loop.simps xs free_run_def)
  next
    case False
    then show ?thesis
      using lcr_loop_spec [OF wf, of 0 xs 0 0] bs(1) bits wf run_inv_0
      by (auto simp: psc_vbitmap_lcr_def xs)
  qed
qed

theorem lcr_spec_witness:
  "\<exists>vb' m. psc_vbitmap_lcr (psc_vbitmap_newf 3 0) = Some (vb', m) \<and> 8 \<le> m"
proof -
  let ?vb = "psc_vbitmap_newf 3 0"
  have xs: "vb_bits ?vb @ replicate (8 * length (vb_buf ?vb) - psc_vbitmap_getsize ?vb) False =
      replicate 8 False"
    by (simp add: newf_bits newf_buf howmany_def flip: replicate_add)
  obtain vb' m where r: "psc_vbitmap_lcr ?vb = Some (vb', m)"
    and max: "\<forall>a l. free_run (replicate 8 False) a l \<longrightarrow> l \<le> m"
    using lcr_spec [OF newf_wf refl, of 3 0] unfolding xs by auto
  have "free_run (replicate 8 False) 0 8" by (simp add: free_run_def)
  then show ?thesis using r max by auto
qed

subsection \<open>Range tests\<close>

lemma range_is_add: "range_is bs val a (k + m) \<longleftrightarrow> range_is bs val a k \<and> range_is bs val (a + k) m"
proof -
  have "i < k + m \<longleftrightarrow> i < k \<or> (\<exists>j < m. i = k + j)" for i
    by (metis add_diff_inverse_nat nat_add_left_cancel_less trans_less_add1)
  then show ?thesis by (auto simp: range_is_def add.assoc)
qed

lemma range_is_byte:
  "s + len \<le> 8 \<Longrightarrow> range_is bs val (8 * p + s) len \<longleftrightarrow> (\<forall>j < len. bit (bs ! p) (s + j) = val)"
  using buf_bit_at [of "s + _" bs p] by (simp add: range_is_def add.assoc)

lemma byte_eq_fill:
  "(b :: u8) = (if val then 0xff else 0) \<longleftrightarrow> (\<forall>j < 8. bit b j = val)"
  by (auto simp: u8_eq_ff_iff u8_eq_0_iff)

lemma last_byte_test:
  assumes "0 < len" "len \<le> 8"
  shows "(if (if val then 0xff else 0 :: u8) \<noteq> 0
          then 0xff AND (to_int b OR push_bit len 0xff) = (0xff :: u32)
          else to_int b AND NOT (push_bit len 0xff) = 0) \<longleftrightarrow> (\<forall>j < len. bit b j = val)"
proof (cases val)
  case True
  have "0xff AND (to_int b OR push_bit len 0xff) = (0xff :: u32) \<longleftrightarrow>
      (\<forall>n < 32. n < 8 \<longrightarrow> bit b n \<or> len \<le> n)"
    by (auto simp: bit_eq_iff c_bits simp del: push_bit_numeral)
  also have "\<dots> \<longleftrightarrow> (\<forall>j < len. bit b j)"
  proof safe
    fix j assume "\<forall>n < 32. n < 8 \<longrightarrow> bit b n \<or> len \<le> n" "j < len"
    then show "bit b j" using assms by (auto dest: spec [of _ j])
  qed auto
  finally show ?thesis using True by simp
next
  case False
  have "to_int b AND NOT (push_bit len 0xff) = 0 \<longleftrightarrow> (\<forall>n < 32. bit b n \<longrightarrow> len \<le> n)"
    by (auto simp: bit_eq_iff c_bits simp del: push_bit_numeral dest: bit_u8_bound)
  also have "\<dots> \<longleftrightarrow> (\<forall>j < len. \<not> bit b j)"
  proof safe
    fix j assume "\<forall>n < 32. bit b n \<longrightarrow> len \<le> n" "j < len" "bit b j"
    then show False using bit_u8_bound [of b j] by (auto dest: spec [of _ j])
  qed (use not_le in blast)
  finally show ?thesis using False by simp
qed

lemma israngeset_tail_spec:
  assumes "vb_wf vb" "8 * p + len \<le> psc_vbitmap_getsize vb"
  shows "vb_israngeset_tail vb (if val then 0xff else 0) p len =
           Some (range_is (vb_buf vb) val (8 * p) len)"
  using assms(2)
proof (induction len arbitrary: p rule: less_induct)
  case (less len)
  let ?fv = "if val then 0xff else 0 :: u8"
  show ?case
  proof (cases "p < vb_end vb \<and> 8 \<le> len")
    case True
    have p: "p < length (vb_buf vb)"
      using True assms(1) by (auto simp: vb_wf_def split: if_splits)
    have "range_is (vb_buf vb) val (8 * p) len \<longleftrightarrow>
        vb_buf vb ! p = ?fv \<and> range_is (vb_buf vb) val (8 * (p + 1)) (len - 8)"
      using True range_is_add [of "vb_buf vb" val "8 * p" 8 "len - 8"]
        range_is_byte [of 0 8 "vb_buf vb" val p] byte_eq_fill [of "vb_buf vb ! p" val]
      by (simp add: add.commute)
    then show ?thesis
      using True p less.IH [of "len - 8" "p + 1"] less.prems
      by (subst vb_israngeset_tail.simps) (simp add: mem_simps)
  next
    case False
    then have len: "len \<le> 8" "len \<noteq> 0 \<Longrightarrow> p < length (vb_buf vb)"
      using less.prems assms(1) by (auto simp: vb_wf_def psc_vbitmap_getsize_def split: if_splits)
    then have "range_is (vb_buf vb) val (8 * p) len \<longleftrightarrow> (\<forall>j < len. bit (vb_buf vb ! p) j = val)"
      using range_is_byte [of 0 len "vb_buf vb" val p] by simp
    then show ?thesis
      using False len last_byte_test [of len val "vb_buf vb ! p"]
      by (subst vb_israngeset_tail.simps, cases "len = 0")
        (simp_all only: mem_simps psc_assert_bind if_False if_True bind.bind_lunit not_False_eq_True
          range_is_def, simp_all)
  qed
qed

lemma first_byte_test:
  assumes "s < 8" "0 < len"
  shows "to_int b AND push_bit s (push_bit (min len 8) 1 - 1) =
           to_int (if val then 0xff else 0) AND push_bit s (push_bit (min len 8) 1 - 1) \<longleftrightarrow>
         (\<forall>j < min len (8 - s). bit b (s + j) = val)" (is "?l \<longleftrightarrow> ?r")
proof -
  have m: "push_bit (min len 8) 1 - 1 = (mask (min len 8) :: u32)"
    by (simp add: mask_eq_exp_minus_1)
  have "?l \<longleftrightarrow> (\<forall>n < 32. s \<le> n \<and> n - s < min len 8 \<and> n < 8 \<longrightarrow> bit b n = val)"
    by (auto simp: m bit_eq_iff c_bits bit_mask_iff simp del: push_bit_of_1 dest: bit_u8_bound)
  also have "\<dots> \<longleftrightarrow> ?r"
  proof
    assume h: "\<forall>n < 32. s \<le> n \<and> n - s < min len 8 \<and> n < 8 \<longrightarrow> bit b n = val"
    have "bit b (s + j) = val" if "j < min len (8 - s)" for j
      using that h [rule_format, of "s + j"] by (simp add: less_diff_conv add.commute)
    then show ?r by blast
  next
    assume h: ?r
    have "bit b n = val" if "s \<le> n" "n - s < min len 8" "n < 8" for n
      using that h [rule_format, of "n - s"] by simp
    then show "\<forall>n < 32. s \<le> n \<and> n - s < min len 8 \<and> n < 8 \<longrightarrow> bit b n = val" by blast
  qed
  finally show ?thesis .
qed

lemma israngeset_eq:
  assumes "vb_wf vb" "start + len \<le> psc_vbitmap_getsize vb" "psc_vbitmap_getsize vb < 2 ^ 64"
  shows "pfl_vbitmap_israngeset vb val start len =
           Some (\<forall>i < range_checked start len. vb_bits vb ! (start + i) = val)"
proof (cases "len = 0")
  case False
  obtain p s where start: "start = 8 * p + s" "s < 8" by (rule byte_pos_cases)
  have pos: "start div 8 = p" "start mod 8 = s" using start by simp_all
  have p: "p < length (vb_buf vb)"
    using False assms(2) vb_wf_byte_less [OF assms(1), of start] pos by simp
  have asserts: "start < psc_vbitmap_getsize vb" "size_add start len = start + len"
    using False assms by (simp_all add: size_add_def)
  have "range_checked start len \<le> len" by (simp add: range_checked_def)
  then have res: "(\<forall>i < range_checked start len. vb_bits vb ! (start + i) = val) \<longleftrightarrow>
      range_is (vb_buf vb) val start (range_checked start len)"
    using assms(2) by (auto simp: range_is_def)
  have first: "to_int (vb_buf vb ! p) AND push_bit s (push_bit (min len 8) 1 - 1) =
      to_int (if val then 0xff else 0) AND push_bit s (push_bit (min len 8) 1 - 1) \<longleftrightarrow>
      range_is (vb_buf vb) val start (min len (8 - s))"
    using first_byte_test [of s len "vb_buf vb ! p" val]
      range_is_byte [of s "min len (8 - s)" "vb_buf vb" val p] start False
    by (simp del: push_bit_of_1)
  have rest: "range_is (vb_buf vb) val start len \<longleftrightarrow> range_is (vb_buf vb) val start (8 - s) \<and>
      range_is (vb_buf vb) val (8 * (p + 1)) (len - (8 - s))" if "8 \<le> len"
    using range_is_add [of "vb_buf vb" val start "8 - s" "len - (8 - s)"] that start
    by (simp add: add.commute)
  show ?thesis
    unfolding pfl_vbitmap_israngeset_def res
    using False asserts assms(2) p start first rest
      israngeset_tail_spec [OF assms(1), of p len val]
      israngeset_tail_spec [OF assms(1), of "p + 1" "len - (8 - s)" val]
    by (auto simp: Let_def pos mem_simps range_checked_def simp del: push_bit_of_1)
qed (simp add: pfl_vbitmap_israngeset_def range_checked_def)

lemma isfull_eq:
  assumes "vb_wf vb" "psc_vbitmap_getsize vb < 2 ^ 64"
  shows "psc_vbitmap_isfull vb = Some (list_all id (vb_bits vb))"
    "pfl_vbitmap_isempty vb = Some (list_all Not (vb_bits vb))"
  using assms by (auto simp: psc_vbitmap_isfull_def pfl_vbitmap_isempty_def israngeset_eq
      range_checked_def list_all_length)

text \<open>
  The range test: the call returns whether all bits it inspects have the asked value. It
  inspects the whole range, except when the range starts inside a byte, has fewer than eight
  bits and crosses into the next byte; then the bits in that next byte are ignored.
\<close>

theorem israngeset_spec:
  assumes "vb_wf vb" "start + len \<le> psc_vbitmap_getsize vb" "psc_vbitmap_getsize vb < 2 ^ 64"
  shows "pfl_vbitmap_israngeset vb val start len =
           Some (\<forall>i < range_checked start len. vb_bits vb ! (start + i) = val)"
  using assms by (rule israngeset_eq)

theorem israngeset_spec_witness:
  "\<exists>vb. vb_bits vb ! 8 \<and> pfl_vbitmap_israngeset vb False 6 4 = Some True"
proof -
  obtain vb where vb: "psc_vbitmap_setval (psc_vbitmap_newf 16 0) 8 True = Some (vb, 0)"
    "vb_bits vb = (replicate 16 False)[8 := True]" "vb_wf vb"
    using setval_spec [OF newf_wf, of 8 16 0 True] by (auto simp: newf_bits)
  then have "psc_vbitmap_getsize vb = 16" by (metis length_list_update length_replicate length_vb_bits)
  then have "pfl_vbitmap_israngeset vb False 6 4 =
      Some (\<forall>i < range_checked 6 4. vb_bits vb ! (6 + i) = False)"
    using israngeset_spec [OF vb(3), of 6 4 False] by simp
  moreover have "range_checked 6 4 = 2" by (simp add: range_checked_def)
  ultimately show ?thesis
    using vb(2) by (intro exI [of _ vb]) (auto simp: nth_list_update simp del: nth_vb_bits)
qed

text \<open>
  Counting: the number of free bits is the number of false entries of the represented list,
  and the number of set bits that of the true ones.
\<close>

theorem nfree_spec:
  assumes "vb_wf vb"
  shows "psc_vbitmap_nfree vb = Some (length (filter Not (vb_bits vb))) \<and>
         psc_vbitmap_nset vb = Some (length (filter id (vb_bits vb)))"
  by (simp add: nfree_eq nset_eq assms)

theorem nfree_spec_witness:
  "psc_vbitmap_nfree (psc_vbitmap_newf 213 0) = Some 213"
  using nfree_spec [OF newf_wf, of 213 0] by (simp add: newf_bits)

end
