(* ===== verification/Bytes.thy ===== *)
theory Bytes
  imports Prelude
begin

text \<open>
  Structures in files. A file is its list of bytes; \<open>pread\<close> and \<open>pwrite\<close> are the positional
  reads and writes of POSIX (a short read, which the callers treat as fatal, is \<^const>\<open>None\<close>;
  a write beyond the end fills the gap with zero bytes). Integers are stored in the byte order
  of the machines the file system runs on, least significant byte first. The locale
  \<open>byte_codec\<close> is the contract of a fixed-width encoding.
\<close>

definition pread :: "u8 list \<Rightarrow> nat \<Rightarrow> nat \<Rightarrow> u8 list option" where
  "pread d off n = (if off + n \<le> length d then Some (take n (drop off d)) else None)"

definition pwrite :: "u8 list \<Rightarrow> nat \<Rightarrow> u8 list \<Rightarrow> u8 list" where
  "pwrite d off bs =
     take off d @ replicate (off - length d) 0 @ bs @ drop (off + length bs) d"

definition le32 :: "u32 \<Rightarrow> u8 list" where
  "le32 w = map (\<lambda>i. ucast (drop_bit (8 * i) w)) [0..<4]"

definition un_le32 :: "u8 list \<Rightarrow> u32" where
  "un_le32 bs = foldr (\<lambda>b w. ucast b OR push_bit 8 w) (take 4 bs) 0"

definition le64 :: "u64 \<Rightarrow> u8 list" where
  "le64 w = map (\<lambda>i. ucast (drop_bit (8 * i) w)) [0..<8]"

definition un_le64 :: "u8 list \<Rightarrow> u64" where
  "un_le64 bs = foldr (\<lambda>b w. ucast b OR push_bit 8 w) (take 8 bs) 0"

definition le16 :: "16 word \<Rightarrow> u8 list" where
  "le16 w = map (\<lambda>i. ucast (drop_bit (8 * i) w)) [0..<2]"

definition un_le16 :: "u8 list \<Rightarrow> 16 word" where
  "un_le16 bs = foldr (\<lambda>b w. ucast b OR push_bit 8 w) (take 2 bs) 0"

text \<open>Arrays of such values.\<close>

definition enc_arr :: "('a \<Rightarrow> u8 list) \<Rightarrow> 'a list \<Rightarrow> u8 list" where
  "enc_arr enc xs = concat (map enc xs)"

definition dec_arr :: "(u8 list \<Rightarrow> 'a) \<Rightarrow> nat \<Rightarrow> nat \<Rightarrow> u8 list \<Rightarrow> 'a list" where
  "dec_arr dec w n bs = map (\<lambda>i. dec (drop (w * i) bs)) [0..<n]"

subsection \<open>Reads and writes\<close>

lemma length_pwrite [simp]: "length (pwrite d off bs) = max (length d) (off + length bs)"
  by (cases "length d \<le> off") (auto simp: pwrite_def max_def)

lemma nth_pwrite:
  "i < length (pwrite d off bs) \<Longrightarrow> pwrite d off bs ! i =
     (if off \<le> i \<and> i < off + length bs then bs ! (i - off)
      else if i < length d then d ! i else 0)"
  by (auto simp: pwrite_def nth_append min_def max_def split: if_splits)

lemma pread_eq_SomeI:
  assumes "off + n \<le> length d" "length bs = n" "\<And>i. i < n \<Longrightarrow> d ! (off + i) = bs ! i"
  shows "pread d off n = Some bs"
  using assms by (auto simp: pread_def intro: nth_equalityI)

lemma pread_SomeD:
  assumes "pread d off n = Some bs"
  shows "off + n \<le> length d" "length bs = n" "\<And>i. i < n \<Longrightarrow> d ! (off + i) = bs ! i"
  using assms by (auto simp: pread_def split: if_splits)

lemma pread_pwrite_same:
  assumes "off \<le> off'" "off' + n \<le> off + length bs"
  shows "pread (pwrite d off bs) off' n = Some (take n (drop (off' - off) bs))"
  using assms by (intro pread_eq_SomeI) (auto simp: nth_pwrite)

lemma pread_pwrite_other:
  assumes "pread d off' n = Some x" "off' + n \<le> off \<or> off + length bs \<le> off'"
  shows "pread (pwrite d off bs) off' n = Some x"
  using pread_SomeD [OF assms(1)] assms(2) by (intro pread_eq_SomeI) (auto simp: nth_pwrite)

lemma pread_pwrite_inside:
  assumes "off + length bs \<le> length d" "off' + n \<le> off \<or> off + length bs \<le> off'"
  shows "pread (pwrite d off bs) off' n = pread d off' n"
proof (cases "pread d off' n")
  case None
  then show ?thesis using assms(1) by (auto simp: pread_def max_def split: if_splits)
qed (use pread_pwrite_other [OF _ assms(2)] in simp)

lemma pread_split:
  "pread d off (m + n) =
     (case pread d off m of None \<Rightarrow> None
      | Some a \<Rightarrow> map_option ((@) a) (pread d (off + m) n))"
  by (auto simp: pread_def take_add add.commute)

subsection \<open>Encodings\<close>

locale byte_codec =
  fixes enc :: "'a \<Rightarrow> u8 list" and dec :: "u8 list \<Rightarrow> 'a" and w :: nat
  assumes enc_length: "length (enc x) = w"
    and dec_enc: "dec (enc x @ rest) = x"
begin

lemma dec_enc_id: "dec (enc x) = x"
  using dec_enc [of x "[]"] by simp

lemma enc_inj: "enc x = enc y \<longleftrightarrow> x = y"
  using dec_enc_id by metis

lemma written_read: "map_option dec (pread (pwrite d off (enc x)) off w) = Some x"
  by (simp add: pread_pwrite_same enc_length dec_enc_id)

lemma drop_enc: "drop w (enc x @ rest) = rest"
  by (simp add: enc_length)

lemma length_enc_arr: "length (enc_arr enc xs) = w * length xs"
  by (induction xs) (simp_all add: enc_arr_def enc_length)

lemma dec_enc_arr: "dec_arr dec w (length xs) (enc_arr enc xs @ rest) = xs"
proof (induction xs)
  case (Cons x xs)
  have "dec_arr dec w (length (x # xs)) (enc_arr enc (x # xs) @ rest) =
      x # dec_arr dec w (length xs) (enc_arr enc xs @ rest)"
    using dec_enc [of x "enc_arr enc xs @ rest"]
    by (simp add: dec_arr_def enc_arr_def enc_length upt_conv_Cons map_Suc_upt [symmetric] del: upt_Suc)
  then show ?case using Cons by simp
qed (simp add: dec_arr_def)

end

lemma length_le32 [simp]: "length (le32 w) = 4"
  by (simp add: le32_def)

lemma length_le64 [simp]: "length (le64 w) = 8"
  by (simp add: le64_def)

lemma bit_shl_or:
  fixes w :: "'a :: len word"
  shows "bit (ucast (b :: u8) OR push_bit 8 w) i \<longleftrightarrow>
     i < LENGTH('a) \<and> (if i < 8 then bit b i else bit w (i - 8))"
  by (auto simp: bit_or_iff bit_ucast_iff bit_push_bit_iff dest: bit_u8_bound)

lemma bit_of_bytes:
  "bit (foldr (\<lambda>b w. ucast b OR push_bit 8 w) bs (0 :: 'a :: len word)) i \<longleftrightarrow>
     i < LENGTH('a) \<and> i < 8 * length bs \<and> buf_bit bs i"
proof (induction bs arbitrary: i)
  case (Cons b bs)
  show ?case
  proof (cases "i < 8")
    case False
    then obtain j where "i = 8 + j" using le_Suc_ex not_less by blast
    then show ?thesis using Cons.IH [of j] by (auto simp: bit_shl_or buf_bit_def div_add_self1)
  qed (simp add: bit_shl_or buf_bit_def)
qed simp

lemma buf_bit_le_bytes:
  fixes w :: "'a :: len word"
  assumes "i < 8 * n"
  shows "buf_bit (map (\<lambda>i. ucast (drop_bit (8 * i) w)) [0..<n]) i = bit w i"
  using byte_index_less [OF assms]
  by (simp add: buf_bit_def bit_ucast_iff bit_drop_bit_eq)

lemma un_le32_le32: "un_le32 (le32 w @ rest) = w"
proof (rule bit_word_eqI)
  fix i assume "i < LENGTH(32)"
  then show "bit (un_le32 (le32 w @ rest)) i = bit w i"
    using buf_bit_le_bytes [of i 4 w] by (simp add: un_le32_def bit_of_bytes le32_def [symmetric])
qed

lemma un_le64_le64: "un_le64 (le64 w @ rest) = w"
proof (rule bit_word_eqI)
  fix i assume "i < LENGTH(64)"
  then show "bit (un_le64 (le64 w @ rest)) i = bit w i"
    using buf_bit_le_bytes [of i 8 w] by (simp add: un_le64_def bit_of_bytes le64_def [symmetric])
qed

lemma length_le16 [simp]: "length (le16 w) = 2"
  by (simp add: le16_def)

lemma un_le16_le16: "un_le16 (le16 w @ rest) = w"
proof (rule bit_word_eqI)
  fix i assume "i < LENGTH(16)"
  then show "bit (un_le16 (le16 w @ rest)) i = bit w i"
    using buf_bit_le_bytes [of i 2 w] by (simp add: un_le16_def bit_of_bytes le16_def [symmetric])
qed

interpretation le16: byte_codec le16 un_le16 2
  by unfold_locales (simp_all add: un_le16_le16)

interpretation le32: byte_codec le32 un_le32 4
  by unfold_locales (simp_all add: un_le32_le32)

interpretation le64: byte_codec le64 un_le64 8
  by unfold_locales (simp_all add: un_le64_le64)

end
