(* ===== verification/Crc.thy ===== *)
theory Crc
  imports Prelude
begin

text \<open>
  The 64-bit checksum of \<^verbatim>\<open>src/pfl/crc.c\<close> that protects the on-disk table, the journal and the
  metadata. The table-driven byte loop is shown to be the bit-serial division by the polynomial
  whose low coefficients are the table's entry for one; from this follow that the loop can be
  split at any point, and that a checksum never survives a change confined to eight consecutive
  bytes.
\<close>

subsection \<open>The checksum\<close>

definition psc_crc64_table :: "u64 list" where
  "psc_crc64_table =
     [0x0000000000000000, 0x42F0E1EBA9EA3693, 0x85E1C3D753D46D26, 0xC711223CFA3E5BB5,
      0x493366450E42ECDF, 0x0BC387AEA7A8DA4C, 0xCCD2A5925D9681F9, 0x8E224479F47CB76A,
      0x9266CC8A1C85D9BE, 0xD0962D61B56FEF2D, 0x17870F5D4F51B498, 0x5577EEB6E6BB820B,
      0xDB55AACF12C73561, 0x99A54B24BB2D03F2, 0x5EB4691841135847, 0x1C4488F3E8F96ED4,
      0x663D78FF90E185EF, 0x24CD9914390BB37C, 0xE3DCBB28C335E8C9, 0xA12C5AC36ADFDE5A,
      0x2F0E1EBA9EA36930, 0x6DFEFF5137495FA3, 0xAAEFDD6DCD770416, 0xE81F3C86649D3285,
      0xF45BB4758C645C51, 0xB6AB559E258E6AC2, 0x71BA77A2DFB03177, 0x334A9649765A07E4,
      0xBD68D2308226B08E, 0xFF9833DB2BCC861D, 0x388911E7D1F2DDA8, 0x7A79F00C7818EB3B,
      0xCC7AF1FF21C30BDE, 0x8E8A101488293D4D, 0x499B3228721766F8, 0x0B6BD3C3DBFD506B,
      0x854997BA2F81E701, 0xC7B97651866BD192, 0x00A8546D7C558A27, 0x4258B586D5BFBCB4,
      0x5E1C3D753D46D260, 0x1CECDC9E94ACE4F3, 0xDBFDFEA26E92BF46, 0x990D1F49C77889D5,
      0x172F5B3033043EBF, 0x55DFBADB9AEE082C, 0x92CE98E760D05399, 0xD03E790CC93A650A,
      0xAA478900B1228E31, 0xE8B768EB18C8B8A2, 0x2FA64AD7E2F6E317, 0x6D56AB3C4B1CD584,
      0xE374EF45BF6062EE, 0xA1840EAE168A547D, 0x66952C92ECB40FC8, 0x2465CD79455E395B,
      0x3821458AADA7578F, 0x7AD1A461044D611C, 0xBDC0865DFE733AA9, 0xFF3067B657990C3A,
      0x711223CFA3E5BB50, 0x33E2C2240A0F8DC3, 0xF4F3E018F031D676, 0xB60301F359DBE0E5,
      0xDA050215EA6C212F, 0x98F5E3FE438617BC, 0x5FE4C1C2B9B84C09, 0x1D14202910527A9A,
      0x93366450E42ECDF0, 0xD1C685BB4DC4FB63, 0x16D7A787B7FAA0D6, 0x5427466C1E109645,
      0x4863CE9FF6E9F891, 0x0A932F745F03CE02, 0xCD820D48A53D95B7, 0x8F72ECA30CD7A324,
      0x0150A8DAF8AB144E, 0x43A04931514122DD, 0x84B16B0DAB7F7968, 0xC6418AE602954FFB,
      0xBC387AEA7A8DA4C0, 0xFEC89B01D3679253, 0x39D9B93D2959C9E6, 0x7B2958D680B3FF75,
      0xF50B1CAF74CF481F, 0xB7FBFD44DD257E8C, 0x70EADF78271B2539, 0x321A3E938EF113AA,
      0x2E5EB66066087D7E, 0x6CAE578BCFE24BED, 0xABBF75B735DC1058, 0xE94F945C9C3626CB,
      0x676DD025684A91A1, 0x259D31CEC1A0A732, 0xE28C13F23B9EFC87, 0xA07CF2199274CA14,
      0x167FF3EACBAF2AF1, 0x548F120162451C62, 0x939E303D987B47D7, 0xD16ED1D631917144,
      0x5F4C95AFC5EDC62E, 0x1DBC74446C07F0BD, 0xDAAD56789639AB08, 0x985DB7933FD39D9B,
      0x84193F60D72AF34F, 0xC6E9DE8B7EC0C5DC, 0x01F8FCB784FE9E69, 0x43081D5C2D14A8FA,
      0xCD2A5925D9681F90, 0x8FDAB8CE70822903, 0x48CB9AF28ABC72B6, 0x0A3B7B1923564425,
      0x70428B155B4EAF1E, 0x32B26AFEF2A4998D, 0xF5A348C2089AC238, 0xB753A929A170F4AB,
      0x3971ED50550C43C1, 0x7B810CBBFCE67552, 0xBC902E8706D82EE7, 0xFE60CF6CAF321874,
      0xE224479F47CB76A0, 0xA0D4A674EE214033, 0x67C58448141F1B86, 0x253565A3BDF52D15,
      0xAB1721DA49899A7F, 0xE9E7C031E063ACEC, 0x2EF6E20D1A5DF759, 0x6C0603E6B3B7C1CA,
      0xF6FAE5C07D3274CD, 0xB40A042BD4D8425E, 0x731B26172EE619EB, 0x31EBC7FC870C2F78,
      0xBFC9838573709812, 0xFD39626EDA9AAE81, 0x3A28405220A4F534, 0x78D8A1B9894EC3A7,
      0x649C294A61B7AD73, 0x266CC8A1C85D9BE0, 0xE17DEA9D3263C055, 0xA38D0B769B89F6C6,
      0x2DAF4F0F6FF541AC, 0x6F5FAEE4C61F773F, 0xA84E8CD83C212C8A, 0xEABE6D3395CB1A19,
      0x90C79D3FEDD3F122, 0xD2377CD44439C7B1, 0x15265EE8BE079C04, 0x57D6BF0317EDAA97,
      0xD9F4FB7AE3911DFD, 0x9B041A914A7B2B6E, 0x5C1538ADB04570DB, 0x1EE5D94619AF4648,
      0x02A151B5F156289C, 0x4051B05E58BC1E0F, 0x87409262A28245BA, 0xC5B073890B687329,
      0x4B9237F0FF14C443, 0x0962D61B56FEF2D0, 0xCE73F427ACC0A965, 0x8C8315CC052A9FF6,
      0x3A80143F5CF17F13, 0x7870F5D4F51B4980, 0xBF61D7E80F251235, 0xFD913603A6CF24A6,
      0x73B3727A52B393CC, 0x31439391FB59A55F, 0xF652B1AD0167FEEA, 0xB4A25046A88DC879,
      0xA8E6D8B54074A6AD, 0xEA16395EE99E903E, 0x2D071B6213A0CB8B, 0x6FF7FA89BA4AFD18,
      0xE1D5BEF04E364A72, 0xA3255F1BE7DC7CE1, 0x64347D271DE22754, 0x26C49CCCB40811C7,
      0x5CBD6CC0CC10FAFC, 0x1E4D8D2B65FACC6F, 0xD95CAF179FC497DA, 0x9BAC4EFC362EA149,
      0x158E0A85C2521623, 0x577EEB6E6BB820B0, 0x906FC95291867B05, 0xD29F28B9386C4D96,
      0xCEDBA04AD0952342, 0x8C2B41A1797F15D1, 0x4B3A639D83414E64, 0x09CA82762AAB78F7,
      0x87E8C60FDED7CF9D, 0xC51827E4773DF90E, 0x020905D88D03A2BB, 0x40F9E43324E99428,
      0x2CFFE7D5975E55E2, 0x6E0F063E3EB46371, 0xA91E2402C48A38C4, 0xEBEEC5E96D600E57,
      0x65CC8190991CB93D, 0x273C607B30F68FAE, 0xE02D4247CAC8D41B, 0xA2DDA3AC6322E288,
      0xBE992B5F8BDB8C5C, 0xFC69CAB42231BACF, 0x3B78E888D80FE17A, 0x7988096371E5D7E9,
      0xF7AA4D1A85996083, 0xB55AACF12C735610, 0x724B8ECDD64D0DA5, 0x30BB6F267FA73B36,
      0x4AC29F2A07BFD00D, 0x08327EC1AE55E69E, 0xCF235CFD546BBD2B, 0x8DD3BD16FD818BB8,
      0x03F1F96F09FD3CD2, 0x41011884A0170A41, 0x86103AB85A2951F4, 0xC4E0DB53F3C36767,
      0xD8A453A01B3A09B3, 0x9A54B24BB2D03F20, 0x5D45907748EE6495, 0x1FB5719CE1045206,
      0x919735E51578E56C, 0xD367D40EBC92D3FF, 0x1476F63246AC884A, 0x568617D9EF46BED9,
      0xE085162AB69D5E3C, 0xA275F7C11F7768AF, 0x6564D5FDE549331A, 0x279434164CA30589,
      0xA9B6706FB8DFB2E3, 0xEB46918411358470, 0x2C57B3B8EB0BDFC5, 0x6EA7525342E1E956,
      0x72E3DAA0AA188782, 0x30133B4B03F2B111, 0xF7021977F9CCEAA4, 0xB5F2F89C5026DC37,
      0x3BD0BCE5A45A6B5D, 0x79205D0E0DB05DCE, 0xBE317F32F78E067B, 0xFCC19ED95E6430E8,
      0x86B86ED5267CDBD3, 0xC4488F3E8F96ED40, 0x0359AD0275A8B6F5, 0x41A94CE9DC428066,
      0xCF8B0890283E370C, 0x8D7BE97B81D4019F, 0x4A6ACB477BEA5A2A, 0x089A2AACD2006CB9,
      0x14DEA25F3AF9026D, 0x562E43B4931334FE, 0x913F6188692D6F4B, 0xD3CF8063C0C759D8,
      0x5DEDC41A34BBEEB2, 0x1F1D25F19D51D821, 0xD80C07CD676F8394, 0x9AFCE626CE85B507]"

primrec psc_crc64_add :: "u64 \<Rightarrow> u8 list \<Rightarrow> u64" where
  "psc_crc64_add crc0 [] = crc0"
| "psc_crc64_add crc0 (b # data) =
     psc_crc64_add
       (let idx = (ucast (drop_bit 56 crc0) XOR ucast b) AND 0xff :: u32
        in psc_crc64_table ! unat idx XOR push_bit 8 crc0) data"

definition psc_crc64_init :: u64 where
  "psc_crc64_init = 0xffffffffffffffff"

definition psc_crc64_fini :: "u64 \<Rightarrow> u64" where
  "psc_crc64_fini c = c XOR 0xffffffffffffffff"

definition psc_crc64_calc :: "u8 list \<Rightarrow> u64" where
  "psc_crc64_calc data = psc_crc64_fini (psc_crc64_add psc_crc64_init data)"

definition psc_crc64_verify :: "u64 \<Rightarrow> u8 list \<Rightarrow> bool" where
  "psc_crc64_verify c data \<longleftrightarrow> psc_crc64_calc data = c"

text \<open>The 32-bit variant indexes the same 64-bit table and truncates the entry.\<close>

primrec psc_crc32_add :: "u32 \<Rightarrow> u8 list \<Rightarrow> u32" where
  "psc_crc32_add crc0 [] = crc0"
| "psc_crc32_add crc0 (b # data) =
     psc_crc32_add
       (let idx = (drop_bit 24 crc0 XOR ucast b) AND 0xff
        in ucast (psc_crc64_table ! unat idx XOR ucast (push_bit 8 crc0))) data"

definition psc_crc32_calc :: "u8 list \<Rightarrow> u32" where
  "psc_crc32_calc data = psc_crc32_add 0xffffffff data XOR 0xffffffff"

definition psc_crc32_verify :: "u32 \<Rightarrow> u8 list \<Rightarrow> bool" where
  "psc_crc32_verify c data \<longleftrightarrow> psc_crc32_calc data = c"

subsection \<open>Bit-serial reference\<close>

definition crc_poly :: u64 where
  "crc_poly = 0x42F0E1EBA9EA3693"

definition crc_bit :: "u64 \<Rightarrow> u64" where
  "crc_bit c = (if bit c 63 then push_bit 1 c XOR crc_poly else push_bit 1 c)"

definition crc_bits :: "nat \<Rightarrow> u64 \<Rightarrow> u64" where
  "crc_bits n = crc_bit ^^ n"

definition top_byte :: "nat \<Rightarrow> u64" where
  "top_byte k = push_bit 56 (word_of_nat k)"

text \<open>At most eight bytes as the leading bytes of a word.\<close>

primrec msg_word :: "u8 list \<Rightarrow> u64" where
  "msg_word [] = 0"
| "msg_word (b # bs) = push_bit 56 (ucast b) XOR drop_bit 8 (msg_word bs)"

primrec crc_ref :: "u64 \<Rightarrow> u8 list \<Rightarrow> u64" where
  "crc_ref c [] = c"
| "crc_ref c (b # bs) = crc_ref (crc_bits 8 (c XOR push_bit 56 (ucast b))) bs"

text \<open>Entries \<open>2k\<close> and \<open>2k + 1\<close> of the table are determined by entry \<open>k\<close>.\<close>

fun table_rec :: "u64 list \<Rightarrow> u64 list \<Rightarrow> bool" where
  "table_rec (x # xs) (a # b # ys) \<longleftrightarrow> a = crc_bit x \<and> b = a XOR crc_poly \<and> table_rec xs ys"
| "table_rec xs ys \<longleftrightarrow> True"

subsection \<open>The table\<close>

lemma crc_bit_numeral:
  "crc_bit (numeral n) = (if bit (numeral n :: u64) 63 then push_bit 1 (numeral n) XOR 0x42F0E1EBA9EA3693
     else push_bit 1 (numeral n))"
  by (simp only: crc_bit_def crc_poly_def)

lemma crc_bit_0 [simp]: "crc_bit 0 = 0"
  by (simp add: crc_bit_def)

lemma table_rec_table: "table_rec psc_crc64_table psc_crc64_table"
  unfolding psc_crc64_table_def
  by (simp add: crc_bit_numeral crc_poly_def)

lemma table_recD:
  assumes "table_rec xs ys" "j < length xs" "2 * j + 1 < length ys"
  shows "ys ! (2 * j) = crc_bit (xs ! j) \<and> ys ! (2 * j + 1) = ys ! (2 * j) XOR crc_poly"
  using assms
proof (induction xs ys arbitrary: j rule: table_rec.induct)
  case (1 x xs a b ys)
  then show ?case by (cases j) auto
qed auto

lemma bit_push64: "bit (push_bit n (c :: u64)) i \<longleftrightarrow> n \<le> i \<and> i < 64 \<and> bit c (i - n)"
  by (auto simp: bit_simps)

lemma crc_bit_xor: "crc_bit (a XOR b) = crc_bit a XOR crc_bit b"
  by (auto simp: crc_bit_def bit_xor_iff push_bit_xor ac_simps xor.left_commute)

lemma crc_bits_xor: "crc_bits n (a XOR b) = crc_bits n a XOR crc_bits n b"
  by (induction n) (simp_all add: crc_bits_def crc_bit_xor)

lemma crc_bits_0 [simp]: "crc_bits n 0 = 0"
  by (induction n) (simp_all add: crc_bits_def)

lemma crc_bits_Suc: "crc_bits (Suc n) c = crc_bits n (crc_bit c)"
  by (simp add: crc_bits_def funpow_Suc_right del: funpow.simps)

lemma crc_bits_add: "crc_bits (m + n) c = crc_bits m (crc_bits n c)"
  by (simp add: crc_bits_def funpow_add)

text \<open>Bits below the top leave by plain shifting.\<close>

lemma crc_bits_shift:
  "(\<And>i. 64 \<le> i + n \<Longrightarrow> i < 64 \<Longrightarrow> \<not> bit c i) \<Longrightarrow> n \<le> 64 \<Longrightarrow> crc_bits n c = push_bit n c"
proof (induction n arbitrary: c)
  case (Suc n)
  have "crc_bit c = push_bit 1 c" using Suc.prems(1) [of 63] Suc.prems(2) by (simp add: crc_bit_def)
  moreover have "crc_bits n (push_bit 1 c) = push_bit n (push_bit 1 c)"
    using Suc.prems by (intro Suc.IH) (simp_all only: bit_push64, auto)
  ultimately show ?case by (simp add: crc_bits_Suc push_bit_push_bit del: push_bit_Suc)
qed (simp add: crc_bits_def)

lemma crc_bits_poly: "crc_bits 8 (push_bit 56 1) = crc_poly"
proof -
  have "crc_bits 8 (push_bit 56 1) = crc_bit (crc_bits 7 (push_bit 56 1))"
    using crc_bits_add [of 1 7] by (simp add: crc_bits_def)
  also have "crc_bits 7 (push_bit 56 1) = push_bit 7 (push_bit 56 1)"
    by (rule crc_bits_shift) (auto simp: bit_push64 bit_1_iff simp del: push_bit_of_1)
  finally show ?thesis by (simp add: crc_bit_def crc_poly_def)
qed

lemma top_byte_0 [simp]: "top_byte 0 = 0"
  by (simp add: top_byte_def)

lemma top_byte_double:
  assumes "j < 128"
  shows "crc_bit (top_byte j) = top_byte (2 * j)"
proof -
  have "\<not> bit j 7" using assms by (simp add: bit_iff_odd)
  then have "\<not> bit (top_byte j) 63" by (simp add: top_byte_def bit_push64 bit_of_nat_iff)
  moreover have "(word_of_nat (2 * j) :: u64) = push_bit 1 (word_of_nat j)" by simp
  ultimately show ?thesis
    by (simp only: crc_bit_def top_byte_def push_bit_push_bit if_False add.commute)
qed

lemma top_byte_odd: "top_byte (2 * j + 1) = top_byte (2 * j) XOR push_bit 56 1"
proof -
  have "(word_of_nat (2 * j + 1) :: u64) = word_of_nat (2 * j) XOR 1"
    by (simp add: xor_one_eq add.commute)
  then show ?thesis by (simp only: top_byte_def push_bit_xor)
qed

lemma table_entry: "k < 256 \<Longrightarrow> psc_crc64_table ! k = crc_bits 8 (top_byte k)"
proof (induction k rule: less_induct)
  case (less k)
  have len: "length psc_crc64_table = 256" by (simp add: psc_crc64_table_def)
  show ?case
  proof (cases "k = 0")
    case True
    then show ?thesis by (simp add: psc_crc64_table_def)
  next
    case False
    then obtain j where j: "j < k" "j < 128" "k = 2 * j \<or> k = 2 * j + 1"
      using less.prems by (intro that [of "k div 2"]) auto
    note row = table_recD [OF table_rec_table, unfolded len, of j]
    have "crc_bit (crc_bits 8 (top_byte j)) = crc_bits 8 (crc_bit (top_byte j))"
      by (simp add: crc_bits_def funpow_swap1)
    then have "psc_crc64_table ! (2 * j) = crc_bits 8 (top_byte (2 * j))"
      using row less.IH [of j] j by (simp add: top_byte_double)
    then show ?thesis
      using row j(2,3) unfolding top_byte_odd by (auto simp: crc_bits_xor crc_bits_poly top_byte_odd
          simp del: push_bit_of_1 add_2_eq_Suc' Suc_eq_plus1 [symmetric] One_nat_def) 
  qed
qed

subsection \<open>The byte loop is the bit-serial division\<close>

lemma crc_byte_eq:
  fixes c :: u64 and b :: u8
  defines "idx \<equiv> (ucast (drop_bit 56 c) XOR ucast b) AND 0xff :: u32"
  shows "psc_crc64_table ! unat idx XOR push_bit 8 c = crc_bits 8 (c XOR push_bit 56 (ucast b))"
proof -
  have bit: "bit idx i \<longleftrightarrow> i < 8 \<and> (bit c (56 + i) \<noteq> bit b i)" for i
    by (auto simp: idx_def bit_and_iff c_bits bit_xor_iff bit_ucast_iff bit_drop_bit_eq)
  have "idx = take_bit 8 idx" by (rule bit_word_eqI) (auto simp: bit bit_take_bit_iff)
  then have "unat idx < 2 ^ 8"
    by (metis unsigned_take_bit_eq take_bit_nat_less_exp)
  then have "psc_crc64_table ! unat idx = crc_bits 8 (push_bit 56 (ucast idx))"
    by (simp add: table_entry top_byte_def)
  moreover have "push_bit 8 c = crc_bits 8 (take_bit 56 c)"
  proof -
    have "crc_bits 8 (take_bit 56 c) = push_bit 8 (take_bit 56 c)"
      by (rule crc_bits_shift) (auto simp: bit_take_bit_iff)
    also have "\<dots> = push_bit 8 c"
      by (rule bit_word_eqI) (auto simp: bit_push64 bit_take_bit_iff)
    finally show ?thesis by simp
  qed
  moreover have "c XOR push_bit 56 (ucast b) = push_bit 56 (ucast idx) XOR take_bit 56 c"
    by (rule bit_word_eqI)
       (auto simp: bit bit_push64 bit_take_bit_iff bit_xor_iff bit_ucast_iff)
  ultimately show ?thesis by (simp add: crc_bits_xor)
qed

lemma crc_add_eq_ref: "psc_crc64_add c data = crc_ref c data"
  by (induction data arbitrary: c) (simp_all add: crc_byte_eq Let_def)

lemma crc_ref_append: "crc_ref c (xs @ ys) = crc_ref (crc_ref c xs) ys"
  by (induction xs arbitrary: c) simp_all

lemma crc_add_append: "psc_crc64_add c (xs @ ys) = psc_crc64_add (psc_crc64_add c xs) ys"
  by (simp add: crc_add_eq_ref crc_ref_append)

subsection \<open>Error detection\<close>

lemma crc_bit_eq_0: "crc_bit c = 0 \<longleftrightarrow> c = 0"
proof
  assume z: "crc_bit c = 0"
  have "bit crc_poly 0" by (simp add: crc_poly_def)
  moreover have "\<not> bit (push_bit 1 c) 0" by (simp only: bit_push64) simp
  ultimately have "\<not> bit c 63"
    using z by (auto simp: crc_bit_def bit_xor_iff dest: arg_cong [of _ _ "\<lambda>w. bit w 0"])
  then have shl: "push_bit 1 c = 0" using z by (simp add: crc_bit_def)
  show "c = 0"
  proof (rule bit_word_eqI)
    fix i assume "i < LENGTH(64)"
    then show "bit c i = bit 0 i"
      using shl \<open>\<not> bit c 63\<close> bit_push64 [of 1 c "Suc i"] by (cases "i = 63") auto
  qed
qed simp

lemma crc_bits_eq_0: "crc_bits n c = 0 \<longleftrightarrow> c = 0"
  by (induction n) (simp_all add: crc_bits_def crc_bit_eq_0)

lemma xor_cancel_right [simp]: "a XOR w = b XOR w \<longleftrightarrow> a = (b :: u64)"
proof
  assume "a XOR w = b XOR w"
  then have "(a XOR w) XOR w = (b XOR w) XOR w" by (simp only:)
  then show "a = b" by (simp add: xor.assoc)
qed simp

lemma xor_cancel_left [simp]: "w XOR a = w XOR b \<longleftrightarrow> a = (b :: u64)"
  using xor_cancel_right [of a w b] by (simp only: xor.commute [of w])

lemma xor_eq_0 [simp]: "a XOR b = 0 \<longleftrightarrow> a = (b :: u64)"
  using xor_cancel_right [of a b b] by simp

lemma crc_bits_inj [simp]: "crc_bits n a = crc_bits n b \<longleftrightarrow> a = b"
  using crc_bits_eq_0 [of n "a XOR b"] by (simp add: crc_bits_xor)

lemma crc_ref_inj [simp]: "crc_ref a data = crc_ref b data \<longleftrightarrow> a = b"
  by (induction data arbitrary: a b) simp_all

lemma bit_msg_word_Cons:
  "bit (msg_word (b # bs)) i \<longleftrightarrow> i < 64 \<and> (if i < 56 then bit (msg_word bs) (8 + i) else bit b (i - 56))"
  by (auto simp: bit_xor_iff bit_push64 bit_drop_bit_eq bit_ucast_iff dest: bit_imp_le_length)

lemma msg_word_low: "bit (msg_word bs) i \<Longrightarrow> 64 \<le> i + 8 * length bs"
proof (induction bs arbitrary: i)
  case (Cons b bs)
  show ?case
  proof (cases "i < 56")
    case True
    then have "bit (msg_word bs) (8 + i)" using Cons.prems by (simp only: bit_msg_word_Cons if_True)
    then show ?thesis using Cons.IH by fastforce
  qed simp
qed simp

lemma crc_ref_word:
  "length data \<le> 8 \<Longrightarrow> crc_ref c data = crc_bits (8 * length data) (c XOR msg_word data)"
proof (induction data arbitrary: c)
  case (Cons b bs)
  let ?w = "msg_word bs"
  have low: "\<not> bit ?w i" if "i < 8" for i
    using msg_word_low [of bs i] Cons.prems that by auto
  have "crc_bits 8 (drop_bit 8 ?w) = push_bit 8 (drop_bit 8 ?w)"
    by (rule crc_bits_shift) (auto simp: bit_drop_bit_eq dest: bit_imp_le_length)
  also have "\<dots> = ?w"
  proof (rule bit_word_eqI)
    fix i assume "i < LENGTH(64)"
    then show "bit (push_bit 8 (drop_bit 8 ?w)) i = bit ?w i"
      using low [of i] by (cases "i < 8") (simp_all add: bit_push64 bit_drop_bit_eq)
  qed
  finally have "crc_bits 8 (c XOR push_bit 56 (ucast b)) XOR ?w =
      crc_bits 8 (c XOR msg_word (b # bs))"
    by (simp add: crc_bits_xor xor.assoc)
  moreover have "8 * length (b # bs) = 8 * length bs + 8" by simp
  ultimately show ?case using Cons by (simp only: crc_bits_add crc_ref.simps)
qed (simp add: crc_bits_def)

lemma msg_word_inj:
  "length xs = length ys \<Longrightarrow> length xs \<le> 8 \<Longrightarrow> msg_word xs = msg_word ys \<Longrightarrow> xs = ys"
proof (induction xs ys rule: list_induct2)
  case (Cons x xs y ys)
  have eq: "bit (msg_word (x # xs)) i = bit (msg_word (y # ys)) i" for i
    using Cons.prems by simp
  have "x = y"
  proof (rule u8_eqI)
    fix i :: nat assume "i < 8"
    then show "bit x i = bit y i" using eq [of "56 + i"] by (simp add: bit_msg_word_Cons del: msg_word.simps)
  qed
  moreover have "msg_word xs = msg_word ys"
  proof (rule bit_word_eqI)
    fix i assume i: "i < LENGTH(64)"
    show "bit (msg_word xs) i = bit (msg_word ys) i"
    proof (cases "i < 8")
      case True
      then have "\<not> bit (msg_word xs) i" "\<not> bit (msg_word ys) i"
        using msg_word_low [of xs i] msg_word_low [of ys i] Cons.prems(1) Cons.hyps by auto
      then show ?thesis by simp
    next
      case False
      then obtain j where "i = 8 + j" "j < 56" using i le_Suc_ex [of 8 i] by auto
      then show ?thesis using eq [of j] by (simp add: bit_msg_word_Cons del: msg_word.simps)
    qed
  qed
  ultimately show ?case using Cons by simp
qed simp

lemma crc_burst_detected:
  assumes "length d = length d'" "length d \<le> 8" "d \<noteq> d'"
  shows "psc_crc64_calc (pre @ d @ post) \<noteq> psc_crc64_calc (pre @ d' @ post)"
proof -
  have "crc_ref c d \<noteq> crc_ref c d'" for c
    using assms msg_word_inj [of d d'] by (auto simp: crc_ref_word)
  then show ?thesis
    by (simp add: psc_crc64_calc_def psc_crc64_fini_def crc_add_eq_ref crc_ref_append)
qed

text \<open>
  C25. Table-driven checksum: on every message the byte loop over the table of the source computes
  the bit-serial division by the polynomial of the table.
\<close>

theorem crc64_is_bit_serial:
  "psc_crc64_calc data = psc_crc64_fini (crc_ref psc_crc64_init data)"
  by (simp add: psc_crc64_calc_def crc_add_eq_ref)

text \<open>
  C26. Error detection: two messages of the same length that differ, but only within eight
  consecutive bytes, have different checksums.
\<close>

theorem crc64_detects_burst:
  assumes "length d = length d'" "length d \<le> 8" "d \<noteq> d'"
  shows "\<not> psc_crc64_verify (psc_crc64_calc (pre @ d @ post)) (pre @ d' @ post)"
  using crc_burst_detected [OF assms, of pre post] by (simp add: psc_crc64_verify_def)

theorem crc64_detects_burst_witness:
  "\<not> psc_crc64_verify (psc_crc64_calc [1, 2, 3, 4]) [1, 2, 7, 4]"
  using crc64_detects_burst [of "[3]" "[7]" "[1, 2]" "[4]"] by simp

end
