(* ===== verification/Odtable.thy ===== *)
theory Odtable
  imports Bytes Crc VBitmap_Alloc
begin

text \<open>
  The on-disk table of \<^verbatim>\<open>src/pfl/odtable.c\<close>: a header and an array of fixed-size slots, each
  an item followed by a footer with the slot number and a checksum. The metadata server keeps
  its bmap-to-I/O-server assignments in such a table and reads it back when it starts. The file
  is a list of bytes; the operations compute offsets, encode and decode footers and checksums
  as the code does. The hook \<open>odtop_resize\<close> of \<^verbatim>\<open>struct pfl_odt_ops\<close> is a parameter with the two
  implementations of the source: the null pointer of \<^verbatim>\<open>pfl_odtops\<close> and \<^verbatim>\<open>slm_odt_resize\<close>
  (\<^verbatim>\<open>src/slash2/slashd/odtable_mds.c\<close>).
\<close>

subsection \<open>Data\<close>

record pfl_odt_hdr =
  odth_nitems :: u32
  odth_itemsz :: u32
  odth_slotsz :: u32
  odth_options :: u32
  odth_start :: u64
  odth_crc :: u64

record pfl_odt_slotftr =
  odtf_flags :: u32
  odtf_slotno :: u32
  odtf_crc :: u64

record pfl_odt_stats =
  odst_extend :: u32
  odst_full :: u32
  odst_replace :: u32
  odst_free :: u32
  odst_read :: u32
  odst_write :: u32

record pfl_odt =
  odt_bitmap :: vbitmap
  odt_hdr :: pfl_odt_hdr
  odt_file :: "u8 list"
  odt_stats :: pfl_odt_stats

definition ODTBL_OPT_CRC :: u32 where "ODTBL_OPT_CRC = 1"
definition ODT_FTRF_INUSE :: u32 where "ODT_FTRF_INUSE = 1"
definition ODT_ITEM_SIZE :: u32 where "ODT_ITEM_SIZE = 128 - 16"
definition ODT_ITEM_START :: u64 where "ODT_ITEM_START = 0x1000"
definition ODT_ITEM_COUNT :: u32 where "ODT_ITEM_COUNT = 1024 * 128"

text \<open>The structures as bytes; the checksummed part is everything before the checksum.\<close>

definition hdr_body :: "pfl_odt_hdr \<Rightarrow> u8 list" where
  "hdr_body h = le32 (odth_nitems h) @ le32 (odth_itemsz h) @ le32 (odth_slotsz h) @
     le32 (odth_options h) @ le64 (odth_start h)"

definition hdr_bytes :: "pfl_odt_hdr \<Rightarrow> u8 list" where
  "hdr_bytes h = hdr_body h @ le64 (odth_crc h)"

definition hdr_of_bytes :: "u8 list \<Rightarrow> pfl_odt_hdr" where
  "hdr_of_bytes bs =
     \<lparr>odth_nitems = un_le32 bs, odth_itemsz = un_le32 (drop 4 bs),
      odth_slotsz = un_le32 (drop 8 bs), odth_options = un_le32 (drop 12 bs),
      odth_start = un_le64 (drop 16 bs), odth_crc = un_le64 (drop 24 bs)\<rparr>"

definition ftr_body :: "pfl_odt_slotftr \<Rightarrow> u8 list" where
  "ftr_body f = le32 (odtf_flags f) @ le32 (odtf_slotno f)"

definition ftr_bytes :: "pfl_odt_slotftr \<Rightarrow> u8 list" where
  "ftr_bytes f = ftr_body f @ le64 (odtf_crc f)"

definition ftr_of_bytes :: "u8 list \<Rightarrow> pfl_odt_slotftr" where
  "ftr_of_bytes bs =
     \<lparr>odtf_flags = un_le32 bs, odtf_slotno = un_le32 (drop 4 bs), odtf_crc = un_le64 (drop 8 bs)\<rparr>"

subsection \<open>Slot input and output\<close>

text \<open>
  The assertion that a slot has no padding, on the sizes as numbers; the subtraction in 32 bits would also accept an
  item size that exceeds the slot size by almost 4 GiB.
\<close>

definition odt_pad_ok :: "pfl_odt_hdr \<Rightarrow> bool" where
  "odt_pad_ok h \<longleftrightarrow> unat (odth_slotsz h) = unat (odth_itemsz h) + 16"

definition odt_off :: "pfl_odt_hdr \<Rightarrow> nat \<Rightarrow> nat" where
  "odt_off h item = item * unat (odth_slotsz h) + unat (odth_start h)"

text \<open>
  \<open>p\<close> is the caller's item buffer or the null pointer. With the padding asserted to be zero the
  item and the footer are adjacent.
\<close>

definition pfl_odt_write ::
  "pfl_odt \<Rightarrow> u8 list option \<Rightarrow> pfl_odt_slotftr \<Rightarrow> nat \<Rightarrow> pfl_odt option" where
  "pfl_odt_write t p f item =
     do {
       let h = odt_hdr t;
       psc_assert (odt_pad_ok h);
       let off = odt_off h item;
       (case p of
          Some b \<Rightarrow> do {
            psc_assert (unat (odth_itemsz h) \<le> length b);
            Some (t\<lparr>odt_file := pwrite (odt_file t) off (take (unat (odth_itemsz h)) b @ ftr_bytes f)\<rparr>)
          }
        | None \<Rightarrow>
            Some (t\<lparr>odt_file := pwrite (odt_file t) (off + unat (odth_itemsz h)) (ftr_bytes f)\<rparr>))
     }"

definition pfl_odt_read :: "pfl_odt \<Rightarrow> nat \<Rightarrow> (u8 list \<times> pfl_odt_slotftr) option" where
  "pfl_odt_read t n =
     do {
       let h = odt_hdr t;
       psc_assert (odt_pad_ok h);
       bs \<leftarrow> pread (odt_file t) (odt_off h n) (unat (odth_itemsz h) + 16);
       Some (take (unat (odth_itemsz h)) bs, ftr_of_bytes (drop (unat (odth_itemsz h)) bs))
     }"

subsection \<open>Operations\<close>

definition odt_ftr_crc :: "pfl_odt_hdr \<Rightarrow> u8 list option \<Rightarrow> pfl_odt_slotftr \<Rightarrow> u64" where
  "odt_ftr_crc h p f =
     psc_crc64_fini
       (psc_crc64_add
          (case p of None \<Rightarrow> psc_crc64_init
           | Some b \<Rightarrow> psc_crc64_add psc_crc64_init (take (unat (odth_itemsz h)) b))
          (ftr_body f))"

definition pfl_odt_doput :: "pfl_odt \<Rightarrow> nat \<Rightarrow> u8 list option \<Rightarrow> bool \<Rightarrow> pfl_odt option" where
  "pfl_odt_doput t item p inuse =
     do {
       let h = odt_hdr t;
       psc_assert (inuse \<longrightarrow> (case p of None \<Rightarrow> False | Some b \<Rightarrow> unat (odth_itemsz h) \<le> length b));
       let f = \<lparr>odtf_flags = (if inuse then ODT_FTRF_INUSE else 0),
                odtf_slotno = word_of_nat item, odtf_crc = 0\<rparr>;
       let f = f\<lparr>odtf_crc := odt_ftr_crc h (if inuse then p else None) f\<rparr>;
       t \<leftarrow> pfl_odt_write t p f item;
       Some (t\<lparr>odt_stats := (odt_stats t)\<lparr>odst_write := odst_write (odt_stats t) + 1\<rparr>\<rparr>)
     }"

text \<open>The result carries the slot number; \<^const>\<open>None\<close> is \<^verbatim>\<open>ODTBL_SLOT_INV\<close>.\<close>

definition pfl_odt_allocslot ::
  "(pfl_odt \<Rightarrow> pfl_odt option) \<Rightarrow> pfl_odt \<Rightarrow> (pfl_odt \<times> nat option) option" where
  "pfl_odt_allocslot odtop_resize t =
     do {
       (vb, r) \<leftarrow> psc_vbitmap_next (odt_bitmap t);
       let t = t\<lparr>odt_bitmap := vb\<rparr>;
       (case r of
          None \<Rightarrow> Some (t\<lparr>odt_stats := (odt_stats t)\<lparr>odst_full := odst_full (odt_stats t) + 1\<rparr>\<rparr>, None)
        | Some item \<Rightarrow>
            if unat (odth_nitems (odt_hdr t)) \<le> item then do {
              let t = t\<lparr>odt_stats := (odt_stats t)\<lparr>odst_extend := odst_extend (odt_stats t) + 1\<rparr>,
                        odt_hdr := (odt_hdr t)\<lparr>odth_nitems := word_of_nat (psc_vbitmap_getsize vb)\<rparr>\<rparr>;
              t \<leftarrow> odtop_resize t;
              Some (t, Some item)
            } else Some (t, Some item))
     }"

definition pfl_odt_putitem :: "pfl_odt \<Rightarrow> nat \<Rightarrow> u8 list option \<Rightarrow> bool \<Rightarrow> pfl_odt option" where
  "pfl_odt_putitem t item p inuse = pfl_odt_doput t item p inuse"

definition pfl_odt_getslot ::
  "pfl_odt \<Rightarrow> nat \<Rightarrow> (pfl_odt \<times> u8 list \<times> pfl_odt_slotftr) option" where
  "pfl_odt_getslot t n =
     do {
       psc_assert (n \<le> unat (odth_nitems (odt_hdr t) - 1));
       (p, f) \<leftarrow> pfl_odt_read t n;
       Some (t\<lparr>odt_stats := (odt_stats t)\<lparr>odst_read := odst_read (odt_stats t) + 1\<rparr>\<rparr>, p, f)
     }"

definition pfl_odt_replaceitem :: "pfl_odt \<Rightarrow> nat \<Rightarrow> u8 list \<Rightarrow> pfl_odt option" where
  "pfl_odt_replaceitem t item p =
     do {
       t \<leftarrow> pfl_odt_doput t item (Some p) True;
       Some (t\<lparr>odt_stats := (odt_stats t)\<lparr>odst_replace := odst_replace (odt_stats t) + 1\<rparr>\<rparr>)
     }"

definition pfl_odt_freeitem :: "pfl_odt \<Rightarrow> nat \<Rightarrow> pfl_odt option" where
  "pfl_odt_freeitem t item =
     do {
       t \<leftarrow> pfl_odt_doput t item None False;
       (vb, _) \<leftarrow> psc_vbitmap_setval (odt_bitmap t) item False;
       let t = t\<lparr>odt_bitmap := vb\<rparr>;
       Some (t\<lparr>odt_stats := (odt_stats t)\<lparr>odst_free := odst_free (odt_stats t) + 1\<rparr>\<rparr>)
     }"

definition odt_stats0 :: pfl_odt_stats where
  "odt_stats0 = \<lparr>odst_extend = 0, odst_full = 0, odst_replace = 0, odst_free = 0,
     odst_read = 0, odst_write = 0\<rparr>"

primrec odt_format :: "pfl_odt \<Rightarrow> nat list \<Rightarrow> pfl_odt option" where
  "odt_format t [] = Some t"
| "odt_format t (item # items) =
     do { t \<leftarrow> pfl_odt_doput t item None False; odt_format t items }"

text \<open>
  \<^verbatim>\<open>pfl_odt_create\<close> on a new or truncated file; the result is the contents of the file. There is
  no bitmap yet, so the field holds an empty one.
\<close>

definition pfl_odt_create ::
  "u32 \<Rightarrow> u32 \<Rightarrow> u64 \<Rightarrow> u32 \<Rightarrow> u32 \<Rightarrow> u8 list option" where
  "pfl_odt_create nitems itemsz startoff pad tflg =
     do {
       let h = \<lparr>odth_nitems = nitems, odth_itemsz = itemsz, odth_slotsz = itemsz + pad + 16,
                odth_options = tflg, odth_start = startoff, odth_crc = 0\<rparr>;
       let h = h\<lparr>odth_crc := psc_crc64_calc (hdr_body h)\<rparr>;
       let t = \<lparr>odt_bitmap = VBITMAP_INIT_AUTO, odt_hdr = h, odt_file = pwrite [] 0 (hdr_bytes h),
                odt_stats = odt_stats0\<rparr>;
       t \<leftarrow> odt_format t [0..<unat nitems];
       Some (odt_file t)
     }"

definition pfl_odt_load :: "u8 list \<Rightarrow> pfl_odt option" where
  "pfl_odt_load file =
     do {
       bs \<leftarrow> pread file 0 32;
       let h = hdr_of_bytes bs;
       psc_assert (odth_crc h = psc_crc64_calc (hdr_body h));
       (vb, _) \<leftarrow> psc_vbitmap_setval (psc_vbitmap_newf (unat (odth_nitems h)) PVBF_AUTO) 0 True;
       Some \<lparr>odt_bitmap = vb, odt_hdr = h, odt_file = file, odt_stats = odt_stats0\<rparr>
     }"

text \<open>\<^verbatim>\<open>pfl_odt_check\<close>; the callback's arguments are collected in the result.\<close>

primrec odt_check_slots :: "pfl_odt \<Rightarrow> nat list \<Rightarrow> (pfl_odt \<times> (nat \<times> u8 list) list) option" where
  "odt_check_slots t [] = Some (t, [])"
| "odt_check_slots t (i # is) =
     do {
       (t, p, f) \<leftarrow> pfl_odt_getslot t i;
       psc_assert (unat (odtf_slotno f) = i);
       let inuse = (odtf_flags f AND ODT_FTRF_INUSE \<noteq> 0);
       psc_assert (odth_options (odt_hdr t) AND ODTBL_OPT_CRC \<noteq> 0 \<longrightarrow>
         odt_ftr_crc (odt_hdr t) (if inuse then Some p else None) f = odtf_crc f);
       if inuse then do {
         (vb, _) \<leftarrow> psc_vbitmap_setval (odt_bitmap t) i True;
         (t, items) \<leftarrow> odt_check_slots (t\<lparr>odt_bitmap := vb\<rparr>) is;
         Some (t, (i, p) # items)
       } else odt_check_slots t is
     }"

definition pfl_odt_check :: "pfl_odt \<Rightarrow> (pfl_odt \<times> (nat \<times> u8 list) list) option" where
  "pfl_odt_check t = odt_check_slots t [0..<unat (odth_nitems (odt_hdr t))]"

subsection \<open>Hooks of the metadata server\<close>

definition pfl_odtop_resize :: "pfl_odt \<Rightarrow> pfl_odt option" where
  "pfl_odtop_resize t = None"

definition slm_odt_resize :: "pfl_odt \<Rightarrow> pfl_odt option" where
  "slm_odt_resize t =
     do {
       let h = odt_hdr t;
       let h = h\<lparr>odth_crc := psc_crc64_calc (hdr_body h)\<rparr>;
       Some (t\<lparr>odt_hdr := h, odt_file := pwrite (odt_file t) 0 (hdr_bytes h)\<rparr>)
     }"

definition slm_odt_new :: "u8 list option" where
  "slm_odt_new =
     do {
       let h = \<lparr>odth_nitems = ODT_ITEM_COUNT, odth_itemsz = ODT_ITEM_SIZE,
                odth_slotsz = ODT_ITEM_SIZE + 16, odth_options = ODTBL_OPT_CRC,
                odth_start = ODT_ITEM_START, odth_crc = 0\<rparr>;
       let h = h\<lparr>odth_crc := psc_crc64_calc (hdr_body h)\<rparr>;
       let t = \<lparr>odt_bitmap = VBITMAP_INIT_AUTO, odt_hdr = h, odt_file = pwrite [] 0 (hdr_bytes h),
                odt_stats = odt_stats0\<rparr>;
       t \<leftarrow> odt_format t [0..<unat (odth_nitems h)];
       Some (odt_file t)
     }"

subsection \<open>Abstraction and invariant\<close>

text \<open>
  The state of a slot on disk: \<^const>\<open>None\<close> if its footer is invalid, otherwise the item or
  that the slot is free.
\<close>

definition odt_slot :: "pfl_odt_hdr \<Rightarrow> u8 list \<Rightarrow> nat \<Rightarrow> u8 list option option" where
  "odt_slot h file i =
     do {
       bs \<leftarrow> pread file (odt_off h i) (unat (odth_itemsz h) + 16);
       let p = take (unat (odth_itemsz h)) bs;
       let f = ftr_of_bytes (drop (unat (odth_itemsz h)) bs);
       let inuse = (odtf_flags f AND ODT_FTRF_INUSE \<noteq> 0);
       psc_assert (unat (odtf_slotno f) = i);
       psc_assert (odt_ftr_crc h (if inuse then Some p else None) f = odtf_crc f);
       Some (if inuse then Some p else None)
     }"

definition hdr_ok :: "pfl_odt_hdr \<Rightarrow> u8 list \<Rightarrow> bool" where
  "hdr_ok h file \<longleftrightarrow> odt_pad_ok h \<and> 32 \<le> unat (odth_start h) \<and> 0 < unat (odth_nitems h) \<and>
     odth_crc h = psc_crc64_calc (hdr_body h) \<and> pread file 0 32 = Some (hdr_bytes h) \<and>
     length file = odt_off h (unat (odth_nitems h))"

definition bitmap_ok :: "vbitmap \<Rightarrow> nat \<Rightarrow> bool" where
  "bitmap_ok vb n \<longleftrightarrow> vb_wf vb \<and> vb_tailclear vb \<and> vb_buf vb \<noteq> [] \<and> vb_flags vb = PVBF_AUTO \<and>
     psc_vbitmap_getsize vb = n \<and> vb_bits vb ! 0"

text \<open>\<open>odt_inv t A\<close>: the table stores exactly the items \<open>A\<close>, and their slots are allocated.\<close>

definition odt_inv :: "pfl_odt \<Rightarrow> (nat \<Rightarrow> u8 list option) \<Rightarrow> bool" where
  "odt_inv t A \<longleftrightarrow>
     hdr_ok (odt_hdr t) (odt_file t) \<and>
     bitmap_ok (odt_bitmap t) (unat (odth_nitems (odt_hdr t))) \<and>
     (\<forall>i < unat (odth_nitems (odt_hdr t)).
        odt_slot (odt_hdr t) (odt_file t) i = Some (A i) \<and>
        (A i \<noteq> None \<longrightarrow> vb_bits (odt_bitmap t) ! i))"

text \<open>The bytes a put writes, and where.\<close>

definition put_ftr :: "pfl_odt_hdr \<Rightarrow> nat \<Rightarrow> u8 list option \<Rightarrow> bool \<Rightarrow> pfl_odt_slotftr" where
  "put_ftr h item p inuse =
     (let f = \<lparr>odtf_flags = (if inuse then ODT_FTRF_INUSE else 0),
               odtf_slotno = word_of_nat item, odtf_crc = 0\<rparr>
      in f\<lparr>odtf_crc := odt_ftr_crc h (if inuse then p else None) f\<rparr>)"

text \<open>\<open>used_items A is\<close>: what \<^verbatim>\<open>pfl_odt_check\<close> hands to its callback.\<close>

definition used_items :: "(nat \<Rightarrow> u8 list option) \<Rightarrow> nat list \<Rightarrow> (nat \<times> u8 list) list" where
  "used_items A is = List.map_filter (\<lambda>i. map_option (Pair i) (A i)) is"

text \<open>What a pass of \<^verbatim>\<open>pfl_odt_check\<close> over the slots \<open>is\<close> changes.\<close>

definition checked :: "(nat \<Rightarrow> u8 list option) \<Rightarrow> nat list \<Rightarrow> pfl_odt \<Rightarrow> pfl_odt \<Rightarrow> bool" where
  "checked A is t t' \<longleftrightarrow>
     odt_hdr t' = odt_hdr t \<and> odt_file t' = odt_file t \<and> vb_wf (odt_bitmap t') \<and>
     vb_tailclear (odt_bitmap t') = vb_tailclear (odt_bitmap t) \<and>
     vb_flags (odt_bitmap t') = vb_flags (odt_bitmap t) \<and>
     psc_vbitmap_getsize (odt_bitmap t') = psc_vbitmap_getsize (odt_bitmap t) \<and>
     (\<forall>i < psc_vbitmap_getsize (odt_bitmap t).
        vb_bits (odt_bitmap t') ! i = (vb_bits (odt_bitmap t) ! i \<or> i \<in> set is \<and> A i \<noteq> None))"

subsection \<open>Encodings\<close>

lemma ftr_roundtrip: "ftr_of_bytes (ftr_bytes f @ rest) = f"
  by (simp add: ftr_of_bytes_def ftr_bytes_def ftr_body_def un_le32_le32 un_le64_le64)

lemma hdr_roundtrip: "hdr_of_bytes (hdr_bytes h @ rest) = h"
  by (simp add: hdr_of_bytes_def hdr_bytes_def hdr_body_def un_le32_le32 un_le64_le64)

interpretation ftr: byte_codec ftr_bytes ftr_of_bytes 16
  by unfold_locales (simp_all add: ftr_roundtrip, simp add: ftr_bytes_def ftr_body_def)

interpretation hdr: byte_codec hdr_bytes hdr_of_bytes 32
  by unfold_locales (simp_all add: hdr_roundtrip, simp add: hdr_bytes_def hdr_body_def)

subsection \<open>Slot input and output\<close>

lemma odt_off_disjoint:
  assumes "odt_pad_ok h" "i \<noteq> j"
  shows "odt_off h i + (unat (odth_itemsz h) + 16) \<le> odt_off h j \<or>
         odt_off h j + (unat (odth_itemsz h) + 16) \<le> odt_off h i"
proof -
  let ?s = "unat (odth_slotsz h)"
  have "i * ?s + ?s \<le> j * ?s \<or> j * ?s + ?s \<le> i * ?s"
  proof (cases "i < j")
    case True
    then show ?thesis using mult_le_mono1 [of "Suc i" j ?s] by (simp add: add.commute)
  next
    case False
    then show ?thesis using assms(2) mult_le_mono1 [of "Suc j" i ?s] by (simp add: add.commute)
  qed
  then show ?thesis using assms(1) by (auto simp: odt_off_def odt_pad_ok_def)
qed

lemma odt_off_in_file:
  assumes "odt_pad_ok h" "i < n"
  shows "odt_off h i + (unat (odth_itemsz h) + 16) \<le> odt_off h n"
  using assms mult_le_mono1 [of "Suc i" n "unat (odth_slotsz h)"]
  by (simp add: odt_off_def odt_pad_ok_def add.commute)

lemma doput_file:
  assumes "odt_pad_ok (odt_hdr t)" "p = None \<longrightarrow> \<not> inuse"
    and "\<And>b. p = Some b \<Longrightarrow> length b = unat (odth_itemsz (odt_hdr t))"
  obtains t' where "pfl_odt_doput t item p inuse = Some t'"
    "odt_hdr t' = odt_hdr t" "odt_bitmap t' = odt_bitmap t"
    "odt_file t' = pwrite (odt_file t)
       (odt_off (odt_hdr t) item + (case p of None \<Rightarrow> unat (odth_itemsz (odt_hdr t)) | Some _ \<Rightarrow> 0))
       ((case p of None \<Rightarrow> [] | Some b \<Rightarrow> b) @ ftr_bytes (put_ftr (odt_hdr t) item p inuse))"
  using assms
  by (cases p) (auto simp: pfl_odt_doput_def pfl_odt_write_def put_ftr_def Let_def)

lemma odt_ftr_crc_cong:
  "odtf_flags f = odtf_flags g \<Longrightarrow> odtf_slotno f = odtf_slotno g \<Longrightarrow>
     odt_ftr_crc h p f = odt_ftr_crc h p g"
  by (simp add: odt_ftr_crc_def ftr_body_def)

lemma odt_slot_eqI:
  assumes "pread file (odt_off h i) (unat (odth_itemsz h) + 16) = Some (b @ ftr_bytes (put_ftr h i p inuse))"
    and "length b = unat (odth_itemsz h)" "inuse \<Longrightarrow> p = Some b" "i < 2 ^ 32"
  shows "odt_slot h file i = Some (if inuse then p else None)"
proof -
  have "unat (word_of_nat i :: u32) = i" using assms(4) by (simp add: unat_of_nat)
  moreover have "odt_ftr_crc h p (put_ftr h i p inuse) = odtf_crc (put_ftr h i p inuse)" if inuse
    using that by (simp add: put_ftr_def Let_def odt_ftr_crc_def ftr_body_def)
  moreover have "odt_ftr_crc h None (put_ftr h i p inuse) = odtf_crc (put_ftr h i p inuse)"
    if "\<not> inuse"
    using that by (simp add: put_ftr_def Let_def odt_ftr_crc_def ftr_body_def)
  ultimately show ?thesis
    using assms(1-3) ftr.dec_enc_id
    by (cases inuse) (simp_all add: odt_slot_def Let_def put_ftr_def ODT_FTRF_INUSE_def)
qed

lemma odt_slot_frame:
  assumes "odt_slot h file i = Some x"
    and "pread file' (odt_off h i) (unat (odth_itemsz h) + 16) =
           pread file (odt_off h i) (unat (odth_itemsz h) + 16)"
  shows "odt_slot h file' i = Some x"
  using assms by (simp add: odt_slot_def)

lemma doput_spec:
  assumes "hdr_ok (odt_hdr t) (odt_file t)" "item < unat (odth_nitems (odt_hdr t))"
    and "p = None \<longrightarrow> \<not> inuse" "\<And>b. p = Some b \<Longrightarrow> length b = unat (odth_itemsz (odt_hdr t))"
  obtains t' where "pfl_odt_doput t item p inuse = Some t'"
    "odt_hdr t' = odt_hdr t" "odt_bitmap t' = odt_bitmap t"
    "hdr_ok (odt_hdr t) (odt_file t')"
    "odt_slot (odt_hdr t) (odt_file t') item = Some (if inuse then p else None)"
    "\<And>i. i \<noteq> item \<Longrightarrow> odt_slot (odt_hdr t) (odt_file t') i = odt_slot (odt_hdr t) (odt_file t) i"
proof -
  let ?h = "odt_hdr t" and ?n = "unat (odth_itemsz (odt_hdr t))"
  have pad: "odt_pad_ok ?h" using assms(1) by (simp add: hdr_ok_def)
  obtain t' where t': "pfl_odt_doput t item p inuse = Some t'"
    "odt_hdr t' = ?h" "odt_bitmap t' = odt_bitmap t"
    and wr: "odt_file t' = pwrite (odt_file t) (odt_off ?h item + (case p of None \<Rightarrow> ?n | Some _ \<Rightarrow> 0))
       ((case p of None \<Rightarrow> [] | Some b \<Rightarrow> b) @ ftr_bytes (put_ftr ?h item p inuse))"
    using doput_file [OF pad assms(3,4)] by metis
  have inside: "odt_off ?h item + (?n + 16) \<le> length (odt_file t)"
    using odt_off_in_file [OF pad assms(2)] assms(1) by (simp add: hdr_ok_def)
  have frame: "pread (odt_file t') off m = pread (odt_file t) off m"
    if "off + m \<le> odt_off ?h item \<or> odt_off ?h item + (?n + 16) \<le> off" for off m
    unfolding wr using that inside assms(4)
    by (intro pread_pwrite_inside) (auto simp: ftr.enc_length split: option.splits)
  have len: "length (odt_file t') = length (odt_file t)"
    unfolding wr using inside assms(4) by (auto simp: ftr.enc_length split: option.splits)
  have hdr: "hdr_ok ?h (odt_file t')"
    using assms(1) len frame [of 0 32] by (simp add: hdr_ok_def odt_off_def)
  have others: "odt_slot ?h (odt_file t') i = odt_slot ?h (odt_file t) i" if "i \<noteq> item" for i
    using frame odt_off_disjoint [OF pad that] by (simp add: odt_slot_def)
  obtain b where b: "length b = ?n" "inuse \<longrightarrow> p = Some b"
    "pread (odt_file t') (odt_off ?h item) (?n + 16) = Some (b @ ftr_bytes (put_ftr ?h item p inuse))"
  proof (cases p)
    case None
    let ?b = "take ?n (drop (odt_off ?h item) (odt_file t))"
    have "pread (odt_file t') (odt_off ?h item) ?n = Some ?b"
      unfolding wr using None inside
      by (subst pread_pwrite_inside) (auto simp: ftr.enc_length pread_def)
    moreover have "pread (odt_file t') (odt_off ?h item + ?n) 16 = Some (ftr_bytes (put_ftr ?h item p inuse))"
      unfolding wr using None by (subst pread_pwrite_same) (auto simp: ftr.enc_length)
    ultimately show thesis
      using None assms(3) inside by (intro that [of ?b]) (auto simp: pread_split)
  next
    case (Some b)
    then show thesis
      using assms(4) by (intro that [of b]) (auto simp: wr pread_pwrite_same ftr.enc_length)
  qed
  have "item < 2 ^ 32"
    using assms(2) unat_u32_less [of "odth_nitems ?h"] by simp
  then have "odt_slot ?h (odt_file t') item = Some (if inuse then p else None)"
    using b by (intro odt_slot_eqI) auto
  then show thesis using that t' hdr others by blast
qed

subsection \<open>Operations keep the invariant\<close>

lemma odt_invD:
  assumes "odt_inv t A"
  shows "hdr_ok (odt_hdr t) (odt_file t)"
    "bitmap_ok (odt_bitmap t) (unat (odth_nitems (odt_hdr t)))"
    "i < unat (odth_nitems (odt_hdr t)) \<Longrightarrow> odt_slot (odt_hdr t) (odt_file t) i = Some (A i)"
    "i < unat (odth_nitems (odt_hdr t)) \<Longrightarrow> A i \<noteq> None \<Longrightarrow> vb_bits (odt_bitmap t) ! i"
  using assms by (auto simp: odt_inv_def)

lemma putitem_inv:
  assumes "odt_inv t A" "item < unat (odth_nitems (odt_hdr t))" "vb_bits (odt_bitmap t) ! item"
    and "length b = unat (odth_itemsz (odt_hdr t))"
  shows "\<exists>t'. pfl_odt_putitem t item (Some b) True = Some t' \<and> odt_inv t' (A(item := Some b)) \<and>
           odt_hdr t' = odt_hdr t \<and> odt_bitmap t' = odt_bitmap t"
proof -
  obtain t' where t': "pfl_odt_doput t item (Some b) True = Some t'"
    "odt_hdr t' = odt_hdr t" "odt_bitmap t' = odt_bitmap t" "hdr_ok (odt_hdr t) (odt_file t')"
    "odt_slot (odt_hdr t) (odt_file t') item = Some (Some b)"
    "\<And>i. i \<noteq> item \<Longrightarrow> odt_slot (odt_hdr t) (odt_file t') i = odt_slot (odt_hdr t) (odt_file t) i"
    by (rule doput_spec [OF odt_invD(1) [OF assms(1)] assms(2), of "Some b" True]) (use assms(4) in auto)
  then have "odt_inv t' (A(item := Some b))"
    using assms(1,3) by (simp add: odt_inv_def)
  then show ?thesis using t' by (auto simp: pfl_odt_putitem_def)
qed

lemma replaceitem_inv:
  assumes "odt_inv t A" "item < unat (odth_nitems (odt_hdr t))" "vb_bits (odt_bitmap t) ! item"
    and "length b = unat (odth_itemsz (odt_hdr t))"
  shows "\<exists>t'. pfl_odt_replaceitem t item b = Some t' \<and> odt_inv t' (A(item := Some b))"
proof -
  obtain t' where "pfl_odt_doput t item (Some b) True = Some t'" "odt_inv t' (A(item := Some b))"
    using putitem_inv [OF assms] by (auto simp: pfl_odt_putitem_def)
  then show ?thesis by (simp add: pfl_odt_replaceitem_def odt_inv_def)
qed

lemma freeitem_inv:
  assumes "odt_inv t A" "item < unat (odth_nitems (odt_hdr t))" "item \<noteq> 0"
  shows "\<exists>t'. pfl_odt_freeitem t item = Some t' \<and> odt_inv t' (A(item := None)) \<and>
           \<not> vb_bits (odt_bitmap t') ! item"
proof -
  note inv = odt_invD [OF assms(1)]
  obtain t1 where t1: "pfl_odt_doput t item None False = Some t1"
    "odt_hdr t1 = odt_hdr t" "odt_bitmap t1 = odt_bitmap t" "hdr_ok (odt_hdr t) (odt_file t1)"
    "odt_slot (odt_hdr t) (odt_file t1) item = Some None"
    "\<And>i. i \<noteq> item \<Longrightarrow> odt_slot (odt_hdr t) (odt_file t1) i = odt_slot (odt_hdr t) (odt_file t) i"
    by (rule doput_spec [OF inv(1) assms(2), of None False]) auto
  have bm: "vb_wf (odt_bitmap t)" "item < psc_vbitmap_getsize (odt_bitmap t)"
    using inv(2) assms(2) by (auto simp: bitmap_ok_def)
  obtain vb where vb: "psc_vbitmap_setval (odt_bitmap t) item False =
      Some (vb, of_bool (vb_bits (odt_bitmap t) ! item))"
    "vb_bits vb = (vb_bits (odt_bitmap t))[item := False]" "vb_wf vb"
    "vb_tailclear vb = vb_tailclear (odt_bitmap t)" "vb_flags vb = vb_flags (odt_bitmap t)"
    using setval_spec [OF bm, of False] by auto
  have size: "psc_vbitmap_getsize vb = psc_vbitmap_getsize (odt_bitmap t)"
    using vb(2) by (metis length_list_update length_vb_bits)
  then have "bitmap_ok vb (unat (odth_nitems (odt_hdr t)))"
    using inv(2) assms(3) vb vb_wf_size_0 [OF vb(3)] by (auto simp: bitmap_ok_def)
  then show ?thesis
    using t1 vb inv(3,4) assms(2) bm(2)
    by (auto simp: pfl_odt_freeitem_def odt_inv_def Let_def nth_list_update simp del: nth_vb_bits)
qed

lemma bitmap_okD:
  assumes "bitmap_ok vb n"
  shows "vb_wf vb" "vb_tailclear vb" "vb_buf vb \<noteq> []" "vb_flags vb = PVBF_AUTO"
    "psc_vbitmap_getsize vb = n" "vb_bits vb ! 0" "length (vb_bits vb) = n"
  using assms by (auto simp: bitmap_ok_def)

lemma bitmap_auto: "bitmap_ok vb n \<Longrightarrow> vb_flags vb AND (PVBF_AUTO OR PVBF_EXTALLOC) = PVBF_AUTO"
  by (simp add: bitmap_ok_def PVBF_AUTO_def PVBF_EXTALLOC_def)

lemma allocslot_inv:
  assumes "odt_inv t A" "\<not> list_all id (vb_bits (odt_bitmap t))"
  shows "\<exists>t' item. pfl_odt_allocslot resize t = Some (t', Some item) \<and> odt_inv t' A \<and>
           item < unat (odth_nitems (odt_hdr t)) \<and> item \<noteq> 0 \<and> A item = None \<and>
           \<not> vb_bits (odt_bitmap t) ! item \<and>
           vb_bits (odt_bitmap t') = (vb_bits (odt_bitmap t))[item := True] \<and>
           odt_hdr t' = odt_hdr t \<and> odt_file t' = odt_file t"
proof -
  note inv = odt_invD [OF assms(1)] and bm = bitmap_okD [OF odt_invD(2) [OF assms(1)]]
  note pos = vb_pos_le_size [OF bm(1)]
  obtain e where e: "find_free (vb_bits (odt_bitmap t)) (8 * vb_pos (odt_bitmap t)) = Some e"
    using assms(2) find_free_None_iff [OF pos] by auto
  note free = find_free_SomeD [OF e pos]
  obtain vb where vb: "psc_vbitmap_next (odt_bitmap t) = Some (vb, Some e)" "vb_wf vb"
    "vb_tailclear vb" "vb_bits vb = (vb_bits (odt_bitmap t))[e := True]"
    "vb_flags vb = vb_flags (odt_bitmap t)"
    using next_found [OF bm(1-3) e] by metis
  have "e < unat (odth_nitems (odt_hdr t))" "e \<noteq> 0" "A e = None"
    using free bm(6,7) inv(4) [of e] by (metis, metis, metis)
  moreover have "psc_vbitmap_getsize vb = unat (odth_nitems (odt_hdr t))"
    using vb(4) bm(7) by (metis length_list_update length_vb_bits)
  then have "bitmap_ok vb (unat (odth_nitems (odt_hdr t)))"
    using vb bm calculation vb_wf_size_0 [OF vb(2)]
    by (auto simp: bitmap_ok_def nth_list_update simp del: nth_vb_bits)
  then have "odt_inv (t\<lparr>odt_bitmap := vb\<rparr>) A"
    using inv vb(4) bm(7) free
    by (auto simp: odt_inv_def nth_list_update simp del: nth_vb_bits)
  ultimately show ?thesis
    using vb free by (auto simp: pfl_odt_allocslot_def Let_def simp del: nth_vb_bits)
qed

lemma allocslot_full:
  assumes "odt_inv t A" "list_all id (vb_bits (odt_bitmap t))"
  shows "pfl_odt_allocslot pfl_odtop_resize t = None"
    and "2 * unat (odth_nitems (odt_hdr t)) < 2 ^ 32 \<Longrightarrow>
      \<exists>t'. pfl_odt_allocslot slm_odt_resize t = Some (t', Some (unat (odth_nitems (odt_hdr t))))"
proof -
  note bm = bitmap_okD [OF odt_invD(2) [OF assms(1)]]
  obtain vb where vb: "psc_vbitmap_next (odt_bitmap t) =
      Some (vb, Some (unat (odth_nitems (odt_hdr t))))"
    using next_grow [OF bm(1,2) _ assms(2) bitmap_auto [OF odt_invD(2) [OF assms(1)]]] bm(3,5)
    by metis
  then show "pfl_odt_allocslot pfl_odtop_resize t = None"
    "\<exists>t'. pfl_odt_allocslot slm_odt_resize t = Some (t', Some (unat (odth_nitems (odt_hdr t))))"
    by (auto simp: pfl_odt_allocslot_def pfl_odtop_resize_def slm_odt_resize_def Let_def)
qed

subsection \<open>Reading the table back\<close>

lemma getslot_eq:
  assumes "hdr_ok (odt_hdr t) (odt_file t)" "i < unat (odth_nitems (odt_hdr t))"
    and "odt_slot (odt_hdr t) (odt_file t) i = Some x"
  obtains t' p f where "pfl_odt_getslot t i = Some (t', p, f)"
    "odt_hdr t' = odt_hdr t" "odt_file t' = odt_file t" "odt_bitmap t' = odt_bitmap t"
    "unat (odtf_slotno f) = i" "x = (if odtf_flags f AND ODT_FTRF_INUSE \<noteq> 0 then Some p else None)"
    "odt_ftr_crc (odt_hdr t) x f = odtf_crc f"
proof -
  have "odt_pad_ok (odt_hdr t)" using assms(1) by (simp add: hdr_ok_def)
  moreover have "i \<le> unat (odth_nitems (odt_hdr t) - 1)"
    using assms(2) by (subst unat_minus_one) auto
  ultimately show thesis
    using assms(3) that
    by (auto simp: odt_slot_def pfl_odt_getslot_def pfl_odt_read_def Let_def bind_eq_Some_conv
        split: if_splits)
qed

lemma checked_free:
  "checked A is t1 t' \<Longrightarrow> odt_hdr t1 = odt_hdr t \<Longrightarrow> odt_file t1 = odt_file t \<Longrightarrow>
     odt_bitmap t1 = odt_bitmap t \<Longrightarrow> A i = None \<Longrightarrow> checked A (i # is) t t'"
  by (auto simp: checked_def simp del: nth_vb_bits)

lemma checked_used:
  assumes "checked A is t1 t'" "odt_hdr t1 = odt_hdr t" "odt_file t1 = odt_file t"
    and "vb_bits (odt_bitmap t1) = (vb_bits (odt_bitmap t))[i := True]"
    and "vb_tailclear (odt_bitmap t1) = vb_tailclear (odt_bitmap t)"
    and "vb_flags (odt_bitmap t1) = vb_flags (odt_bitmap t)" "A i = Some b"
    and "i < psc_vbitmap_getsize (odt_bitmap t)"
  shows "checked A (i # is) t t'"
proof -
  have "psc_vbitmap_getsize (odt_bitmap t1) = psc_vbitmap_getsize (odt_bitmap t)"
    using assms(4) by (metis length_list_update length_vb_bits)
  then show ?thesis
    using assms by (auto simp: checked_def nth_list_update simp del: nth_vb_bits)
qed

lemma check_slots_spec:
  assumes "hdr_ok (odt_hdr t) (odt_file t)" "vb_wf (odt_bitmap t)"
    and "psc_vbitmap_getsize (odt_bitmap t) = unat (odth_nitems (odt_hdr t))"
    and "\<And>i. i \<in> set is \<Longrightarrow> i < unat (odth_nitems (odt_hdr t)) \<and>
           odt_slot (odt_hdr t) (odt_file t) i = Some (A i)"
  shows "\<exists>t'. odt_check_slots t is = Some (t', used_items A is) \<and> checked A is t t'"
  using assms
proof (induction "is" arbitrary: t)
  case Nil
  then show ?case by (simp add: used_items_def map_filter_simps checked_def)
next
  case (Cons i "is")
  have i: "i < unat (odth_nitems (odt_hdr t))" "odt_slot (odt_hdr t) (odt_file t) i = Some (A i)"
    using Cons.prems(4) by auto
  obtain t1 p f where t1: "pfl_odt_getslot t i = Some (t1, p, f)"
    "odt_hdr t1 = odt_hdr t" "odt_file t1 = odt_file t" "odt_bitmap t1 = odt_bitmap t"
    "unat (odtf_slotno f) = i" "A i = (if odtf_flags f AND ODT_FTRF_INUSE \<noteq> 0 then Some p else None)"
    "odt_ftr_crc (odt_hdr t) (A i) f = odtf_crc f"
    by (rule getslot_eq [OF Cons.prems(1) i])
  show ?case
  proof (cases "A i")
    case None
    then have eq: "odt_check_slots t (i # is) = odt_check_slots t1 is"
      using t1 by (simp add: Let_def split: if_splits)
    obtain t' where "odt_check_slots t1 is = Some (t', used_items A is)" "checked A is t1 t'"
      using Cons.IH [of t1] Cons.prems t1(2-4) by auto
    then show ?thesis
      using eq None checked_free [of A "is" t1 t' t i] t1(2-4)
      by (auto simp: used_items_def map_filter_simps)
  next
    case (Some b)
    then have p: "p = b" "odtf_flags f AND ODT_FTRF_INUSE \<noteq> 0" using t1(6) by (auto split: if_splits)
    obtain vb where vb: "psc_vbitmap_setval (odt_bitmap t) i True =
        Some (vb, of_bool (vb_bits (odt_bitmap t) ! i))"
      "vb_bits vb = (vb_bits (odt_bitmap t))[i := True]" "vb_wf vb"
      "vb_tailclear vb = vb_tailclear (odt_bitmap t)" "vb_flags vb = vb_flags (odt_bitmap t)"
      using setval_spec [OF Cons.prems(2), of i True] Cons.prems(3) i by auto
    have "psc_vbitmap_getsize vb = psc_vbitmap_getsize (odt_bitmap t)"
      using vb(2) by (metis length_list_update length_vb_bits)
    then obtain t' where t': "odt_check_slots (t1\<lparr>odt_bitmap := vb\<rparr>) is = Some (t', used_items A is)"
      "checked A is (t1\<lparr>odt_bitmap := vb\<rparr>) t'"
      using Cons.IH [of "t1\<lparr>odt_bitmap := vb\<rparr>"] Cons.prems t1(2-4) vb(3) by auto
    have "checked A (i # is) t t'"
      using t'(2) t1(2,3) vb(2,4,5) Some Cons.prems(3) i(1)
      by (intro checked_used [of A "is" "t1\<lparr>odt_bitmap := vb\<rparr>" t' t i b]) simp_all
    then show ?thesis
      using t'(1) t1 vb(1) p Some by (simp add: used_items_def map_filter_simps Let_def)
  qed
qed

lemma load_spec:
  assumes h: "pread file 0 32 = Some (hdr_bytes h)" "odth_crc h = psc_crc64_calc (hdr_body h)"
    and n: "0 < unat (odth_nitems h)"
  obtains t where "pfl_odt_load file = Some t" "odt_hdr t = h" "odt_file t = file"
    "bitmap_ok (odt_bitmap t) (unat (odth_nitems h))"
    "vb_bits (odt_bitmap t) = True # replicate (unat (odth_nitems h) - 1) False"
proof -
  let ?n = "unat (odth_nitems h)"
  obtain vb where vb: "psc_vbitmap_setval (psc_vbitmap_newf ?n PVBF_AUTO) 0 True =
      Some (vb, of_bool (vb_bits (psc_vbitmap_newf ?n PVBF_AUTO) ! 0))"
    "vb_bits vb = (vb_bits (psc_vbitmap_newf ?n PVBF_AUTO))[0 := True]" "vb_wf vb"
    "vb_tailclear vb = vb_tailclear (psc_vbitmap_newf ?n PVBF_AUTO)"
    "vb_flags vb = vb_flags (psc_vbitmap_newf ?n PVBF_AUTO)"
    using setval_spec [OF newf_wf, of 0 ?n PVBF_AUTO True] n by auto
  have bits: "vb_bits vb = True # replicate (?n - 1) False"
    using vb(2) n by (cases ?n) (simp_all add: newf_bits)
  then have size: "psc_vbitmap_getsize vb = ?n"
    using n by (metis length_vb_bits length_Cons length_replicate Suc_diff_1)
  have "bitmap_ok vb ?n"
    using vb(3-5) bits n size vb_wf_size_0 [OF vb(3)] newf_tailclear [of ?n PVBF_AUTO]
    by (auto simp: bitmap_ok_def psc_vbitmap_newf_def Let_def simp del: nth_vb_bits)
  then show thesis
    using vb(1) h bits by (intro that) (auto simp: pfl_odt_load_def hdr.dec_enc_id)
qed

lemma hdr_okD:
  assumes "hdr_ok h file"
  shows "pread file 0 32 = Some (hdr_bytes h)" "odth_crc h = psc_crc64_calc (hdr_body h)"
    "0 < unat (odth_nitems h)" "odt_pad_ok h" "32 \<le> unat (odth_start h)"
    "length file = odt_off h (unat (odth_nitems h))"
  using assms by (simp_all add: hdr_ok_def)

lemma odt_recover:
  assumes "odt_inv t A"
  shows "\<exists>t0 t'. pfl_odt_load (odt_file t) = Some t0 \<and>
     pfl_odt_check t0 = Some (t', used_items A [0..<unat (odth_nitems (odt_hdr t))]) \<and>
     odt_inv t' A \<and> odt_hdr t' = odt_hdr t \<and> odt_file t' = odt_file t \<and>
     (\<forall>i < unat (odth_nitems (odt_hdr t)). vb_bits (odt_bitmap t') ! i = (i = 0 \<or> A i \<noteq> None))"
proof -
  let ?n = "unat (odth_nitems (odt_hdr t))"
  note inv = odt_invD [OF assms]
  obtain t0 where t0: "pfl_odt_load (odt_file t) = Some t0" "odt_hdr t0 = odt_hdr t"
    "odt_file t0 = odt_file t" "bitmap_ok (odt_bitmap t0) ?n"
    "vb_bits (odt_bitmap t0) = True # replicate (?n - 1) False"
    by (rule load_spec [OF hdr_okD(1-3) [OF inv(1)]])
  note bm = bitmap_okD [OF t0(4)]
  obtain t' where t': "pfl_odt_check t0 = Some (t', used_items A [0..<?n])" "checked A [0..<?n] t0 t'"
    using check_slots_spec [of t0 "[0..<?n]" A] t0 inv bm by (auto simp: pfl_odt_check_def)
  have bits: "vb_bits (odt_bitmap t') ! i = (i = 0 \<or> A i \<noteq> None)" if "i < ?n" for i
    using t'(2) that bm(5) t0(5)
    by (auto simp: checked_def nth_Cons split: nat.splits simp del: nth_vb_bits)
  have "bitmap_ok (odt_bitmap t') ?n"
    using t'(2) bm bits [of 0] inv(1) vb_wf_size_0 [of "odt_bitmap t'"]
    by (auto simp: checked_def bitmap_ok_def hdr_ok_def simp del: nth_vb_bits)
  then have "odt_inv t' A"
    using t'(2) t0 inv bits by (auto simp: odt_inv_def checked_def simp del: nth_vb_bits)
  then show ?thesis using t0 t' bits by (auto simp: checked_def simp del: nth_vb_bits)
qed

subsection \<open>Creation\<close>

lemma format_spec:
  assumes "odt_pad_ok (odt_hdr t)" "32 \<le> unat (odth_start (odt_hdr t))"
    and "pread (odt_file t) 0 32 = Some hb" "k \<le> n" "n < 2 ^ 32"
    and "length (odt_file t) \<le> odt_off (odt_hdr t) k"
    and "\<And>i. i < k \<Longrightarrow> odt_slot (odt_hdr t) (odt_file t) i = Some None"
  shows "\<exists>t'. odt_format t [k..<n] = Some t' \<and> odt_hdr t' = odt_hdr t \<and>
           pread (odt_file t') 0 32 = Some hb \<and>
           (k < n \<longrightarrow> length (odt_file t') = odt_off (odt_hdr t) n) \<and>
           (\<forall>i < n. odt_slot (odt_hdr t) (odt_file t') i = Some None)"
  using assms
proof (induction "n - k" arbitrary: t k)
  case (Suc m)
  let ?h = "odt_hdr t" and ?z = "unat (odth_itemsz (odt_hdr t))"
  obtain t1 where t1: "pfl_odt_doput t k None False = Some t1" "odt_hdr t1 = ?h"
    and wr: "odt_file t1 = pwrite (odt_file t) (odt_off ?h k + ?z) (ftr_bytes (put_ftr ?h k None False))"
    by (rule doput_file [OF Suc.prems(1), of None False k]) auto
  have off: "odt_off ?h (Suc k) = odt_off ?h k + ?z + 16"
    using Suc.prems(1) by (simp add: odt_off_def odt_pad_ok_def)
  have len: "length (odt_file t1) = odt_off ?h (Suc k)"
    using Suc.prems(6) by (simp add: wr off ftr.enc_length)
  have hb: "pread (odt_file t1) 0 32 = Some hb"
    unfolding wr by (rule pread_pwrite_other [OF Suc.prems(3)]) (use Suc.prems(2) in \<open>simp add: odt_off_def\<close>)
  have old: "odt_slot ?h (odt_file t1) i = Some None" if "i < k" for i
  proof -
    have "pread (odt_file t) (odt_off ?h i) (?z + 16) \<noteq> None"
      using Suc.prems(7) [OF that] by (auto simp: odt_slot_def bind_eq_Some_conv)
    then have "pread (odt_file t1) (odt_off ?h i) (?z + 16) = pread (odt_file t) (odt_off ?h i) (?z + 16)"
      unfolding wr using odt_off_in_file [OF Suc.prems(1) that]
      by (auto intro!: pread_pwrite_other)
    then show ?thesis using Suc.prems(7) [OF that] odt_slot_frame by blast
  qed
  have new: "odt_slot ?h (odt_file t1) k = Some None"
  proof -
    let ?b = "take ?z (drop (odt_off ?h k) (odt_file t1))"
    have "pread (odt_file t1) (odt_off ?h k) ?z = Some ?b" using len off by (simp add: pread_def)
    moreover have "pread (odt_file t1) (odt_off ?h k + ?z) 16 = Some (ftr_bytes (put_ftr ?h k None False))"
      unfolding wr by (subst pread_pwrite_same) (auto simp: ftr.enc_length)
    ultimately have "odt_slot ?h (odt_file t1) k = Some (if False then None else None)"
      using len off Suc.prems(4,5) Suc.hyps(2)
      by (intro odt_slot_eqI [of _ _ _ ?b]) (auto simp: pread_split)
    then show ?thesis by simp
  qed
  have "\<exists>t'. odt_format t1 [Suc k..<n] = Some t' \<and> odt_hdr t' = odt_hdr t1 \<and>
      pread (odt_file t') 0 32 = Some hb \<and>
      (Suc k < n \<longrightarrow> length (odt_file t') = odt_off (odt_hdr t1) n) \<and>
      (\<forall>i < n. odt_slot (odt_hdr t1) (odt_file t') i = Some None)"
    using Suc.prems Suc.hyps(2) hb len old new
    by (intro Suc.hyps(1)) (auto simp: t1(2) less_Suc_eq)
  then show ?case
    using Suc.hyps(2) t1 len by (cases "Suc k = n") (auto simp: upt_conv_Cons)
qed auto

lemma create_spec:
  assumes "0 < nitems" "unat itemsz + 16 < 2 ^ 32" "32 \<le> unat startoff"
  obtains fl h where "pfl_odt_create nitems itemsz startoff 0 tflg = Some fl" "hdr_ok h fl"
    "odth_nitems h = nitems" "odth_itemsz h = itemsz" "odth_options h = tflg"
    "\<And>i. i < unat nitems \<Longrightarrow> odt_slot h fl i = Some None"
proof -
  define h0 where "h0 = \<lparr>odth_nitems = nitems, odth_itemsz = itemsz, odth_slotsz = itemsz + 0 + 16,
                odth_options = tflg, odth_start = startoff, odth_crc = 0\<rparr>"
  define h where "h = h0\<lparr>odth_crc := psc_crc64_calc (hdr_body h0)\<rparr>"
  define t where "t = \<lparr>odt_bitmap = VBITMAP_INIT_AUTO, odt_hdr = h, odt_file = pwrite [] 0 (hdr_bytes h),
                odt_stats = odt_stats0\<rparr>"
  have "unat (itemsz + 16) = unat itemsz + 16"
    using assms(2) by (subst unat_add_lem [THEN iffD1]) simp_all
  then have pad: "odt_pad_ok h" by (simp add: odt_pad_ok_def h_def h0_def)
  have body: "hdr_body h = hdr_body h0" by (simp add: hdr_body_def h_def)
  have n: "0 < unat nitems" using assms(1) by (simp add: unat_gt_0)
  have "\<exists>t'. odt_format t [0..<unat nitems] = Some t' \<and> odt_hdr t' = odt_hdr t \<and>
      pread (odt_file t') 0 32 = Some (hdr_bytes h) \<and>
      (0 < unat nitems \<longrightarrow> length (odt_file t') = odt_off (odt_hdr t) (unat nitems)) \<and>
      (\<forall>i < unat nitems. odt_slot (odt_hdr t) (odt_file t') i = Some None)"
    by (rule format_spec)
      (use assms(3) pad unat_u32_less [of nitems] in
        \<open>auto simp: t_def h_def h0_def odt_off_def hdr.enc_length pread_pwrite_same\<close>)
  then obtain t' where t': "odt_format t [0..<unat nitems] = Some t'"
    "pread (odt_file t') 0 32 = Some (hdr_bytes h)"
    "length (odt_file t') = odt_off h (unat nitems)"
    "\<And>i. i < unat nitems \<Longrightarrow> odt_slot h (odt_file t') i = Some None"
    using n by (auto simp: t_def)
  show thesis
  proof (rule that [of "odt_file t'" h])
    show "pfl_odt_create nitems itemsz startoff 0 tflg = Some (odt_file t')"
      using t'(1) by (simp add: pfl_odt_create_def Let_def t_def h_def h0_def)
    show "hdr_ok h (odt_file t')"
      using t' pad n assms(3) body by (simp add: hdr_ok_def) (simp add: h_def h0_def)
  qed (use t'(4) in \<open>simp_all add: h_def h0_def\<close>)
qed

lemma create_load_inv:
  assumes "0 < nitems" "unat itemsz + 16 < 2 ^ 32" "32 \<le> unat startoff"
    and "pfl_odt_create nitems itemsz startoff 0 tflg = Some file" "pfl_odt_load file = Some t"
  shows "odt_inv t (\<lambda>_. None)" "odth_nitems (odt_hdr t) = nitems" "odth_itemsz (odt_hdr t) = itemsz"
proof -
  obtain h where h: "hdr_ok h file" "odth_nitems h = nitems" "odth_itemsz h = itemsz"
    "\<And>i. i < unat nitems \<Longrightarrow> odt_slot h file i = Some None"
    using create_spec [OF assms(1-3), of tflg] assms(4) by (metis option.inject)
  have "odt_hdr t = h" "odt_file t = file" "bitmap_ok (odt_bitmap t) (unat nitems)"
    using load_spec [OF hdr_okD(1-3) [OF h(1)]] assms(5) h(2) by (metis option.inject)+
  then show "odt_inv t (\<lambda>_. None)" "odth_nitems (odt_hdr t) = nitems" "odth_itemsz (odt_hdr t) = itemsz"
    using h by (simp_all add: odt_inv_def)
qed

subsection \<open>Reachable tables\<close>

text \<open>
  The tables that a server can be left with, whenever it stops: every sequence of allocations,
  puts, replacements, frees and restarts on a table that has never been extended.
\<close>

inductive odt_reach :: "pfl_odt \<Rightarrow> (nat \<Rightarrow> u8 list option) \<Rightarrow> bool" where
  create: "0 < nitems \<Longrightarrow> unat itemsz + 16 < 2 ^ 32 \<Longrightarrow> 32 \<le> unat startoff \<Longrightarrow>
    pfl_odt_create nitems itemsz startoff 0 tflg = Some fl \<Longrightarrow> pfl_odt_load fl = Some t \<Longrightarrow>
    odt_reach t (\<lambda>_. None)"
| alloc: "odt_reach t A \<Longrightarrow> \<not> list_all id (vb_bits (odt_bitmap t)) \<Longrightarrow>
    pfl_odt_allocslot slm_odt_resize t = Some (t', r) \<Longrightarrow> odt_reach t' A"
| put: "odt_reach t A \<Longrightarrow> item < unat (odth_nitems (odt_hdr t)) \<Longrightarrow>
    vb_bits (odt_bitmap t) ! item \<Longrightarrow> length b = unat (odth_itemsz (odt_hdr t)) \<Longrightarrow>
    pfl_odt_putitem t item (Some b) True = Some t' \<Longrightarrow> odt_reach t' (A(item := Some b))"
| replace: "odt_reach t A \<Longrightarrow> item < unat (odth_nitems (odt_hdr t)) \<Longrightarrow>
    vb_bits (odt_bitmap t) ! item \<Longrightarrow> length b = unat (odth_itemsz (odt_hdr t)) \<Longrightarrow>
    pfl_odt_replaceitem t item b = Some t' \<Longrightarrow> odt_reach t' (A(item := Some b))"
| free: "odt_reach t A \<Longrightarrow> item < unat (odth_nitems (odt_hdr t)) \<Longrightarrow> item \<noteq> 0 \<Longrightarrow>
    pfl_odt_freeitem t item = Some t' \<Longrightarrow> odt_reach t' (A(item := None))"
| restart: "odt_reach t A \<Longrightarrow> pfl_odt_load (odt_file t) = Some t0 \<Longrightarrow>
    pfl_odt_check t0 = Some (t', items) \<Longrightarrow> odt_reach t' A"

lemma odt_reach_inv: "odt_reach t A \<Longrightarrow> odt_inv t A"
proof (induction rule: odt_reach.induct)
  case (create nitems itemsz startoff tflg fl t)
  then show ?case by (rule create_load_inv(1))
next
  case (alloc t A t' r)
  then show ?case using allocslot_inv [OF alloc.IH alloc.hyps(2), of slm_odt_resize] by auto
next
  case (put t A item b t')
  then show ?case using putitem_inv [OF put.IH put.hyps(2-4)] by (auto simp: fun_upd_def)
next
  case (replace t A item b t')
  then show ?case using replaceitem_inv [OF replace.IH replace.hyps(2-4)] by (auto simp: fun_upd_def)
next
  case (free t A item t')
  then show ?case using freeitem_inv [OF free.IH free.hyps(2,3)] by (auto simp: fun_upd_def)
next
  case (restart t A t0 t' items)
  then show ?case using odt_recover [OF restart.IH] by auto
qed

subsection \<open>Extending the table\<close>

lemma check_slots_unreadable:
  assumes "i \<in> set is" "pread (odt_file t) (odt_off (odt_hdr t) i) (unat (odth_itemsz (odt_hdr t)) + 16) = None"
  shows "odt_check_slots t is = None"
  using assms
proof (induction "is" arbitrary: t)
  case (Cons j "is")
  have get: "odt_hdr t1 = odt_hdr t \<and> odt_file t1 = odt_file t"
    if "pfl_odt_getslot t k = Some (t1, p, f)" for k t1 p f
    using that by (auto simp: pfl_odt_getslot_def bind_eq_Some_conv split: prod.splits if_splits)
  show ?case
  proof (cases "j = i")
    case True
    then show ?thesis
      using Cons.prems(2) by (simp add: pfl_odt_getslot_def pfl_odt_read_def Let_def)
  next
    case False
    then have "i \<in> set is" using Cons.prems(1) by simp
    then have "odt_check_slots t1 is = None" "odt_check_slots (t1\<lparr>odt_bitmap := vb\<rparr>) is = None"
      if "pfl_odt_getslot t j = Some (t1, p, f)" for t1 p f vb
      using get [OF that] Cons.prems(2) Cons.IH by auto
    then show ?thesis
      by (cases "pfl_odt_getslot t j") (auto simp: Let_def bind_eq_None_conv split: prod.splits)
  qed
qed simp

text \<open>
  When the table is full the next allocation doubles the bitmap and the item count in the
  header, but writes none of the new slots. A server that stops before every new slot has been
  used cannot load the table again: \<^verbatim>\<open>pfl_odt_check\<close> aborts on the first missing footer.
\<close>

lemma grown_table_unreadable:
  assumes "odt_inv t A" "list_all id (vb_bits (odt_bitmap t))"
    and n: "n = unat (odth_nitems (odt_hdr t))" "1 < n" "2 * n < 2 ^ 32"
    and b: "length b = unat (odth_itemsz (odt_hdr t))"
  shows "\<exists>t1 t2 t0. pfl_odt_allocslot slm_odt_resize t = Some (t1, Some n) \<and>
           pfl_odt_putitem t1 n (Some b) True = Some t2 \<and>
           pfl_odt_load (odt_file t2) = Some t0 \<and> pfl_odt_check t0 = None"
proof -
  note inv = odt_invD [OF assms(1)] and bm = bitmap_okD [OF odt_invD(2) [OF assms(1)]]
  obtain vb where vb: "psc_vbitmap_next (odt_bitmap t) = Some (vb, Some n)"
    "vb_bits vb = vb_bits (odt_bitmap t) @ True # replicate (n - 1) False"
    using next_grow [OF bm(1,2) _ assms(2) bitmap_auto [OF inv(2)]] bm(3,5) n by auto
  have size: "psc_vbitmap_getsize vb = 2 * n"
    using arg_cong [OF vb(2), of length] bm(7) n by simp
  define h where "h = (odt_hdr t)\<lparr>odth_nitems := word_of_nat (2 * n)\<rparr>"
  define h1 where "h1 = h\<lparr>odth_crc := psc_crc64_calc (hdr_body h)\<rparr>"
  have n1: "unat (odth_nitems h1) = 2 * n" using unat_word32 [OF n(3)] by (simp add: h1_def h_def)
  obtain t1 where t1: "pfl_odt_allocslot slm_odt_resize t = Some (t1, Some n)" "odt_hdr t1 = h1"
    "odt_file t1 = pwrite (odt_file t) 0 (hdr_bytes h1)"
    using vb(1) size n(1) by (auto simp: pfl_odt_allocslot_def slm_odt_resize_def Let_def h1_def h_def)
  have hdr: "odt_pad_ok h1" "odt_off h1 i = odt_off (odt_hdr t) i" "32 \<le> unat (odth_start h1)"
    "odth_itemsz h1 = odth_itemsz (odt_hdr t)" "odth_crc h1 = psc_crc64_calc (hdr_body h1)" for i
    using inv(1) by (simp_all add: hdr_ok_def odt_pad_ok_def odt_off_def h1_def h_def hdr_body_def)
  obtain t2 where t2: "pfl_odt_doput t1 n (Some b) True = Some t2" "odt_hdr t2 = h1"
    "odt_file t2 = pwrite (odt_file t1) (odt_off h1 n) (b @ ftr_bytes (put_ftr h1 n (Some b) True))"
    using doput_file [of t1 "Some b" True n] hdr(1,4) t1(2) b by auto
  have "length (odt_file t1) = odt_off h1 n"
    using hdr_okD(5,6) [OF inv(1)] n(1) by (simp add: t1(3) hdr.enc_length odt_off_def h1_def h_def)
  then have len: "length (odt_file t2) < odt_off h1 (Suc n) + (unat (odth_itemsz h1) + 16)"
    using hdr(1) b by (simp add: t2(3) ftr.enc_length hdr(4) odt_off_def odt_pad_ok_def)
  have "pread (odt_file t1) 0 32 = Some (hdr_bytes h1)"
    by (simp add: t1(3) pread_pwrite_same hdr.enc_length)
  then have "pread (odt_file t2) 0 32 = Some (hdr_bytes h1)"
    unfolding t2(3) using hdr(3) by (intro pread_pwrite_other) (auto simp: odt_off_def)
  then obtain t0 where t0: "pfl_odt_load (odt_file t2) = Some t0" "odt_hdr t0 = h1"
    "odt_file t0 = odt_file t2"
    using load_spec [of "odt_file t2" h1] hdr(5) n1 n(2) by auto
  have "Suc n \<in> set [0..<2 * n]" using n(2) by simp
  then have "pfl_odt_check t0 = None"
    using check_slots_unreadable [of "Suc n" _ t0] len t0 n1 by (simp add: pfl_odt_check_def pread_def)
  then show ?thesis using t1 t2 t0 by (auto simp: pfl_odt_putitem_def)
qed

subsection \<open>Properties\<close>

text \<open>
  C1. Recovery: whatever sequence of allocations, puts, replacements, frees and restarts a table
  has gone through without being extended, loading its file and checking it succeeds, reports
  exactly the stored items in slot order, and rebuilds a bitmap in which exactly the slots of
  those items, and the reserved slot 0, are taken.
\<close>

theorem odt_recovery:
  assumes "odt_reach t A"
  shows "\<exists>t0 t'. pfl_odt_load (odt_file t) = Some t0 \<and>
     pfl_odt_check t0 = Some (t', used_items A [0..<unat (odth_nitems (odt_hdr t))]) \<and>
     (\<forall>i < unat (odth_nitems (odt_hdr t)). vb_bits (odt_bitmap t') ! i = (i = 0 \<or> A i \<noteq> None))"
  using odt_recover [OF odt_reach_inv [OF assms]] by blast

text \<open>The table of the witnesses: four slots with items of two bytes.\<close>

lemma small_table:
  "\<exists>t. odt_reach t (\<lambda>_. None) \<and> odth_nitems (odt_hdr t) = 4 \<and> odth_itemsz (odt_hdr t) = 2 \<and>
     vb_bits (odt_bitmap t) = [True, False, False, False]"
proof -
  obtain fl h where f: "pfl_odt_create 4 2 32 0 1 = Some fl" "hdr_ok h fl" "odth_nitems h = 4"
    by (rule create_spec [of 4 2 32 1]) auto
  obtain t where t: "pfl_odt_load fl = Some t"
    and bits: "vb_bits (odt_bitmap t) = True # replicate (unat (odth_nitems h) - 1) False"
    using load_spec [OF hdr_okD(1-3) [OF f(2)]] by metis
  have "vb_bits (odt_bitmap t) = [True, False, False, False]"
    unfolding bits f(3) by (simp add: numeral_3_eq_3)
  then show ?thesis
    using odt_reach.create [OF _ _ _ f(1) t] create_load_inv(2,3) [OF _ _ _ f(1) t] by auto
qed

lemma small_table_put:
  "\<exists>t A i. odt_reach t A \<and> odth_nitems (odt_hdr t) = 4 \<and> i < 4 \<and> A = (\<lambda>_. None)(i := Some [5, 6])"
proof -
  obtain t where t: "odt_reach t (\<lambda>_. None)" "odth_nitems (odt_hdr t) = 4" "odth_itemsz (odt_hdr t) = 2"
    and full: "\<not> list_all id (vb_bits (odt_bitmap t))"
    using small_table by auto
  obtain t1 i where t1: "pfl_odt_allocslot slm_odt_resize t = Some (t1, Some i)" "i < 4"
    "odt_inv t1 (\<lambda>_. None)" "vb_bits (odt_bitmap t1) ! i" "odt_hdr t1 = odt_hdr t"
    using allocslot_inv [OF odt_reach_inv [OF t(1)] full, of slm_odt_resize] t(2)
      bitmap_okD(7) [OF odt_invD(2) [OF odt_reach_inv [OF t(1)]]]
    by (auto simp del: nth_vb_bits)
  obtain t2 where "pfl_odt_putitem t1 i (Some [5, 6]) True = Some t2" "odt_hdr t2 = odt_hdr t1"
    using putitem_inv [OF t1(3) _ t1(4), of "[5, 6]"] t1(2,5) t by auto
  then show ?thesis
    using odt_reach.put [OF odt_reach.alloc [OF t(1) full t1(1)] _ t1(4), of "[5, 6]" t2] t1(2,5) t(2,3)
    by (intro exI [of _ t2] exI [of _ "(\<lambda>_. None)(i := Some [5, 6])"] exI [of _ i]) auto
qed

theorem odt_recovery_witness:
  "\<exists>(t :: pfl_odt) t0 t' i. pfl_odt_load (odt_file t) = Some t0 \<and> pfl_odt_check t0 = Some (t', [(i, [5, 6])]) \<and>
     vb_bits (odt_bitmap t') ! i"
proof -
  obtain t A i where t: "odt_reach t A" "odth_nitems (odt_hdr t) = 4" "i < 4"
    "A = (\<lambda>_. None)(i := Some [5, 6])"
    using small_table_put by blast
  have "i = 0 \<or> i = 1 \<or> i = 2 \<or> i = 3" using t(3) by auto
  then have "used_items A [0..<4] = [(i, [5, 6])]"
    by (auto simp: t(4) used_items_def map_filter_simps upt_rec)
  moreover obtain t0 t' where "pfl_odt_load (odt_file t) = Some t0"
    "pfl_odt_check t0 = Some (t', used_items A [0..<4])" "vb_bits (odt_bitmap t') ! i"
    using odt_recovery [OF t(1)] t(2-4) by (auto simp del: nth_vb_bits)
  ultimately show ?thesis
    by (intro exI [of _ t] exI [of _ t0] exI [of _ t'] exI [of _ i]) simp
qed

text \<open>
  C18. Allocation: on a reachable table with a free slot, the allocated slot is one that holds no
  item and was not allocated, it is never the reserved slot 0, and the stored items and the
  file are unchanged.
\<close>

theorem odt_alloc_fresh:
  assumes "odt_reach t A" "\<not> list_all id (vb_bits (odt_bitmap t))"
  shows "\<exists>t' item. pfl_odt_allocslot slm_odt_resize t = Some (t', Some item) \<and> odt_reach t' A \<and>
           item < unat (odth_nitems (odt_hdr t)) \<and> item \<noteq> 0 \<and> A item = None \<and>
           vb_bits (odt_bitmap t') = (vb_bits (odt_bitmap t))[item := True] \<and>
           \<not> vb_bits (odt_bitmap t) ! item \<and> odt_file t' = odt_file t"
  using allocslot_inv [OF odt_reach_inv [OF assms(1)] assms(2), of slm_odt_resize]
    odt_reach.alloc [OF assms] by blast

theorem odt_alloc_fresh_witness:
  "\<exists>t t' item. odt_reach t (\<lambda>_. None) \<and>
     pfl_odt_allocslot slm_odt_resize t = Some (t', Some item) \<and> item < 4 \<and> item \<noteq> 0"
proof -
  obtain t where t: "odt_reach t (\<lambda>_. None)" "odth_nitems (odt_hdr t) = 4"
    "\<not> list_all id (vb_bits (odt_bitmap t))"
    using small_table by auto
  then show ?thesis using odt_alloc_fresh [OF t(1,3)] by auto
qed

text \<open>
  C19. Insert and look up: after an item is put into an allocated slot of a reachable table,
  reading that slot returns the item, marked in use and with its own slot number, while every
  other slot reads as before.
\<close>

theorem odt_put_get:
  assumes "odt_reach t A" "item < unat (odth_nitems (odt_hdr t))" "vb_bits (odt_bitmap t) ! item"
    and "length b = unat (odth_itemsz (odt_hdr t))"
  shows "\<exists>t' t'' f. pfl_odt_putitem t item (Some b) True = Some t' \<and>
     pfl_odt_getslot t' item = Some (t'', b, f) \<and> unat (odtf_slotno f) = item \<and>
     odtf_flags f AND ODT_FTRF_INUSE \<noteq> 0 \<and>
     (\<forall>i. i \<noteq> item \<longrightarrow> i < unat (odth_nitems (odt_hdr t)) \<longrightarrow>
        odt_slot (odt_hdr t') (odt_file t') i = odt_slot (odt_hdr t) (odt_file t) i)"
proof -
  note inv = odt_reach_inv [OF assms(1)]
  obtain t' where t': "pfl_odt_putitem t item (Some b) True = Some t'" "odt_inv t' (A(item := Some b))"
    "odt_hdr t' = odt_hdr t"
    using putitem_inv [OF inv assms(2-4)] by blast
  obtain t'' p f where "pfl_odt_getslot t' item = Some (t'', p, f)" "unat (odtf_slotno f) = item"
    "Some b = (if odtf_flags f AND ODT_FTRF_INUSE \<noteq> 0 then Some p else None)"
  proof (rule getslot_eq [OF odt_invD(1) [OF t'(2)], of item "Some b"])
    show "odt_slot (odt_hdr t') (odt_file t') item = Some (Some b)"
      using odt_invD(3) [OF t'(2), of item] t'(3) assms(2) by simp
  qed (use t'(3) assms(2) in auto)
  moreover have "odt_slot (odt_hdr t') (odt_file t') i = odt_slot (odt_hdr t) (odt_file t) i"
    if "i \<noteq> item" "i < unat (odth_nitems (odt_hdr t))" for i
    using odt_invD(3) [OF t'(2), of i] odt_invD(3) [OF inv, of i] t'(3) that by simp
  ultimately show ?thesis using t'(1) by (auto split: if_splits)
qed

theorem odt_put_get_witness:
  "\<exists>t t' t'' f. pfl_odt_putitem t 0 (Some [5, 6]) True = Some t' \<and> pfl_odt_getslot t' 0 = Some (t'', [5, 6], f)"
proof -
  obtain t where "odt_reach t (\<lambda>_. None)" "odth_nitems (odt_hdr t) = 4" "odth_itemsz (odt_hdr t) = 2"
    "vb_bits (odt_bitmap t) ! 0"
    using small_table by (auto simp del: nth_vb_bits)
  then show ?thesis using odt_put_get [of t "\<lambda>_. None" 0 "[5, 6]"] by auto
qed

text \<open>
  C20. Extending a full table: the metadata server's allocation succeeds and returns the first new
  slot, but once the server has stored an item there and stopped, its table can no longer be
  read back: the header loads and the check of the slots aborts. With the stand-alone
  operations, whose resize hook is the null pointer, the allocation itself aborts.
\<close>

theorem odt_growth_not_recoverable:
  assumes "odt_reach t A" "list_all id (vb_bits (odt_bitmap t))"
    and "n = unat (odth_nitems (odt_hdr t))" "1 < n" "2 * n < 2 ^ 32"
    and "length b = unat (odth_itemsz (odt_hdr t))"
  shows "pfl_odt_allocslot pfl_odtop_resize t = None \<and>
         (\<exists>t1 t2 t0. pfl_odt_allocslot slm_odt_resize t = Some (t1, Some n) \<and>
           pfl_odt_putitem t1 n (Some b) True = Some t2 \<and>
           pfl_odt_load (odt_file t2) = Some t0 \<and> pfl_odt_check t0 = None)"
  using grown_table_unreadable [OF odt_reach_inv [OF assms(1)] assms(2-6)]
    allocslot_full(1) [OF odt_reach_inv [OF assms(1)] assms(2)] by blast

lemma fewer_free: "i < length xs \<Longrightarrow> \<not> xs ! i \<Longrightarrow>
    length (filter Not (xs[i := True])) < length (filter Not xs)"
proof (induction xs arbitrary: i)
  case (Cons x xs)
  then show ?case by (cases i) auto
qed simp

lemma small_table_full:
  "\<exists>t A. odt_reach t A \<and> odth_nitems (odt_hdr t) = 4 \<and> odth_itemsz (odt_hdr t) = 2 \<and>
     list_all id (vb_bits (odt_bitmap t))"
proof -
  have step: "\<exists>t'. odt_reach t' A \<and> odt_hdr t' = odt_hdr t \<and>
      length (filter Not (vb_bits (odt_bitmap t'))) < length (filter Not (vb_bits (odt_bitmap t)))"
    if t: "odt_reach t A" "\<not> list_all id (vb_bits (odt_bitmap t))" for t A
  proof -
    obtain t' i where t': "pfl_odt_allocslot slm_odt_resize t = Some (t', Some i)"
      "\<not> vb_bits (odt_bitmap t) ! i" "i < length (vb_bits (odt_bitmap t))" "odt_hdr t' = odt_hdr t"
      "vb_bits (odt_bitmap t') = (vb_bits (odt_bitmap t))[i := True]"
      using allocslot_inv [OF odt_reach_inv [OF t(1)] t(2), of slm_odt_resize]
        bitmap_okD(7) [OF odt_invD(2) [OF odt_reach_inv [OF t(1)]]] by (auto simp del: nth_vb_bits)
    have "length (filter Not (vb_bits (odt_bitmap t'))) < length (filter Not (vb_bits (odt_bitmap t)))"
      unfolding t'(5) using t'(3,2) by (rule fewer_free)
    then show ?thesis using odt_reach.alloc [OF t t'(1)] t'(4) by blast
  qed
  have "\<exists>t'. odt_reach t' A \<and> odt_hdr t' = odt_hdr t \<and> list_all id (vb_bits (odt_bitmap t'))"
    if "odt_reach t A" for t A
    using that
  proof (induction "length (filter Not (vb_bits (odt_bitmap t)))" arbitrary: t rule: less_induct)
    case less
    show ?case
    proof (cases "list_all id (vb_bits (odt_bitmap t))")
      case False
      then obtain t1 where t1: "odt_reach t1 A" "odt_hdr t1 = odt_hdr t"
        "length (filter Not (vb_bits (odt_bitmap t1))) < length (filter Not (vb_bits (odt_bitmap t)))"
        using step [OF less.prems] by blast
      then show ?thesis using less.hyps [OF t1(3,1)] by simp
    qed (use less.prems in blast)
  qed
  moreover obtain t where "odt_reach t (\<lambda>_. None)" "odth_nitems (odt_hdr t) = 4"
    "odth_itemsz (odt_hdr t) = 2"
    using small_table by blast
  ultimately obtain t' where "odt_reach t' (\<lambda>_. None)" "odt_hdr t' = odt_hdr t"
    "list_all id (vb_bits (odt_bitmap t'))"
    by blast
  then show ?thesis using \<open>odth_nitems (odt_hdr t) = 4\<close> \<open>odth_itemsz (odt_hdr t) = 2\<close> by auto
qed

theorem odt_growth_not_recoverable_witness:
  "\<exists>(t2 :: pfl_odt) t0. pfl_odt_load (odt_file t2) = Some t0 \<and> pfl_odt_check t0 = None"
proof -
  obtain t A where t: "odt_reach t A" "odth_nitems (odt_hdr t) = 4" "odth_itemsz (odt_hdr t) = 2"
    "list_all id (vb_bits (odt_bitmap t))"
    using small_table_full by blast
  have "\<exists>t1 t2 t0. pfl_odt_allocslot slm_odt_resize t = Some (t1, Some 4) \<and>
      pfl_odt_putitem t1 4 (Some [5, 6]) True = Some t2 \<and>
      pfl_odt_load (odt_file t2) = Some t0 \<and> pfl_odt_check t0 = None"
    using odt_growth_not_recoverable [OF t(1,4), of 4 "[5, 6]"] t(2,3) by auto
  then show ?thesis by blast
qed

end
