(* ===== verification/Journal.thy ===== *)
theory Journal
  imports Crc Bytes "HOL-Library.Product_Lexorder"
begin

text \<open>
  The metadata journal of \<^verbatim>\<open>src/pfl/journal.c\<close>: a ring of fixed-size slots outside the ZFS pool
  in which every metadata update is logged before it is known to be committed. Slots are
  reserved ahead of a transaction, written in ring order, handed to the distill thread when the
  entry needs further processing, and reclaimed once their ZFS transaction group is synced and
  they are distilled. After a crash the whole ring is scanned and the entries that are not yet
  committed or distilled are replayed in order of their transaction identifiers.

  The device is the list of its slots, since all input and output moves whole slots; it is
  assumed to work, as the code aborts otherwise. What ZFS reports (\<^verbatim>\<open>zfsslash2_return_synced\<close>)
  and the replay and distill callbacks are arguments. A transaction handle is on two lists at
  once and is changed through both, so handles live in a store indexed by their address.
\<close>

subsection \<open>Data\<close>

definition PJE_MAGIC :: u32 where "PJE_MAGIC = 0x4567abcd"
definition PJE_XID_NONE :: u64 where "PJE_XID_NONE = 0"
definition PJE_FORMAT :: u16 where "PJE_FORMAT = 1"
definition PJE_NORMAL :: u16 where "PJE_NORMAL = 2"
definition PJE_DISTILL :: u16 where "PJE_DISTILL = 4"
definition PJX_DISTILL :: u32 where "PJX_DISTILL = 1"
definition PJX_WRITTEN :: u32 where "PJX_WRITTEN = 2"
definition PJF_WANTBUF :: u32 where "PJF_WANTBUF = 1"
definition PJF_WANTSLOT :: u32 where "PJF_WANTSLOT = 2"
definition PJF_ISBLKDEV :: u32 where "PJF_ISBLKDEV = 4"
definition PJF_REPLAYINPROG :: u32 where "PJF_REPLAYINPROG = 8"
definition PJ_MAX_BUF :: nat where "PJ_MAX_BUF = 16384"

record psc_journal_enthdr =
  pje_magic :: u32
  pje_type :: u16
  pje_len :: u16
  pje_xid :: u64
  pje_txg :: u64
  pje_chksum :: u64
  pje_data :: "u8 list"

text \<open>\<open>pjx_slot = None\<close> is \<^verbatim>\<open>PJX_SLOT_ANY\<close>.\<close>

record psc_journal_xidhndl =
  pjx_txg :: u64
  pjx_xid :: u64
  pjx_slot :: "nat option"
  pjx_flags :: u32
  pjx_data :: "psc_journal_enthdr option"

record psc_journal =
  pj_flags :: u32
  pj_inuse :: nat
  pj_total :: nat
  pj_resrv :: nat
  pj_lastxid :: u64
  pj_current_txg :: u64
  pj_commit_txg :: u64
  pj_replay_xid :: u64
  pj_distill_xid :: u64
  pj_readsize :: nat
  pj_entsz :: nat
  pj_slots :: "psc_journal_enthdr list"
  pj_pendingxids :: "nat list"
  pj_distillxids :: "nat list"
  pj_handles :: "nat \<Rightarrow> psc_journal_xidhndl"
  pj_nexthndl :: nat
  pj_bufs :: "psc_journal_enthdr list"
  pj_nextwrite :: nat
  pj_wraparound :: u64
  total_trans :: nat
  total_reserve :: nat

definition le16 :: "u16 \<Rightarrow> u8 list" where
  "le16 w = map (\<lambda>i. ucast (drop_bit (8 * i) w)) [0..<2]"

text \<open>The bytes of the header before the checksum field, and the checksum of an entry.\<close>

definition pje_head :: "psc_journal_enthdr \<Rightarrow> u8 list" where
  "pje_head e = le32 (pje_magic e) @ le16 (pje_type e) @ le16 (pje_len e) @
     le64 (pje_xid e) @ le64 (pje_txg e)"

definition pje_crc :: "psc_journal_enthdr \<Rightarrow> u64 option" where
  "pje_crc e =
     do {
       psc_assert (unat (pje_len e) \<le> length (pje_data e));
       Some (psc_crc64_fini
         (psc_crc64_add (psc_crc64_add psc_crc64_init (pje_head e))
            (take (unat (pje_len e)) (pje_data e))))
     }"

definition upd_handle ::
  "nat \<Rightarrow> (psc_journal_xidhndl \<Rightarrow> psc_journal_xidhndl) \<Rightarrow> psc_journal \<Rightarrow> psc_journal" where
  "upd_handle a f pj = pj\<lparr>pj_handles := (pj_handles pj)(a := f (pj_handles pj a))\<rparr>"

subsection \<open>Transaction identifiers and handles\<close>

function next_xid_loop :: "u64 \<Rightarrow> u64" where
  "next_xid_loop x = (let x' = x + 1 in if x' = PJE_XID_NONE then next_xid_loop x' else x')"
  by pat_completeness auto
termination
  by (relation "measure (\<lambda>x. if x + 1 = 0 then 1 else 0)") (auto simp: PJE_XID_NONE_def)

declare next_xid_loop.simps [simp del]

definition pjournal_next_xid :: "psc_journal \<Rightarrow> psc_journal \<times> u64" where
  "pjournal_next_xid pj =
     (let x = next_xid_loop (pj_lastxid pj) in (pj\<lparr>pj_lastxid := x\<rparr>, x))"

definition pjournal_update_txg :: "psc_journal \<Rightarrow> u64 \<Rightarrow> psc_journal" where
  "pjournal_update_txg pj txg = pj\<lparr>pj_current_txg := txg\<rparr>"

definition pjournal_assign_xid :: "psc_journal \<Rightarrow> nat \<Rightarrow> u64 \<Rightarrow> psc_journal" where
  "pjournal_assign_xid pj xh txg =
     (let (pj, xid) = pjournal_next_xid pj;
          pj = upd_handle xh (\<lambda>h. h\<lparr>pjx_xid := xid\<rparr>) pj;
          pj = (if pjx_flags (pj_handles pj xh) AND PJX_DISTILL \<noteq> 0
                then pj\<lparr>pj_distillxids := pj_distillxids pj @ [xh]\<rparr> else pj)
      in upd_handle xh (\<lambda>h. h\<lparr>pjx_txg := (if txg = 0 then pj_current_txg pj else txg)\<rparr>) pj)"

text \<open>A new handle is an object of the pool that is not in use: the next fresh address.\<close>

definition pjournal_xnew :: "psc_journal \<Rightarrow> bool \<Rightarrow> u64 \<Rightarrow> (psc_journal \<times> nat) option" where
  "pjournal_xnew pj distill txg =
     do {
       let pj = pj\<lparr>total_trans := total_trans pj + 1\<rparr>;
       psc_assert (total_trans pj \<le> total_reserve pj);
       let xh = pj_nexthndl pj;
       let pj = pj\<lparr>pj_nexthndl := xh + 1\<rparr>;
       let pj = upd_handle xh (\<lambda>_. \<lparr>pjx_txg = 0, pjx_xid = 0, pjx_slot = None,
                  pjx_flags = (if distill then PJX_DISTILL else 0), pjx_data = None\<rparr>) pj;
       Some (pjournal_assign_xid pj xh txg, xh)
     }"

definition pjournal_xdestroy :: "psc_journal \<Rightarrow> nat \<Rightarrow> psc_journal option" where
  "pjournal_xdestroy pj xh =
     do {
       psc_assert (xh \<notin> set (pj_pendingxids pj));
       psc_assert (xh \<notin> set (pj_distillxids pj));
       psc_assert (pjx_data (pj_handles pj xh) = None);
       Some pj
     }"

definition pjournal_next_slot :: "psc_journal \<Rightarrow> nat \<Rightarrow> psc_journal option" where
  "pjournal_next_slot pj xh =
     do {
       let slot = pj_nextwrite pj;
       (case pj_pendingxids pj of
          [] \<Rightarrow> Some ()
        | t # _ \<Rightarrow> psc_assert (pjx_slot (pj_handles pj t) \<noteq> Some slot));
       psc_assert (pj_nextwrite pj < pj_total pj);
       let pj = pj\<lparr>pj_nextwrite := pj_nextwrite pj + 1\<rparr>;
       let pj = (if pj_nextwrite pj = pj_total pj
                 then pj\<lparr>pj_nextwrite := 0, pj_wraparound := pj_wraparound pj + 1\<rparr> else pj);
       psc_assert (pj_resrv pj > 0);
       let pj = pj\<lparr>pj_inuse := pj_inuse pj + 1\<rparr>;
       let pj = upd_handle xh (\<lambda>h. h\<lparr>pjx_slot := Some slot\<rparr>) pj;
       Some (pj\<lparr>pj_pendingxids := pj_pendingxids pj @ [xh]\<rparr>)
     }"

subsection \<open>Writing entries\<close>

definition pjournal_logwrite_internal ::
  "psc_journal \<Rightarrow> psc_journal_enthdr \<Rightarrow> nat \<Rightarrow> (psc_journal \<times> psc_journal_enthdr) option" where
  "pjournal_logwrite_internal pj pje slot =
     do {
       chksum \<leftarrow> pje_crc pje;
       let pje = pje\<lparr>pje_chksum := chksum\<rparr>;
       slots \<leftarrow> wr (pj_slots pj) slot pje;
       Some (pj\<lparr>pj_slots := slots\<rparr>, pje)
     }"

definition pjournal_logwrite ::
  "psc_journal \<Rightarrow> nat \<Rightarrow> u16 \<Rightarrow> psc_journal_enthdr \<Rightarrow> nat \<Rightarrow> (psc_journal \<times> nat) option" where
  "pjournal_logwrite pj xh type pje sz =
     do {
       let h = pj_handles pj xh;
       let type = (if pjx_flags h AND PJX_DISTILL \<noteq> 0 then type OR PJE_DISTILL else type);
       let pje = pje\<lparr>pje_type := type, pje_len := word_of_nat sz, pje_xid := pjx_xid h,
                     pje_txg := pjx_txg h\<rparr>;
       pj \<leftarrow> pjournal_next_slot pj xh;
       slot \<leftarrow> pjx_slot (pj_handles pj xh);
       (pj, pje) \<leftarrow> pjournal_logwrite_internal pj pje slot;
       if pjx_flags (pj_handles pj xh) AND PJX_DISTILL \<noteq> 0 then
         Some (upd_handle xh (\<lambda>h. h\<lparr>pjx_data := Some pje,
                 pjx_flags := pjx_flags h OR PJX_WRITTEN\<rparr>) pj, slot)
       else do {
         psc_assert (pjx_data (pj_handles pj xh) = None);
         Some (pj, slot)
       }
     }"

text \<open>\<open>pje\<close> is the buffer, its header included, that the caller filled in.\<close>

definition pjournal_add_entry ::
  "psc_journal \<Rightarrow> u64 \<Rightarrow> u16 \<Rightarrow> bool \<Rightarrow> psc_journal_enthdr \<Rightarrow> nat \<Rightarrow> (psc_journal \<times> nat) option"
where
  "pjournal_add_entry pj txg type distill pje sz =
     do {
       (pj, xh) \<leftarrow> pjournal_xnew pj distill txg;
       psc_assert (pje_magic pje = PJE_MAGIC);
       pjournal_logwrite pj xh (type OR PJE_NORMAL) pje sz
     }"

subsection \<open>Reservations\<close>

text \<open>
  One turn of the loop of \<^verbatim>\<open>pjournal_reserve_slot\<close>, under the journal lock; \<open>synced\<close> is what
  ZFS reports. The flags say whether a slot was granted and whether the turn waited.
\<close>

definition reserve_turn :: "u64 \<Rightarrow> psc_journal \<Rightarrow> (psc_journal \<times> bool \<times> bool) option" where
  "reserve_turn synced pj =
     (if pj_resrv pj + pj_inuse pj < pj_total pj then
        Some (pj\<lparr>pj_resrv := pj_resrv pj + 1\<rparr>, True, False)
      else
        let pj = pj\<lparr>pj_commit_txg := synced\<rparr>
        in case pj_pendingxids pj of
             [] \<Rightarrow> Some (pj\<lparr>pj_flags := pj_flags pj OR PJF_WANTSLOT\<rparr>, False, False)
           | t # _ \<Rightarrow>
               do {
                 let h = pj_handles pj t;
                 slot \<leftarrow> pjx_slot h;
                 psc_assert (slot < pj_total pj);
                 if pjx_txg h > pj_commit_txg pj then Some (pj, False, True)
                 else if pjx_flags h AND PJX_DISTILL \<noteq> 0 then Some (pj, False, True)
                 else do {
                   let pj = pj\<lparr>pj_pendingxids := remove1 t (pj_pendingxids pj)\<rparr>;
                   pj \<leftarrow> pjournal_xdestroy pj t;
                   Some (pj\<lparr>pj_inuse := pj_inuse pj - 1\<rparr>, False, False)
                 }
               })"

text \<open>
  The lock is dropped between turns: \<open>env i\<close> is what the other threads do to the journal before
  turn \<open>i\<close>, and \<open>synced i\<close> what ZFS reports in it. The loop may wait forever.
\<close>

partial_function (option) reserve_loop ::
  "(nat \<Rightarrow> psc_journal \<Rightarrow> psc_journal) \<Rightarrow> (nat \<Rightarrow> u64) \<Rightarrow> nat \<Rightarrow> psc_journal \<Rightarrow> nat \<Rightarrow> nat \<Rightarrow>
     (psc_journal \<times> nat) option" where
  "reserve_loop env synced i pj count nwaits =
     (if count = 0 then Some (pj, nwaits)
      else do {
        (pj, granted, waited) \<leftarrow> reserve_turn (synced i) (env i pj);
        reserve_loop env synced (i + 1) pj (if granted then count - 1 else count)
          (if waited then nwaits + 1 else nwaits)
      })"

definition pjournal_reserve_slot ::
  "(nat \<Rightarrow> psc_journal \<Rightarrow> psc_journal) \<Rightarrow> (nat \<Rightarrow> u64) \<Rightarrow> psc_journal \<Rightarrow> nat \<Rightarrow>
     (psc_journal \<times> nat) option" where
  "pjournal_reserve_slot env synced pj count =
     do {
       let pj = pj\<lparr>total_reserve := total_reserve pj + count\<rparr>;
       psc_assert (pj_flags pj AND PJF_REPLAYINPROG = 0);
       reserve_loop env synced 0 pj count 0
     }"

definition pjournal_unreserve_slot :: "psc_journal \<Rightarrow> nat \<Rightarrow> psc_journal option" where
  "pjournal_unreserve_slot pj count =
     do {
       psc_assert (count \<le> pj_resrv pj);
       let pj = pj\<lparr>pj_resrv := pj_resrv pj - count\<rparr>;
       Some (pj\<lparr>pj_flags := pj_flags pj AND NOT PJF_WANTSLOT\<rparr>)
     }"

subsection \<open>Buffers\<close>

text \<open>\<^const>\<open>None\<close> in the pair: the caller has to wait for a buffer.\<close>

definition pjournal_get_buf ::
  "psc_journal \<Rightarrow> nat \<Rightarrow> (psc_journal \<times> psc_journal_enthdr option) option" where
  "pjournal_get_buf pj sz =
     do {
       psc_assert (sz + 32 \<le> pj_entsz pj);
       (case pj_bufs pj of
          [] \<Rightarrow> Some (pj\<lparr>pj_flags := pj_flags pj OR PJF_WANTBUF\<rparr>, None)
        | pje # bufs \<Rightarrow>
            do {
              psc_assert (pje_magic pje = PJE_MAGIC);
              Some (pj\<lparr>pj_bufs := (if bufs = [] then [] else last bufs # butlast bufs)\<rparr>, Some pje)
            })
     }"

definition pjournal_put_buf :: "psc_journal \<Rightarrow> psc_journal_enthdr \<Rightarrow> psc_journal option" where
  "pjournal_put_buf pj pje =
     do {
       psc_assert (pje_magic pje = PJE_MAGIC);
       Some (pj\<lparr>pj_bufs := pj_bufs pj @ [pje], pj_flags := pj_flags pj AND NOT PJF_WANTBUF\<rparr>)
     }"

subsection \<open>The distill thread\<close>

text \<open>
  The inner loops of \<^verbatim>\<open>pjournal_thr_main\<close>. The entries handed to the distill callback are
  collected, oldest first, also those of a run that then fails an assertion: the callback is called before the order of the
  identifiers is asserted. The second component is \<^const>\<open>None\<close> in that case.
\<close>

function distill_loop ::
  "psc_journal \<Rightarrow> u64 \<Rightarrow> psc_journal_enthdr list \<times> (psc_journal \<times> u64) option" where
  "distill_loop pj xid =
     (case pj_distillxids pj of
        [] \<Rightarrow> ([], Some (pj, xid))
      | xh # rest \<Rightarrow>
          if pjx_flags (pj_handles pj xh) AND PJX_DISTILL = 0 then ([], None)
          else if pjx_flags (pj_handles pj xh) AND PJX_WRITTEN = 0 then ([], Some (pj, xid))
          else case pjx_data (pj_handles pj xh) of
            None \<Rightarrow> ([], None)
          | Some pje \<Rightarrow>
              let pj = upd_handle xh (\<lambda>h. h\<lparr>pjx_data := None,
                         pjx_flags := pjx_flags h AND NOT PJX_WRITTEN\<rparr>) pj;
                  pj = pj\<lparr>pj_distillxids := rest\<rparr>;
                  txg = pj_current_txg pj + 1;
                  (es, r) =
                    (if \<not> xid < pjx_xid (pj_handles pj xh) then ([], None)
                     else
                       let xid = pjx_xid (pj_handles pj xh);
                           pj = upd_handle xh (\<lambda>h. h\<lparr>pjx_txg := (if txg > pjx_txg h then txg else pjx_txg h),
                                  pjx_flags := pjx_flags h AND NOT PJX_DISTILL\<rparr>) pj
                       in case pjournal_put_buf pj pje of
                            None \<Rightarrow> ([], None)
                          | Some pj \<Rightarrow> distill_loop pj xid)
              in (pje # es, r))"
  by pat_completeness auto
termination
  by (relation "measure (\<lambda>(pj, xid). length (pj_distillxids pj))")
     (auto simp: upd_handle_def pjournal_put_buf_def split: if_splits)

declare distill_loop.simps [simp del]

text \<open>The second component is the transaction group the head of the list waits for, or zero.\<close>

function reclaim_loop :: "psc_journal \<Rightarrow> (psc_journal \<times> u64) option" where
  "reclaim_loop pj =
     (case pj_pendingxids pj of
        [] \<Rightarrow> Some (pj, 0)
      | xh # rest \<Rightarrow>
          (let h = pj_handles pj xh
           in if pjx_txg h > pj_commit_txg pj then Some (pj, pjx_txg h)
              else if pjx_flags h AND PJX_DISTILL \<noteq> 0 then Some (pj, 0)
              else do {
                pj \<leftarrow> pjournal_xdestroy (pj\<lparr>pj_pendingxids := rest\<rparr>) xh;
                psc_assert (pj_inuse pj > 0);
                reclaim_loop (pj\<lparr>pj_inuse := pj_inuse pj - 1\<rparr>)
              }))"
  by pat_completeness auto
termination
  by (relation "measure (\<lambda>pj. length (pj_pendingxids pj))")
     (auto simp: pjournal_xdestroy_def split: if_splits)

declare reclaim_loop.simps [simp del]

text \<open>
  One turn of the thread: distill, take over the progress, look at what ZFS has synced, and
  reclaim. \<open>once\<close> counts how often the synced group went backwards. The first component has the entries handed over, the
  second one the state after the turn, if no assertion fails.
\<close>

definition pjournal_thr_turn ::
  "u64 \<Rightarrow> psc_journal \<Rightarrow> u64 \<Rightarrow> nat \<Rightarrow>
     psc_journal_enthdr list \<times> (psc_journal \<times> u64 \<times> nat) option" where
  "pjournal_thr_turn synced pj xid once =
     (let (es, r) = distill_loop pj xid
      in (es, do {
           (pj, xid) \<leftarrow> r;
           let pj = (if pj_distill_xid pj < xid then pj\<lparr>pj_distill_xid := xid\<rparr> else pj);
           let once = (if pj_commit_txg pj > synced then once + 1 else once);
           psc_assert (pj_commit_txg pj > synced \<longrightarrow> once \<le> 1);
           (pj, _) \<leftarrow> reclaim_loop (pj\<lparr>pj_commit_txg := synced\<rparr>);
           Some (pj, xid, once)
         }))"

subsection \<open>Opening\<close>

record psc_journal_hdr =
  pjh_magic :: u64
  pjh_start_off :: u64
  pjh_entsz :: u32
  pjh_nents :: u32
  pjh_version :: u32
  pjh_readsize :: u32
  pjh_timestamp :: u64
  pjh_fsuuid :: u64
  pjh_chksum :: u64

definition PJH_MAGIC :: u64 where "PJH_MAGIC = 0x45678912aabbccff"
definition PJH_VERSION :: u32 where "PJH_VERSION = 2"

definition pjh_body :: "psc_journal_hdr \<Rightarrow> u8 list" where
  "pjh_body h = le64 (pjh_magic h) @ le64 (pjh_start_off h) @ le32 (pjh_entsz h) @
     le32 (pjh_nents h) @ le32 (pjh_version h) @ le32 (pjh_readsize h) @
     le64 (pjh_timestamp h) @ le64 (pjh_fsuuid h)"

text \<open>
  \<^verbatim>\<open>pjournal_open\<close> on a header that was read: \<open>pjhlen\<close> is the aligned length of the header,
  \<open>st_size\<close> the size of a regular file (\<^const>\<open>None\<close> for a block device) and \<open>slots\<close> its entries.
  The result is \<^const>\<open>None\<close> where the code returns the null pointer.
\<close>

definition pjournal_open ::
  "psc_journal_hdr \<Rightarrow> nat \<Rightarrow> nat option \<Rightarrow> psc_journal_enthdr list \<Rightarrow> psc_journal option" where
  "pjournal_open pjh pjhlen st_size slots =
     (if pjh_magic pjh \<noteq> PJH_MAGIC then None
      else if pjh_version pjh \<noteq> PJH_VERSION then None
      else if pjh_chksum pjh \<noteq>
           psc_crc64_fini (psc_crc64_add psc_crc64_init (pjh_body pjh)) then None
      else if (case st_size of None \<Rightarrow> False
               | Some n \<Rightarrow> n \<noteq> pjhlen + unat (pjh_nents pjh * pjh_entsz pjh)) then None
      else Some \<lparr>pj_flags = (case st_size of None \<Rightarrow> PJF_ISBLKDEV | Some _ \<Rightarrow> 0),
        pj_inuse = 0, pj_total = unat (pjh_nents pjh), pj_resrv = 0, pj_lastxid = 0,
        pj_current_txg = 0, pj_commit_txg = 0, pj_replay_xid = 0, pj_distill_xid = 0,
        pj_readsize = unat (pjh_readsize pjh), pj_entsz = unat (pjh_entsz pjh), pj_slots = slots,
        pj_pendingxids = [], pj_distillxids = [],
        pj_handles = (\<lambda>_. \<lparr>pjx_txg = 0, pjx_xid = 0, pjx_slot = None, pjx_flags = 0, pjx_data = None\<rparr>),
        pj_nexthndl = 0, pj_bufs = [], pj_nextwrite = 0, pj_wraparound = 0, total_trans = 0,
        total_reserve = 0\<rparr>)"

subsection \<open>Scanning and replay\<close>

record scan_state =
  sc_rc :: int
  sc_last_xid :: u64
  sc_last_slot :: "nat option"
  sc_bufs :: "psc_journal_enthdr list"
  sc_done :: bool

text \<open>Whether a valid entry has to be kept for replay.\<close>

definition pje_skip :: "psc_journal \<Rightarrow> psc_journal_enthdr \<Rightarrow> bool" where
  "pje_skip pj e \<longleftrightarrow>
     pje_xid e \<le> pj_replay_xid pj \<or>
     (pje_type e AND PJE_DISTILL = 0 \<and> pje_txg e \<le> pj_commit_txg pj) \<or>
     (pje_type e AND PJE_DISTILL \<noteq> 0 \<and> pje_txg e \<le> pj_commit_txg pj \<and>
      pje_xid e \<le> pj_distill_xid pj)"

text \<open>The copy that is kept has the data up to \<open>pje_len\<close>.\<close>

definition pje_copy :: "psc_journal_enthdr \<Rightarrow> psc_journal_enthdr" where
  "pje_copy e = e\<lparr>pje_data := take (unat (pje_len e)) (pje_data e)\<rparr>"

definition scan_entry :: "psc_journal \<Rightarrow> nat \<Rightarrow> psc_journal_enthdr \<Rightarrow> scan_state \<Rightarrow> scan_state option" where
  "scan_entry pj slot e sc =
     (if sc_done sc then Some sc
      else if pje_magic e \<noteq> PJE_MAGIC then Some (sc\<lparr>sc_rc := -1\<rparr>)
      else do {
        chksum \<leftarrow> pje_crc e;
        if pje_chksum e \<noteq> chksum then Some (sc\<lparr>sc_rc := -1\<rparr>)
        else do {
          psc_assert (pje_type e AND PJE_FORMAT \<noteq> 0 \<or> pje_type e AND PJE_NORMAL \<noteq> 0);
          if pje_type e AND PJE_FORMAT \<noteq> 0 then do {
            psc_assert (pje_len e = 0);
            Some (sc\<lparr>sc_done := True\<rparr>)
          } else do {
            let sc = (if pje_xid e \<ge> sc_last_xid sc
                      then sc\<lparr>sc_last_xid := pje_xid e, sc_last_slot := Some slot\<rparr> else sc);
            Some (if pje_skip pj e then sc else sc\<lparr>sc_bufs := sc_bufs sc @ [pje_copy e]\<rparr>)
          }
        }
      })"

primrec scan_chunk :: "psc_journal \<Rightarrow> nat list \<Rightarrow> scan_state \<Rightarrow> scan_state option" where
  "scan_chunk pj [] sc = Some sc"
| "scan_chunk pj (slot # slots) sc =
     do {
       e \<leftarrow> rd (pj_slots pj) slot;
       sc \<leftarrow> scan_entry pj slot e sc;
       scan_chunk pj slots sc
     }"

text \<open>Every chunk starts with a read, whose success resets the return code.\<close>

function scan_loop :: "psc_journal \<Rightarrow> nat \<Rightarrow> nat \<Rightarrow> scan_state \<Rightarrow> scan_state option" where
  "scan_loop pj count slot sc =
     (if count = 0 then None
      else if slot < pj_total pj \<and> \<not> sc_done sc then
        do {
          sc \<leftarrow> scan_chunk pj [slot..<slot + count] (sc\<lparr>sc_rc := 0\<rparr>);
          scan_loop pj count (slot + count) sc
        }
      else Some sc)"
  by pat_completeness auto
termination
  by (relation "measure (\<lambda>(pj, count, slot, sc). pj_total pj - slot)") auto

declare scan_loop.simps [simp del]

definition pjournal_scan_slots :: "psc_journal \<Rightarrow> (psc_journal \<times> int) option" where
  "pjournal_scan_slots pj =
     do {
       let count = pj_readsize pj;
       psc_assert (count \<noteq> 0 \<and> pj_total pj mod count = 0);
       sc \<leftarrow> scan_loop pj count 0 \<lparr>sc_rc = 0, sc_last_xid = PJE_XID_NONE, sc_last_slot = None,
                sc_bufs = pj_bufs pj, sc_done = False\<rparr>;
       let last_xid = (if sc_last_xid sc < pj_distill_xid pj then pj_distill_xid pj
                       else sc_last_xid sc);
       Some (pj\<lparr>pj_lastxid := last_xid,
                pj_bufs := sort_key (\<lambda>e. (pje_xid e, pje_txg e)) (sc_bufs sc)\<rparr>, sc_rc sc)
     }"

text \<open>
  The callbacks act on a state of the caller and return an error code; the second component of
  the result is that state, the third the number of errors.
\<close>

fun replay_loop ::
  "(psc_journal_enthdr \<Rightarrow> 's \<Rightarrow> 's \<times> int) \<Rightarrow> (psc_journal_enthdr \<Rightarrow> 's \<Rightarrow> 's \<times> int) \<Rightarrow>
     psc_journal \<Rightarrow> 's \<Rightarrow> nat \<Rightarrow> psc_journal_enthdr list \<Rightarrow> psc_journal \<times> 's \<times> nat" where
  "replay_loop replay distill pj st nerrs [] = (pj, st, nerrs)"
| "replay_loop replay distill pj st nerrs (e # es) =
     (let (st, nerrs) = (if pje_xid e > pj_distill_xid pj
                         then let (st, rc) = distill e st in (st, if rc \<noteq> 0 then nerrs + 1 else nerrs)
                         else (st, nerrs));
          (st, nerrs) = (if pje_txg e > pj_commit_txg pj
                         then let (st, rc) = replay e st in (st, if rc \<noteq> 0 then nerrs + 1 else nerrs)
                         else (st, nerrs))
      in replay_loop replay distill (pj\<lparr>pj_replay_xid := pje_xid e\<rparr>) st nerrs es)"

definition blank_buf :: "psc_journal \<Rightarrow> psc_journal_enthdr" where
  "blank_buf pj = \<lparr>pje_magic = PJE_MAGIC, pje_type = 0, pje_len = 0, pje_xid = 0, pje_txg = 0,
     pje_chksum = 0, pje_data = replicate (pj_entsz pj - 32) 0\<rparr>"

definition pjournal_replay ::
  "(psc_journal_enthdr \<Rightarrow> 's \<Rightarrow> 's \<times> int) \<Rightarrow> (psc_journal_enthdr \<Rightarrow> 's \<Rightarrow> 's \<times> int) \<Rightarrow>
     psc_journal \<Rightarrow> 's \<Rightarrow> (psc_journal \<times> 's \<times> nat) option" where
  "pjournal_replay replay distill pj st =
     do {
       let pj = pj\<lparr>pj_flags := pj_flags pj OR PJF_REPLAYINPROG\<rparr>;
       (pj, rc) \<leftarrow> pjournal_scan_slots pj;
       let nerrs = (if rc \<noteq> 0 then 1 else 0);
       let (pj, st, nerrs) = replay_loop replay distill pj st nerrs (pj_bufs pj);
       let pj = pj\<lparr>pj_nextwrite := 0, pj_wraparound := 0,
                   pj_bufs := replicate PJ_MAX_BUF (blank_buf pj)\<rparr>;
       Some (pj\<lparr>pj_flags := pj_flags pj AND NOT PJF_REPLAYINPROG\<rparr>, st, nerrs)
     }"

end
