(* ===== verification/Journal_Inv.thy ===== *)
theory Journal_Inv
  imports Journal
begin

text \<open>
  The journal as a state machine: the steps its threads take under the journal lock, in any
  order, and the invariant they keep. The invariant says where the pending transactions live in
  the ring, that their entries are intact on the device, and how the reservations bound the
  slots in use.
\<close>

subsection \<open>Invariant\<close>

definition is_distill :: "psc_journal_xidhndl \<Rightarrow> bool" where
  "is_distill h \<longleftrightarrow> pjx_flags h AND PJX_DISTILL \<noteq> 0"

definition is_written :: "psc_journal_xidhndl \<Rightarrow> bool" where
  "is_written h \<longleftrightarrow> pjx_flags h AND PJX_WRITTEN \<noteq> 0"

definition is_format :: "psc_journal_enthdr \<Rightarrow> bool" where
  "is_format e \<longleftrightarrow> pje_type e AND PJE_FORMAT \<noteq> 0"

definition entry_ok :: "psc_journal_enthdr \<Rightarrow> bool" where
  "entry_ok e \<longleftrightarrow> pje_magic e = PJE_MAGIC \<and> pje_crc e = Some (pje_chksum e) \<and>
     (if is_format e then pje_len e = 0 else pje_type e AND PJE_NORMAL \<noteq> 0)"

text \<open>Entry \<open>e\<close> is the log record of handle \<open>h\<close>.\<close>

definition logged :: "psc_journal_xidhndl \<Rightarrow> psc_journal_enthdr \<Rightarrow> bool" where
  "logged h e \<longleftrightarrow> \<not> is_format e \<and> pje_xid e = pjx_xid h \<and> pje_txg e \<le> pjx_txg h \<and>
     (is_distill h \<longrightarrow> pje_type e AND PJE_DISTILL \<noteq> 0)"

definition ring_slot :: "psc_journal \<Rightarrow> nat \<Rightarrow> nat" where
  "ring_slot pj k = (pj_nextwrite pj + pj_total pj - pj_inuse pj + k) mod pj_total pj"

definition ring_inv :: "psc_journal \<Rightarrow> bool" where
  "ring_inv pj \<longleftrightarrow>
     length (pj_slots pj) = pj_total pj \<and> pj_nextwrite pj < pj_total pj \<and>
     pj_inuse pj = length (pj_pendingxids pj) \<and> pj_inuse pj \<le> pj_total pj \<and>
     distinct (pj_pendingxids pj) \<and>
     (\<forall>k < pj_inuse pj. pjx_slot (pj_handles pj (pj_pendingxids pj ! k)) = Some (ring_slot pj k))"

definition disk_inv :: "psc_journal \<Rightarrow> bool" where
  "disk_inv pj \<longleftrightarrow>
     list_all entry_ok (pj_slots pj) \<and>
     (\<forall>i j. i \<le> j \<longrightarrow> j < pj_total pj \<longrightarrow> is_format (pj_slots pj ! i) \<longrightarrow> is_format (pj_slots pj ! j)) \<and>
     (\<forall>i < pj_nextwrite pj. \<not> is_format (pj_slots pj ! i)) \<and>
     (\<forall>k < pj_inuse pj. logged (pj_handles pj (pj_pendingxids pj ! k)) (pj_slots pj ! ring_slot pj k))"

text \<open>
  \<open>opened\<close> are the handles of transactions that have an identifier but are not yet written, and
  \<open>dxid\<close> is the last identifier the distill thread has seen.
\<close>

definition xid_of :: "psc_journal \<Rightarrow> nat \<Rightarrow> u64" where
  "xid_of pj a = pjx_xid (pj_handles pj a)"

definition pend_ok :: "psc_journal_xidhndl \<Rightarrow> bool" where
  "pend_ok h \<longleftrightarrow> (if is_distill h
     then is_written h \<and> (case pjx_data h of None \<Rightarrow> False | Some e \<Rightarrow> pje_magic e = PJE_MAGIC \<and> pje_xid e = pjx_xid h)
     else pjx_data h = None)"

definition open_ok :: "psc_journal_xidhndl \<Rightarrow> bool" where
  "open_ok h \<longleftrightarrow> \<not> is_written h \<and> pjx_data h = None"

definition live :: "psc_journal \<Rightarrow> nat list \<Rightarrow> nat set" where
  "live pj opened = set (pj_pendingxids pj) \<union> set opened"

definition hndl_inv :: "psc_journal \<Rightarrow> nat list \<Rightarrow> u64 \<Rightarrow> bool" where
  "hndl_inv pj opened dxid \<longleftrightarrow>
     distinct (pj_pendingxids pj @ opened) \<and>
     set (pj_distillxids pj) = {a \<in> live pj opened. is_distill (pj_handles pj a)} \<and>
     (\<forall>a \<in> live pj opened. a < pj_nexthndl pj \<and> 0 < xid_of pj a \<and> xid_of pj a \<le> pj_lastxid pj) \<and>
     (\<forall>a \<in> set (pj_pendingxids pj). pend_ok (pj_handles pj a)) \<and>
     (\<forall>a \<in> set opened. open_ok (pj_handles pj a)) \<and>
     sorted_wrt (<) (map (xid_of pj) (pj_distillxids pj)) \<and>
     (\<forall>a \<in> set (pj_distillxids pj). dxid < xid_of pj a) \<and> dxid \<le> pj_lastxid pj \<and>
     inj_on (xid_of pj) (live pj opened)"

text \<open>
  \<open>used\<close> reserved slots have been written without the reservation being returned yet, and
  \<open>ungranted\<close> slots have been asked for and not yet been granted.
\<close>

definition resrv_inv :: "psc_journal \<Rightarrow> nat list \<Rightarrow> nat \<Rightarrow> nat \<Rightarrow> bool" where
  "resrv_inv pj opened used ungranted \<longleftrightarrow>
     used + length opened \<le> pj_resrv pj \<and>
     pj_inuse pj + (pj_resrv pj - used) \<le> pj_total pj \<and>
     total_trans pj + (pj_resrv pj - used - length opened) + ungranted \<le> total_reserve pj"

text \<open>The entries handed to the distill callback so far, in strictly increasing order.\<close>

definition log_inv :: "psc_journal_enthdr list \<Rightarrow> u64 \<Rightarrow> bool" where
  "log_inv es dxid \<longleftrightarrow> sorted_wrt (<) (map pje_xid es) \<and> (\<forall>e \<in> set es. pje_xid e \<le> dxid)"

definition pop_pending :: "psc_journal \<Rightarrow> psc_journal" where
  "pop_pending pj = pj\<lparr>pj_pendingxids := tl (pj_pendingxids pj), pj_inuse := pj_inuse pj - 1\<rparr>"

definition new_handle :: "psc_journal \<Rightarrow> bool \<Rightarrow> u64 \<Rightarrow> psc_journal_xidhndl" where
  "new_handle pj distill txg =
     \<lparr>pjx_txg = (if txg = 0 then pj_current_txg pj else txg), pjx_xid = pj_lastxid pj + 1,
      pjx_slot = None, pjx_flags = (if distill then PJX_DISTILL else 0), pjx_data = None\<rparr>"

record jsys =
  j_pj :: psc_journal
  j_opened :: "nat list"
  j_used :: nat
  j_ungranted :: nat
  j_dxid :: u64
  j_once :: nat
  j_log :: "psc_journal_enthdr list"

definition jsys_inv :: "jsys \<Rightarrow> bool" where
  "jsys_inv s \<longleftrightarrow> ring_inv (j_pj s) \<and> disk_inv (j_pj s) \<and>
     hndl_inv (j_pj s) (j_opened s) (j_dxid s) \<and>
     resrv_inv (j_pj s) (j_opened s) (j_used s) (j_ungranted s) \<and>
     log_inv (j_log s) (j_dxid s)"

subsection \<open>Steps\<close>

inductive jstep :: "jsys \<Rightarrow> jsys \<Rightarrow> bool" where
  ask: "jstep s (s\<lparr>j_pj := (j_pj s)\<lparr>total_reserve := total_reserve (j_pj s) + n\<rparr>,
                    j_ungranted := j_ungranted s + n\<rparr>)"
| turn: "0 < j_ungranted s \<Longrightarrow> reserve_turn synced (j_pj s) = Some (pj, granted, waited) \<Longrightarrow>
    jstep s (s\<lparr>j_pj := pj, j_ungranted := (if granted then j_ungranted s - 1 else j_ungranted s)\<rparr>)"
| give_back: "k \<le> n \<Longrightarrow> k \<le> j_used s \<Longrightarrow> n - k \<le> pj_resrv (j_pj s) - j_used s - length (j_opened s) \<Longrightarrow>
    pjournal_unreserve_slot (j_pj s) n = Some pj \<Longrightarrow>
    jstep s (s\<lparr>j_pj := pj, j_used := j_used s - k\<rparr>)"
| begin_trans: "j_used s + length (j_opened s) < pj_resrv (j_pj s) \<Longrightarrow>
    pj_lastxid (j_pj s) + 1 \<noteq> 0 \<Longrightarrow>
    pjournal_xnew (j_pj s) distill txg = Some (pj, xh) \<Longrightarrow>
    jstep s (s\<lparr>j_pj := pj, j_opened := j_opened s @ [xh]\<rparr>)"
| write_trans: "xh \<in> set (j_opened s) \<Longrightarrow> pje_magic pje = PJE_MAGIC \<Longrightarrow>
    sz \<le> length (pje_data pje) \<Longrightarrow> sz < 2 ^ 16 \<Longrightarrow> type AND PJE_FORMAT = 0 \<Longrightarrow>
    pjournal_logwrite (j_pj s) xh (type OR PJE_NORMAL) pje sz = Some (pj, slot) \<Longrightarrow>
    jstep s (s\<lparr>j_pj := pj, j_opened := remove1 xh (j_opened s), j_used := j_used s + 1\<rparr>)"
| new_txg: "jstep s (s\<lparr>j_pj := pjournal_update_txg (j_pj s) txg\<rparr>)"
| distill: "pjournal_thr_turn synced (j_pj s) (j_dxid s) (j_once s) = (es, Some (pj, xid, once)) \<Longrightarrow>
    jstep s (s\<lparr>j_pj := pj, j_dxid := xid, j_once := once, j_log := j_log s @ es\<rparr>)"

inductive_cases jstep_elim: "jstep s s'"

subsection \<open>Flags\<close>

lemma and_1_iff: "(w :: u32) AND 1 \<noteq> 0 \<longleftrightarrow> bit w 0"
  using and_exp_eq_0_iff_not_bit [of w 0] by simp

lemma and_2_iff: "(w :: u32) AND 2 \<noteq> 0 \<longleftrightarrow> bit w 1"
  using and_exp_eq_0_iff_not_bit [of w 1] by simp

lemma bit_1_word [simp]: "bit (1 :: u32) i \<longleftrightarrow> i = 0"
  by (simp add: bit_1_iff)

lemma bit_2_word [simp]: "bit (2 :: u32) i \<longleftrightarrow> i = 1"
  using bit_exp_iff [where 'a = u32, of 1 i] by auto

named_theorems jflags "effect of flag updates on handles"

lemma is_distill_iff: "is_distill h \<longleftrightarrow> bit (pjx_flags h) 0"
  by (simp add: is_distill_def PJX_DISTILL_def and_1_iff)

lemma is_written_iff: "is_written h \<longleftrightarrow> bit (pjx_flags h) 1"
  by (simp add: is_written_def PJX_WRITTEN_def and_2_iff)

lemma flag_updates [jflags]:
  "is_distill (h\<lparr>pjx_flags := pjx_flags h OR PJX_WRITTEN\<rparr>) = is_distill h"
  "is_written (h\<lparr>pjx_flags := pjx_flags h OR PJX_WRITTEN\<rparr>)"
  "is_distill (h\<lparr>pjx_flags := pjx_flags h AND NOT PJX_WRITTEN\<rparr>) = is_distill h"
  "\<not> is_written (h\<lparr>pjx_flags := pjx_flags h AND NOT PJX_WRITTEN\<rparr>)"
  "\<not> is_distill (h\<lparr>pjx_flags := pjx_flags h AND NOT PJX_DISTILL\<rparr>)"
  by (auto simp: is_distill_iff is_written_iff PJX_DISTILL_def PJX_WRITTEN_def bit_or_iff bit_and_iff
      bit_not_iff)

lemma flag_frame [jflags]:
  "is_distill (h\<lparr>pjx_txg := t\<rparr>) = is_distill h" "is_written (h\<lparr>pjx_txg := t\<rparr>) = is_written h"
  "is_distill (h\<lparr>pjx_xid := x\<rparr>) = is_distill h" "is_written (h\<lparr>pjx_xid := x\<rparr>) = is_written h"
  "is_distill (h\<lparr>pjx_slot := sl\<rparr>) = is_distill h" "is_written (h\<lparr>pjx_slot := sl\<rparr>) = is_written h"
  "is_distill (h\<lparr>pjx_data := d\<rparr>) = is_distill h" "is_written (h\<lparr>pjx_data := d\<rparr>) = is_written h"
  by (simp_all add: is_distill_def is_written_def)

subsection \<open>Updating handles\<close>

lemma upd_handle_simps [simp]:
  "pj_flags (upd_handle a f pj) = pj_flags pj" "pj_inuse (upd_handle a f pj) = pj_inuse pj"
  "pj_total (upd_handle a f pj) = pj_total pj" "pj_resrv (upd_handle a f pj) = pj_resrv pj"
  "pj_lastxid (upd_handle a f pj) = pj_lastxid pj" "pj_slots (upd_handle a f pj) = pj_slots pj"
  "pj_current_txg (upd_handle a f pj) = pj_current_txg pj"
  "pj_commit_txg (upd_handle a f pj) = pj_commit_txg pj"
  "pj_pendingxids (upd_handle a f pj) = pj_pendingxids pj"
  "pj_distillxids (upd_handle a f pj) = pj_distillxids pj"
  "pj_nexthndl (upd_handle a f pj) = pj_nexthndl pj" "pj_bufs (upd_handle a f pj) = pj_bufs pj"
  "pj_nextwrite (upd_handle a f pj) = pj_nextwrite pj"
  "total_trans (upd_handle a f pj) = total_trans pj"
  "total_reserve (upd_handle a f pj) = total_reserve pj"
  "pj_handles (upd_handle a f pj) b = (if b = a then f (pj_handles pj a) else pj_handles pj b)"
  by (simp_all add: upd_handle_def)

lemma ring_slot_upd_handle [simp]: "ring_slot (upd_handle a f pj) k = ring_slot pj k"
  by (simp add: ring_slot_def)

lemma ring_inv_upd_handle:
  assumes "ring_inv pj"
    and "a \<in> set (pj_pendingxids pj) \<Longrightarrow> pjx_slot (f (pj_handles pj a)) = pjx_slot (pj_handles pj a)"
  shows "ring_inv (upd_handle a f pj)"
  using assms by (auto simp: ring_inv_def)

lemma disk_inv_upd_handle:
  assumes "disk_inv pj" "pj_inuse pj = length (pj_pendingxids pj)"
    and "a \<in> set (pj_pendingxids pj) \<Longrightarrow>
      pjx_xid (f (pj_handles pj a)) = pjx_xid (pj_handles pj a) \<and>
      pjx_txg (pj_handles pj a) \<le> pjx_txg (f (pj_handles pj a)) \<and>
      (is_distill (f (pj_handles pj a)) \<longrightarrow> is_distill (pj_handles pj a))"
  shows "disk_inv (upd_handle a f pj)"
proof -
  have "logged (pj_handles (upd_handle a f pj) (pj_pendingxids pj ! k)) e"
    if "logged (pj_handles pj (pj_pendingxids pj ! k)) e" "k < pj_inuse pj" for k e
    using that assms(2,3) nth_mem [of k "pj_pendingxids pj"] by (auto simp: logged_def)
  then show ?thesis using assms(1) by (auto simp: disk_inv_def)
qed

text \<open>Handles at addresses from \<open>pj_nexthndl\<close> on are unused.\<close>

lemma xid_of_fun: "xid_of pj = (\<lambda>a. pjx_xid (pj_handles pj a))"
  by (simp add: fun_eq_iff xid_of_def)

lemma hndl_fresh:
  assumes "hndl_inv pj opened dxid"
  shows "pj_nexthndl pj \<notin> set (pj_pendingxids pj)" "pj_nexthndl pj \<notin> set opened"
    "pj_nexthndl pj \<notin> set (pj_distillxids pj)"
  using assms by (auto simp: hndl_inv_def live_def)

subsection \<open>Releasing the oldest slot\<close>

lemma ring_slot_pop:
  "0 < pj_inuse pj \<Longrightarrow> pj_inuse pj \<le> pj_total pj \<Longrightarrow> ring_slot (pop_pending pj) k = ring_slot pj (Suc k)"
  by (simp add: ring_slot_def pop_pending_def Suc_diff_le)

lemma pop_pending_inv:
  assumes "ring_inv pj" "disk_inv pj" "hndl_inv pj opened dxid" "resrv_inv pj opened used ung"
    and "pj_pendingxids pj = t # ts" "\<not> is_distill (pj_handles pj t)"
  shows "ring_inv (pop_pending pj)" "disk_inv (pop_pending pj)" "hndl_inv (pop_pending pj) opened dxid"
    "resrv_inv (pop_pending pj) opened used ung"
proof -
  have n: "0 < pj_inuse pj" "pj_inuse pj \<le> pj_total pj" "pj_inuse pj = Suc (length ts)"
    using assms(1,5) by (auto simp: ring_inv_def)
  note rs = ring_slot_pop [OF n(1,2)]
  show "ring_inv (pop_pending pj)"
    using assms(1,5) n unfolding ring_inv_def by (auto simp: rs) (auto simp: pop_pending_def)
  show "disk_inv (pop_pending pj)"
    using assms(2,5) n unfolding disk_inv_def by (auto simp: rs) (auto simp: pop_pending_def)
  show "hndl_inv (pop_pending pj) opened dxid"
    using assms(3,5,6) unfolding hndl_inv_def live_def inj_on_def
    by (auto simp: pop_pending_def xid_of_def cong: map_cong)
  show "resrv_inv (pop_pending pj) opened used ung"
    using assms(4) n by (auto simp: resrv_inv_def pop_pending_def)
qed

lemma xdestroy_pop:
  assumes "ring_inv pj" "hndl_inv pj opened dxid" "pj_pendingxids pj = t # ts"
    and "\<not> is_distill (pj_handles pj t)"
  shows "pjournal_xdestroy (pj\<lparr>pj_pendingxids := ts\<rparr>) t = Some (pj\<lparr>pj_pendingxids := ts\<rparr>)"
proof -
  have "t \<notin> set ts" using assms(1,3) by (simp add: ring_inv_def)
  moreover have "t \<notin> set (pj_distillxids pj)" "pjx_data (pj_handles pj t) = None"
    using assms(2-4) by (auto simp: hndl_inv_def live_def pend_ok_def)
  ultimately show ?thesis by (simp add: pjournal_xdestroy_def)
qed

lemma inv_commit_txg [simp]:
  "ring_inv (pj\<lparr>pj_commit_txg := t\<rparr>) = ring_inv pj" "disk_inv (pj\<lparr>pj_commit_txg := t\<rparr>) = disk_inv pj"
  "hndl_inv (pj\<lparr>pj_commit_txg := t\<rparr>) opened dxid = hndl_inv pj opened dxid"
  "resrv_inv (pj\<lparr>pj_commit_txg := t\<rparr>) opened used ung = resrv_inv pj opened used ung"
  by (simp_all add: ring_inv_def disk_inv_def hndl_inv_def resrv_inv_def ring_slot_def live_def
      xid_of_fun)

lemma inv_misc [simp]:
  "ring_inv (pj\<lparr>pj_flags := f\<rparr>) = ring_inv pj" "disk_inv (pj\<lparr>pj_flags := f\<rparr>) = disk_inv pj"
  "hndl_inv (pj\<lparr>pj_flags := f\<rparr>) opened dxid = hndl_inv pj opened dxid"
  "resrv_inv (pj\<lparr>pj_flags := f\<rparr>) opened used ung = resrv_inv pj opened used ung"
  "ring_inv (pj\<lparr>pj_resrv := r\<rparr>) = ring_inv pj" "disk_inv (pj\<lparr>pj_resrv := r\<rparr>) = disk_inv pj"
  "hndl_inv (pj\<lparr>pj_resrv := r\<rparr>) opened dxid = hndl_inv pj opened dxid"
  "ring_inv (pj\<lparr>pj_bufs := b\<rparr>) = ring_inv pj" "disk_inv (pj\<lparr>pj_bufs := b\<rparr>) = disk_inv pj"
  "hndl_inv (pj\<lparr>pj_bufs := b\<rparr>) opened dxid = hndl_inv pj opened dxid"
  "resrv_inv (pj\<lparr>pj_bufs := b\<rparr>) opened used ung = resrv_inv pj opened used ung"
  "ring_inv (pj\<lparr>pj_distill_xid := x\<rparr>) = ring_inv pj" "disk_inv (pj\<lparr>pj_distill_xid := x\<rparr>) = disk_inv pj"
  "hndl_inv (pj\<lparr>pj_distill_xid := x\<rparr>) opened dxid = hndl_inv pj opened dxid"
  "resrv_inv (pj\<lparr>pj_distill_xid := x\<rparr>) opened used ung = resrv_inv pj opened used ung"
  "ring_inv (pj\<lparr>pj_current_txg := x\<rparr>) = ring_inv pj" "disk_inv (pj\<lparr>pj_current_txg := x\<rparr>) = disk_inv pj"
  "hndl_inv (pj\<lparr>pj_current_txg := x\<rparr>) opened dxid = hndl_inv pj opened dxid"
  "resrv_inv (pj\<lparr>pj_current_txg := x\<rparr>) opened used ung = resrv_inv pj opened used ung"
  "ring_inv (pj\<lparr>total_reserve := n\<rparr>) = ring_inv pj" "disk_inv (pj\<lparr>total_reserve := n\<rparr>) = disk_inv pj"
  "hndl_inv (pj\<lparr>total_reserve := n\<rparr>) opened dxid = hndl_inv pj opened dxid"
  by (simp_all add: ring_inv_def disk_inv_def hndl_inv_def resrv_inv_def ring_slot_def live_def
      xid_of_fun)

subsection \<open>Reservations\<close>

text \<open>A turn of the reservation loop never fails an assertion and keeps the invariant.\<close>

lemma reserve_turn_inv:
  assumes inv: "ring_inv pj" "disk_inv pj" "hndl_inv pj opened dxid" "resrv_inv pj opened used ung"
    and "0 < ung"
  obtains pj' granted waited where "reserve_turn synced pj = Some (pj', granted, waited)"
    "ring_inv pj'" "disk_inv pj'" "hndl_inv pj' opened dxid"
    "resrv_inv pj' opened used (if granted then ung - 1 else ung)"
    "pj_resrv pj' = (if granted then pj_resrv pj + 1 else pj_resrv pj)"
    "granted \<Longrightarrow> pj_resrv pj + pj_inuse pj < pj_total pj"
proof (cases "pj_resrv pj + pj_inuse pj < pj_total pj")
  case True
  show thesis
    by (rule that [of "pj\<lparr>pj_resrv := pj_resrv pj + 1\<rparr>" True False])
      (use True assms in \<open>auto simp: reserve_turn_def resrv_inv_def\<close>)
next
  case False
  let ?pj = "pj\<lparr>pj_commit_txg := synced\<rparr>"
  show thesis
  proof (cases "pj_pendingxids pj")
    case Nil
    show thesis
      by (rule that [of "?pj\<lparr>pj_flags := pj_flags ?pj OR PJF_WANTSLOT\<rparr>" False False])
        (use False Nil inv in \<open>auto simp: reserve_turn_def\<close>)
  next
    case (Cons t ts)
    have slot: "pjx_slot (pj_handles pj t) = Some (ring_slot pj 0)" "ring_slot pj 0 < pj_total pj"
      using inv(1) Cons by (auto simp: ring_inv_def ring_slot_def)
    show thesis
    proof (cases "pjx_txg (pj_handles pj t) > synced \<or> is_distill (pj_handles pj t)")
      case True
      show thesis
        by (rule that [of ?pj False True])
          (use False Cons slot True inv in \<open>auto simp: reserve_turn_def is_distill_def Let_def\<close>)
    next
      case nt: False
      let ?pj' = "pop_pending ?pj"
      have "reserve_turn synced pj = Some (?pj', False, False)"
        using False Cons slot nt xdestroy_pop [of ?pj opened dxid t ts] inv
        by (simp add: reserve_turn_def is_distill_def pop_pending_def)
      moreover note pop_pending_inv [of ?pj opened dxid used ung t ts]
      ultimately show thesis
        using that [of ?pj' False False] Cons nt inv by (simp add: pop_pending_def)
    qed
  qed
qed

lemma unreserve_inv:
  assumes "resrv_inv pj opened used ung" "k \<le> n" "k \<le> used"
    and "n - k \<le> pj_resrv pj - used - length opened"
  obtains pj' where "pjournal_unreserve_slot pj n = Some pj'"
    "pj' = pj\<lparr>pj_resrv := pj_resrv pj - n, pj_flags := pj_flags pj AND NOT PJF_WANTSLOT\<rparr>"
    "resrv_inv pj' opened (used - k) ung"
proof -
  have "n \<le> pj_resrv pj" using assms by (auto simp: resrv_inv_def)
  moreover have "resrv_inv (pj\<lparr>pj_resrv := pj_resrv pj - n\<rparr>) opened (used - k) ung"
    using assms by (auto simp: resrv_inv_def)
  ultimately show thesis using that by (simp add: pjournal_unreserve_slot_def)
qed

subsection \<open>Beginning a transaction\<close>

lemma next_xid_eq: "x + 1 \<noteq> 0 \<Longrightarrow> next_xid_loop x = x + 1"
  by (simp add: next_xid_loop.simps PJE_XID_NONE_def)

lemma xnew_eq:
  assumes "pj_lastxid pj + 1 \<noteq> 0" "total_trans pj < total_reserve pj"
  shows "pjournal_xnew pj distill txg =
    Some (upd_handle (pj_nexthndl pj) (\<lambda>_. new_handle pj distill txg)
      (pj\<lparr>total_trans := total_trans pj + 1, pj_nexthndl := pj_nexthndl pj + 1,
          pj_lastxid := pj_lastxid pj + 1,
          pj_distillxids := pj_distillxids pj @ (if distill then [pj_nexthndl pj] else [])\<rparr>),
      pj_nexthndl pj)"
  using assms
  by (simp add: pjournal_xnew_def pjournal_assign_xid_def pjournal_next_xid_def next_xid_eq Let_def
      new_handle_def upd_handle_def PJX_DISTILL_def)

lemma word_less_Suc: "(x :: u64) + 1 \<noteq> 0 \<Longrightarrow> x < x + 1"
  using unatSuc [of x] by (simp add: word_less_nat_alt add.commute)

lemma new_handle_simps [simp]:
  "is_distill (new_handle pj distill txg) = distill" "open_ok (new_handle pj distill txg)"
  "pjx_xid (new_handle pj distill txg) = pj_lastxid pj + 1"
  by (simp_all add: new_handle_def is_distill_iff is_written_iff open_ok_def PJX_DISTILL_def)

lemma hndl_inv_xnew:
  assumes inv: "hndl_inv pj opened dxid" and lx: "pj_lastxid pj + 1 \<noteq> 0"
    and pj': "pj' = upd_handle (pj_nexthndl pj) (\<lambda>_. new_handle pj distill txg)
      (pj\<lparr>total_trans := n, pj_nexthndl := pj_nexthndl pj + 1, pj_lastxid := pj_lastxid pj + 1,
          pj_distillxids := pj_distillxids pj @ (if distill then [pj_nexthndl pj] else [])\<rparr>)"
  shows "hndl_inv pj' (opened @ [pj_nexthndl pj]) dxid"
proof -
  let ?a = "pj_nexthndl pj"
  have parts: "distinct (pj_pendingxids pj @ opened)"
    "set (pj_distillxids pj) = {a \<in> live pj opened. is_distill (pj_handles pj a)}"
    "\<forall>a \<in> set (pj_distillxids pj). dxid < xid_of pj a" "dxid \<le> pj_lastxid pj"
    "\<forall>a \<in> set (pj_pendingxids pj). pend_ok (pj_handles pj a)"
    "\<forall>a \<in> set opened. open_ok (pj_handles pj a)" "inj_on (xid_of pj) (live pj opened)"
    using inv by (simp_all add: hndl_inv_def)
  have live': "live pj' (opened @ [?a]) = insert ?a (live pj opened)"
    by (auto simp: live_def pj')
  have fresh: "?a \<notin> live pj opened" using hndl_fresh [OF inv] by (simp add: live_def)
  have h: "pj_handles pj' b = pj_handles pj b" if "b \<in> live pj opened" for b
    using that fresh by (auto simp: pj')
  then have x: "xid_of pj' b = xid_of pj b" if "b \<in> live pj opened" for b
    using that by (simp add: xid_of_def)
  have a: "pj_handles pj' ?a = new_handle pj distill txg" "xid_of pj' ?a = pj_lastxid pj + 1"
    by (simp_all add: pj' xid_of_def)
  have lt: "pj_lastxid pj < pj_lastxid pj + 1" using lx by (rule word_less_Suc)
  have xid: "xid_of pj b < pj_lastxid pj + 1" if "b \<in> live pj opened" for b
    using inv that lt unfolding hndl_inv_def by (meson order.strict_trans1)
  have dist: "set (pj_distillxids pj) \<subseteq> live pj opened" using inv by (auto simp: hndl_inv_def)
  then have "map (xid_of pj') (pj_distillxids pj) = map (xid_of pj) (pj_distillxids pj)"
    using x by auto
  moreover have dl: "pj_distillxids pj' = pj_distillxids pj @ (if distill then [?a] else [])"
    by (simp add: pj')
  ultimately have sorted: "sorted_wrt (<) (map (xid_of pj') (pj_distillxids pj'))"
    using inv xid dist a(2) by (auto simp: hndl_inv_def sorted_wrt_append simp del: map_eq_conv)
  have inj: "inj_on (xid_of pj') (insert ?a (live pj opened))"
    using parts(7) x a(2) xid fresh by (force simp: inj_on_def)
  have pend: "pj_pendingxids pj' = pj_pendingxids pj" "pj_lastxid pj' = pj_lastxid pj + 1"
    "pj_nexthndl pj' = ?a + 1" "set (pj_pendingxids pj) \<subseteq> live pj opened" "set opened \<subseteq> live pj opened"
    by (auto simp: pj' live_def)
  have all: "\<forall>b \<in> insert ?a (live pj opened). b < pj_nexthndl pj' \<and> 0 < xid_of pj' b \<and>
      xid_of pj' b \<le> pj_lastxid pj'"
    using inv xid x a(2) lx pend(2,3)
    by (simp add: hndl_inv_def word_neq_0_conv less_imp_le less_Suc_eq)
  have D: "set (pj_distillxids pj') =
      {b \<in> insert ?a (live pj opened). is_distill (pj_handles pj' b)}"
    using parts(2) fresh h a(1) by (auto simp: dl)
  have dlt: "\<forall>b \<in> set (pj_distillxids pj'). dxid < xid_of pj' b" "dxid \<le> pj_lastxid pj'"
    using parts(3,4) dist x a(2) order.strict_trans1 [OF parts(4) lt] pend(2)
    by (auto simp: dl subset_iff less_imp_le)
  have ok: "\<forall>b \<in> set (pj_pendingxids pj'). pend_ok (pj_handles pj' b)"
    "\<forall>b \<in> set (opened @ [?a]). open_ok (pj_handles pj' b)"
    using parts(5,6) h a(1) pend(1,4,5) by (simp_all add: subset_iff)
  have "distinct (pj_pendingxids pj' @ opened @ [?a])"
    using parts(1) pend(1,4,5) fresh by (auto simp: subset_iff)
  then show ?thesis unfolding hndl_inv_def live' by (intro conjI D all sorted dlt inj ok)
qed

lemma xnew_inv:
  assumes inv: "ring_inv pj" "disk_inv pj" "hndl_inv pj opened dxid" "resrv_inv pj opened used ung"
    and lx: "pj_lastxid pj + 1 \<noteq> 0" and res: "used + length opened < pj_resrv pj"
  obtains pj' where "pjournal_xnew pj distill txg = Some (pj', pj_nexthndl pj)"
    "ring_inv pj'" "disk_inv pj'" "hndl_inv pj' (opened @ [pj_nexthndl pj]) dxid"
    "resrv_inv pj' (opened @ [pj_nexthndl pj]) used ung"
proof -
  let ?a = "pj_nexthndl pj"
  let ?r = "pj\<lparr>total_trans := total_trans pj + 1, pj_nexthndl := ?a + 1,
    pj_lastxid := pj_lastxid pj + 1,
    pj_distillxids := pj_distillxids pj @ (if distill then [?a] else [])\<rparr>"
  let ?pj = "upd_handle ?a (\<lambda>_. new_handle pj distill txg) ?r"
  have tot: "total_trans pj + 1 \<le> total_reserve pj" using inv(4) res by (auto simp: resrv_inv_def)
  have r: "ring_inv ?r" "disk_inv ?r" using inv(1,2)
    by (simp_all add: ring_inv_def disk_inv_def ring_slot_def)
  have n: "pj_inuse pj = length (pj_pendingxids pj)" using inv(1) by (simp add: ring_inv_def)
  note fresh = hndl_fresh(1) [OF inv(3)]
  show thesis
  proof (rule that)
    show "pjournal_xnew pj distill txg = Some (?pj, ?a)"
      using xnew_eq tot lx by simp
    show "ring_inv ?pj" by (rule ring_inv_upd_handle [OF r(1)]) (simp add: fresh)
    show "disk_inv ?pj" by (rule disk_inv_upd_handle [OF r(2)]) (simp_all add: fresh n)
    show "hndl_inv ?pj (opened @ [?a]) dxid" by (rule hndl_inv_xnew [OF inv(3) lx refl])
    show "resrv_inv ?pj (opened @ [?a]) used ung" using inv(4) res by (auto simp: resrv_inv_def)
  qed
qed

subsection \<open>Writing a transaction\<close>

definition push_pending :: "psc_journal \<Rightarrow> nat \<Rightarrow> psc_journal" where
  "push_pending pj xh =
     pj\<lparr>pj_nextwrite := (if pj_nextwrite pj + 1 = pj_total pj then 0 else pj_nextwrite pj + 1),
        pj_wraparound := (if pj_nextwrite pj + 1 = pj_total pj then pj_wraparound pj + 1
                          else pj_wraparound pj),
        pj_inuse := pj_inuse pj + 1, pj_pendingxids := pj_pendingxids pj @ [xh]\<rparr>"

lemma ring_slot_less: "0 < pj_total pj \<Longrightarrow> ring_slot pj k < pj_total pj"
  by (simp add: ring_slot_def)

text \<open>With a free slot left, none of the slots in use is the one to be written next.\<close>

lemma ring_slot_neq_next:
  assumes "pj_inuse pj < pj_total pj" "pj_nextwrite pj < pj_total pj" "k < pj_inuse pj"
  shows "ring_slot pj k \<noteq> pj_nextwrite pj"
proof (cases "pj_nextwrite pj + k < pj_inuse pj")
  case True
  then have "ring_slot pj k = pj_nextwrite pj + pj_total pj - pj_inuse pj + k"
    using assms by (simp add: ring_slot_def)
  then show ?thesis using assms by linarith
next
  case False
  then have "pj_nextwrite pj + pj_total pj - pj_inuse pj + k = pj_total pj + (pj_nextwrite pj + k - pj_inuse pj)"
    using assms by linarith
  then have "ring_slot pj k = pj_nextwrite pj + k - pj_inuse pj"
    using assms unfolding ring_slot_def by (simp only: mod_add_self1) simp
  then show ?thesis using assms False by linarith
qed

lemma ring_slot_push:
  assumes "pj_inuse pj < pj_total pj" "pj_nextwrite pj < pj_total pj"
  shows "ring_slot (push_pending pj xh) k = ring_slot pj k"
proof -
  let ?x = "pj_nextwrite (push_pending pj xh) + pj_total pj - (pj_inuse pj + 1) + k"
  have "pj_nextwrite pj + pj_total pj - pj_inuse pj + k =
      (if pj_nextwrite pj + 1 = pj_total pj then ?x + pj_total pj else ?x)"
    using assms by (auto simp: push_pending_def)
  then have "(pj_nextwrite pj + pj_total pj - pj_inuse pj + k) mod pj_total pj = ?x mod pj_total pj"
    using mod_add_self2 [of ?x "pj_total pj"] by (simp only: simp_thms split: if_splits)
  then show ?thesis by (simp add: ring_slot_def push_pending_def)
qed

lemma ring_slot_last:
  "pj_inuse pj < pj_total pj \<Longrightarrow> pj_nextwrite pj < pj_total pj \<Longrightarrow>
     ring_slot pj (pj_inuse pj) = pj_nextwrite pj"
  by (simp add: ring_slot_def)

lemma next_slot_eq:
  assumes "ring_inv pj" "pj_inuse pj < pj_total pj" "0 < pj_resrv pj"
  shows "pjournal_next_slot pj xh =
    Some (upd_handle xh (\<lambda>h. h\<lparr>pjx_slot := Some (pj_nextwrite pj)\<rparr>) (push_pending pj xh))"
proof -
  have "pjx_slot (pj_handles pj t) \<noteq> Some (pj_nextwrite pj)" if "pj_pendingxids pj = t # ts" for t ts
    using assms that ring_slot_neq_next [of pj 0] by (auto simp: ring_inv_def)
  then show ?thesis using assms
    by (auto simp: pjournal_next_slot_def push_pending_def upd_handle_def Let_def ring_inv_def
        split: list.splits)
qed

definition log_entry ::
  "psc_journal_xidhndl \<Rightarrow> u16 \<Rightarrow> psc_journal_enthdr \<Rightarrow> nat \<Rightarrow> psc_journal_enthdr" where
  "log_entry h type pje sz =
     (let e = pje\<lparr>pje_type := (if is_distill h then type OR PJE_DISTILL else type),
                  pje_len := word_of_nat sz, pje_xid := pjx_xid h, pje_txg := pjx_txg h\<rparr>
      in e\<lparr>pje_chksum := the (pje_crc e)\<rparr>)"

lemma pje_crc_chksum [simp]: "pje_crc (e\<lparr>pje_chksum := c\<rparr>) = pje_crc e"
  by (simp add: pje_crc_def pje_head_def)

lemma and16_iff:
  "(w :: u16) AND 1 = 0 \<longleftrightarrow> \<not> bit w 0" "w AND 2 = 0 \<longleftrightarrow> \<not> bit w 1" "w AND 4 = 0 \<longleftrightarrow> \<not> bit w 2"
  using and_exp_eq_0_iff_not_bit [of w 0] and_exp_eq_0_iff_not_bit [of w 1]
    and_exp_eq_0_iff_not_bit [of w 2] by simp_all

lemma bit16 [simp]:
  "bit (1 :: u16) i \<longleftrightarrow> i = 0" "bit (2 :: u16) i \<longleftrightarrow> i = 1" "bit (4 :: u16) i \<longleftrightarrow> i = 2"
  using bit_exp_iff [where 'a = u16, of 1 i] bit_exp_iff [where 'a = u16, of 2 i]
  by (auto simp: bit_1_iff)

lemmas type_flags = and16_iff bit_or_iff PJE_FORMAT_def PJE_NORMAL_def PJE_DISTILL_def

lemma log_entry_ok:
  assumes "pje_magic pje = PJE_MAGIC" "sz \<le> length (pje_data pje)" "sz < 2 ^ 16"
    "type AND PJE_FORMAT = 0" and e: "e = log_entry h (type OR PJE_NORMAL) pje sz"
  shows "entry_ok e" "\<not> is_format e" "logged h e" "pje_magic e = PJE_MAGIC"
proof -
  have len: "unat (word_of_nat sz :: u16) = sz" using assms(3) by (simp add: unat_of_nat)
  show f: "\<not> is_format e" and "pje_magic e = PJE_MAGIC" "logged h e"
    using assms by (auto simp: log_entry_def is_format_def logged_def Let_def type_flags)
  then show "entry_ok e"
    using assms(1,2) e len by (auto simp: entry_ok_def log_entry_def pje_crc_def Let_def type_flags
        pje_head_def)
qed

definition write_handle :: "nat \<Rightarrow> psc_journal_enthdr \<Rightarrow> psc_journal_xidhndl \<Rightarrow> psc_journal_xidhndl" where
  "write_handle slot e h =
     (if is_distill h then h\<lparr>pjx_slot := Some slot, pjx_data := Some e,
        pjx_flags := pjx_flags h OR PJX_WRITTEN\<rparr>
      else h\<lparr>pjx_slot := Some slot\<rparr>)"

lemma logwrite_eq:
  assumes "ring_inv pj" "pj_inuse pj < pj_total pj" "0 < pj_resrv pj"
    and "open_ok (pj_handles pj xh)"
    and "sz \<le> length (pje_data pje)" "sz < 2 ^ 16"
    and "e = log_entry (pj_handles pj xh) type pje sz" "slot = pj_nextwrite pj"
  shows "pjournal_logwrite pj xh type pje sz =
    Some (upd_handle xh (write_handle slot e)
      ((push_pending pj xh)\<lparr>pj_slots := (pj_slots pj)[slot := e]\<rparr>), slot)"
proof -
  have "unat (word_of_nat sz :: u16) = sz" using assms(6) by (simp add: unat_of_nat)
  moreover have "slot < length (pj_slots pj)" using assms(1,8) by (simp add: ring_inv_def)
  ultimately show ?thesis
    using next_slot_eq [OF assms(1-3), of xh] assms(4,5,7,8)
    by (auto simp: pjournal_logwrite_def pjournal_logwrite_internal_def log_entry_def Let_def
        pje_crc_def pje_head_def is_distill_def open_ok_def wr_def upd_handle_def write_handle_def push_pending_def
        fun_upd_def cong: if_cong)
qed

lemma write_handle_simps [simp]:
  "is_distill (write_handle slot e h) = is_distill h" "pjx_xid (write_handle slot e h) = pjx_xid h"
  "pjx_slot (write_handle slot e h) = Some slot" "pjx_txg (write_handle slot e h) = pjx_txg h"
  by (auto simp: write_handle_def is_distill_iff PJX_WRITTEN_def bit_or_iff)

lemma write_handle_pend_ok:
  "open_ok h \<Longrightarrow> pje_magic e = PJE_MAGIC \<Longrightarrow> pje_xid e = pjx_xid h \<Longrightarrow>
     pend_ok (write_handle slot e h)"
  by (auto simp: pend_ok_def open_ok_def write_handle_def is_distill_iff is_written_iff
      PJX_WRITTEN_def bit_or_iff)

lemma ring_inv_write:
  assumes "ring_inv pj" "pj_inuse pj < pj_total pj" "xh \<notin> set (pj_pendingxids pj)"
    and pj': "pj' = upd_handle xh (write_handle (pj_nextwrite pj) e)
    ((push_pending pj xh)\<lparr>pj_slots := (pj_slots pj)[pj_nextwrite pj := e]\<rparr>)"
  shows "ring_inv pj'"
proof -
  have nw: "pj_nextwrite pj < pj_total pj" using assms(1) by (simp add: ring_inv_def)
  have rs: "ring_slot pj' k = ring_slot pj k" for k
    using ring_slot_push [OF assms(2) nw, of xh k] by (simp add: ring_slot_def pj')
  have f: "pj_inuse pj' = Suc (pj_inuse pj)" "pj_total pj' = pj_total pj"
    "pj_pendingxids pj' = pj_pendingxids pj @ [xh]" "length (pj_slots pj') = length (pj_slots pj)"
    "pj_nextwrite pj' < pj_total pj"
    using assms(2) nw by (auto simp: push_pending_def pj')
  have "pjx_slot (pj_handles pj' (pj_pendingxids pj' ! k)) = Some (ring_slot pj' k)"
    if "k < Suc (pj_inuse pj)" for k
  proof (cases "k = pj_inuse pj")
    case True
    then show ?thesis unfolding rs using ring_slot_last [OF assms(2) nw] assms(1)
      by (simp add: f(3) ring_inv_def pj' push_pending_def)
  next
    case False
    then have "pj_pendingxids pj ! k \<in> set (pj_pendingxids pj)" "k < pj_inuse pj"
      using that assms(1) by (simp_all add: ring_inv_def)
    then show ?thesis unfolding rs f(3) using assms(1,3)
      by (auto simp: ring_inv_def nth_append push_pending_def pj')
  qed
  then show ?thesis using assms(1-3) f unfolding ring_inv_def by simp
qed

lemma disk_inv_write:
  assumes "ring_inv pj" "disk_inv pj" "pj_inuse pj < pj_total pj" "xh \<notin> set (pj_pendingxids pj)"
    and "entry_ok e" "\<not> is_format e" "logged (pj_handles pj xh) e"
    and pj': "pj' = upd_handle xh (write_handle (pj_nextwrite pj) e)
    ((push_pending pj xh)\<lparr>pj_slots := (pj_slots pj)[pj_nextwrite pj := e]\<rparr>)"
  shows "disk_inv pj'"
proof -
  let ?nw = "pj_nextwrite pj"
  have len: "length (pj_slots pj) = pj_total pj" "?nw < pj_total pj"
    "pj_inuse pj = length (pj_pendingxids pj)" using assms(1) by (simp_all add: ring_inv_def)
  have rs: "ring_slot pj' k = ring_slot pj k" for k
    using ring_slot_push [OF assms(3) len(2), of xh k] by (simp add: ring_slot_def pj')
  have sl: "pj_slots pj' ! i = (if i = ?nw then e else pj_slots pj ! i)" if "i < pj_total pj" for i
    using that len by (simp add: pj')
  have log: "logged (pj_handles pj' (pj_pendingxids pj' ! k)) (pj_slots pj' ! ring_slot pj' k)"
    if "k < Suc (pj_inuse pj)" for k
  proof (cases "k = pj_inuse pj")
    case True
    then show ?thesis unfolding rs ring_slot_last [OF assms(3) len(2), folded True]
      using assms(7) len by (simp add: push_pending_def logged_def pj')
  next
    case False
    then have k: "k < pj_inuse pj" "pj_pendingxids pj ! k \<noteq> xh" using that len(3) assms(4) by auto
    moreover have "ring_slot pj k \<noteq> ?nw" by (rule ring_slot_neq_next [OF assms(3) len(2) k(1)])
    ultimately show ?thesis unfolding rs using assms(2) len
      by (simp add: disk_inv_def push_pending_def nth_append pj')
  qed
  have "is_format (pj_slots pj' ! j)" if "i \<le> j" "j < pj_total pj" "is_format (pj_slots pj' ! i)" for i j
  proof -
    have "i \<noteq> ?nw" "is_format (pj_slots pj ! i)" using that sl [of i] assms(6) by (auto split: if_splits)
    then have "\<not> i < ?nw" using assms(2) by (auto simp: disk_inv_def)
    then show ?thesis using that \<open>i \<noteq> ?nw\<close> \<open>is_format (pj_slots pj ! i)\<close> assms(2) sl [of j]
      by (auto simp: disk_inv_def)
  qed
  moreover have "\<not> is_format (pj_slots pj' ! i)" if "i < pj_nextwrite pj'" for i
  proof -
    have "i \<le> ?nw" using that by (simp add: pj' push_pending_def split: if_splits)
    then show ?thesis using sl [of i] assms(2,6) len(2) by (auto simp: disk_inv_def)
  qed
  moreover have "list_all entry_ok (pj_slots pj')"
    using assms(2,5) set_update_subset_insert by (fastforce simp: disk_inv_def list_all_iff pj')
  moreover have "pj_total pj' = pj_total pj" "pj_inuse pj' = Suc (pj_inuse pj)"
    by (simp_all add: pj' push_pending_def)
  ultimately show ?thesis unfolding disk_inv_def using log by simp
qed

lemma hndl_inv_write:
  assumes inv: "hndl_inv pj opened dxid" and xh: "xh \<in> set opened"
    and e: "pje_magic e = PJE_MAGIC" "pje_xid e = xid_of pj xh"
    and pj': "pj' = upd_handle xh (write_handle slot e) ((push_pending pj xh)\<lparr>pj_slots := sl\<rparr>)"
  shows "hndl_inv pj' (remove1 xh opened) dxid"
proof -
  have dist: "distinct (pj_pendingxids pj @ opened)" using inv by (simp add: hndl_inv_def)
  have f: "pj_pendingxids pj' = pj_pendingxids pj @ [xh]" "pj_distillxids pj' = pj_distillxids pj"
    "pj_lastxid pj' = pj_lastxid pj" "pj_nexthndl pj' = pj_nexthndl pj"
    by (simp_all add: pj' push_pending_def)
  have h: "pj_handles pj' b = (if b = xh then write_handle slot e (pj_handles pj xh) else pj_handles pj b)" for b
    by (simp add: pj' push_pending_def)
  have x: "xid_of pj' = xid_of pj" by (auto simp: fun_eq_iff xid_of_def h)
  have d: "is_distill (pj_handles pj' b) = is_distill (pj_handles pj b)" for b by (simp add: h)
  have live': "live pj' (remove1 xh opened) = live pj opened"
    using dist xh by (auto simp: live_def f(1))
  have "open_ok (pj_handles pj xh)" using inv xh by (simp add: hndl_inv_def)
  then have "\<forall>b \<in> set (pj_pendingxids pj @ [xh]). pend_ok (pj_handles pj' b)"
    using inv write_handle_pend_ok [OF _ e [unfolded xid_of_def]] by (simp add: hndl_inv_def h)
  moreover have "\<forall>b \<in> set (remove1 xh opened). open_ok (pj_handles pj' b)"
    using inv dist by (simp add: hndl_inv_def h)
  moreover have "distinct (pj_pendingxids pj' @ remove1 xh opened)" using dist xh by (auto simp: f(1))
  ultimately show ?thesis using inv unfolding hndl_inv_def live' x f d by simp
qed

lemma room_for_opened:
  assumes "resrv_inv pj opened used ung" "xh \<in> set opened"
  shows "pj_inuse pj < pj_total pj" "0 < pj_resrv pj"
proof -
  have "0 < length opened" using assms(2) by (rule length_pos_if_in_set)
  moreover have "used + length opened \<le> pj_resrv pj" "pj_inuse pj + (pj_resrv pj - used) \<le> pj_total pj"
    using assms(1) unfolding resrv_inv_def by blast+
  ultimately show "pj_inuse pj < pj_total pj" "0 < pj_resrv pj" by linarith+
qed

lemma written_fields:
  assumes "pj' = upd_handle xh f ((push_pending pj xh)\<lparr>pj_slots := sl\<rparr>)"
  shows "pj_resrv pj' = pj_resrv pj" "pj_inuse pj' = pj_inuse pj + 1" "pj_total pj' = pj_total pj"
    "total_trans pj' = total_trans pj" "total_reserve pj' = total_reserve pj"
    "pj_pendingxids pj' = pj_pendingxids pj @ [xh]" "pj_slots pj' = sl"
  using assms by (simp_all add: push_pending_def)

lemma resrv_inv_write:
  assumes "resrv_inv pj opened used ung" "xh \<in> set opened" "pj_resrv pj' = pj_resrv pj"
    and "pj_inuse pj' = pj_inuse pj + 1" "pj_total pj' = pj_total pj"
    and "total_trans pj' = total_trans pj" "total_reserve pj' = total_reserve pj"
  shows "resrv_inv pj' (remove1 xh opened) (used + 1) ung"
proof -
  obtain n where "length opened = Suc n" "length (remove1 xh opened) = n"
    using assms(2) length_pos_if_in_set [OF assms(2)] by (cases "length opened") (auto simp: length_remove1)
  then show ?thesis using assms unfolding resrv_inv_def by auto
qed

text \<open>A write of an open transaction never fails an assertion and keeps the invariant.\<close>

lemma logwrite_inv:
  assumes inv: "ring_inv pj" "disk_inv pj" "hndl_inv pj opened dxid" "resrv_inv pj opened used ung"
    and xh: "xh \<in> set opened"
    and pje: "pje_magic pje = PJE_MAGIC" "sz \<le> length (pje_data pje)" "sz < 2 ^ 16"
      "type AND PJE_FORMAT = 0"
  obtains pj' where
    "pjournal_logwrite pj xh (type OR PJE_NORMAL) pje sz = Some (pj', pj_nextwrite pj)"
    "ring_inv pj'" "disk_inv pj'" "hndl_inv pj' (remove1 xh opened) dxid"
    "resrv_inv pj' (remove1 xh opened) (used + 1) ung"
    "pj_pendingxids pj' = pj_pendingxids pj @ [xh]"
    "pj_slots pj' = (pj_slots pj)[pj_nextwrite pj :=
       log_entry (pj_handles pj xh) (type OR PJE_NORMAL) pje sz]"
proof -
  let ?e = "log_entry (pj_handles pj xh) (type OR PJE_NORMAL) pje sz"
  let ?nw = "pj_nextwrite pj"
  define pj' where "pj' = upd_handle xh (write_handle ?nw ?e)
    ((push_pending pj xh)\<lparr>pj_slots := (pj_slots pj)[?nw := ?e]\<rparr>)"
  note room = room_for_opened [OF inv(4) xh]
  note e = log_entry_ok [OF pje refl, of "pj_handles pj xh"]
  have op: "open_ok (pj_handles pj xh)" "xh \<notin> set (pj_pendingxids pj)"
    using inv(3) xh by (auto simp: hndl_inv_def)
  note f = written_fields [OF pj'_def]
  show thesis
  proof (rule that [OF _ _ _ _ _ f(6,7)])
    show "pjournal_logwrite pj xh (type OR PJE_NORMAL) pje sz = Some (pj', ?nw)"
      unfolding pj'_def by (rule logwrite_eq [OF inv(1) room op(1) pje(2,3) refl refl])
    show "ring_inv pj'" by (rule ring_inv_write [OF inv(1) room(1) op(2) pj'_def])
    show "disk_inv pj'" by (rule disk_inv_write [OF inv(1,2) room(1) op(2) e(1-3) pj'_def])
    show "hndl_inv pj' (remove1 xh opened) dxid" 
      using e(3) by (intro hndl_inv_write [OF inv(3) xh e(4) _ pj'_def]) (simp add: logged_def xid_of_def)
    show "resrv_inv pj' (remove1 xh opened) (used + 1) ung" by (rule resrv_inv_write [OF inv(4) xh f(1-5)])
  qed
qed

end
