(* ===== verification/Journal_Distill.thy ===== *)
theory Journal_Distill
  imports Journal_Inv
begin

text \<open>
  The distill thread of the journal keeps the invariant, hands every written entry to the
  distill callback once and in the order of the transaction identifiers, and releases slots
  oldest first.
\<close>

subsection \<open>The distill thread\<close>

definition distilled_handle :: "u64 \<Rightarrow> psc_journal_xidhndl \<Rightarrow> psc_journal_xidhndl" where
  "distilled_handle txg h =
     h\<lparr>pjx_data := None, pjx_txg := (if txg > pjx_txg h then txg else pjx_txg h),
       pjx_flags := (pjx_flags h AND NOT PJX_WRITTEN) AND NOT PJX_DISTILL\<rparr>"

lemma distilled_handle_simps [simp]:
  "\<not> is_distill (distilled_handle txg h)" "pjx_xid (distilled_handle txg h) = pjx_xid h"
  "pjx_slot (distilled_handle txg h) = pjx_slot h" "pjx_data (distilled_handle txg h) = None"
  "pjx_txg h \<le> pjx_txg (distilled_handle txg h)"
  by (auto simp: distilled_handle_def is_distill_iff PJX_DISTILL_def bit_and_iff bit_not_iff)

definition distill_one :: "psc_journal \<Rightarrow> nat \<Rightarrow> nat list \<Rightarrow> psc_journal_enthdr \<Rightarrow> psc_journal" where
  "distill_one pj xh rest pje =
     upd_handle xh (distilled_handle (pj_current_txg pj + 1))
       (pj\<lparr>pj_distillxids := rest, pj_bufs := pj_bufs pj @ [pje],
           pj_flags := pj_flags pj AND NOT PJF_WANTBUF\<rparr>)"

lemma distill_one_inv:
  assumes inv: "ring_inv pj" "disk_inv pj" "hndl_inv pj opened dxid" "resrv_inv pj opened used ung"
    and xh: "pj_distillxids pj = xh # rest" "is_written (pj_handles pj xh)"
    and pj': "pj' = distill_one pj xh rest pje"
  shows "ring_inv pj'" "disk_inv pj'" "hndl_inv pj' opened (xid_of pj xh)" "resrv_inv pj' opened used ung"
proof -
  let ?r = "pj\<lparr>pj_distillxids := rest, pj_bufs := pj_bufs pj @ [pje],
    pj_flags := pj_flags pj AND NOT PJF_WANTBUF\<rparr>"
  have r: "ring_inv ?r" "disk_inv ?r" using inv(1,2)
    by (simp_all add: ring_inv_def disk_inv_def ring_slot_def)
  show "ring_inv pj'" unfolding pj' distill_one_def by (rule ring_inv_upd_handle [OF r(1)]) simp
  show "disk_inv pj'" unfolding pj' distill_one_def using inv(1)
    by (intro disk_inv_upd_handle [OF r(2)]) (simp_all add: ring_inv_def)
  show "resrv_inv pj' opened used ung" using inv(4)
    by (auto simp: pj' distill_one_def resrv_inv_def)
  have f: "pj_pendingxids pj' = pj_pendingxids pj" "pj_distillxids pj' = rest"
    "pj_lastxid pj' = pj_lastxid pj" "pj_nexthndl pj' = pj_nexthndl pj" "live pj' opened = live pj opened"
    by (simp_all add: pj' distill_one_def live_def)
  have h: "pj_handles pj' b = (if b = xh then distilled_handle (pj_current_txg pj + 1) (pj_handles pj xh)
      else pj_handles pj b)" for b by (simp add: pj' distill_one_def)
  have x: "xid_of pj' = xid_of pj" by (auto simp: fun_eq_iff xid_of_def h)
  have sorted: "sorted_wrt (<) (map (xid_of pj) rest)" "\<forall>b \<in> set rest. xid_of pj xh < xid_of pj b"
    using inv(3) xh(1) by (simp_all add: hndl_inv_def)
  have D: "set (xh # rest) = {a \<in> live pj opened. is_distill (pj_handles pj a)}"
    using inv(3) unfolding hndl_inv_def xh(1) by blast
  have nxh: "xh \<notin> set rest" using sorted(2) by auto
  have op: "\<forall>a \<in> set opened. open_ok (pj_handles pj a)" "\<forall>a \<in> set (pj_pendingxids pj). pend_ok (pj_handles pj a)"
    using inv(3) by (simp_all add: hndl_inv_def)
  have "set rest = {a \<in> live pj opened. is_distill (pj_handles pj' a)}" using D nxh by (auto simp: h)
  moreover have "\<forall>a \<in> set opened. open_ok (pj_handles pj' a)" using op(1) xh(2) by (auto simp: h open_ok_def)
  moreover have "\<forall>a \<in> set (pj_pendingxids pj). pend_ok (pj_handles pj' a)"
    using op(2) by (simp add: h) (simp add: pend_ok_def)
  moreover have "xid_of pj xh \<le> pj_lastxid pj" using inv(3) D by (auto simp: hndl_inv_def)
  ultimately show "hndl_inv pj' opened (xid_of pj xh)"
    using inv(3) sorted unfolding hndl_inv_def x f by simp
qed

lemma distill_loop_unfold:
  assumes "pj_distillxids pj = xh # rest" "is_distill (pj_handles pj xh)" "is_written (pj_handles pj xh)"
    and "pjx_data (pj_handles pj xh) = Some pje" "pje_magic pje = PJE_MAGIC" "xid < xid_of pj xh"
  shows "distill_loop pj xid =
    (pje # fst (distill_loop (distill_one pj xh rest pje) (xid_of pj xh)),
     snd (distill_loop (distill_one pj xh rest pje) (xid_of pj xh)))"
proof -
  have "pjournal_put_buf (upd_handle xh (\<lambda>h. h\<lparr>pjx_txg :=
            (if pjx_txg h < pj_current_txg pj + 1 then pj_current_txg pj + 1 else pjx_txg h),
            pjx_flags := pjx_flags h AND NOT PJX_DISTILL\<rparr>)
      ((upd_handle xh (\<lambda>h. h\<lparr>pjx_data := None, pjx_flags := pjx_flags h AND NOT PJX_WRITTEN\<rparr>) pj)
        \<lparr>pj_distillxids := rest\<rparr>)) pje = Some (distill_one pj xh rest pje)"
    using assms(5) by (simp add: upd_handle_def distilled_handle_def distill_one_def pjournal_put_buf_def)
  then show ?thesis
    using assms unfolding distill_loop.simps [of pj xid]
    by (simp add: is_distill_def is_written_def xid_of_def Let_def split_def cong: if_cong)
qed

text \<open>
  The loop hands over the written entries at the head of the list, in the order of their
  identifiers, and stops at the first one not written yet. It never fails an assertion.
\<close>

lemma log_inv_snoc:
  assumes "log_inv log dxid" "dxid < xid" "pje_xid e = xid"
  shows "log_inv (log @ [e]) xid"
proof -
  have "pje_xid x < xid" if "x \<in> set log" for x
    using assms(1,2) that unfolding log_inv_def by (blast intro: order.strict_trans1)
  then show ?thesis using assms by (auto simp: log_inv_def sorted_wrt_append less_imp_le)
qed

lemma distill_loop_inv:
  assumes "ring_inv pj" "disk_inv pj" "hndl_inv pj opened dxid" "resrv_inv pj opened used ung"
  shows "\<exists>pj' dxid' es. distill_loop pj dxid = (es, Some (pj', dxid')) \<and>
    ring_inv pj' \<and> disk_inv pj' \<and> hndl_inv pj' opened dxid' \<and> resrv_inv pj' opened used ung \<and>
    pj_slots pj' = pj_slots pj \<and> pj_pendingxids pj' = pj_pendingxids pj \<and>
    pj_commit_txg pj' = pj_commit_txg pj \<and> (\<forall>log. log_inv log dxid \<longrightarrow> log_inv (log @ es) dxid') \<and>
    map Some es = map (\<lambda>a. pjx_data (pj_handles pj a))
      (takeWhile (\<lambda>a. is_written (pj_handles pj a)) (pj_distillxids pj)) \<and>
    map pje_xid es = map (xid_of pj) (takeWhile (\<lambda>a. is_written (pj_handles pj a)) (pj_distillxids pj)) \<and>
    pj_distillxids pj' = dropWhile (\<lambda>a. is_written (pj_handles pj a)) (pj_distillxids pj) \<and> xid_of pj' = xid_of pj"
  using assms
proof (induction "pj_distillxids pj" arbitrary: pj dxid)
  case Nil
  then show ?case unfolding distill_loop.simps [of pj dxid] by simp
next
  case (Cons xh rest)
  note inv = Cons.prems and xs = Cons.hyps(2) [symmetric]
  have D: "xh \<in> live pj opened" "is_distill (pj_handles pj xh)" "dxid < xid_of pj xh"
    using inv(3) list.set_intros(1) [of xh rest, folded xs] by (simp_all add: hndl_inv_def)
  show ?case
  proof (cases "is_written (pj_handles pj xh)")
    case False
    then have "distill_loop pj dxid = ([], Some (pj, dxid))"
      unfolding distill_loop.simps [of pj dxid] using xs D(2)
      by (simp add: is_distill_def is_written_def)
    then show ?thesis using inv False
      by (intro exI [of _ pj] exI [of _ dxid] exI [of _ "[]"]) (simp add: xs)
  next
    case True
    then have "xh \<in> set (pj_pendingxids pj)"
      using D(1) inv(3) by (auto simp: live_def hndl_inv_def open_ok_def)
    then have "pend_ok (pj_handles pj xh)" using inv(3) by (simp add: hndl_inv_def)
    then obtain pje where pje: "pjx_data (pj_handles pj xh) = Some pje" "pje_magic pje = PJE_MAGIC"
      "pje_xid pje = xid_of pj xh"
      using D(2) by (auto simp: pend_ok_def xid_of_def split: option.splits)
    let ?pj = "distill_one pj xh rest pje"
    have nxh: "xh \<notin> set rest" using inv(3) xs by (auto simp: hndl_inv_def)
    have tk: "takeWhile (\<lambda>a. is_written (pj_handles ?pj a)) rest = takeWhile (\<lambda>a. is_written (pj_handles pj a)) rest"
      by (rule takeWhile_cong) (use nxh in \<open>auto simp: distill_one_def\<close>)
    have dr: "dropWhile (\<lambda>a. is_written (pj_handles ?pj a)) rest = dropWhile (\<lambda>a. is_written (pj_handles pj a)) rest"
      by (rule dropWhile_cong) (use nxh in \<open>auto simp: distill_one_def\<close>)
    have xo: "xid_of ?pj = xid_of pj" by (auto simp: fun_eq_iff xid_of_def distill_one_def)
    have "pjx_data (pj_handles ?pj a) = pjx_data (pj_handles pj a)" if "a \<in> set rest" for a
      using that nxh by (auto simp: distill_one_def)
    then have tw: "map (\<lambda>a. pjx_data (pj_handles ?pj a))
        (takeWhile (\<lambda>a. is_written (pj_handles ?pj a)) rest) =
      map (\<lambda>a. pjx_data (pj_handles pj a)) (takeWhile (\<lambda>a. is_written (pj_handles pj a)) rest)"
      unfolding tk by (intro map_cong [OF refl]) (auto dest: set_takeWhileD)
    have rest: "rest = pj_distillxids ?pj" by (simp add: distill_one_def)
    have frame: "pj_slots ?pj = pj_slots pj" "pj_pendingxids ?pj = pj_pendingxids pj"
      "pj_commit_txg ?pj = pj_commit_txg pj"
      by (simp_all add: distill_one_def)
    from Cons.hyps(1) [OF rest distill_one_inv [OF inv xs True refl]]
    obtain pj' dxid' es where "distill_loop ?pj (xid_of pj xh) = (es, Some (pj', dxid'))"
      "ring_inv pj'" "disk_inv pj'" "hndl_inv pj' opened dxid'" "resrv_inv pj' opened used ung"
      "pj_slots pj' = pj_slots pj" "pj_pendingxids pj' = pj_pendingxids pj"
      "pj_commit_txg pj' = pj_commit_txg pj"
      "\<forall>log. log_inv log (xid_of pj xh) \<longrightarrow> log_inv (log @ es) dxid'"
      "map Some es = map (\<lambda>a. pjx_data (pj_handles pj a))
        (takeWhile (\<lambda>a. is_written (pj_handles pj a)) rest)"
      "map pje_xid es = map (xid_of pj) (takeWhile (\<lambda>a. is_written (pj_handles pj a)) rest)"
      "pj_distillxids pj' = dropWhile (\<lambda>a. is_written (pj_handles pj a)) rest" "xid_of pj' = xid_of pj"
      unfolding rest [symmetric] tw [unfolded tk] tk dr xo frame by blast
    moreover from this(9) have "log_inv ((log @ [pje]) @ es) dxid'" if "log_inv log dxid" for log
      using log_inv_snoc [OF that D(3) pje(3)] by blast
    ultimately show ?thesis
      using distill_loop_unfold [OF xs D(2) True pje(1,2) D(3)] True pje(1,3)
      by (intro exI [of _ pj'] exI [of _ dxid'] exI [of _ "pje # es"]) (simp add: xs)
  qed
qed

text \<open>What the thread may release: transactions that are committed and distilled.\<close>

definition releasable :: "psc_journal \<Rightarrow> nat \<Rightarrow> bool" where
  "releasable pj a \<longleftrightarrow>
     pjx_txg (pj_handles pj a) \<le> pj_commit_txg pj \<and> \<not> is_distill (pj_handles pj a)"

lemma releasable_pop [simp]: "releasable (pop_pending pj) = releasable pj"
  by (simp add: fun_eq_iff releasable_def pop_pending_def)

lemma reclaim_loop_inv:
  assumes "ring_inv pj" "disk_inv pj" "hndl_inv pj opened dxid" "resrv_inv pj opened used ung"
  shows "\<exists>pj' txg. reclaim_loop pj = Some (pj', txg) \<and>
    ring_inv pj' \<and> disk_inv pj' \<and> hndl_inv pj' opened dxid \<and> resrv_inv pj' opened used ung \<and>
    pj_slots pj' = pj_slots pj \<and> pj_distillxids pj' = pj_distillxids pj \<and> xid_of pj' = xid_of pj \<and>
    pj_pendingxids pj' = dropWhile (releasable pj) (pj_pendingxids pj)"
  using assms
proof (induction "pj_pendingxids pj" arbitrary: pj)
  case Nil
  then show ?case unfolding reclaim_loop.simps [of pj]
    by (intro exI [of _ pj] exI [of _ 0]) simp
next
  case (Cons xh rest)
  note inv = Cons.prems and xs = Cons.hyps(2) [symmetric]
  show ?case
  proof (cases "releasable pj xh")
    case False
    then have "\<exists>txg. reclaim_loop pj = Some (pj, txg)"
      unfolding reclaim_loop.simps [of pj] using xs
      by (auto simp: releasable_def is_distill_def Let_def not_le)
    then obtain txg where "reclaim_loop pj = Some (pj, txg)" ..
    then show ?thesis using inv False by (intro exI [of _ pj] exI [of _ txg]) (simp add: xs)
  next
    case True
    then have nd: "\<not> is_distill (pj_handles pj xh)" "\<not> pj_commit_txg pj < pjx_txg (pj_handles pj xh)"
      by (simp_all add: releasable_def not_less)
    have n: "pj_inuse pj = Suc (length rest)" using inv(1) xs by (simp add: ring_inv_def)
    have "reclaim_loop pj = reclaim_loop (pop_pending pj)"
      unfolding reclaim_loop.simps [of pj] using xs nd n xdestroy_pop [OF inv(1,3) xs nd(1)]
      by (simp add: is_distill_def pop_pending_def)
    moreover have rest: "rest = pj_pendingxids (pop_pending pj)"
      and "pj_slots (pop_pending pj) = pj_slots pj" "pj_distillxids (pop_pending pj) = pj_distillxids pj"
        "xid_of (pop_pending pj) = xid_of pj"
      by (simp_all add: pop_pending_def xs xid_of_fun)
    moreover have "dropWhile (releasable pj) (pj_pendingxids pj) =
        dropWhile (releasable (pop_pending pj)) (pj_pendingxids (pop_pending pj))"
      using True by (simp add: xs rest [symmetric])
    ultimately show ?thesis
      using Cons.hyps(1) [OF rest pop_pending_inv [OF inv xs nd(1)]] by (simp only:)
  qed
qed

lemma thr_turn_inv:
  assumes inv: "ring_inv pj" "disk_inv pj" "hndl_inv pj opened dxid" "resrv_inv pj opened used ung"
    and once: "pj_commit_txg pj \<le> synced \<or> once = 0"
  obtains pj' dxid' once' es where "pjournal_thr_turn synced pj dxid once = (es, Some (pj', dxid', once'))"
    "ring_inv pj'" "disk_inv pj'" "hndl_inv pj' opened dxid'" "resrv_inv pj' opened used ung"
    "pj_slots pj' = pj_slots pj" "\<And>log. log_inv log dxid \<Longrightarrow> log_inv (log @ es) dxid'"
    "once' = (if pj_commit_txg pj > synced then once + 1 else once)"
    "map Some es = map (\<lambda>a. pjx_data (pj_handles pj a))
       (takeWhile (\<lambda>a. is_written (pj_handles pj a)) (pj_distillxids pj))"
    "map pje_xid es = map (xid_of pj) (takeWhile (\<lambda>a. is_written (pj_handles pj a)) (pj_distillxids pj))"
    "pj_distillxids pj' = dropWhile (\<lambda>a. is_written (pj_handles pj a)) (pj_distillxids pj)" "xid_of pj' = xid_of pj"
proof -
  from distill_loop_inv [OF inv] obtain pj1 dxid' es where
    d: "distill_loop pj dxid = (es, Some (pj1, dxid'))"
      "ring_inv pj1" "disk_inv pj1" "hndl_inv pj1 opened dxid'" "resrv_inv pj1 opened used ung"
      "pj_slots pj1 = pj_slots pj" "pj_commit_txg pj1 = pj_commit_txg pj"
      "\<forall>log. log_inv log dxid \<longrightarrow> log_inv (log @ es) dxid'"
    and es: "map Some es = map (\<lambda>a. pjx_data (pj_handles pj a))
       (takeWhile (\<lambda>a. is_written (pj_handles pj a)) (pj_distillxids pj))"
      "map pje_xid es = map (xid_of pj) (takeWhile (\<lambda>a. is_written (pj_handles pj a)) (pj_distillxids pj))"
      "pj_distillxids pj1 = dropWhile (\<lambda>a. is_written (pj_handles pj a)) (pj_distillxids pj)" "xid_of pj1 = xid_of pj" by blast
  define pj2 where "pj2 = (if pj_distill_xid pj1 < dxid' then pj1\<lparr>pj_distill_xid := dxid'\<rparr> else pj1)"
  define pj3 where "pj3 = pj2\<lparr>pj_commit_txg := synced\<rparr>"
  have inv3: "ring_inv pj3" "disk_inv pj3" "hndl_inv pj3 opened dxid'" "resrv_inv pj3 opened used ung"
    "pj_slots pj3 = pj_slots pj"
    using d(2-6) by (simp_all add: pj3_def pj2_def)
  from reclaim_loop_inv [OF inv3(1-4)] obtain pj' txg where
    r: "reclaim_loop pj3 = Some (pj', txg)" "ring_inv pj'" "disk_inv pj'" "hndl_inv pj' opened dxid'"
      "resrv_inv pj' opened used ung" "pj_slots pj' = pj_slots pj3" "pj_distillxids pj' = pj_distillxids pj3"
      "xid_of pj' = xid_of pj3" by blast
  have f3: "pj_distillxids pj3 = pj_distillxids pj1" "xid_of pj3 = xid_of pj1" by (simp_all add: pj3_def pj2_def xid_of_fun)
  have oc: "synced < pj_commit_txg pj \<Longrightarrow> once = 0" using once by auto
  have "pjournal_thr_turn synced pj dxid once =
      (es, Some (pj', dxid', if pj_commit_txg pj > synced then once + 1 else once))"
    unfolding pjournal_thr_turn_def d(1) using r(1) [unfolded pj3_def pj2_def] oc d(7)
    by (cases "synced < pj_commit_txg pj"; cases "pj_distill_xid pj1 < dxid'") simp_all
  then show thesis by (rule that [OF _ r(2-5) _ _ refl es(1,2)]) (simp_all add: r(6-8) inv3(5) d(8) es f3)
qed

subsection \<open>What is handed over\<close>

text \<open>A transaction of the distill list stays on it, with its identifier, until its entry is handed over.\<close>

definition to_distill :: "nat \<Rightarrow> u64 \<Rightarrow> jsys \<Rightarrow> bool" where
  "to_distill a x s \<longleftrightarrow> (a \<in> set (pj_distillxids (j_pj s)) \<and> xid_of (j_pj s) a = x) \<or> x \<in> pje_xid ` set (j_log s)"

lemma reserve_turn_frame:
  "reserve_turn synced pj = Some (pj', g, w) \<Longrightarrow> pj_distillxids pj' = pj_distillxids pj \<and> xid_of pj' = xid_of pj"
  by (auto simp: reserve_turn_def pjournal_xdestroy_def bind_eq_Some_conv Let_def xid_of_fun split: if_splits list.splits)

lemma unreserve_frame:
  "pjournal_unreserve_slot pj n = Some pj' \<Longrightarrow> pj_distillxids pj' = pj_distillxids pj \<and> xid_of pj' = xid_of pj"
  by (auto simp: pjournal_unreserve_slot_def bind_eq_Some_conv Let_def xid_of_fun split: if_splits)

lemma next_slot_frame:
  "pjournal_next_slot pj xh = Some pj' \<Longrightarrow> pj_distillxids pj' = pj_distillxids pj \<and> xid_of pj' = xid_of pj"
  by (auto simp: pjournal_next_slot_def bind_eq_Some_conv Let_def xid_of_fun upd_handle_def fun_eq_iff split: if_splits list.splits)

lemma logwrite_frame:
  assumes "pjournal_logwrite pj xh type pje sz = Some (pj', slot)"
  shows "pj_distillxids pj' = pj_distillxids pj \<and> xid_of pj' = xid_of pj"
proof -
  obtain pj1 e s p where n: "pjournal_next_slot pj xh = Some pj1" "pjournal_logwrite_internal pj1 e s = Some p"
    "(case p of (pj, pje) \<Rightarrow> if pjx_flags (pj_handles pj xh) AND PJX_DISTILL \<noteq> 0 then
        Some (upd_handle xh (\<lambda>h. h\<lparr>pjx_data := Some pje, pjx_flags := pjx_flags h OR PJX_WRITTEN\<rparr>) pj, s)
      else psc_assert (pjx_data (pj_handles pj xh) = None) \<bind> (\<lambda>_. Some (pj, s))) = Some (pj', slot)"
    using assms unfolding pjournal_logwrite_def Let_def bind_eq_Some_conv [of "pjournal_next_slot _ _"]
      bind_eq_Some_conv [of "pjx_slot _"] bind_eq_Some_conv [of "pjournal_logwrite_internal _ _ _"] by (elim exE conjE) (rule that)
  obtain pj2 e' where p: "p = (pj2, e')" by (cases p)
  have "pj_distillxids pj2 = pj_distillxids pj1 \<and> xid_of pj2 = xid_of pj1" using n(2) p
    by (auto simp: pjournal_logwrite_internal_def bind_eq_Some_conv Let_def xid_of_fun)
  moreover have "pj_distillxids pj' = pj_distillxids pj2 \<and> xid_of pj' = xid_of pj2" using n(3) p
    by (auto simp: bind_eq_Some_conv xid_of_fun upd_handle_def split: if_splits)
  ultimately show ?thesis using next_slot_frame [OF n(1)] by simp
qed

lemma xnew_frame:
  assumes "pjournal_xnew pj distill txg = Some (pj', xh)" "pj_lastxid pj + 1 \<noteq> 0" "hndl_inv pj opened dxid" "a \<in> set (pj_distillxids pj)"
  shows "a \<in> set (pj_distillxids pj') \<and> xid_of pj' a = xid_of pj a"
proof -
  have "total_trans pj < total_reserve pj" using assms(1)
    by (cases "total_trans pj < total_reserve pj") (simp_all add: pjournal_xnew_def Let_def)
  then show ?thesis using assms(1,4) hndl_fresh(3) [OF assms(3)] unfolding xnew_eq [OF assms(2) \<open>total_trans pj < total_reserve pj\<close>]
    by (auto simp: xid_of_def)
qed

subsection \<open>Every step keeps the invariant\<close>

lemma inv_ask [simp]:
  "ring_inv (pj\<lparr>total_reserve := r\<rparr>) = ring_inv pj" "disk_inv (pj\<lparr>total_reserve := r\<rparr>) = disk_inv pj"
  "hndl_inv (pj\<lparr>total_reserve := r\<rparr>) opened dxid = hndl_inv pj opened dxid"
  by (simp_all add: ring_inv_def disk_inv_def hndl_inv_def ring_slot_def live_def xid_of_fun)

lemma jsys_invD:
  assumes "jsys_inv s"
  shows "ring_inv (j_pj s)" "disk_inv (j_pj s)" "hndl_inv (j_pj s) (j_opened s) (j_dxid s)"
    "resrv_inv (j_pj s) (j_opened s) (j_used s) (j_ungranted s)"
    "log_inv (j_log s) (j_dxid s)"
  using assms by (simp_all add: jsys_inv_def)

lemma thr_turn_once:
  assumes "jsys_inv s" "pjournal_thr_turn synced (j_pj s) (j_dxid s) (j_once s) = (es, Some r)"
  shows "pj_commit_txg (j_pj s) \<le> synced \<or> j_once s = 0"
proof -
  from distill_loop_inv [OF jsys_invD(1-4) [OF assms(1)]] obtain pj1 dxid' es' where
    d: "distill_loop (j_pj s) (j_dxid s) = (es', Some (pj1, dxid'))"
      "pj_commit_txg pj1 = pj_commit_txg (j_pj s)" by blast
  show ?thesis
    using assms(2) unfolding pjournal_thr_turn_def d(1)
    by (cases "synced < pj_commit_txg (j_pj s)"; cases "pj_distill_xid pj1 < dxid'")
      (auto simp: d(2) not_less split: if_splits)
qed

lemma jsys_inv_steps:
  assumes "jsys_inv s"
  shows "0 < j_ungranted s \<Longrightarrow> reserve_turn synced (j_pj s) = Some (pj, granted, waited) \<Longrightarrow>
      jsys_inv (s\<lparr>j_pj := pj, j_ungranted := (if granted then j_ungranted s - 1 else j_ungranted s)\<rparr>)"
    and "k \<le> n \<Longrightarrow> k \<le> j_used s \<Longrightarrow> n - k \<le> pj_resrv (j_pj s) - j_used s - length (j_opened s) \<Longrightarrow>
      pjournal_unreserve_slot (j_pj s) n = Some pj \<Longrightarrow> jsys_inv (s\<lparr>j_pj := pj, j_used := j_used s - k\<rparr>)"
    and "j_used s + length (j_opened s) < pj_resrv (j_pj s) \<Longrightarrow> pj_lastxid (j_pj s) + 1 \<noteq> 0 \<Longrightarrow>
      pjournal_xnew (j_pj s) distill txg = Some (pj, xh) \<Longrightarrow>
      jsys_inv (s\<lparr>j_pj := pj, j_opened := j_opened s @ [xh]\<rparr>)"
    and "pjournal_thr_turn synced (j_pj s) (j_dxid s) (j_once s) = (es, Some (pj, xid, once)) \<Longrightarrow>
      jsys_inv (s\<lparr>j_pj := pj, j_dxid := xid, j_once := once, j_log := j_log s @ es\<rparr>)"
  subgoal premises p
    by (rule reserve_turn_inv [OF jsys_invD(1-4) [OF assms] p(1), of synced]) (use p jsys_invD(5) [OF assms] in \<open>simp add: jsys_inv_def\<close>)
  subgoal premises p
    by (rule unreserve_inv [OF jsys_invD(4) [OF assms] p(1-3)])
      (use p jsys_invD [OF assms] in \<open>simp add: jsys_inv_def\<close>)
  subgoal premises p
    by (rule xnew_inv [OF jsys_invD(1-4) [OF assms] p(2,1), of distill txg]) (use p jsys_invD(5) [OF assms] in \<open>simp add: jsys_inv_def\<close>)
  subgoal premises p
    by (rule thr_turn_inv [OF jsys_invD(1-4) [OF assms] thr_turn_once [OF assms p]])
      (use p jsys_invD(5) [OF assms] in \<open>simp add: jsys_inv_def\<close>)
  done

lemma jsys_inv_write:
  assumes "jsys_inv s" "xh \<in> set (j_opened s)" "pje_magic pje = PJE_MAGIC"
    "sz \<le> length (pje_data pje)" "sz < 2 ^ 16" "type AND PJE_FORMAT = 0"
    "pjournal_logwrite (j_pj s) xh (type OR PJE_NORMAL) pje sz = Some (pj, slot)"
  shows "jsys_inv (s\<lparr>j_pj := pj, j_opened := remove1 xh (j_opened s), j_used := j_used s + 1\<rparr>)"
  by (rule logwrite_inv [OF jsys_invD(1-4) [OF assms(1)] assms(2-6)])
    (use assms(7) jsys_invD(5) [OF assms(1)] in \<open>simp add: jsys_inv_def\<close>)

lemma jstep_to_distill:
  assumes "jstep s s'" "jsys_inv s" "to_distill a x s"
  shows "to_distill a x s'"
  using assms(1)
proof cases
  case (ask n)
  then show ?thesis using assms(3) by (simp add: to_distill_def xid_of_fun)
next
  case (turn synced pj granted waited)
  then show ?thesis using assms(3) reserve_turn_frame [OF turn(3)] by (simp add: to_distill_def)
next
  case (give_back k n pj)
  then show ?thesis using assms(3) unreserve_frame [OF give_back(5)] by (simp add: to_distill_def)
next
  case (begin_trans distill txg pj xh)
  then show ?thesis using assms(3) xnew_frame [OF begin_trans(4,3) jsys_invD(3) [OF assms(2)], of a] by (auto simp: to_distill_def)
next
  case (write_trans xh pje sz type pj slot)
  then show ?thesis using assms(3) logwrite_frame [OF write_trans(7)] by (simp add: to_distill_def)
next
  case (new_txg txg)
  then show ?thesis using assms(3) by (simp add: to_distill_def pjournal_update_txg_def xid_of_fun)
next
  case (distill synced es pj xid once)
  let ?w = "\<lambda>a. is_written (pj_handles (j_pj s) a)" and ?ds = "pj_distillxids (j_pj s)"
  have f: "map pje_xid es = map (xid_of (j_pj s)) (takeWhile ?w ?ds)" "pj_distillxids pj = dropWhile ?w ?ds" "xid_of pj = xid_of (j_pj s)"
    by (rule thr_turn_inv [OF jsys_invD(1-4) [OF assms(2)] thr_turn_once [OF assms(2) distill(2)]], use distill(2) in simp)+
  have es: "pje_xid ` set es = xid_of (j_pj s) ` set (takeWhile ?w ?ds)" using arg_cong [OF f(1), of set] by simp
  have "set ?ds = set (takeWhile ?w ?ds) \<union> set (dropWhile ?w ?ds)" by (metis set_append takeWhile_dropWhile_id)
  then consider "a \<in> set (takeWhile ?w ?ds)" "xid_of (j_pj s) a = x" | "a \<in> set (dropWhile ?w ?ds)" "xid_of (j_pj s) a = x" |
      "x \<in> pje_xid ` set (j_log s)" using assms(3) unfolding to_distill_def by blast
  then show ?thesis by cases (use es in \<open>auto simp: to_distill_def distill(1) f(2,3)\<close>)
qed

lemma jstep_inv: "jstep s s' \<Longrightarrow> jsys_inv s \<Longrightarrow> jsys_inv s'"
proof (induction rule: jstep.induct)
  case (ask s n)
  then show ?case by (auto simp: jsys_inv_def resrv_inv_def)
next
  case (new_txg s txg)
  then show ?case by (simp add: jsys_inv_def pjournal_update_txg_def)
qed (blast intro: jsys_inv_steps jsys_inv_write)+

end
