(* ===== verification/Journal_Scan.thy ===== *)
theory Journal_Scan
  imports Journal_Distill
begin

text \<open>
  Recovery: what the scan of the slots keeps for replay, what replay hands to its callbacks, and
  the runs of the journal from an opened, replayed journal on. The theorems of the journal
  component are at the end.
\<close>

subsection \<open>Well-formed devices\<close>

definition disk_ok :: "psc_journal \<Rightarrow> bool" where
  "disk_ok pj \<longleftrightarrow> length (pj_slots pj) = pj_total pj \<and> list_all entry_ok (pj_slots pj) \<and>
     (\<forall>i j. i \<le> j \<longrightarrow> j < pj_total pj \<longrightarrow> is_format (pj_slots pj ! i) \<longrightarrow> is_format (pj_slots pj ! j))"

definition journal_ready :: "psc_journal \<Rightarrow> bool" where
  "journal_ready pj \<longleftrightarrow> disk_ok pj \<and> 0 < pj_total pj \<and> pj_pendingxids pj = [] \<and>
     pj_distillxids pj = [] \<and> pj_inuse pj = 0 \<and> pj_resrv pj = 0 \<and> pj_nextwrite pj = 0 \<and>
     total_trans pj = 0 \<and> pj_distill_xid pj \<le> pj_lastxid pj"

definition jsys_start :: "psc_journal \<Rightarrow> jsys" where
  "jsys_start pj = \<lparr>j_pj = pj, j_opened = [], j_used = 0, j_ungranted = 0,
     j_dxid = pj_distill_xid pj, j_once = 0, j_log = []\<rparr>"

inductive jreach :: "psc_journal \<Rightarrow> jsys \<Rightarrow> bool" where
  start: "jreach pj (jsys_start pj)"
| step: "jreach pj s \<Longrightarrow> jstep s s' \<Longrightarrow> jreach pj s'"

text \<open>The calls replay makes for a list of entries, in order.\<close>

definition replay_call ::
  "(psc_journal_enthdr \<Rightarrow> 's \<Rightarrow> 's \<times> int) \<Rightarrow> (psc_journal_enthdr \<Rightarrow> 's \<Rightarrow> 's \<times> int) \<Rightarrow> psc_journal \<Rightarrow>
     psc_journal_enthdr \<Rightarrow> 's \<Rightarrow> 's" where
  "replay_call replay distill pj e st =
     (let st = (if pje_xid e > pj_distill_xid pj then fst (distill e st) else st)
      in if pje_txg e > pj_commit_txg pj then fst (replay e st) else st)"

text \<open>A journal of two formatted slots, a header for it, and a buffer: the data of the witnesses.\<close>

definition small_entry :: psc_journal_enthdr where
  "small_entry =
     (let e = \<lparr>pje_magic = PJE_MAGIC, pje_type = PJE_FORMAT, pje_len = 0, pje_xid = 0, pje_txg = 0,
               pje_chksum = 0, pje_data = []\<rparr>
      in e\<lparr>pje_chksum := the (pje_crc e)\<rparr>)"

definition small_hdr :: psc_journal_hdr where
  "small_hdr =
     (let h = \<lparr>pjh_magic = PJH_MAGIC, pjh_start_off = 0, pjh_entsz = 32, pjh_nents = 2,
               pjh_version = PJH_VERSION, pjh_readsize = 1, pjh_timestamp = 0, pjh_fsuuid = 0,
               pjh_chksum = 0\<rparr>
      in h\<lparr>pjh_chksum := psc_crc64_fini (psc_crc64_add psc_crc64_init (pjh_body h))\<rparr>)"

definition small_journal :: psc_journal where
  "small_journal = the (pjournal_open small_hdr 64 None [small_entry, small_entry])"

definition small_buf :: psc_journal_enthdr where
  "small_buf = \<lparr>pje_magic = PJE_MAGIC, pje_type = 0, pje_len = 0, pje_xid = 0, pje_txg = 0,
     pje_chksum = 0, pje_data = [1, 2, 3]\<rparr>"

text \<open>What the scan does with a valid entry.\<close>

definition scan_valid :: "psc_journal \<Rightarrow> nat \<Rightarrow> scan_state \<Rightarrow> scan_state" where
  "scan_valid pj slot sc =
     (let e = pj_slots pj ! slot
      in if sc_done sc then sc
         else if is_format e then sc\<lparr>sc_done := True\<rparr>
         else let sc = (if pje_xid e \<ge> sc_last_xid sc
                        then sc\<lparr>sc_last_xid := pje_xid e, sc_last_slot := Some slot\<rparr> else sc)
              in if pje_skip pj e then sc else sc\<lparr>sc_bufs := sc_bufs sc @ [pje_copy e]\<rparr>)"

subsection \<open>The scan\<close>

lemma scan_entry_valid:
  assumes "disk_ok pj" "slot < pj_total pj"
  shows "scan_entry pj slot (pj_slots pj ! slot) sc = Some (scan_valid pj slot sc)"
proof -
  have "entry_ok (pj_slots pj ! slot)" using assms by (simp add: disk_ok_def list_all_length)
  then show ?thesis
    by (auto simp: scan_entry_def scan_valid_def entry_ok_def is_format_def Let_def split: if_splits)
qed

lemma scan_chunk_valid:
  assumes "disk_ok pj" "\<forall>i \<in> set slots. i < pj_total pj"
  shows "scan_chunk pj slots sc = Some (fold (scan_valid pj) slots sc)"
  using assms(2)
proof (induction slots arbitrary: sc)
  case (Cons i slots)
  then show ?case using assms(1) by (simp add: scan_entry_valid rd_def disk_ok_def)
qed simp

lemma scan_valid_rc [simp]: "sc_rc (fold (scan_valid pj) slots sc) = sc_rc sc"
  by (induction slots arbitrary: sc) (auto simp: scan_valid_def Let_def)

lemma scan_valid_done [simp]: "sc_done sc \<Longrightarrow> fold (scan_valid pj) slots sc = sc"
  by (induction slots) (auto simp: scan_valid_def)

lemma scan_loop_valid:
  assumes "disk_ok pj" "0 < count" "count dvd pj_total pj" "count dvd slot" "slot \<le> pj_total pj"
    and "sc_rc sc = 0"
  shows "scan_loop pj count slot sc = Some (fold (scan_valid pj) [slot..<pj_total pj] sc)"
  using assms(4-6)
proof (induction "pj_total pj - slot" arbitrary: slot sc rule: less_induct)
  case less
  show ?case
  proof (cases "slot < pj_total pj \<and> \<not> sc_done sc")
    case False
    then have "fold (scan_valid pj) [slot..<pj_total pj] sc = sc" using less.prems(2) by auto
    then show ?thesis using False assms(2) by (auto simp: scan_loop.simps [of pj count slot])
  next
    case True
    have "count dvd pj_total pj - slot" using assms(3) less.prems(1) by (rule dvd_diff_nat)
    then have "count \<le> pj_total pj - slot" using True by (intro dvd_imp_le) auto
    then have le: "slot + count \<le> pj_total pj" using conjunct1 [OF True] by linarith
    let ?sc = "fold (scan_valid pj) [slot..<slot + count] sc"
    have rc: "sc\<lparr>sc_rc := 0\<rparr> = sc" using less.prems(3) by simp
    have "scan_loop pj count slot sc = scan_loop pj count (slot + count) ?sc"
      using True assms(2) le scan_chunk_valid [OF assms(1), of "[slot..<slot + count]" sc]
      by (simp add: scan_loop.simps [of pj count slot] rc)
    also have "\<dots> = Some (fold (scan_valid pj) [slot + count..<pj_total pj] ?sc)"
      using less.hyps [of "slot + count" ?sc] less.prems True assms(2) le by simp
    also have "\<dots> = Some (fold (scan_valid pj) [slot..<pj_total pj] sc)"
      using upt_add_eq_append [of slot "slot + count" "pj_total pj - (slot + count)"] le by simp
    finally show ?thesis .
  qed
qed

lemma scan_valid_bufs:
  "\<not> sc_done sc \<Longrightarrow> sc_bufs (fold (scan_valid pj) slots sc) = sc_bufs sc @
     map pje_copy (filter (\<lambda>e. \<not> pje_skip pj e)
       (takeWhile (\<lambda>e. \<not> is_format e) (map ((!) (pj_slots pj)) slots)))"
proof (induction slots arbitrary: sc)
  case (Cons i slots)
  show ?case
  proof (cases "is_format (pj_slots pj ! i)")
    case True
    then have "scan_valid pj i sc = sc\<lparr>sc_done := True\<rparr>" using Cons.prems by (simp add: scan_valid_def)
    then show ?thesis using True Cons.prems by simp
  next
    case False
    then have "\<not> sc_done (scan_valid pj i sc)" using Cons.prems by (simp add: scan_valid_def Let_def)
    then show ?thesis using False Cons.IH [of "scan_valid pj i sc"] Cons.prems
      by (simp add: scan_valid_def Let_def)
  qed
qed simp

lemma scan_valid_last:
  "\<not> sc_done sc \<Longrightarrow>
     e \<in> set (takeWhile (\<lambda>e. \<not> is_format e) (map ((!) (pj_slots pj)) slots)) \<or> pje_xid e \<le> sc_last_xid sc \<Longrightarrow>
     pje_xid e \<le> sc_last_xid (fold (scan_valid pj) slots sc)"
proof (induction slots arbitrary: sc)
  case (Cons i slots)
  show ?case
  proof (cases "is_format (pj_slots pj ! i)")
    case True
    then have "scan_valid pj i sc = sc\<lparr>sc_done := True\<rparr>" using Cons.prems by (simp add: scan_valid_def)
    then show ?thesis using True Cons.prems by simp
  next
    case False
    let ?sc = "scan_valid pj i sc"
    have "\<not> sc_done ?sc" using False Cons.prems by (simp add: scan_valid_def Let_def)
    moreover have "sc_last_xid ?sc = max (pje_xid (pj_slots pj ! i)) (sc_last_xid sc)"
      using False Cons.prems by (auto simp: scan_valid_def Let_def max_def)
    ultimately show ?thesis using False Cons.IH [of ?sc] Cons.prems by (auto simp: le_max_iff_disj)
  qed
qed simp

text \<open>The entries of transactions on the device: formatted slots are a final segment.\<close>

definition disk_entries :: "psc_journal \<Rightarrow> psc_journal_enthdr list" where
  "disk_entries pj = filter (\<lambda>e. \<not> is_format e) (pj_slots pj)"

lemma takeWhile_upclosed:
  assumes "\<And>i j. i \<le> j \<Longrightarrow> j < length xs \<Longrightarrow> P (xs ! i) \<Longrightarrow> P (xs ! j)"
  shows "takeWhile (\<lambda>x. \<not> P x) xs = filter (\<lambda>x. \<not> P x) xs"
  using assms
proof (induction xs)
  case (Cons x xs)
  have IH: "takeWhile (\<lambda>x. \<not> P x) xs = filter (\<lambda>x. \<not> P x) xs"
    using Cons.prems [of "Suc _" "Suc _"] by (intro Cons.IH) auto
  have "P y" if y: "P x" "y \<in> set xs" for y
  proof -
    obtain j where "j < length xs" "y = xs ! j" using y(2) by (auto simp: in_set_conv_nth)
    then show ?thesis using Cons.prems [of 0 "Suc j"] y(1) by simp
  qed
  then show ?case using IH by auto
qed simp

lemma disk_entries_takeWhile:
  assumes "disk_ok pj"
  shows "takeWhile (\<lambda>e. \<not> is_format e) (map ((!) (pj_slots pj)) [0..<pj_total pj]) = disk_entries pj"
proof -
  have "map ((!) (pj_slots pj)) [0..<pj_total pj] = pj_slots pj"
    using assms map_nth [of "pj_slots pj"] by (simp add: disk_ok_def)
  then show ?thesis unfolding disk_entries_def using assms takeWhile_upclosed [of "pj_slots pj" is_format]
    by (simp add: disk_ok_def)
qed

text \<open>The scan of a well-formed device succeeds and keeps exactly the entries not skipped.\<close>

lemma scan_slots_eq:
  assumes "disk_ok pj" "0 < pj_readsize pj" "pj_readsize pj dvd pj_total pj"
  obtains lx where "pjournal_scan_slots pj = Some (pj\<lparr>pj_lastxid := lx, pj_bufs :=
      sort_key (\<lambda>e. (pje_xid e, pje_txg e))
        (pj_bufs pj @ map pje_copy (filter (\<lambda>e. \<not> pje_skip pj e) (disk_entries pj)))\<rparr>, 0)"
    "pj_distill_xid pj \<le> lx" "\<And>e. e \<in> set (disk_entries pj) \<Longrightarrow> pje_xid e \<le> lx"
proof -
  define sc0 where "sc0 = \<lparr>sc_rc = 0, sc_last_xid = PJE_XID_NONE, sc_last_slot = None,
    sc_bufs = pj_bufs pj, sc_done = False\<rparr>"
  define sc where "sc = fold (scan_valid pj) [0..<pj_total pj] sc0"
  have l: "scan_loop pj (pj_readsize pj) 0 sc0 = Some sc"
    unfolding sc_def by (rule scan_loop_valid [OF assms]) (simp_all add: sc0_def)
  have b: "sc_bufs sc = pj_bufs pj @ map pje_copy (filter (\<lambda>e. \<not> pje_skip pj e) (disk_entries pj))" "sc_rc sc = 0"
    unfolding sc_def using scan_valid_bufs [of sc0 pj "[0..<pj_total pj]"] disk_entries_takeWhile [OF assms(1)]
    by (simp_all add: sc0_def)
  have m: "pje_xid e \<le> sc_last_xid sc" if "e \<in> set (disk_entries pj)" for e
    unfolding sc_def using scan_valid_last [of sc0 e pj "[0..<pj_total pj]"] that
      disk_entries_takeWhile [OF assms(1)] by (simp add: sc0_def)
  let ?lx = "if sc_last_xid sc < pj_distill_xid pj then pj_distill_xid pj else sc_last_xid sc"
  show thesis
  proof (rule that [of ?lx])
    show "pjournal_scan_slots pj = Some (pj\<lparr>pj_lastxid := ?lx, pj_bufs :=
      sort_key (\<lambda>e. (pje_xid e, pje_txg e))
        (pj_bufs pj @ map pje_copy (filter (\<lambda>e. \<not> pje_skip pj e) (disk_entries pj)))\<rparr>, 0)"
      unfolding pjournal_scan_slots_def using assms(2,3) l [unfolded sc0_def] b
      by (simp add: dvd_eq_mod_eq_0)
    show "pje_xid e \<le> ?lx" if "e \<in> set (disk_entries pj)" for e using m [OF that] by auto
  qed auto
qed

subsection \<open>The scan of a damaged device\<close>

text \<open>
  An entry whose magic number or checksum is wrong, what the scan does with an entry that is damaged or valid, the slot at which
  the scan stops (the first valid one that is formatted, if there is one), and the first slot of the last chunk that is read.
\<close>

definition damaged :: "psc_journal_enthdr \<Rightarrow> bool" where
  "damaged e \<longleftrightarrow> pje_magic e \<noteq> PJE_MAGIC \<or> (case pje_crc e of None \<Rightarrow> False | Some c \<Rightarrow> pje_chksum e \<noteq> c)"

definition scan_any :: "psc_journal \<Rightarrow> nat \<Rightarrow> scan_state \<Rightarrow> scan_state" where
  "scan_any pj slot sc =
     (if \<not> sc_done sc \<and> damaged (pj_slots pj ! slot) then sc\<lparr>sc_rc := -1\<rparr> else scan_valid pj slot sc)"

definition stop_slot :: "psc_journal \<Rightarrow> nat" where
  "stop_slot pj = length (takeWhile (\<lambda>e. damaged e \<or> \<not> is_format e) (pj_slots pj))"

definition last_chunk :: "psc_journal \<Rightarrow> nat" where
  "last_chunk pj =
     (let n = stop_slot pj in (if n < pj_total pj then n else n - 1) div pj_readsize pj * pj_readsize pj)"

definition device_ok :: "psc_journal \<Rightarrow> bool" where
  "device_ok pj \<longleftrightarrow> length (pj_slots pj) = pj_total pj \<and> 0 < pj_total pj \<and> 0 < pj_readsize pj \<and>
     pj_readsize pj dvd pj_total pj \<and> list_all (\<lambda>e. damaged e \<or> entry_ok e) (pj_slots pj)"

lemma scan_entry_any:
  assumes "device_ok pj" "slot < pj_total pj"
  shows "scan_entry pj slot (pj_slots pj ! slot) sc = Some (scan_any pj slot sc)"
proof (cases "damaged (pj_slots pj ! slot)")
  case True
  then show ?thesis by (auto simp: scan_entry_def scan_any_def scan_valid_def damaged_def split: option.splits)
next
  case False
  then have "entry_ok (pj_slots pj ! slot)" using assms by (auto simp: device_ok_def list_all_length)
  then show ?thesis using False
    by (auto simp: scan_entry_def scan_any_def scan_valid_def entry_ok_def is_format_def Let_def split: if_splits)
qed

lemma scan_chunk_any:
  assumes "device_ok pj" "\<forall>i \<in> set slots. i < pj_total pj"
  shows "scan_chunk pj slots sc = Some (fold (scan_any pj) slots sc)"
  using assms(2)
proof (induction slots arbitrary: sc)
  case (Cons i slots)
  then show ?case using assms(1) by (simp add: scan_entry_any rd_def) (simp add: device_ok_def)
qed simp

lemma scan_any_done: "sc_done sc \<Longrightarrow> fold (scan_any pj) slots sc = sc"
  by (induction slots) (auto simp: scan_any_def scan_valid_def)

lemma stop_slot_props:
  "stop_slot pj \<le> length (pj_slots pj)"
  "i < stop_slot pj \<Longrightarrow> damaged (pj_slots pj ! i) \<or> \<not> is_format (pj_slots pj ! i)"
  "stop_slot pj < length (pj_slots pj) \<Longrightarrow> \<not> damaged (pj_slots pj ! stop_slot pj) \<and> is_format (pj_slots pj ! stop_slot pj)"
  unfolding stop_slot_def using nth_length_takeWhile [of "\<lambda>e. damaged e \<or> \<not> is_format e" "pj_slots pj"]
  by (auto simp: length_takeWhile_le takeWhile_nth [symmetric] dest: set_takeWhileD [OF nth_mem])

lemma scan_any_fold:
  assumes "device_ok pj" "a \<le> stop_slot pj" "a \<le> b" "b \<le> pj_total pj" "\<not> sc_done sc"
    and "es = drop a (take (min (stop_slot pj) b) (pj_slots pj))" "sc' = fold (scan_any pj) [a..<b] sc"
  shows "sc_done sc' = (stop_slot pj < b)" "sc_rc sc' = (if list_ex damaged es then -1 else sc_rc sc)"
    "sc_bufs sc' = sc_bufs sc @ map pje_copy [e \<leftarrow> es. \<not> damaged e \<and> \<not> pje_skip pj e]"
proof -
  have "sc_done sc' = (stop_slot pj < b) \<and> sc_rc sc' = (if list_ex damaged es then -1 else sc_rc sc) \<and>
    sc_bufs sc' = sc_bufs sc @ map pje_copy [e \<leftarrow> es. \<not> damaged e \<and> \<not> pje_skip pj e]"
    using assms(2,3,5-7)
  proof (induction "b - a" arbitrary: a sc es)
    case 0
    then show ?case by simp
  next
    case (Suc k)
    let ?e = "pj_slots pj ! a" and ?n = "stop_slot pj"
    have ab: "a < b" "[a..<b] = a # [Suc a..<b]" "a < length (pj_slots pj)"
      using Suc.hyps(2) assms(1,4) by (simp_all add: upt_conv_Cons device_ok_def)
    show ?case
    proof (cases "a = ?n")
      case True
      then have "\<not> damaged ?e" "is_format ?e" using stop_slot_props(3) [of pj] ab(3) by simp_all
      then have "scan_any pj a sc = sc\<lparr>sc_done := True\<rparr>" using Suc.prems(3) by (simp add: scan_any_def scan_valid_def Let_def)
      then show ?thesis using Suc.prems(4,5) ab(1,2) True by (simp add: scan_any_done)
    next
      case False
      then have a: "a < ?n" "damaged ?e \<or> \<not> is_format ?e" using Suc.prems(1) stop_slot_props(2) by simp_all
      let ?sc = "scan_any pj a sc" and ?es = "drop (Suc a) (take (min ?n b) (pj_slots pj))"
      have es: "es = ?e # ?es" unfolding Suc.prems(4)
        using a(1) ab(1,3) Cons_nth_drop_Suc [of a "take (min ?n b) (pj_slots pj)"] by simp
      have sc: "\<not> sc_done ?sc" "sc_rc ?sc = (if damaged ?e then -1 else sc_rc sc)"
        "sc_bufs ?sc = sc_bufs sc @ map pje_copy [e \<leftarrow> [?e]. \<not> damaged e \<and> \<not> pje_skip pj e]"
        using a(2) Suc.prems(3) by (auto simp: scan_any_def scan_valid_def Let_def)
      show ?thesis using Suc.hyps(1) [of "Suc a" ?sc ?es] Suc.hyps(2) Suc.prems(5) a(1) ab sc by (simp add: es)
    qed
  qed
  then show "sc_done sc' = (stop_slot pj < b)" "sc_rc sc' = (if list_ex damaged es then -1 else sc_rc sc)"
    "sc_bufs sc' = sc_bufs sc @ map pje_copy [e \<leftarrow> es. \<not> damaged e \<and> \<not> pje_skip pj e]" by simp_all
qed

lemma take_split: "a \<le> b \<Longrightarrow> b \<le> n \<Longrightarrow> n \<le> length xs \<Longrightarrow> drop a (take n xs) = drop a (take b xs) @ drop b (take n xs)"
proof -
  assume h: "a \<le> b" "b \<le> n" "n \<le> length xs"
  have "take n xs = take b (take n xs) @ drop b (take n xs)" by (simp only: append_take_drop_id)
  also have "take b (take n xs) = take b xs" using h by (simp add: min_def)
  finally have "drop a (take n xs) = drop a (take b xs @ drop b (take n xs))" by simp
  then show ?thesis using h by simp
qed

lemma scan_loop_any:
  assumes "device_ok pj" "count = pj_readsize pj" "slot < pj_total pj" "count dvd slot" "slot \<le> stop_slot pj" "\<not> sc_done sc"
  shows "\<exists>r. scan_loop pj count slot sc = Some r \<and>
    sc_rc r = (if list_ex damaged (drop (last_chunk pj) (take (stop_slot pj) (pj_slots pj))) then -1 else 0) \<and>
    sc_bufs r = sc_bufs sc @ map pje_copy [e \<leftarrow> drop slot (take (stop_slot pj) (pj_slots pj)). \<not> damaged e \<and> \<not> pje_skip pj e]"
  using assms(3-6)
proof (induction "pj_total pj - slot" arbitrary: slot sc rule: less_induct)
  case less
  let ?n = "stop_slot pj" and ?b = "slot + count" and ?keep = "\<lambda>e. \<not> damaged e \<and> \<not> pje_skip pj e"
  have d: "length (pj_slots pj) = pj_total pj" "0 < count" "count dvd pj_total pj" using assms(1,2) by (simp_all add: device_ok_def)
  have n: "?n \<le> pj_total pj" using stop_slot_props(1) [of pj] d(1) by simp
  have "count dvd pj_total pj - slot" using d(3) less.prems(2) by (rule dvd_diff_nat)
  then have "count \<le> pj_total pj - slot" using less.prems(1) by (intro dvd_imp_le) simp_all
  then have b: "?b \<le> pj_total pj" using less.prems(1) by linarith
  define r where "r = fold (scan_any pj) [slot..<?b] (sc\<lparr>sc_rc := 0\<rparr>)"
  define es where "es = drop slot (take (min ?n ?b) (pj_slots pj))"
  have f: "sc_done r = (?n < ?b)" "sc_rc r = (if list_ex damaged es then -1 else 0)"
    "sc_bufs r = sc_bufs sc @ map pje_copy [e \<leftarrow> es. ?keep e]"
    using scan_any_fold [OF assms(1) less.prems(3) le_add1 b _ es_def r_def] less.prems(4) by simp_all
  have step: "scan_loop pj count slot sc = scan_loop pj count ?b r"
    using less.prems(1,4) d(2) b scan_chunk_any [OF assms(1), of "[slot..<?b]" "sc\<lparr>sc_rc := 0\<rparr>"]
    by (simp add: scan_loop.simps [of pj count slot] r_def)
  obtain q where q: "slot = q * count" using less.prems(2) by (metis dvd_def mult.commute)
  show ?case
  proof (cases "?b \<le> ?n \<and> ?b < pj_total pj")
    case True
    have "\<exists>u. scan_loop pj count ?b r = Some u \<and>
      sc_rc u = (if list_ex damaged (drop (last_chunk pj) (take ?n (pj_slots pj))) then -1 else 0) \<and>
      sc_bufs u = sc_bufs r @ map pje_copy [e \<leftarrow> drop ?b (take ?n (pj_slots pj)). ?keep e]"
      by (rule less.hyps) (use True d(2) less.prems(1,2) f(1) in auto)
    moreover have "drop slot (take ?n (pj_slots pj)) = es @ drop ?b (take ?n (pj_slots pj))"
      unfolding es_def using take_split [of slot ?b ?n "pj_slots pj"] True n d(1) by (simp add: min_def)
    ultimately show ?thesis unfolding step using f(3) by (auto simp: filter_append)
  next
    case False
    have "scan_loop pj count ?b r = Some r" using False f(1) d(2) by (auto simp: scan_loop.simps [of pj count ?b])
    moreover have m: "min ?n ?b = ?n" using False n b by (auto simp: min_def)
    moreover have "last_chunk pj = slot"
    proof -
      let ?m = "if ?n < pj_total pj then ?n else ?n - 1"
      have "q * count \<le> ?m" "?m < q * count + count" using False n b less.prems(1,3) q by auto
      then have "?m div count = q" using d(2) by (intro div_nat_eqI) (simp_all add: mult.commute)
      then show ?thesis using q assms(2) by (simp add: last_chunk_def Let_def)
    qed
    ultimately show ?thesis unfolding step using f(2,3) by (simp add: es_def)
  qed
qed

subsection \<open>Runs\<close>

lemma ready_inv:
  assumes "journal_ready pj"
  shows "jsys_inv (jsys_start pj)"
  using assms by (simp add: jsys_inv_def jsys_start_def journal_ready_def ring_inv_def disk_inv_def
      hndl_inv_def resrv_inv_def live_def disk_ok_def log_inv_def)

lemma jreach_inv: "jreach pj s \<Longrightarrow> journal_ready pj \<Longrightarrow> jsys_inv s"
  by (induction rule: jreach.induct) (auto intro: ready_inv jstep_inv)

lemma jsys_inv_disk_ok: "jsys_inv s \<Longrightarrow> disk_ok (j_pj s)"
  by (auto simp: jsys_inv_def disk_ok_def disk_inv_def ring_inv_def)

text \<open>Every pending transaction has its entry in the slot its handle names.\<close>

lemma pending_logged:
  assumes "jsys_inv s" "a \<in> set (pj_pendingxids (j_pj s))"
  obtains k where "k < pj_inuse (j_pj s)" "pj_pendingxids (j_pj s) ! k = a"
    "pjx_slot (pj_handles (j_pj s) a) = Some (ring_slot (j_pj s) k)"
    "logged (pj_handles (j_pj s) a) (pj_slots (j_pj s) ! ring_slot (j_pj s) k)"
    "ring_slot (j_pj s) k < pj_total (j_pj s)"
proof -
  note inv = jsys_invD [OF assms(1)]
  obtain k where "k < pj_inuse (j_pj s)" "pj_pendingxids (j_pj s) ! k = a"
    using assms(2) inv(1) by (auto simp: in_set_conv_nth ring_inv_def)
  then show thesis
    using that inv(1,2) ring_slot_less [of "j_pj s"] by (auto simp: ring_inv_def disk_inv_def)
qed

subsection \<open>Replay\<close>

lemma replay_loop_eq:
  "\<exists>x nerrs'. replay_loop replay distill pj st nerrs es =
     (pj\<lparr>pj_replay_xid := x\<rparr>, fold (replay_call replay distill pj) es st, nerrs')"
proof (induction es arbitrary: pj st nerrs)
  case Nil
  show ?case by (intro exI [of _ "pj_replay_xid pj"] exI [of _ nerrs]) simp
next
  case (Cons e es)
  have call: "replay_call replay distill (pj\<lparr>pj_replay_xid := x\<rparr>) = replay_call replay distill pj" for x
    by (simp add: fun_eq_iff replay_call_def)
  have "\<exists>n. replay_loop replay distill pj st nerrs (e # es) =
      replay_loop replay distill (pj\<lparr>pj_replay_xid := pje_xid e\<rparr>) (replay_call replay distill pj e st) n es"
    by (cases "pje_xid e > pj_distill_xid pj"; cases "pje_txg e > pj_commit_txg pj")
      (auto simp: replay_call_def Let_def split_def)
  then obtain n where "replay_loop replay distill pj st nerrs (e # es) =
      replay_loop replay distill (pj\<lparr>pj_replay_xid := pje_xid e\<rparr>) (replay_call replay distill pj e st) n es" ..
  with Cons.IH [of "pj\<lparr>pj_replay_xid := pje_xid e\<rparr>" "replay_call replay distill pj e st" n]
  show ?case by (simp add: call)
qed

lemma replay_eq:
  assumes "disk_ok pj" "0 < pj_readsize pj" "pj_readsize pj dvd pj_total pj" "pj_bufs pj = []"
    and es: "es = sort_key (\<lambda>e. (pje_xid e, pje_txg e)) (map pje_copy (filter (\<lambda>e. \<not> pje_skip pj e) (disk_entries pj)))"
  obtains pj' nerrs where
    "pjournal_replay replay distill pj st = Some (pj', fold (replay_call replay distill pj) es st, nerrs)"
    "pj_slots pj' = pj_slots pj" "pj_total pj' = pj_total pj" "pj_pendingxids pj' = pj_pendingxids pj"
    "pj_distillxids pj' = pj_distillxids pj" "pj_inuse pj' = pj_inuse pj" "pj_resrv pj' = pj_resrv pj"
    "pj_nextwrite pj' = 0" "total_trans pj' = total_trans pj" "pj_distill_xid pj' \<le> pj_lastxid pj'"
    "pj_distill_xid pj' = pj_distill_xid pj" "\<And>e. e \<in> set (disk_entries pj) \<Longrightarrow> pje_xid e \<le> pj_lastxid pj'"
    "pj_bufs pj' = replicate PJ_MAX_BUF (blank_buf pj')"
proof -
  define pj1 where "pj1 = pj\<lparr>pj_flags := pj_flags pj OR PJF_REPLAYINPROG\<rparr>"
  have same: "disk_entries pj1 = disk_entries pj" "pje_skip pj1 = pje_skip pj"
    by (simp_all add: pj1_def disk_entries_def pje_skip_def fun_eq_iff)
  have dk: "disk_ok pj1" "0 < pj_readsize pj1" "pj_readsize pj1 dvd pj_total pj1"
    using assms(1-3) by (simp_all add: pj1_def disk_ok_def)
  have b: "pj_bufs pj1 = []" "pj_distill_xid pj1 = pj_distill_xid pj" by (simp_all add: pj1_def assms(4))
  obtain lx where "pjournal_scan_slots pj1 = Some (pj1\<lparr>pj_lastxid := lx, pj_bufs :=
        sort_key (\<lambda>e. (pje_xid e, pje_txg e))
          (pj_bufs pj1 @ map pje_copy (filter (\<lambda>e. \<not> pje_skip pj1 e) (disk_entries pj1)))\<rparr>, 0)"
    "pj_distill_xid pj1 \<le> lx" "\<And>e. e \<in> set (disk_entries pj1) \<Longrightarrow> pje_xid e \<le> lx"
    by (rule scan_slots_eq [OF dk]) blast
  note sc = this [unfolded same b append_Nil, folded es]
  define pj2 where "pj2 = pj1\<lparr>pj_lastxid := lx, pj_bufs := es\<rparr>"
  have call: "replay_call replay distill pj2 = replay_call replay distill pj"
    by (simp add: fun_eq_iff replay_call_def pj2_def pj1_def)
  obtain x n where r: "replay_loop replay distill pj2 st 0 es =
      (pj2\<lparr>pj_replay_xid := x\<rparr>, fold (replay_call replay distill pj) es st, n)"
    using replay_loop_eq [of replay distill pj2 st 0 es] unfolding call by blast
  have "pj_bufs pj2 = es" by (simp add: pj2_def)
  then have "pjournal_replay replay distill pj st =
      Some ((pj2\<lparr>pj_replay_xid := x, pj_nextwrite := 0, pj_wraparound := 0,
              pj_bufs := replicate PJ_MAX_BUF (blank_buf (pj2\<lparr>pj_replay_xid := x\<rparr>)),
              pj_flags := pj_flags pj2 AND NOT PJF_REPLAYINPROG\<rparr>),
            fold (replay_call replay distill pj) es st, n)"
    unfolding pjournal_replay_def pj1_def [symmetric]
    by (simp add: sc(1) pj2_def [symmetric] r Let_def)
  then show thesis
    by (rule that) (simp_all add: pj2_def pj1_def sc(2,3) blank_buf_def)
qed

subsection \<open>Reservations\<close>

lemma reserve_turn_releases:
  assumes "ring_inv pj" "hndl_inv pj opened dxid" "\<not> pj_resrv pj + pj_inuse pj < pj_total pj"
    and "pj_pendingxids pj = a # as" "pjx_txg (pj_handles pj a) \<le> synced" "\<not> is_distill (pj_handles pj a)"
  shows "reserve_turn synced pj = Some (pop_pending (pj\<lparr>pj_commit_txg := synced\<rparr>), False, False)"
proof -
  have "pjx_slot (pj_handles pj a) = Some (ring_slot pj 0)" "ring_slot pj 0 < pj_total pj"
    using assms(1,4) by (auto simp: ring_inv_def ring_slot_def)
  then show ?thesis
    using assms(1-4,6) leD [OF assms(5)] xdestroy_pop [of "pj\<lparr>pj_commit_txg := synced\<rparr>" opened dxid a as]
    by (simp add: reserve_turn_def is_distill_def pop_pending_def Let_def)
qed

lemma reserve_loop_returns:
  assumes "ring_inv pj" "disk_inv pj" "hndl_inv pj opened dxid" "resrv_inv pj opened used ung"
    and "count \<le> ung" "pj_resrv pj + count \<le> pj_total pj"
    and "\<And>i a. a \<in> set (pj_pendingxids pj) \<Longrightarrow> pjx_txg (pj_handles pj a) \<le> synced i"
    and "\<And>a. a \<in> set (pj_pendingxids pj) \<Longrightarrow> \<not> is_distill (pj_handles pj a)"
  shows "\<exists>pj'. reserve_loop (\<lambda>_. id) synced i pj count n = Some (pj', n) \<and>
    pj_resrv pj' = pj_resrv pj + count"
  using assms
proof (induction "count + length (pj_pendingxids pj)" arbitrary: pj count i ung rule: less_induct)
  case less
  note inv = less.prems(1-4) and pend = less.prems(7,8)
  note unf = reserve_loop.simps [of _ synced i pj count n]
  show ?case
  proof (cases "count = 0")
    case True
    then show ?thesis unfolding unf by (intro exI [of _ pj]) simp
  next
    case False
    show ?thesis
    proof (cases "pj_resrv pj + pj_inuse pj < pj_total pj")
      case True
      let ?pj = "pj\<lparr>pj_resrv := pj_resrv pj + 1\<rparr>"
      have t: "reserve_turn (synced i) pj = Some (?pj, True, False)" using True by (simp add: reserve_turn_def)
      have "resrv_inv ?pj opened used (ung - 1)"
        using inv(4) True False less.prems(5) by (auto simp: resrv_inv_def)
      then have "\<exists>pj'. reserve_loop (\<lambda>_. id) synced (i + 1) ?pj (count - 1) n = Some (pj', n) \<and>
          pj_resrv pj' = pj_resrv ?pj + (count - 1)"
        using inv pend less.prems(5,6) False by (intro less.hyps [of _ _ "ung - 1"]) auto
      then show ?thesis using False t by (auto simp: unf)
    next
      case full: False
      then obtain a as where as: "pj_pendingxids pj = a # as"
        using False inv(1) less.prems(6) by (cases "pj_pendingxids pj") (auto simp: ring_inv_def)
      let ?pj = "pop_pending (pj\<lparr>pj_commit_txg := synced i\<rparr>)"
      have a: "pjx_txg (pj_handles pj a) \<le> synced i" "\<not> is_distill (pj_handles pj a)"
        using pend as by auto
      have t: "reserve_turn (synced i) pj = Some (?pj, False, False)"
        by (rule reserve_turn_releases [OF inv(1,3) full as a])
      have "\<exists>pj'. reserve_loop (\<lambda>_. id) synced (i + 1) ?pj count n = Some (pj', n) \<and>
          pj_resrv pj' = pj_resrv ?pj + count"
      proof (rule less.hyps [of _ _ ung])
        show "ring_inv ?pj" "disk_inv ?pj" "hndl_inv ?pj opened dxid" "resrv_inv ?pj opened used ung"
          by (rule pop_pending_inv [of _ opened dxid used ung a as]; use inv as a in simp)+
      qed (use as pend less.prems(5,6) in \<open>auto simp: pop_pending_def\<close>)
      then show ?thesis using False t by (auto simp: unf pop_pending_def)
    qed
  qed
qed

subsection \<open>A small run\<close>

lemma small_open: "pjournal_open small_hdr 64 None [small_entry, small_entry] = Some small_journal"
  by (simp add: small_journal_def pjournal_open_def small_hdr_def Let_def pjh_body_def)

lemmas small_defs = small_journal_def pjournal_open_def small_hdr_def Let_def pjh_body_def

lemma small_entry_ok: "entry_ok small_entry" "is_format small_entry"
  by (simp_all add: small_entry_def entry_ok_def is_format_def pje_crc_def Let_def pje_head_def type_flags)

lemma small_disk: "disk_ok small_journal"
  using small_entry_ok by (auto simp: disk_ok_def small_defs dest!: less_2_cases)

lemma small_ready: "journal_ready small_journal"
  using small_disk unfolding journal_ready_def by (simp add: small_defs)

lemma small_run_open:
  obtains s where "jreach small_journal s" "j_opened s = [0]" "pj_pendingxids (j_pj s) = []"
    "pj_resrv (j_pj s) = 2" "j_used s = 0" "pj_lastxid (j_pj s) = 1" "pj_total (j_pj s) = 2"
    "pj_nexthndl (j_pj s) = 1" "pj_flags (j_pj s) = PJF_ISBLKDEV" "is_distill (pj_handles (j_pj s) 0) = d"
    "xid_of (j_pj s) 0 = 1" "pj_distillxids (j_pj s) = (if d then [0] else [])" "pj_commit_txg (j_pj s) = 0"
proof -
  define s1 where "s1 = (jsys_start small_journal)\<lparr>j_pj := small_journal\<lparr>total_reserve := 2\<rparr>, j_ungranted := 2\<rparr>"
  have "jstep (jsys_start small_journal) s1"
    using jstep.ask [of "jsys_start small_journal" 2]
    by (simp add: s1_def jsys_start_def small_defs numeral_2_eq_2)
  then have r1: "jreach small_journal s1" by (rule jreach.step [OF jreach.start])
  define s2 where "s2 = s1\<lparr>j_pj := (j_pj s1)\<lparr>pj_resrv := 1\<rparr>, j_ungranted := 1\<rparr>"
  have "jstep s1 s2" using jstep.turn [of s1 0 "(j_pj s1)\<lparr>pj_resrv := 1\<rparr>" True False]
    by (simp add: s2_def s1_def reserve_turn_def small_defs)
  then have r2: "jreach small_journal s2" by (rule jreach.step [OF r1])
  define s3 where "s3 = s2\<lparr>j_pj := (j_pj s2)\<lparr>pj_resrv := 2\<rparr>, j_ungranted := 0\<rparr>"
  have "jstep s2 s3" using jstep.turn [of s2 0 "(j_pj s2)\<lparr>pj_resrv := 2\<rparr>" True False]
    by (simp add: s3_def s2_def s1_def reserve_turn_def small_defs)
  then have r3: "jreach small_journal s3" by (rule jreach.step [OF r2])
  have f: "pj_lastxid (j_pj s3) = 0" "total_trans (j_pj s3) = 0" "total_reserve (j_pj s3) = 2"
    "pj_nexthndl (j_pj s3) = 0" "j_opened s3 = []" "j_used s3 = 0" "pj_resrv (j_pj s3) = 2"
    "pj_pendingxids (j_pj s3) = []" "pj_total (j_pj s3) = 2" "pj_flags (j_pj s3) = PJF_ISBLKDEV"
    "pj_commit_txg (j_pj s3) = 0" "pj_distillxids (j_pj s3) = []"
    by (simp_all add: s3_def s2_def s1_def jsys_start_def small_defs)
  note x = xnew_eq [of "j_pj s3" d 0, unfolded f, simplified]
  have "jstep s3 (s3\<lparr>j_pj := fst (the (pjournal_xnew (j_pj s3) d 0)), j_opened := [0]\<rparr>)"
    using jstep.begin_trans [of s3 d 0 _ 0] x f by simp
  then have r4: "jreach small_journal (s3\<lparr>j_pj := fst (the (pjournal_xnew (j_pj s3) d 0)), j_opened := [0]\<rparr>)"
    by (rule jreach.step [OF r3])
  show thesis
    by (rule that [OF r4]) (simp_all add: x f xid_of_def)
qed

text \<open>A run with one transaction written and pending, to be distilled or not, one open.\<close>

lemma small_run_any:
  obtains s where "jreach small_journal s" "j_opened s = [1]" "pj_pendingxids (j_pj s) = [0]"
    "pj_total (j_pj s) = 2" "xid_of (j_pj s) 0 = 1" "is_distill (pj_handles (j_pj s) 0) = d"
    "pj_distillxids (j_pj s) = (if d then [0] else [])" "pj_commit_txg (j_pj s) = 0"
    "pj_resrv (j_pj s) = 2" "j_used s = 1" "pj_flags (j_pj s) = PJF_ISBLKDEV"
proof (rule small_run_open [of d])
  fix s assume r: "jreach small_journal s" and f: "j_opened s = [0]" "pj_pendingxids (j_pj s) = []"
    "pj_resrv (j_pj s) = 2" "j_used s = 0" "pj_lastxid (j_pj s) = 1" "pj_total (j_pj s) = 2"
    "pj_nexthndl (j_pj s) = 1" "is_distill (pj_handles (j_pj s) 0) = d" "xid_of (j_pj s) 0 = 1"
    "pj_distillxids (j_pj s) = (if d then [0] else [])" "pj_commit_txg (j_pj s) = 0" "pj_flags (j_pj s) = PJF_ISBLKDEV"
  note inv = jsys_invD [OF jreach_inv [OF r small_ready]]
  have room: "pj_inuse (j_pj s) < pj_total (j_pj s)" "0 < pj_resrv (j_pj s)"
    using room_for_opened [OF inv(4), of 0] f by auto
  have op: "open_ok (pj_handles (j_pj s) 0)" using inv(3) f by (simp add: hndl_inv_def)
  have buf: "pje_magic small_buf = PJE_MAGIC" "3 \<le> length (pje_data small_buf)" "(3 :: nat) < 2 ^ 16"
    by (simp_all add: small_buf_def)
  define e where "e = log_entry (pj_handles (j_pj s) 0) (0 OR PJE_NORMAL) small_buf 3"
  define pj where "pj = upd_handle 0 (write_handle (pj_nextwrite (j_pj s)) e)
    ((push_pending (j_pj s) 0)\<lparr>pj_slots := (pj_slots (j_pj s))[pj_nextwrite (j_pj s) := e]\<rparr>)"
  define s5 where "s5 = s\<lparr>j_pj := pj, j_opened := [], j_used := 1\<rparr>"
  have "jstep s s5"
    using jstep.write_trans [of 0 s small_buf 3 0 pj] buf f logwrite_eq [OF inv(1) room op buf(2,3) e_def refl]
    by (simp add: s5_def pj_def)
  then have r5: "jreach small_journal s5" by (rule jreach.step [OF r])
  have g: "pj_lastxid (j_pj s5) = 1" "pj_nexthndl (j_pj s5) = 1" "pj_resrv (j_pj s5) = 2"
    "pj_pendingxids (j_pj s5) = [0]" "pj_total (j_pj s5) = 2" "xid_of (j_pj s5) 0 = 1"
    "is_distill (pj_handles (j_pj s5) 0) = d" "j_opened s5 = []" "j_used s5 = 1"
    "pj_distillxids (j_pj s5) = (if d then [0] else [])" "pj_commit_txg (j_pj s5) = 0" "pj_flags (j_pj s5) = PJF_ISBLKDEV"
    using f by (simp_all add: s5_def pj_def push_pending_def xid_of_def)
  note inv5 = jsys_invD [OF jreach_inv [OF r5 small_ready]]
  have "total_trans (j_pj s5) < total_reserve (j_pj s5)" using inv5(4) g by (auto simp: resrv_inv_def)
  note x = xnew_eq [OF _ this, of False 0, unfolded g, simplified]
  have "jstep s5 (s5\<lparr>j_pj := fst (the (pjournal_xnew (j_pj s5) False 0)), j_opened := [1]\<rparr>)"
    using jstep.begin_trans [of s5 False 0 _ 1] x g by simp
  note r6 = jreach.step [OF r5 this]
  show thesis by (rule that [OF r6]) (use g in \<open>simp_all add: x xid_of_def\<close>)
qed

lemma small_run:
  obtains s where "jreach small_journal s" "j_opened s = [1]" "pj_pendingxids (j_pj s) = [0]"
    "pj_total (j_pj s) = 2" "xid_of (j_pj s) 0 = 1" "is_distill (pj_handles (j_pj s) 0)"
    "pj_distillxids (j_pj s) = [0]" "pj_commit_txg (j_pj s) = 0"
  by (rule small_run_any [of True]) (rule that, simp_all)

lemma small_written:
  assumes "jreach small_journal s" "pj_pendingxids (j_pj s) = [0]" "is_distill (pj_handles (j_pj s) 0)"
  shows "is_written (pj_handles (j_pj s) 0)"
  using jsys_invD(3) [OF jreach_inv [OF assms(1) small_ready]] assms(2,3)
  by (simp add: hndl_inv_def pend_ok_def)

lemma small_distilled:
  obtains s s' where "jreach small_journal s" "jstep s s'" "pj_distillxids (j_pj s) = [0]" "pj_distillxids (j_pj s') = []"
proof (rule small_run)
  fix s assume s: "jreach small_journal s" "pj_pendingxids (j_pj s) = [0]"
    "is_distill (pj_handles (j_pj s) 0)" "pj_distillxids (j_pj s) = [0]" "pj_commit_txg (j_pj s) = 0"
  note inv = jsys_invD(1-4) [OF jreach_inv [OF s(1) small_ready]]
  show thesis
  proof (rule thr_turn_inv [OF inv, of 7 "j_once s"])
    fix pj xid once es
    assume t: "pjournal_thr_turn 7 (j_pj s) (j_dxid s) (j_once s) = (es, Some (pj, xid, once))"
      and d: "pj_distillxids pj = dropWhile (\<lambda>a. is_written (pj_handles (j_pj s) a)) (pj_distillxids (j_pj s))"
    show thesis by (rule that [OF s(1) jstep.distill [OF t] s(4)]) (use d s(4) small_written [OF s(1-3)] in simp)
  qed (use s(5) in simp)
qed

subsection \<open>Properties\<close>

text \<open>
  C3. No entry of a pending transaction is ever overwritten. In every state the journal reaches,
  writing an open transaction succeeds (no assertion fails), and the slot it takes is not the slot
  of any transaction that is still pending; the entries of those stay on the device as they were.
\<close>

theorem journal_write_safe:
  assumes "journal_ready pj0" "jreach pj0 s" "xh \<in> set (j_opened s)"
    and "pje_magic pje = PJE_MAGIC" "sz \<le> length (pje_data pje)" "sz < 2 ^ 16" "type AND PJE_FORMAT = 0"
  shows "\<exists>pj slot. pjournal_logwrite (j_pj s) xh (type OR PJE_NORMAL) pje sz = Some (pj, slot) \<and>
    (\<forall>a \<in> set (pj_pendingxids (j_pj s)). \<exists>i < pj_total (j_pj s).
       pjx_slot (pj_handles (j_pj s) a) = Some i \<and> i \<noteq> slot \<and>
       pj_slots pj ! i = pj_slots (j_pj s) ! i \<and> logged (pj_handles (j_pj s) a) (pj_slots pj ! i))"
proof -
  note inv = jreach_inv [OF assms(2,1)]
  note invs = jsys_invD [OF inv]
  from logwrite_inv [OF invs(1-4) assms(3-7)] obtain pj where
    w: "pjournal_logwrite (j_pj s) xh (type OR PJE_NORMAL) pje sz = Some (pj, pj_nextwrite (j_pj s))"
      "pj_slots pj = (pj_slots (j_pj s))[pj_nextwrite (j_pj s) :=
         log_entry (pj_handles (j_pj s) xh) (type OR PJE_NORMAL) pje sz]" by blast
  have "\<exists>i < pj_total (j_pj s). pjx_slot (pj_handles (j_pj s) a) = Some i \<and> i \<noteq> pj_nextwrite (j_pj s) \<and>
      pj_slots pj ! i = pj_slots (j_pj s) ! i \<and> logged (pj_handles (j_pj s) a) (pj_slots pj ! i)"
    if a: "a \<in> set (pj_pendingxids (j_pj s))" for a
  proof (rule pending_logged [OF inv a])
    fix k assume k: "k < pj_inuse (j_pj s)"
      "pjx_slot (pj_handles (j_pj s) a) = Some (ring_slot (j_pj s) k)"
      "logged (pj_handles (j_pj s) a) (pj_slots (j_pj s) ! ring_slot (j_pj s) k)"
      "ring_slot (j_pj s) k < pj_total (j_pj s)"
    have "ring_slot (j_pj s) k \<noteq> pj_nextwrite (j_pj s)"
      using ring_slot_neq_next room_for_opened(1) [OF invs(4) assms(3)] invs(1) k(1)
      by (auto simp: ring_inv_def)
    then show ?thesis using k(2-4) by (intro exI [of _ "ring_slot (j_pj s) k"]) (simp add: w(2))
  qed
  then show ?thesis using w(1) by blast
qed

theorem journal_write_safe_witness:
  "\<exists>s pj slot i. jreach small_journal s \<and> pj_pendingxids (j_pj s) = [0] \<and>
     pjournal_logwrite (j_pj s) 1 (0 OR PJE_NORMAL) small_buf 3 = Some (pj, slot) \<and>
     pjx_slot (pj_handles (j_pj s) 0) = Some i \<and> i \<noteq> slot \<and> logged (pj_handles (j_pj s) 0) (pj_slots pj ! i)"
proof (rule small_run)
  fix s assume s: "jreach small_journal s" "j_opened s = [1]" "pj_pendingxids (j_pj s) = [0]"
  from journal_write_safe [OF small_ready s(1), of 1 small_buf 3 0] s(2,3)
  show ?thesis using s(1) by (auto simp: small_buf_def)
qed

text \<open>
  C21. The distill callback sees every transaction of the distill list once and in the strict order of the
  identifiers. In every state the journal reaches, the entries handed over so far and those that the next turn of the
  thread hands over are in this order, whether or not the turn then fails an assertion. A transaction that
  is still on the list is newer than all entries handed over so far. And a transaction that is on the list at some time is in
  every later state still on it or has been handed over.
\<close>

theorem journal_distill_order:
  assumes "journal_ready pj0" "jreach pj0 s" "jstep\<^sup>*\<^sup>* s s'"
  shows "sorted_wrt (<) (map pje_xid (j_log s' @ fst (pjournal_thr_turn synced (j_pj s') (j_dxid s') (j_once s')))) \<and>
    (\<forall>a \<in> set (pj_distillxids (j_pj s')). \<forall>e \<in> set (j_log s'). pje_xid e < xid_of (j_pj s') a) \<and>
    (\<forall>a \<in> set (pj_distillxids (j_pj s)). (a \<in> set (pj_distillxids (j_pj s')) \<and> xid_of (j_pj s') a = xid_of (j_pj s) a) \<or>
      xid_of (j_pj s) a \<in> pje_xid ` set (j_log s'))"
proof (intro conjI)
  have r: "jreach pj0 s'" using assms(3,2) by (induction rule: rtranclp_induct) (auto intro: jreach.step)
  note inv = jsys_invD [OF jreach_inv [OF r assms(1)]]
  obtain pj1 dxid' es where "distill_loop (j_pj s') (j_dxid s') = (es, Some (pj1, dxid'))" "log_inv (j_log s' @ es) dxid'"
    using distill_loop_inv [OF inv(1-4)] inv(5) by blast
  then show "sorted_wrt (<) (map pje_xid (j_log s' @ fst (pjournal_thr_turn synced (j_pj s') (j_dxid s') (j_once s'))))"
    by (simp add: pjournal_thr_turn_def log_inv_def)
  show "\<forall>a \<in> set (pj_distillxids (j_pj s')). \<forall>e \<in> set (j_log s'). pje_xid e < xid_of (j_pj s') a"
    using inv(3,5) by (auto simp: hndl_inv_def log_inv_def intro: order.strict_trans1)
  have "to_distill a x s'" if "to_distill a x s" for a x
    using assms(3,2) that
  proof (induction rule: converse_rtranclp_induct)
    case (step u v)
    then show ?case using jstep_to_distill [OF step(1) jreach_inv [OF step(4) assms(1)]] jreach.step [OF step(4,1)] by blast
  qed simp
  then show "\<forall>a \<in> set (pj_distillxids (j_pj s)). (a \<in> set (pj_distillxids (j_pj s')) \<and> xid_of (j_pj s') a = xid_of (j_pj s) a) \<or>
      xid_of (j_pj s) a \<in> pje_xid ` set (j_log s')"
    by (simp add: to_distill_def)
qed

text \<open>A transaction on the list, which the next turn hands over.\<close>

theorem journal_distill_order_witness:
  "\<exists>s s'. jreach small_journal s \<and> jstep\<^sup>*\<^sup>* s s' \<and> 0 \<in> set (pj_distillxids (j_pj s)) \<and> 0 \<notin> set (pj_distillxids (j_pj s')) \<and>
    xid_of (j_pj s) 0 \<in> pje_xid ` set (j_log s')"
proof (rule small_distilled)
  fix s s' assume s: "jreach small_journal s" "jstep s s'" "pj_distillxids (j_pj s) = [0]" "pj_distillxids (j_pj s') = []"
  then show ?thesis using journal_distill_order [OF small_ready s(1) r_into_rtranclp [of jstep, OF s(2)]] s(2)
    by (intro exI [of _ s] exI [of _ s']) auto
qed

text \<open>
  C23. A turn of the distill thread never fails an assertion when ZFS does not go back behind a
  transaction group it reported, hands over exactly the entries at the head of the distill list
  that are written, and changes nothing on the device.
\<close>

theorem journal_thread_turn:
  assumes "journal_ready pj0" "jreach pj0 s" "pj_commit_txg (j_pj s) \<le> synced"
  shows "\<exists>pj xid es. pjournal_thr_turn synced (j_pj s) (j_dxid s) (j_once s) = (es, Some (pj, xid, j_once s)) \<and>
    pj_slots pj = pj_slots (j_pj s) \<and>
    map Some es = map (\<lambda>a. pjx_data (pj_handles (j_pj s) a))
      (takeWhile (\<lambda>a. is_written (pj_handles (j_pj s) a)) (pj_distillxids (j_pj s)))"
proof (rule thr_turn_inv [OF jsys_invD(1-4) [OF jreach_inv [OF assms(2,1)]]])
  show "pj_commit_txg (j_pj s) \<le> synced \<or> j_once s = 0" using assms(3) by simp
qed (use assms(3) in \<open>auto simp: not_less\<close>)

theorem journal_thread_turn_witness:
  "\<exists>s pj xid e. jreach small_journal s \<and>
     pjournal_thr_turn 7 (j_pj s) (j_dxid s) (j_once s) = ([e], Some (pj, xid, j_once s)) \<and>
     pjx_data (pj_handles (j_pj s) 0) = Some e"
proof (rule small_run)
  fix s assume s: "jreach small_journal s" "pj_pendingxids (j_pj s) = [0]"
    "is_distill (pj_handles (j_pj s) 0)" "pj_distillxids (j_pj s) = [0]" "pj_commit_txg (j_pj s) = 0"
  have "is_written (pj_handles (j_pj s) 0)" using small_written [OF s(1-3)] .
  then show ?thesis using journal_thread_turn [OF small_ready s(1), of 7] s by (auto simp: map_eq_Cons_conv)
qed

text \<open>
  C2. Recovery loses no pending transaction. Whatever state the journal reached, replaying its
  device after a crash succeeds and calls the callbacks for a list of entries in the order of
  their identifiers. That list contains the entry of every transaction that was still pending and
  is newer than the replay progress, if ZFS had not committed it, or if it was still to be
  distilled and is newer than the distill progress.
\<close>

theorem journal_crash_replay:
  assumes "journal_ready pj0" "jreach pj0 s"
    and "pj_slots pj = pj_slots (j_pj s)" "pj_total pj = pj_total (j_pj s)" "pj_bufs pj = []"
    and "0 < pj_readsize pj" "pj_readsize pj dvd pj_total pj"
  shows "\<exists>es pj' nerrs. pjournal_replay replay distill pj st =
      Some (pj', fold (replay_call replay distill pj) es st, nerrs) \<and>
    sorted (map pje_xid es) \<and>
    (\<forall>a \<in> set (pj_pendingxids (j_pj s)). \<exists>e \<in> set (pj_slots pj).
       logged (pj_handles (j_pj s) a) e \<and>
       (pj_replay_xid pj < xid_of (j_pj s) a \<and>
          (pj_commit_txg pj < pje_txg e \<or>
           is_distill (pj_handles (j_pj s) a) \<and> pj_distill_xid pj < xid_of (j_pj s) a) \<longrightarrow>
        pje_copy e \<in> set es))"
proof -
  note inv = jreach_inv [OF assms(2,1)]
  have ok: "disk_ok pj" using jsys_inv_disk_ok [OF inv] assms(3,4) by (simp add: disk_ok_def)
  define es where "es = sort_key (\<lambda>e. (pje_xid e, pje_txg e)) (map pje_copy (filter (\<lambda>e. \<not> pje_skip pj e) (disk_entries pj)))"
  obtain pj' nerrs where r: "pjournal_replay replay distill pj st =
      Some (pj', fold (replay_call replay distill pj) es st, nerrs)"
    by (rule replay_eq [OF ok assms(6,7,5) es_def])
  have "sorted (map (\<lambda>e. (pje_xid e, pje_txg e)) es)" unfolding es_def by simp
  then have "sorted (map pje_xid es)"
    unfolding sorted_map by (rule sorted_wrt_mono_rel [rotated]) (auto simp: less_eq_prod_def less_imp_le)
  moreover have "\<exists>e \<in> set (pj_slots pj). logged (pj_handles (j_pj s) a) e \<and>
      (pj_replay_xid pj < xid_of (j_pj s) a \<and> (pj_commit_txg pj < pje_txg e \<or>
         is_distill (pj_handles (j_pj s) a) \<and> pj_distill_xid pj < xid_of (j_pj s) a) \<longrightarrow> pje_copy e \<in> set es)"
    if a: "a \<in> set (pj_pendingxids (j_pj s))" for a
  proof (rule pending_logged [OF inv a])
    fix k assume k: "logged (pj_handles (j_pj s) a) (pj_slots (j_pj s) ! ring_slot (j_pj s) k)"
      "ring_slot (j_pj s) k < pj_total (j_pj s)"
    let ?e = "pj_slots pj ! ring_slot (j_pj s) k"
    have "?e \<in> set (pj_slots pj)" using k(2) ok assms(4) by (simp add: disk_ok_def)
    moreover have "pje_copy ?e \<in> set es" if "\<not> pje_skip pj ?e"
      using that calculation k(1) by (simp add: es_def disk_entries_def logged_def assms(3))
    ultimately show ?thesis using k(1)
      by (intro bexI [of _ ?e]) (auto simp: assms(3) pje_skip_def logged_def xid_of_def not_le)
  qed
  ultimately show ?thesis using r by blast
qed

theorem journal_crash_replay_witness:
  "\<exists>s es pj' nerrs e. jreach small_journal s \<and>
     pjournal_replay (\<lambda>e st. (st @ [e], 0)) (\<lambda>e st. (st, 0))
       ((j_pj s)\<lparr>pj_bufs := [], pj_readsize := 2, pj_replay_xid := 0, pj_distill_xid := 0\<rparr>) [] =
     Some (pj', fold (replay_call (\<lambda>e st. (st @ [e], 0)) (\<lambda>e st. (st, 0))
       ((j_pj s)\<lparr>pj_bufs := [], pj_readsize := 2, pj_replay_xid := 0, pj_distill_xid := 0\<rparr>)) es [], nerrs) \<and>
     e \<in> set es \<and> pje_xid e = 1"
proof (rule small_run)
  fix s assume s: "jreach small_journal s" "pj_pendingxids (j_pj s) = [0]" "pj_total (j_pj s) = 2"
    "xid_of (j_pj s) 0 = 1" "is_distill (pj_handles (j_pj s) 0)"
  from journal_crash_replay [OF small_ready s(1),
      of "(j_pj s)\<lparr>pj_bufs := [], pj_readsize := 2, pj_replay_xid := 0, pj_distill_xid := 0\<rparr>"
        "\<lambda>e st. (st @ [e], 0)" "\<lambda>e st. (st, 0)" "[]"] s(2-5)
  obtain es pj' nerrs e where "pjournal_replay (\<lambda>e st. (st @ [e], 0)) (\<lambda>e st. (st, 0))
       ((j_pj s)\<lparr>pj_bufs := [], pj_readsize := 2, pj_replay_xid := 0, pj_distill_xid := 0\<rparr>) [] =
     Some (pj', fold (replay_call (\<lambda>e st. (st @ [e], 0)) (\<lambda>e st. (st, 0))
       ((j_pj s)\<lparr>pj_bufs := [], pj_readsize := 2, pj_replay_xid := 0, pj_distill_xid := 0\<rparr>)) es [], nerrs)"
    "pje_copy e \<in> set es" "pje_xid (pje_copy e) = 1"
    by (auto simp: logged_def xid_of_def pje_copy_def)
  then show ?thesis using s(1) by blast
qed

text \<open>
  C22. A journal that was opened and replayed is ready for the runs the other theorems speak
  about: nothing is pending, writing starts at the first slot, and new transaction identifiers
  come after every identifier on the device.
\<close>

theorem journal_replay_ready:
  assumes "pjournal_open pjh pjhlen st_size slots = Some pj" "disk_ok pj"
    and "0 < pj_total pj" "0 < pj_readsize pj" "pj_readsize pj dvd pj_total pj"
  shows "\<exists>pj' st' nerrs. pjournal_replay replay distill pj st = Some (pj', st', nerrs) \<and>
    journal_ready pj' \<and> pj_slots pj' = slots \<and> (\<forall>e \<in> set (disk_entries pj). pje_xid e \<le> pj_lastxid pj')"
proof -
  have f: "pj_bufs pj = []" "pj_pendingxids pj = []" "pj_distillxids pj = []" "pj_inuse pj = 0"
    "pj_resrv pj = 0" "total_trans pj = 0" "pj_slots pj = slots"
    using assms(1) by (auto simp: pjournal_open_def split: if_splits)
  show ?thesis
  proof (rule replay_eq [OF assms(2,4,5) f(1) refl, where st = st])
    fix pj' nerrs
    assume r: "pjournal_replay replay distill pj st = Some (pj', fold (replay_call replay distill pj)
        (sort_key (\<lambda>e. (pje_xid e, pje_txg e)) (map pje_copy (filter (\<lambda>e. \<not> pje_skip pj e) (disk_entries pj)))) st, nerrs)"
      and eq: "pj_slots pj' = pj_slots pj" "pj_total pj' = pj_total pj" "pj_pendingxids pj' = pj_pendingxids pj"
      "pj_distillxids pj' = pj_distillxids pj" "pj_inuse pj' = pj_inuse pj" "pj_resrv pj' = pj_resrv pj"
      "pj_nextwrite pj' = 0" "total_trans pj' = total_trans pj" "pj_distill_xid pj' \<le> pj_lastxid pj'"
      and le: "\<And>e. e \<in> set (disk_entries pj) \<Longrightarrow> pje_xid e \<le> pj_lastxid pj'"
    have "journal_ready pj'" using assms(2,3) unfolding journal_ready_def disk_ok_def eq(1-8) f
      by (simp add: eq(9))
    then show ?thesis using r le eq(1) f(7) by blast
  qed
qed

theorem journal_replay_ready_witness:
  "\<exists>pj' st' nerrs. pjournal_replay (\<lambda>e st. (st + 1, 0)) (\<lambda>e st. (st, 0)) small_journal (0 :: nat) =
     Some (pj', st', nerrs) \<and> journal_ready pj' \<and> pj_slots pj' = [small_entry, small_entry]"
proof -
  have "0 < pj_total small_journal" "0 < pj_readsize small_journal"
    "pj_readsize small_journal dvd pj_total small_journal" by (simp_all add: small_defs)
  from journal_replay_ready [OF small_open small_disk this, of "\<lambda>e st. (st + 1, 0)" "\<lambda>e st. (st, 0)" "0 :: nat"]
  show ?thesis by blast
qed

text \<open>
  C24. A reservation returns: if the slots already reserved and the \<open>count\<close> slots asked for are together no more than the
  journal has, ZFS has synced every pending transaction, and the distill thread has seen them all, the call
  gets its slots without waiting, when no other thread interferes; pending transactions in the way are released.
\<close>

theorem journal_reserve_returns:
  assumes "journal_ready pj0" "jreach pj0 s" "pj_flags (j_pj s) AND PJF_REPLAYINPROG = 0"
    and "pj_resrv (j_pj s) + count \<le> pj_total (j_pj s)"
    and "\<And>a. a \<in> set (pj_pendingxids (j_pj s)) \<Longrightarrow>
      pjx_txg (pj_handles (j_pj s) a) \<le> txg \<and> \<not> is_distill (pj_handles (j_pj s) a)"
  shows "\<exists>pj'. pjournal_reserve_slot (\<lambda>_. id) (\<lambda>_. txg) (j_pj s) count = Some (pj', 0) \<and>
    pj_resrv pj' = pj_resrv (j_pj s) + count"
proof -
  let ?pj = "(j_pj s)\<lparr>total_reserve := total_reserve (j_pj s) + count\<rparr>"
  note inv = jsys_invD [OF jreach_inv [OF assms(2,1)]]
  have "resrv_inv ?pj (j_opened s) (j_used s) (j_ungranted s + count)"
    using inv(4) by (auto simp: resrv_inv_def)
  then have "\<exists>pj'. reserve_loop (\<lambda>_. id) (\<lambda>_. txg) 0 ?pj count 0 = Some (pj', 0) \<and>
      pj_resrv pj' = pj_resrv ?pj + count"
    using inv(1-3) assms(4,5)
    by (intro reserve_loop_returns [where ung = "j_ungranted s + count" and used = "j_used s" and
        opened = "j_opened s" and dxid = "j_dxid s"]) simp_all
  then show ?thesis using assms(3) by (simp add: pjournal_reserve_slot_def)
qed

text \<open>A journal of two slots, one pending and one reserved: the pending transaction has to be released first.\<close>

theorem journal_reserve_returns_witness:
  "\<exists>s pj'. jreach small_journal s \<and> pj_pendingxids (j_pj s) = [0] \<and>
    pj_resrv (j_pj s) + pj_inuse (j_pj s) = pj_total (j_pj s) \<and>
    pjournal_reserve_slot (\<lambda>_. id) (\<lambda>_. pjx_txg (pj_handles (j_pj s) 0)) (j_pj s) 1 = Some (pj', 0) \<and> pj_resrv pj' = 2"
proof (rule small_run_any [of False])
  fix s assume s: "jreach small_journal s" "j_opened s = [1]" "pj_pendingxids (j_pj s) = [0]" "pj_total (j_pj s) = 2"
    "is_distill (pj_handles (j_pj s) 0) = False" "pj_resrv (j_pj s) = 2" "j_used s = 1" "pj_flags (j_pj s) = PJF_ISBLKDEV"
  let ?pj = "(j_pj s)\<lparr>pj_resrv := 1, pj_flags := pj_flags (j_pj s) AND NOT PJF_WANTSLOT\<rparr>"
  let ?s = "s\<lparr>j_pj := ?pj, j_used := 0\<rparr>"
  have "jstep s ?s" using jstep.give_back [of 1 1 s ?pj] s by (simp add: pjournal_unreserve_slot_def)
  then have r: "jreach small_journal ?s" by (rule jreach.step [OF s(1)])
  have n: "pj_inuse (j_pj s) = 1" using jsys_invD(1) [OF jreach_inv [OF s(1) small_ready]] s(3) by (simp add: ring_inv_def)
  have fl: "pj_flags (j_pj ?s) AND PJF_REPLAYINPROG = 0"
    by (simp add: s(8) PJF_ISBLKDEV_def PJF_REPLAYINPROG_def PJF_WANTSLOT_def)
  obtain pj' where "pjournal_reserve_slot (\<lambda>_. id) (\<lambda>_. pjx_txg (pj_handles (j_pj ?s) 0)) (j_pj ?s) 1 = Some (pj', 0)" "pj_resrv pj' = 2"
    using journal_reserve_returns [OF small_ready r fl, of 1 "pjx_txg (pj_handles (j_pj ?s) 0)"] s by auto
  then show ?thesis using r s(3,4) n by (intro exI [of _ ?s] exI [of _ pj']) simp
qed

text \<open>
  C27. What the scan of a device with damaged entries returns. It keeps, in the order of the identifiers, the entries that are intact and
  not skipped, up to the first intact formatted slot. But it returns an error exactly when there is damage in the last chunk
  it reads: every read resets the return code, so damage in an earlier chunk is lost.
\<close>

theorem scan_error_lost:
  assumes "device_ok pj"
  shows "\<exists>pj'. pjournal_scan_slots pj =
      Some (pj', if list_ex damaged (drop (last_chunk pj) (take (stop_slot pj) (pj_slots pj))) then -1 else 0) \<and>
    pj_bufs pj' = sort_key (\<lambda>e. (pje_xid e, pje_txg e))
      (pj_bufs pj @ map pje_copy [e \<leftarrow> take (stop_slot pj) (pj_slots pj). \<not> damaged e \<and> \<not> pje_skip pj e])"
proof -
  let ?sc = "\<lparr>sc_rc = 0, sc_last_xid = PJE_XID_NONE, sc_last_slot = None, sc_bufs = pj_bufs pj, sc_done = False\<rparr>"
  have d: "0 < pj_total pj" "0 < pj_readsize pj" "pj_readsize pj dvd pj_total pj" using assms by (simp_all add: device_ok_def)
  obtain r where "scan_loop pj (pj_readsize pj) 0 ?sc = Some r"
    "sc_rc r = (if list_ex damaged (drop (last_chunk pj) (take (stop_slot pj) (pj_slots pj))) then -1 else 0)"
    "sc_bufs r = sc_bufs ?sc @ map pje_copy [e \<leftarrow> drop 0 (take (stop_slot pj) (pj_slots pj)). \<not> damaged e \<and> \<not> pje_skip pj e]"
    using scan_loop_any [OF assms refl d(1) dvd_0_right le0, of ?sc] by auto
  then show ?thesis using d by (simp add: pjournal_scan_slots_def dvd_eq_mod_eq_0)
qed

text \<open>A damaged first slot in front of a formatted one, with chunks of one slot: the scan returns no error.\<close>

theorem scan_error_lost_witness:
  "damaged (small_entry\<lparr>pje_magic := 0\<rparr>) \<and>
   (\<exists>pj'. pjournal_scan_slots (small_journal\<lparr>pj_slots := [small_entry\<lparr>pje_magic := 0\<rparr>, small_entry]\<rparr>) = Some (pj', 0))"
proof -
  let ?pj = "small_journal\<lparr>pj_slots := [small_entry\<lparr>pje_magic := 0\<rparr>, small_entry]\<rparr>"
  have e: "damaged (small_entry\<lparr>pje_magic := 0\<rparr>)" "\<not> damaged small_entry"
    using small_entry_ok(1) by (auto simp: damaged_def entry_ok_def PJE_MAGIC_def split: option.splits)
  have j: "pj_total ?pj = 2" "pj_readsize ?pj = 1" by (simp_all add: small_defs)
  have "device_ok ?pj" using e small_entry_ok(1) j by (simp add: device_ok_def)
  moreover have "stop_slot ?pj = 1" using e small_entry_ok(2) by (simp add: stop_slot_def)
  moreover from this have "last_chunk ?pj = 1" using j by (simp add: last_chunk_def)
  ultimately show ?thesis using scan_error_lost [of ?pj] e(1) by auto
qed

end
