(* ===== verification/Sorted_Array.thy ===== *)
theory Sorted_Array
  imports Prelude "HOL-Library.List_Lexorder" "HOL-Library.Char_ord"
begin

text \<open>
  What the named registries of the code (statistics counters, fault points) rely on: an array
  with a binary search, insertion at a position and removal at a position. The lemmas of the
  locale are proved for every provider of these operations.
\<close>

text \<open>\<^verbatim>\<open>CMP\<close> of \<^verbatim>\<open>src/pfl/cdefs.h\<close>, and \<^verbatim>\<open>strcmp\<close>, whose result is used for its sign.\<close>

definition CMP :: "'a :: linorder \<Rightarrow> 'a \<Rightarrow> int" where
  "CMP a b = (if a < b then -1 else if a > b then 1 else 0)"

definition strcmp :: "string \<Rightarrow> string \<Rightarrow> int" where
  "strcmp a b = CMP a b"

text \<open>
  A comparison of a key with the items of an array that is sorted for it: the items the key is
  greater than come first, then the ones it is equal to, then the ones it is less than.
\<close>

definition cmp_sorted :: "(nat \<Rightarrow> int) \<Rightarrow> nat \<Rightarrow> bool" where
  "cmp_sorted c n \<longleftrightarrow> (\<forall>i j. i \<le> j \<longrightarrow> j < n \<longrightarrow> (c i < 0 \<longrightarrow> c j < 0) \<and> (0 < c j \<longrightarrow> 0 < c i))"

text \<open>The position a search must return: a match, or else the place to insert the key at.\<close>

definition search_result :: "(nat \<Rightarrow> int) \<Rightarrow> nat \<Rightarrow> nat \<Rightarrow> bool" where
  "search_result c n r \<longleftrightarrow>
     r < n \<and> c r = 0 \<or> r \<le> n \<and> (\<forall>i < r. 0 < c i) \<and> (\<forall>i. r \<le> i \<longrightarrow> i < n \<longrightarrow> c i < 0)"

definition insert_nth :: "nat \<Rightarrow> 'a \<Rightarrow> 'a list \<Rightarrow> 'a list" where
  "insert_nth r x xs = take r xs @ x # drop r xs"

definition remove_nth :: "nat \<Rightarrow> 'a list \<Rightarrow> 'a list" where
  "remove_nth r xs = take r xs @ drop (Suc r) xs"

lemma CMP_sign [simp]: "CMP a b < 0 \<longleftrightarrow> a < b" "0 < CMP a b \<longleftrightarrow> b < a" "CMP a b = 0 \<longleftrightarrow> a = b"
  by (auto simp: CMP_def)

lemma cmp_sortedD:
  assumes "cmp_sorted c n" "i \<le> j" "j < n"
  shows "c i < 0 \<Longrightarrow> c j < 0" "0 < c j \<Longrightarrow> 0 < c i"
  using assms unfolding cmp_sorted_def by blast+

lemma cmp_sorted_keys:
  assumes "sorted_wrt (<) (map k xs)"
  shows "cmp_sorted (\<lambda>i. CMP key (k (xs ! i))) (length xs)"
proof -
  have "k (xs ! i) \<le> k (xs ! j)" if "i \<le> j" "j < length xs" for i j
    using assms that sorted_wrt_nth_less [of "(<)" "map k xs" i j] by (cases "i = j") auto
  then show ?thesis unfolding cmp_sorted_def CMP_sign
    by (meson order.strict_trans1 order.strict_trans2)
qed

text \<open>With strictly increasing keys, a search result splits the array at the key.\<close>

lemma search_result_keys:
  assumes "sorted_wrt (<) (map k xs)" "search_result (\<lambda>i. CMP key (k (xs ! i))) (length xs) r"
  shows "r \<le> length xs" "\<And>i. i < r \<Longrightarrow> k (xs ! i) < key"
    "\<And>i. r \<le> i \<Longrightarrow> i < length xs \<Longrightarrow> k (xs ! i) \<noteq> key \<or> i = r"
    "\<And>i. r \<le> i \<Longrightarrow> i < length xs \<Longrightarrow> key \<le> k (xs ! i)"
proof -
  have lt: "k (xs ! i) < k (xs ! j)" if "i < j" "j < length xs" for i j
    using assms(1) that sorted_wrt_nth_less [of "(<)" "map k xs" i j] by auto
  consider "r < length xs" "key = k (xs ! r)"
    | "r \<le> length xs" "\<forall>i < r. k (xs ! i) < key" "\<forall>i. r \<le> i \<longrightarrow> i < length xs \<longrightarrow> key < k (xs ! i)"
    using assms(2) by (auto simp: search_result_def)
  then have "r \<le> length xs \<and> (\<forall>i < r. k (xs ! i) < key) \<and>
    (\<forall>i. r \<le> i \<longrightarrow> i < length xs \<longrightarrow> (k (xs ! i) \<noteq> key \<or> i = r) \<and> key \<le> k (xs ! i))"
  proof cases
    case 1
    then show ?thesis using lt by (force simp: le_less)
  next
    case 2
    then show ?thesis by (force simp: less_imp_le)
  qed
  then show "r \<le> length xs" "\<And>i. i < r \<Longrightarrow> k (xs ! i) < key"
    "\<And>i. r \<le> i \<Longrightarrow> i < length xs \<Longrightarrow> k (xs ! i) \<noteq> key \<or> i = r"
    "\<And>i. r \<le> i \<Longrightarrow> i < length xs \<Longrightarrow> key \<le> k (xs ! i)" by blast+
qed

lemma in_take_drop:
  "x \<in> set (take r xs) \<Longrightarrow> \<exists>i < r. i < length xs \<and> x = xs ! i"
  "x \<in> set (drop r xs) \<Longrightarrow> \<exists>i. r \<le> i \<and> i < length xs \<and> x = xs ! i"
proof -
  show "x \<in> set (take r xs) \<Longrightarrow> \<exists>i < r. i < length xs \<and> x = xs ! i" by (auto simp: in_set_conv_nth)
  assume "x \<in> set (drop r xs)"
  then obtain i where "i < length xs - r" "x = xs ! (r + i)" by (auto simp: in_set_conv_nth)
  then show "\<exists>i. r \<le> i \<and> i < length xs \<and> x = xs ! i" by (intro exI [of _ "r + i"]) auto
qed

lemma sorted_insert_nth:
  assumes "sorted_wrt (<) (map k xs)" "\<And>i. i < r \<Longrightarrow> k (xs ! i) < k x"
    "\<And>i. r \<le> i \<Longrightarrow> i < length xs \<Longrightarrow> k x < k (xs ! i)"
  shows "sorted_wrt (<) (map k (insert_nth r x xs))"
proof -
  have "sorted_wrt (<) (map k (take r xs) @ map k (drop r xs))"
    using assms(1) by (simp flip: map_append)
  moreover have "k y < k x" if "y \<in> set (take r xs)" for y using in_take_drop(1) [OF that] assms(2) by auto
  moreover have "k x < k y" if "y \<in> set (drop r xs)" for y using in_take_drop(2) [OF that] assms(3) by auto
  ultimately show ?thesis by (auto simp: insert_nth_def sorted_wrt_append)
qed

lemma sorted_remove_nth:
  assumes "sorted_wrt (<) (map k xs)"
  shows "sorted_wrt (<) (map k (remove_nth r xs))"
proof -
  have eq: "xs = take r xs @ take 1 (drop r xs) @ drop (Suc r) xs"
    by (metis append_assoc append_take_drop_id drop_drop plus_1_eq_Suc)
  have "sorted_wrt (<) (map k (take r xs @ take 1 (drop r xs) @ drop (Suc r) xs))"
    using assms unfolding eq [symmetric] .
  then show ?thesis by (auto simp: remove_nth_def sorted_wrt_append)
qed

subsection \<open>The interface\<close>

locale sorted_array =
  fixes items :: "'s \<Rightarrow> 'a list"
    and invar :: "'s \<Rightarrow> bool"
    and search :: "('a \<Rightarrow> int) \<Rightarrow> 's \<Rightarrow> nat option"
    and insert_at :: "'s \<Rightarrow> nat \<Rightarrow> 'a \<Rightarrow> 's option"
    and remove_at :: "'s \<Rightarrow> nat \<Rightarrow> 's option"
  assumes search_ok: "invar s \<Longrightarrow> cmp_sorted (\<lambda>i. c (items s ! i)) (length (items s)) \<Longrightarrow>
      \<exists>r. search c s = Some r \<and> search_result (\<lambda>i. c (items s ! i)) (length (items s)) r"
    and insert_ok: "invar s \<Longrightarrow> r \<le> length (items s) \<Longrightarrow>
      \<exists>s'. insert_at s r x = Some s' \<and> invar s' \<and> items s' = insert_nth r x (items s)"
    and remove_ok: "invar s \<Longrightarrow> r < length (items s) \<Longrightarrow>
      \<exists>s'. remove_at s r = Some s' \<and> invar s' \<and> items s' = remove_nth r (items s)"
begin

definition keyed :: "('a \<Rightarrow> 'k :: linorder) \<Rightarrow> 's \<Rightarrow> bool" where
  "keyed k s \<longleftrightarrow> invar s \<and> sorted_wrt (<) (map k (items s))"

lemma search_key:
  assumes "keyed k s"
  obtains r where "search (\<lambda>x. CMP key (k x)) s = Some r" "r \<le> length (items s)"
    "\<And>i. i < r \<Longrightarrow> k (items s ! i) < key" "\<And>i. r \<le> i \<Longrightarrow> i < length (items s) \<Longrightarrow> key \<le> k (items s ! i)"
    "key \<in> k ` set (items s) \<longleftrightarrow> r < length (items s) \<and> k (items s ! r) = key"
proof -
  have s: "invar s" "sorted_wrt (<) (map k (items s))" using assms by (simp_all add: keyed_def)
  obtain r where r: "search (\<lambda>x. CMP key (k x)) s = Some r"
    "search_result (\<lambda>i. CMP key (k (items s ! i))) (length (items s)) r"
    using search_ok [OF s(1) cmp_sorted_keys [OF s(2)]] by blast
  note split = search_result_keys [OF s(2) r(2)]
  have "key \<in> k ` set (items s) \<longleftrightarrow> r < length (items s) \<and> k (items s ! r) = key"
  proof
    assume "key \<in> k ` set (items s)"
    then obtain i where i: "i < length (items s)" "k (items s ! i) = key" by (auto simp: in_set_conv_nth)
    then have "\<not> i < r" using split(2) [of i] by auto
    then show "r < length (items s) \<and> k (items s ! r) = key" using split(3) [of i] i by auto
  qed auto
  then show thesis using that r(1) split by blast
qed

lemma insert_key:
  assumes "keyed k s" "\<And>i. i < r \<Longrightarrow> k (items s ! i) < k x"
    "\<And>i. r \<le> i \<Longrightarrow> i < length (items s) \<Longrightarrow> k x \<le> k (items s ! i)" "r \<le> length (items s)"
    "k x \<notin> k ` set (items s)"
  obtains s' where "insert_at s r x = Some s'" "keyed k s'" "items s' = insert_nth r x (items s)"
    "set (items s') = insert x (set (items s))"
proof -
  have s: "invar s" "sorted_wrt (<) (map k (items s))" using assms(1) by (simp_all add: keyed_def)
  obtain s' where s': "insert_at s r x = Some s'" "invar s'" "items s' = insert_nth r x (items s)"
    using insert_ok [OF s(1) assms(4)] by blast
  have "k x < k (items s ! i)" if "r \<le> i" "i < length (items s)" for i
    using assms(3) [OF that] assms(5) that(2) by (metis image_eqI nth_mem order_le_less)
  then have "sorted_wrt (<) (map k (insert_nth r x (items s)))"
    by (intro sorted_insert_nth [OF s(2) assms(2)]) auto
  moreover have "set (insert_nth r x (items s)) = insert x (set (items s))"
    unfolding insert_nth_def using append_take_drop_id [of r "items s"]
    by (metis list.simps(15) set_append Un_insert_right)
  ultimately show thesis using that s' by (simp add: keyed_def)
qed

lemma remove_key:
  assumes "keyed k s" "r < length (items s)"
  obtains s' where "remove_at s r = Some s'" "keyed k s'" "items s' = remove_nth r (items s)"
proof -
  have s: "invar s" "sorted_wrt (<) (map k (items s))" using assms(1) by (simp_all add: keyed_def)
  obtain s' where "remove_at s r = Some s'" "invar s'" "items s' = remove_nth r (items s)"
    using remove_ok [OF s(1) assms(2)] by blast
  then show thesis using that sorted_remove_nth [OF s(2), of r] by (simp add: keyed_def)
qed

end

end
