(* ===== verification/Dynarray.thy ===== *)
theory Dynarray
  imports Sorted_Array
begin

text \<open>
  Dynamic arrays (\<^verbatim>\<open>src/pfl/dynarray.c\<close>) and binary search (\<^verbatim>\<open>src/pfl/bsearch.c\<close>).
  The allocation is a list of pointers, \<^const>\<open>None\<close> being the null pointer; \<open>da_list\<close> is the
  part in use. The lemmas describe every operation by its effect on that list.
\<close>

subsection \<open>Definitions\<close>

record 'a psc_dynarray =
  pda_flags :: u32
  pda_pos :: nat
  pda_nalloc :: nat
  pda_items :: "'a option list"

definition psc_dynarray_initf :: "u32 \<Rightarrow> 'a psc_dynarray" where
  "psc_dynarray_initf flags = \<lparr>pda_flags = flags, pda_pos = 0, pda_nalloc = 0, pda_items = []\<rparr>"

text \<open>The items behind the old end of the allocation are set to the null pointer.\<close>

definition psc_dynarray_resize :: "'a psc_dynarray \<Rightarrow> nat \<Rightarrow> 'a psc_dynarray" where
  "psc_dynarray_resize pda n =
     pda\<lparr>pda_items := take n (pda_items pda) @ replicate (n - pda_nalloc pda) None, pda_nalloc := n\<rparr>"

definition psc_dynarray_ensurelen :: "'a psc_dynarray \<Rightarrow> nat \<Rightarrow> 'a psc_dynarray" where
  "psc_dynarray_ensurelen pda n =
     (if n > pda_nalloc pda then psc_dynarray_resize pda n else pda)"

function reverse_loop ::
  "'a option list \<Rightarrow> nat \<Rightarrow> nat \<Rightarrow> nat \<Rightarrow> 'a option list option" where
  "reverse_loop items start len i =
     (if i < len div 2 then do {
        a \<leftarrow> rd items i;
        b \<leftarrow> rd items (start + len - 1 - i);
        items \<leftarrow> wr items i b;
        items \<leftarrow> wr items (start + len - 1 - i) a;
        reverse_loop items start len (i + 1)
      } else Some items)"
  by pat_completeness auto
termination by (relation "measure (\<lambda>(items, start, len, i). len div 2 - i)") auto

declare reverse_loop.simps [simp del]

definition psc_dynarray_reverse_subsequence ::
  "'a psc_dynarray \<Rightarrow> nat \<Rightarrow> nat \<Rightarrow> 'a psc_dynarray option" where
  "psc_dynarray_reverse_subsequence pda start len =
     do {
       items \<leftarrow> reverse_loop (pda_items pda) start len start;
       Some (pda\<lparr>pda_items := items\<rparr>)
     }"

definition psc_dynarray_reverse :: "'a psc_dynarray \<Rightarrow> 'a psc_dynarray option" where
  "psc_dynarray_reverse pda = psc_dynarray_reverse_subsequence pda 0 (pda_pos pda)"

definition psc_dynarray_add :: "'a psc_dynarray \<Rightarrow> 'a option \<Rightarrow> 'a psc_dynarray option" where
  "psc_dynarray_add pda item =
     do {
       let pda = (if pda_pos pda + 1 > pda_nalloc pda
                  then psc_dynarray_ensurelen pda (2 * (pda_pos pda + 1)) else pda);
       items \<leftarrow> wr (pda_items pda) (pda_pos pda) item;
       Some (pda\<lparr>pda_items := items, pda_pos := pda_pos pda + 1\<rparr>)
     }"

definition psc_dynarray_getpos :: "'a psc_dynarray \<Rightarrow> int \<Rightarrow> 'a option option" where
  "psc_dynarray_getpos pda pos =
     do {
       psc_assert (pos \<ge> 0);
       psc_assert (pos < int (pda_pos pda));
       rd (pda_items pda) (nat pos)
     }"

definition psc_dynarray_setpos :: "'a psc_dynarray \<Rightarrow> int \<Rightarrow> 'a option \<Rightarrow> 'a psc_dynarray option" where
  "psc_dynarray_setpos pda pos p =
     do {
       psc_assert (pos \<ge> 0);
       psc_assert (pos < int (pda_nalloc pda));
       items \<leftarrow> wr (pda_items pda) (nat pos) p;
       Some (pda\<lparr>pda_items := items,
                 pda_pos := (if nat pos \<ge> pda_pos pda then nat pos + 1 else pda_pos pda)\<rparr>)
     }"

definition psc_dynarray_free :: "'a psc_dynarray \<Rightarrow> 'a psc_dynarray" where
  "psc_dynarray_free pda = psc_dynarray_initf 0"

definition psc_dynarray_reset :: "'a psc_dynarray \<Rightarrow> 'a psc_dynarray" where
  "psc_dynarray_reset pda = pda\<lparr>pda_pos := 0\<rparr>"

text \<open>The loop over the items, from position \<open>j\<close> on.\<close>

function finditem_loop :: "'a psc_dynarray \<Rightarrow> 'a option \<Rightarrow> nat \<Rightarrow> int option" where
  "finditem_loop pda item j =
     (if j < pda_pos pda then do {
        p \<leftarrow> psc_dynarray_getpos pda (int j);
        if p = item then Some (int j) else finditem_loop pda item (j + 1)
      } else Some (-1))"
  by pat_completeness auto
termination by (relation "measure (\<lambda>(pda, item, j). pda_pos pda - j)") auto

declare finditem_loop.simps [simp del]

definition psc_dynarray_finditem :: "'a psc_dynarray \<Rightarrow> 'a option \<Rightarrow> int option" where
  "psc_dynarray_finditem pda item = finditem_loop pda item 0"

text \<open>The second component is the return value: 1 if the item was there.\<close>

definition psc_dynarray_add_ifdne ::
  "'a psc_dynarray \<Rightarrow> 'a option \<Rightarrow> ('a psc_dynarray \<times> int) option" where
  "psc_dynarray_add_ifdne pda item =
     do {
       j \<leftarrow> psc_dynarray_finditem pda item;
       if j \<noteq> -1 then Some (pda, 1)
       else do { pda \<leftarrow> psc_dynarray_add pda item; Some (pda, 0) }
     }"

definition psc_dynarray_removepos :: "'a psc_dynarray \<Rightarrow> int \<Rightarrow> 'a psc_dynarray option" where
  "psc_dynarray_removepos pda pos =
     do {
       psc_assert (pos \<ge> 0 \<and> pos < int (pda_pos pda));
       items \<leftarrow>
         (if pos \<noteq> int (pda_pos pda) - 1 then do {
            l \<leftarrow> rd (pda_items pda) (pda_pos pda - 1);
            wr (pda_items pda) (nat pos) l
          } else Some (pda_items pda));
       Some (pda\<lparr>pda_items := items, pda_pos := pda_pos pda - 1\<rparr>)
     }"

definition psc_dynarray_removeitem ::
  "'a psc_dynarray \<Rightarrow> 'a option \<Rightarrow> ('a psc_dynarray \<times> int) option" where
  "psc_dynarray_removeitem pda item =
     do {
       idx \<leftarrow> psc_dynarray_finditem pda item;
       psc_assert (idx \<noteq> -1);
       pda \<leftarrow> psc_dynarray_removepos pda idx;
       Some (pda, idx)
     }"

text \<open>\<^verbatim>\<open>memmove\<close> and \<^verbatim>\<open>memcpy\<close> into the allocation, in units of pointers.\<close>

definition put_range :: "'b list \<Rightarrow> nat \<Rightarrow> 'b list \<Rightarrow> 'b list option" where
  "put_range items dst xs =
     do {
       psc_assert (dst + length xs \<le> length items);
       Some (take dst items @ xs @ drop (dst + length xs) items)
     }"

definition get_range :: "'b list \<Rightarrow> nat \<Rightarrow> nat \<Rightarrow> 'b list option" where
  "get_range items src n =
     do { psc_assert (src + n \<le> length items); Some (take n (drop src items)) }"

definition psc_dynarray_splice ::
  "'a psc_dynarray \<Rightarrow> nat \<Rightarrow> int \<Rightarrow> 'a option list \<Rightarrow> int \<Rightarrow> 'a psc_dynarray option" where
  "psc_dynarray_splice pda off nrmv base nadd =
     do {
       let oldlen = pda_pos pda;
       psc_assert (nadd \<ge> 0);
       psc_assert (nrmv \<ge> 0);
       psc_assert (off + nat nrmv \<le> oldlen);
       let (nadd, nrmv) = (nat nadd, nat nrmv);
       let pda = psc_dynarray_ensurelen pda (oldlen + nadd - nrmv);
       pda \<leftarrow>
         (if nadd \<noteq> nrmv then do {
            let rem = oldlen - off - nrmv;
            xs \<leftarrow> get_range (pda_items pda) (off + nrmv) rem;
            items \<leftarrow> put_range (pda_items pda) (if nadd > nrmv then off + nadd - nrmv else off + nadd) xs;
            Some (pda\<lparr>pda_items := items, pda_pos := pda_pos pda + nadd - nrmv\<rparr>)
          } else Some pda);
       src \<leftarrow> get_range base 0 nadd;
       items \<leftarrow> put_range (pda_items pda) off src;
       Some (pda\<lparr>pda_items := items\<rparr>)
     }"

text \<open>The comparison routine fails (\<^const>\<open>None\<close>) where it would follow a null pointer.\<close>

function bsearch_loop ::
  "'a psc_dynarray \<Rightarrow> 'k \<Rightarrow> ('k \<Rightarrow> 'a option \<Rightarrow> int option) \<Rightarrow> int \<Rightarrow> int \<Rightarrow> int \<Rightarrow> int option" where
  "bsearch_loop pda item cmpf lo hi mid =
     (if lo \<le> hi then do {
        let mid = (hi + lo) div 2;
        p \<leftarrow> psc_dynarray_getpos pda mid;
        rc \<leftarrow> cmpf item p;
        if rc < 0 then bsearch_loop pda item cmpf lo (mid - 1) mid
        else if rc > 0 then bsearch_loop pda item cmpf (mid + 1) hi (mid + 1)
        else Some mid
      } else Some mid)"
  by pat_completeness auto
termination
  by (relation "measure (\<lambda>(pda, item, cmpf, lo, hi, mid). nat (hi + 1 - lo))") auto

declare bsearch_loop.simps [simp del]

definition psc_dynarray_bsearch ::
  "'a psc_dynarray \<Rightarrow> 'k \<Rightarrow> ('k \<Rightarrow> 'a option \<Rightarrow> int option) \<Rightarrow> int option" where
  "psc_dynarray_bsearch pda item cmpf = bsearch_loop pda item cmpf 0 (int (pda_pos pda) - 1) 0"

fun concat_loop :: "'a psc_dynarray \<Rightarrow> 'a psc_dynarray \<Rightarrow> nat list \<Rightarrow> 'a psc_dynarray option" where
  "concat_loop pda src [] = Some pda"
| "concat_loop pda src (i # js) =
     do {
       p \<leftarrow> psc_dynarray_getpos src (int i);
       pda \<leftarrow> psc_dynarray_add pda p;
       concat_loop pda src js
     }"

definition psc_dynarray_concat :: "'a psc_dynarray \<Rightarrow> 'a psc_dynarray \<Rightarrow> 'a psc_dynarray option" where
  "psc_dynarray_concat pda src = concat_loop pda src [0..<pda_pos src]"

definition psc_dynarray_swap :: "'a psc_dynarray \<Rightarrow> int \<Rightarrow> int \<Rightarrow> 'a psc_dynarray option" where
  "psc_dynarray_swap da a b =
     do {
       psc_assert (a \<ge> 0);
       psc_assert (b \<ge> 0);
       psc_assert (a < int (pda_pos da));
       psc_assert (b < int (pda_pos da));
       if a \<noteq> b then do {
         x \<leftarrow> rd (pda_items da) (nat a);
         y \<leftarrow> rd (pda_items da) (nat b);
         items \<leftarrow> wr (pda_items da) (nat a) y;
         items \<leftarrow> wr items (nat b) x;
         Some (da\<lparr>pda_items := items\<rparr>)
       } else Some da
     }"

definition psc_dynarray_copy :: "'a psc_dynarray \<Rightarrow> 'a psc_dynarray \<Rightarrow> 'a psc_dynarray option" where
  "psc_dynarray_copy src dst =
     do {
       let dst = psc_dynarray_ensurelen dst (pda_pos src);
       xs \<leftarrow> get_range (pda_items src) 0 (pda_pos src);
       items \<leftarrow> put_range (pda_items dst) 0 xs;
       Some (dst\<lparr>pda_items := items, pda_pos := pda_pos src\<rparr>)
     }"

text \<open>\<^verbatim>\<open>bsearch.c\<close>: the array is a list, of which the first \<open>nel\<close> entries are searched.\<close>

function floor_loop :: "'k \<Rightarrow> 'a list \<Rightarrow> ('k \<Rightarrow> 'a \<Rightarrow> int option) \<Rightarrow> int \<Rightarrow> int \<Rightarrow> int \<Rightarrow> int option" where
  "floor_loop key base cmpf lo hi mid =
     (if lo \<le> hi then do {
        let mid = (hi + lo) div 2;
        psc_assert (mid \<ge> 0);
        p \<leftarrow> rd base (nat mid);
        rc \<leftarrow> cmpf key p;
        if rc < 0 then floor_loop key base cmpf lo (mid - 1) (mid - 1)
        else if rc > 0 then floor_loop key base cmpf (mid + 1) hi mid
        else Some mid
      } else Some mid)"
  by pat_completeness auto
termination
  by (relation "measure (\<lambda>(key, base, cmpf, lo, hi, mid). nat (hi + 1 - lo))") auto

declare floor_loop.simps [simp del]

definition bsearch_floor :: "'k \<Rightarrow> 'a list \<Rightarrow> nat \<Rightarrow> ('k \<Rightarrow> 'a \<Rightarrow> int option) \<Rightarrow> int option" where
  "bsearch_floor key base nel cmpf = floor_loop key base cmpf 0 (int nel - 1) 0"

function ceil_loop :: "'k \<Rightarrow> 'a list \<Rightarrow> ('k \<Rightarrow> 'a \<Rightarrow> int option) \<Rightarrow> int \<Rightarrow> int \<Rightarrow> int \<Rightarrow> int option" where
  "ceil_loop key base cmpf lo hi mid =
     (if lo \<le> hi then do {
        let mid = (hi + lo) div 2;
        psc_assert (mid \<ge> 0);
        p \<leftarrow> rd base (nat mid);
        rc \<leftarrow> cmpf key p;
        if rc < 0 then ceil_loop key base cmpf lo (mid - 1) mid
        else if rc > 0 then ceil_loop key base cmpf (mid + 1) hi (mid + 1)
        else Some mid
      } else Some mid)"
  by pat_completeness auto
termination
  by (relation "measure (\<lambda>(key, base, cmpf, lo, hi, mid). nat (hi + 1 - lo))") auto

declare ceil_loop.simps [simp del]

definition bsearch_ceil :: "'k \<Rightarrow> 'a list \<Rightarrow> nat \<Rightarrow> ('k \<Rightarrow> 'a \<Rightarrow> int option) \<Rightarrow> int option" where
  "bsearch_ceil key base nel cmpf = ceil_loop key base cmpf 0 (int nel - 1) 0"

text \<open>The items in use, and the invariant that ties the fields together.\<close>

definition da_list :: "'a psc_dynarray \<Rightarrow> 'a option list" where
  "da_list pda = take (pda_pos pda) (pda_items pda)"

definition pda_ok :: "'a psc_dynarray \<Rightarrow> bool" where
  "pda_ok pda \<longleftrightarrow> length (pda_items pda) = pda_nalloc pda \<and> pda_pos pda \<le> pda_nalloc pda"

text \<open>A small array and a comparison routine for the witnesses.\<close>

definition tens :: "nat psc_dynarray" where
  "tens = \<lparr>pda_flags = 0, pda_pos = 3, pda_nalloc = 4, pda_items = [Some 10, Some 20, Some 30, None]\<rparr>"

definition num_cmp :: "nat \<Rightarrow> nat option \<Rightarrow> int option" where
  "num_cmp k p = map_option (\<lambda>x. int k - int x) p"

subsection \<open>The operations on the list of items\<close>

lemma pda_ok_init [simp]: "pda_ok (psc_dynarray_initf flags)" "da_list (psc_dynarray_initf flags) = []"
  by (simp_all add: pda_ok_def psc_dynarray_initf_def da_list_def)

lemma length_da_list [simp]: "pda_ok pda \<Longrightarrow> length (da_list pda) = pda_pos pda"
  by (simp add: da_list_def pda_ok_def)

lemma nth_da_list: "i < pda_pos pda \<Longrightarrow> da_list pda ! i = pda_items pda ! i"
  by (simp add: da_list_def)

lemma ensurelen_spec [simp]:
  assumes "pda_ok pda"
  shows "pda_ok (psc_dynarray_ensurelen pda n)" "da_list (psc_dynarray_ensurelen pda n) = da_list pda"
    "pda_pos (psc_dynarray_ensurelen pda n) = pda_pos pda"
    "take (pda_pos pda) (pda_items (psc_dynarray_ensurelen pda n)) = da_list pda"
  using assms by (auto simp: psc_dynarray_ensurelen_def psc_dynarray_resize_def pda_ok_def da_list_def)

lemma ensurelen_nalloc: "pda_ok pda \<Longrightarrow> n \<le> pda_nalloc (psc_dynarray_ensurelen pda n)"
  by (auto simp: psc_dynarray_ensurelen_def psc_dynarray_resize_def)

lemma pda_ok_length: "pda_ok pda \<Longrightarrow> length (pda_items pda) = pda_nalloc pda"
  by (simp add: pda_ok_def)

lemma add_spec:
  assumes "pda_ok pda"
  obtains pda' where "psc_dynarray_add pda item = Some pda'" "pda_ok pda'"
    "da_list pda' = da_list pda @ [item]"
proof -
  define p where "p = (if pda_pos pda + 1 > pda_nalloc pda
    then psc_dynarray_ensurelen pda (2 * (pda_pos pda + 1)) else pda)"
  have p: "pda_ok p" "da_list p = da_list pda" "pda_pos p = pda_pos pda" "pda_pos p < pda_nalloc p"
    using assms ensurelen_nalloc [OF assms, of "2 * (pda_pos pda + 1)"] by (auto simp: p_def)
  have "psc_dynarray_add pda item =
      Some (p\<lparr>pda_items := (pda_items p)[pda_pos p := item], pda_pos := pda_pos p + 1\<rparr>)"
    using p pda_ok_length [OF p(1)] unfolding psc_dynarray_add_def p_def [symmetric] by (simp add: wr_def Let_def)
  then show thesis
    by (rule that) (use p pda_ok_length [OF p(1)] in
      \<open>auto simp: pda_ok_def da_list_def take_Suc_conv_app_nth\<close>)
qed

lemma getpos_spec:
  "pda_ok pda \<Longrightarrow> psc_dynarray_getpos pda i =
     (if 0 \<le> i \<and> i < int (pda_pos pda) then Some (da_list pda ! nat i) else None)"
  by (auto simp: psc_dynarray_getpos_def rd_def pda_ok_def da_list_def)

lemma finditem_loop_spec:
  assumes "pda_ok pda"
  shows "finditem_loop pda item j = Some (case List.find (\<lambda>i. da_list pda ! i = item) [j..<pda_pos pda]
    of Some i \<Rightarrow> int i | None \<Rightarrow> -1)"
proof (induction "pda_pos pda - j" arbitrary: j)
  case 0
  then show ?case by (simp add: finditem_loop.simps)
next
  case (Suc n)
  then have "j < pda_pos pda" by simp
  then show ?case using Suc assms by (simp add: finditem_loop.simps [of pda item j] getpos_spec upt_conv_Cons)
qed

lemma finditem_spec:
  assumes "pda_ok pda"
  shows "item \<notin> set (da_list pda) \<Longrightarrow> psc_dynarray_finditem pda item = Some (-1)"
    and "item \<in> set (da_list pda) \<Longrightarrow> \<exists>i < length (da_list pda).
      psc_dynarray_finditem pda item = Some (int i) \<and> da_list pda ! i = item \<and> (\<forall>k < i. da_list pda ! k \<noteq> item)"
proof -
  let ?find = "List.find (\<lambda>i. da_list pda ! i = item) [0..<pda_pos pda]"
  have eq: "psc_dynarray_finditem pda item = Some (case ?find of Some i \<Rightarrow> int i | None \<Rightarrow> -1)"
    unfolding psc_dynarray_finditem_def by (rule finditem_loop_spec [OF assms])
  show "psc_dynarray_finditem pda item = Some (-1)" if "item \<notin> set (da_list pda)"
  proof -
    have "?find = None" using that assms by (auto simp: find_None_iff in_set_conv_nth)
    then show ?thesis by (simp add: eq)
  qed
  show "\<exists>i < length (da_list pda). psc_dynarray_finditem pda item = Some (int i) \<and>
      da_list pda ! i = item \<and> (\<forall>k < i. da_list pda ! k \<noteq> item)" if "item \<in> set (da_list pda)"
  proof -
    have "?find \<noteq> None" using that assms by (auto simp: find_None_iff in_set_conv_nth)
    then obtain i where i: "?find = Some i" by auto
    then have "i < pda_pos pda" "da_list pda ! i = item" "\<forall>k < i. da_list pda ! k \<noteq> item"
      by (auto simp: find_Some_iff)
    then show ?thesis using assms i by (auto simp: eq)
  qed
qed

lemma removepos_spec:
  assumes "pda_ok pda" "i < pda_pos pda"
  obtains pda' where "psc_dynarray_removepos pda (int i) = Some pda'" "pda_ok pda'"
    "da_list pda' = butlast ((da_list pda)[i := last (da_list pda)])"
proof -
  let ?l = "pda_items pda ! (pda_pos pda - 1)"
  have "last (da_list pda) = ?l"
    using assms by (subst last_conv_nth) (auto simp: nth_da_list simp flip: length_0_conv)
  moreover have "psc_dynarray_removepos pda (int i) =
      Some (pda\<lparr>pda_items := (pda_items pda)[i := ?l], pda_pos := pda_pos pda - 1\<rparr>)"
  proof (cases "i = pda_pos pda - 1")
    case True
    then have "(pda_items pda)[i := ?l] = pda_items pda" by simp
    then show ?thesis using True assms by (simp add: psc_dynarray_removepos_def)
  next
    case False
    then show ?thesis using assms by (auto simp: psc_dynarray_removepos_def rd_def wr_def pda_ok_def)
  qed
  ultimately show thesis
    by (elim that) (use assms in \<open>auto simp: pda_ok_def da_list_def butlast_conv_take take_update_swap\<close>)
qed

text \<open>
  Removing an item takes its first occurrence out and moves the last item into its place.
\<close>

lemma removeitem_spec:
  assumes "pda_ok pda" "item \<in> set (da_list pda)"
  obtains pda' i where "psc_dynarray_removeitem pda item = Some (pda', int i)" "pda_ok pda'"
    "i < length (da_list pda)" "da_list pda ! i = item"
    "da_list pda' = butlast ((da_list pda)[i := last (da_list pda)])"
proof -
  obtain i where i: "i < length (da_list pda)" "psc_dynarray_finditem pda item = Some (int i)"
    "da_list pda ! i = item" using finditem_spec(2) [OF assms] by blast
  obtain pda' where "psc_dynarray_removepos pda (int i) = Some pda'" "pda_ok pda'"
    "da_list pda' = butlast ((da_list pda)[i := last (da_list pda)])"
    using removepos_spec [OF assms(1), of i] i(1) assms(1) by auto
  then show thesis using that i by (simp add: psc_dynarray_removeitem_def)
qed

lemma concat_loop_spec:
  assumes "pda_ok src" "\<forall>i \<in> set js. i < pda_pos src"
  shows "pda_ok pda \<Longrightarrow> \<exists>pda'. concat_loop pda src js = Some pda' \<and> pda_ok pda' \<and>
    da_list pda' = da_list pda @ map ((!) (da_list src)) js"
  using assms(2)
proof (induction js arbitrary: pda)
  case (Cons i js)
  obtain p where "psc_dynarray_add pda (da_list src ! i) = Some p" "pda_ok p"
    "da_list p = da_list pda @ [da_list src ! i]" using add_spec [OF Cons.prems(1)] .
  then show ?case using Cons.IH [of p] Cons.prems assms(1) by (simp add: getpos_spec)
qed simp

lemma put_range_eq:
  "dst + length xs \<le> length items \<Longrightarrow>
     put_range items dst xs = Some (take dst items @ xs @ drop (dst + length xs) items)"
  by (simp add: put_range_def)

lemma get_range_eq: "src + n \<le> length items \<Longrightarrow> get_range items src n = Some (take n (drop src items))"
  by (simp add: get_range_def)

lemma splice_spec:
  assumes ok: "pda_ok pda" and le: "off + nrmv \<le> pda_pos pda" and sz: "nrmv = 0 \<or> length base \<le> nrmv"
  obtains pda' where "psc_dynarray_splice pda off (int nrmv) base (int (length base)) = Some pda'"
    "pda_ok pda'" "da_list pda' = take off (da_list pda) @ base @ drop (off + nrmv) (da_list pda)"
proof -
  let ?n = "length base" and ?pos = "pda_pos pda"
  define p where "p = psc_dynarray_ensurelen pda (?pos + ?n - nrmv)"
  define I where "I = pda_items p"
  have p: "pda_ok p" "pda_pos p = ?pos" "da_list p = da_list pda" "?pos + ?n - nrmv \<le> pda_nalloc p"
    using ok ensurelen_nalloc [OF ok] by (simp_all add: p_def)
  then have p': "length I = pda_nalloc p" "?pos \<le> length I" by (simp_all add: I_def pda_ok_def)
  note p = p p'
  have l: "da_list pda = take ?pos I" using p(1-3) by (simp add: da_list_def I_def)
  define xs where "xs = drop (off + nrmv) (da_list pda)"
  define J where "J = (if ?n = nrmv then I else take (off + ?n) I @ xs @ drop (off + ?n + length xs) I)"
  have xs: "xs = take (?pos - off - nrmv) (drop (off + nrmv) I)" "length xs = ?pos - off - nrmv"
    using le p(6) by (simp_all add: xs_def l drop_take)
  have room: "off + ?n + length xs \<le> length I" using le p(4,5) xs(2) by linarith
  have dst: "?n \<noteq> nrmv \<Longrightarrow> (if ?n > nrmv then off + ?n - nrmv else off + ?n) = off + ?n" using sz by auto
  have lJ: "length J = length I" using room by (simp add: J_def)
  define p' where "p' = p\<lparr>pda_items := take off J @ base @ drop (off + ?n) J, pda_pos := ?pos + ?n - nrmv\<rparr>"
  have "psc_dynarray_splice pda off (int nrmv) base (int ?n) = Some p'"
  proof (cases "?n = nrmv")
    case True
    then show ?thesis using le room p(2) p_def
      by (simp add: psc_dynarray_splice_def Let_def get_range_eq put_range_eq J_def p'_def I_def)
  next
    case False
    have "get_range I (off + nrmv) (?pos - off - nrmv) = Some xs"
      using le p(6) by (subst get_range_eq) (simp_all add: xs(1))
    moreover have "put_range I (off + ?n) xs = Some J" using room False by (simp add: put_range_eq J_def)
    ultimately show ?thesis using le False dst [OF False] room lJ p(2)
      unfolding psc_dynarray_splice_def I_def
      by (simp add: Let_def get_range_eq put_range_eq p'_def p_def [symmetric])
  qed
  moreover have "da_list p' = take off (da_list pda) @ base @ drop (off + nrmv) (da_list pda)"
  proof -
    have "take off J = take off I" using room by (simp add: J_def)
    moreover have "take off (da_list pda) = take off I" using le by (simp add: l min_def)
    moreover have "take (length xs) (drop (off + ?n) J) = xs"
    proof (cases "?n = nrmv")
      case True
      then show ?thesis using xs by (simp add: J_def add.commute)
    next
      case False
      then show ?thesis using room by (simp add: J_def)
    qed
    moreover have "?pos + ?n - nrmv = off + ?n + length xs" using le xs(2) by linarith
    ultimately show ?thesis using le room unfolding xs_def [symmetric] da_list_def [of p']
      by (simp add: p'_def)
  qed
  moreover have "pda_ok p'" using p(1,4,5) le room lJ by (auto simp: pda_ok_def p'_def)
  ultimately show thesis using that by blast
qed

subsection \<open>Reversal\<close>

lemma reverse_loop_spec:
  assumes "len \<le> length items"
  shows "\<exists>items'. reverse_loop items 0 len i = Some items' \<and> length items' = length items \<and>
    (\<forall>k < length items. items' ! k = (if i \<le> k \<and> k < len - i then items ! (len - 1 - k) else items ! k))"
  using assms
proof (induction "len div 2 - i" arbitrary: i items)
  case 0
  then have "\<And>k. i \<le> k \<Longrightarrow> k < len - i \<Longrightarrow> len - 1 - k = k" by linarith
  then show ?case using 0 by (auto simp: reverse_loop.simps [of items 0 len i])
next
  case (Suc n)
  define j where "j = len - 1 - i"
  have i: "i < len div 2" "j < length items" "i < j" "j < len" and n: "n = len div 2 - (i + 1)"
    using Suc by (auto simp: j_def)
  let ?items = "items[i := items ! j, j := items ! i]"
  have "len \<le> length ?items" using Suc.prems by simp
  from Suc.hyps(1) [OF n this]
  obtain items' where r: "reverse_loop ?items 0 len (i + 1) = Some items'" "length items' = length items"
    and nth: "\<And>k. k < length items \<Longrightarrow>
      items' ! k = (if i + 1 \<le> k \<and> k < len - (i + 1) then ?items ! (len - 1 - k) else ?items ! k)"
    by auto
  have "items' ! k = (if i \<le> k \<and> k < len - i then items ! (len - 1 - k) else items ! k)"
    if k: "k < length items" for k
  proof (cases "i < k \<and> k < j")
    case True
    then have "len - 1 - k \<noteq> i" "len - 1 - k \<noteq> j" "i + 1 \<le> k \<and> k < len - (i + 1)" "i \<le> k \<and> k < len - i"
      using i j_def by linarith+
    then show ?thesis using nth [OF k] by simp
  next
    case False
    then have nk: "items' ! k = ?items ! k" using nth [OF k] by (auto simp: j_def)
    consider "k = i" | "k = j" | "k \<noteq> i" "k \<noteq> j" "\<not> (i \<le> k \<and> k < len - i)"
      using False i j_def by linarith
    then show ?thesis
    proof cases
      case 1
      then have "len - 1 - k = j" "i \<le> k \<and> k < len - i" using i j_def by linarith+
      then show ?thesis using nk 1 i by simp
    next
      case 2
      then have "len - 1 - k = i" "i \<le> k \<and> k < len - i" using i j_def by linarith+
      then show ?thesis using nk 2 i by simp
    next
      case 3
      then show ?thesis unfolding nk if_not_P [OF 3(3)] by simp
    qed
  qed
  moreover have "reverse_loop items 0 len i = reverse_loop ?items 0 len (i + 1)"
    using i by (simp add: reverse_loop.simps [of items 0 len i] rd_def wr_def j_def)
  ultimately show ?case using r by (intro exI [of _ items']) auto
qed

lemma reverse_spec:
  assumes "pda_ok pda"
  obtains pda' where "psc_dynarray_reverse pda = Some pda'" "pda_ok pda'" "da_list pda' = rev (da_list pda)"
proof -
  obtain items where r: "reverse_loop (pda_items pda) 0 (pda_pos pda) 0 = Some items"
    "length items = length (pda_items pda)"
    "\<And>k. k < length (pda_items pda) \<Longrightarrow> items ! k =
       (if k < pda_pos pda then pda_items pda ! (pda_pos pda - 1 - k) else pda_items pda ! k)"
    using reverse_loop_spec [of "pda_pos pda" "pda_items pda" 0] assms by (auto simp: pda_ok_def)
  show thesis
  proof (rule that)
    show "psc_dynarray_reverse pda = Some (pda\<lparr>pda_items := items\<rparr>)"
      by (simp add: psc_dynarray_reverse_def psc_dynarray_reverse_subsequence_def r(1))
    show "pda_ok (pda\<lparr>pda_items := items\<rparr>)" using assms r(2) by (simp add: pda_ok_def)
    show "da_list (pda\<lparr>pda_items := items\<rparr>) = rev (da_list pda)"
      using assms r(2,3) by (intro nth_equalityI) (auto simp: da_list_def pda_ok_def rev_nth)
  qed
qed

subsection \<open>Binary search\<close>

lemma mid_bounds: "(lo :: int) \<le> hi \<Longrightarrow> lo \<le> (hi + lo) div 2" "(lo :: int) \<le> hi \<Longrightarrow> (hi + lo) div 2 \<le> hi"
  by auto

lemma ceil_loop_spec:
  assumes cmp: "\<And>i. i < n \<Longrightarrow> cmpf key (base ! i) = Some (c i)" and n: "n \<le> length base"
    and s: "cmp_sorted c n"
  shows "0 \<le> lo \<Longrightarrow> lo \<le> hi + 1 \<Longrightarrow> hi < int n \<Longrightarrow> (hi < lo \<Longrightarrow> mid = lo) \<Longrightarrow>
    (\<And>i. int i < lo \<Longrightarrow> 0 < c i) \<Longrightarrow> (\<And>i. hi < int i \<Longrightarrow> i < n \<Longrightarrow> c i < 0) \<Longrightarrow>
    \<exists>r. ceil_loop key base cmpf lo hi mid = Some (int r) \<and> search_result c n r"
proof (induction "nat (hi + 1 - lo)" arbitrary: lo hi mid rule: less_induct)
  case less
  note unf = ceil_loop.simps [of key base cmpf lo hi mid]
  show ?case
  proof (cases "lo \<le> hi")
    case False
    then have "ceil_loop key base cmpf lo hi mid = Some (int (nat lo))"
      unfolding unf using less.prems(1,4) by simp
    moreover have "search_result c n (nat lo)"
      using less.prems False unfolding search_result_def by (auto simp: nat_less_iff zless_nat_eq_int_zless)
    ultimately show ?thesis by blast
  next
    case True
    define m where "m = nat ((hi + lo) div 2)"
    have m: "(hi + lo) div 2 = int m" "lo \<le> int m" "int m \<le> hi" "m < n"
      using mid_bounds [OF True] less.prems(1,3) by (auto simp: m_def)
    have step: "ceil_loop key base cmpf lo hi mid =
        (if c m < 0 then ceil_loop key base cmpf lo (int m - 1) (int m)
         else if 0 < c m then ceil_loop key base cmpf (int m + 1) hi (int m + 1) else Some (int m))"
      using True m n cmp [OF m(4)] by (simp add: unf rd_def Let_def)
    consider "c m < 0" | "0 < c m" | "c m = 0" by linarith
    then show ?thesis
    proof cases
      case 1
      then have "\<And>i. int m - 1 < int i \<Longrightarrow> i < n \<Longrightarrow> c i < 0" using cmp_sortedD(1) [OF s, of m] by simp
      then show ?thesis using less.hyps [of "int m - 1" lo "int m"] less.prems m 1 by (simp add: step)
    next
      case 2
      then have "ceil_loop key base cmpf lo hi mid = ceil_loop key base cmpf (int m + 1) hi (int m + 1)"
        by (simp add: step)
      moreover have "\<And>i. int i < int m + 1 \<Longrightarrow> 0 < c i" using cmp_sortedD(2) [OF s _ m(4)] 2 by simp
      ultimately show ?thesis using less.hyps [of hi "int m + 1" "int m + 1"] less.prems m by simp
    next
      case 3
      then show ?thesis using m(4) by (auto simp: step search_result_def)
    qed
  qed
qed

lemma ceil_spec:
  assumes "\<And>i. i < n \<Longrightarrow> cmpf key (base ! i) = Some (c i)" "n \<le> length base" "cmp_sorted c n"
  obtains r where "bsearch_ceil key base n cmpf = Some (int r)" "search_result c n r"
  using ceil_loop_spec [of n cmpf key base c 0 "int n - 1" 0] assms unfolding bsearch_ceil_def by auto

lemma bsearch_loop_eq:
  assumes "pda_ok pda" "0 \<le> lo" "hi < int (pda_pos pda)"
  shows "bsearch_loop pda item cmpf lo hi mid = ceil_loop item (da_list pda) cmpf lo hi mid"
  using assms(2,3)
proof (induction "nat (hi + 1 - lo)" arbitrary: lo hi mid rule: less_induct)
  case less
  note unf = bsearch_loop.simps [of pda item cmpf lo hi mid] ceil_loop.simps [of item "da_list pda" cmpf lo hi mid]
  show ?case
  proof (cases "lo \<le> hi")
    case False
    then show ?thesis unfolding unf by simp
  next
    case True
    define m where "m = (hi + lo) div 2"
    have m: "lo \<le> m" "m \<le> hi" "0 \<le> m" using mid_bounds [OF True] less.prems(1) by (auto simp: m_def)
    have "psc_dynarray_getpos pda m = rd (da_list pda) (nat m)"
      using m less.prems assms(1) by (simp add: getpos_spec rd_def)
    moreover have "bsearch_loop pda item cmpf lo (m - 1) m = ceil_loop item (da_list pda) cmpf lo (m - 1) m"
      "bsearch_loop pda item cmpf (m + 1) hi (m + 1) = ceil_loop item (da_list pda) cmpf (m + 1) hi (m + 1)"
      using m less.prems by (intro less.hyps; simp)+
    ultimately show ?thesis using True m unfolding unf m_def [symmetric] by (simp cong: if_cong)
  qed
qed

text \<open>The search of the dynamic array is \<^const>\<open>bsearch_ceil\<close> on the items in use.\<close>

lemma bsearch_eq_ceil:
  "pda_ok pda \<Longrightarrow> psc_dynarray_bsearch pda item cmpf = bsearch_ceil item (da_list pda) (pda_pos pda) cmpf"
  unfolding psc_dynarray_bsearch_def bsearch_ceil_def by (rule bsearch_loop_eq) simp_all

lemma floor_loop_spec:
  assumes cmp: "\<And>i. i < n \<Longrightarrow> cmpf key (base ! i) = Some (c i)" and n: "n \<le> length base"
    and s: "cmp_sorted c n"
  shows "0 \<le> lo \<Longrightarrow> lo \<le> hi + 1 \<Longrightarrow> hi < int n \<Longrightarrow> (hi < lo \<Longrightarrow> mid = lo - 1) \<Longrightarrow>
    (\<And>i. int i < lo \<Longrightarrow> 0 < c i) \<Longrightarrow> (\<And>i. hi < int i \<Longrightarrow> i < n \<Longrightarrow> c i < 0) \<Longrightarrow>
    (\<exists>r < n. floor_loop key base cmpf lo hi mid = Some (int r) \<and> c r = 0) \<or>
    (\<exists>r \<le> n. floor_loop key base cmpf lo hi mid = Some (int r - 1) \<and>
       (\<forall>i < r. 0 < c i) \<and> (\<forall>i. r \<le> i \<longrightarrow> i < n \<longrightarrow> c i < 0))"
proof (induction "nat (hi + 1 - lo)" arbitrary: lo hi mid rule: less_induct)
  case less
  note unf = floor_loop.simps [of key base cmpf lo hi mid]
  show ?case
  proof (cases "lo \<le> hi")
    case False
    then have "floor_loop key base cmpf lo hi mid = Some (int (nat lo) - 1)"
      unfolding unf using less.prems(1,4) by simp
    moreover have "nat lo \<le> n" "\<forall>i < nat lo. 0 < c i" "\<forall>i. nat lo \<le> i \<longrightarrow> i < n \<longrightarrow> c i < 0"
      using less.prems False by (auto simp: nat_less_iff zless_nat_eq_int_zless)
    ultimately show ?thesis by blast
  next
    case True
    define m where "m = nat ((hi + lo) div 2)"
    have m: "(hi + lo) div 2 = int m" "lo \<le> int m" "int m \<le> hi" "m < n"
      using mid_bounds [OF True] less.prems(1,3) by (auto simp: m_def)
    have step: "floor_loop key base cmpf lo hi mid =
        (if c m < 0 then floor_loop key base cmpf lo (int m - 1) (int m - 1)
         else if 0 < c m then floor_loop key base cmpf (int m + 1) hi (int m) else Some (int m))"
      using True m n cmp [OF m(4)] by (simp add: unf rd_def Let_def)
    consider "c m < 0" | "0 < c m" | "c m = 0" by linarith
    then show ?thesis
    proof cases
      case 1
      then have "floor_loop key base cmpf lo hi mid = floor_loop key base cmpf lo (int m - 1) (int m - 1)"
        by (simp add: step)
      moreover have "\<And>i. int m - 1 < int i \<Longrightarrow> i < n \<Longrightarrow> c i < 0" using cmp_sortedD(1) [OF s, of m] 1 by simp
      ultimately show ?thesis using less.hyps [of "int m - 1" lo "int m - 1"] less.prems m by simp
    next
      case 2
      then have "floor_loop key base cmpf lo hi mid = floor_loop key base cmpf (int m + 1) hi (int m)"
        by (simp add: step)
      moreover have "\<And>i. int i < int m + 1 \<Longrightarrow> 0 < c i" using cmp_sortedD(2) [OF s _ m(4)] 2 by simp
      ultimately show ?thesis using less.hyps [of hi "int m + 1" "int m"] less.prems m by simp
    next
      case 3
      then show ?thesis using m(4) by (auto simp: step)
    qed
  qed
qed

subsection \<open>The sorted array interface\<close>

lemma da_search:
  assumes "pda_ok pda" "cmp_sorted (\<lambda>i. c (da_list pda ! i)) (length (da_list pda))"
  shows "\<exists>r. map_option nat (psc_dynarray_bsearch pda () (\<lambda>_ p. Some (c p))) = Some r \<and>
    search_result (\<lambda>i. c (da_list pda ! i)) (length (da_list pda)) r"
proof -
  let ?c = "\<lambda>i. c (da_list pda ! i)"
  obtain r where "bsearch_ceil () (da_list pda) (pda_pos pda) (\<lambda>_ p. Some (c p)) = Some (int r)"
    "search_result ?c (pda_pos pda) r"
    using ceil_spec [of "pda_pos pda" "\<lambda>_ p. Some (c p)" "()" "da_list pda" ?c] assms by auto
  then show ?thesis using assms(1) by (simp add: bsearch_eq_ceil)
qed

interpretation da: sorted_array da_list pda_ok
  "\<lambda>c pda. map_option nat (psc_dynarray_bsearch pda () (\<lambda>_ p. Some (c p)))"
  "\<lambda>pda r x. psc_dynarray_splice pda r 0 [x] 1" "\<lambda>pda r. psc_dynarray_splice pda r 1 [] 0"
proof unfold_locales
  fix pda :: "'a psc_dynarray" and r x
  assume ok: "pda_ok pda"
  show "\<exists>s'. psc_dynarray_splice pda r 0 [x] 1 = Some s' \<and> pda_ok s' \<and> da_list s' = insert_nth r x (da_list pda)"
    if "r \<le> length (da_list pda)"
    using that ok splice_spec [of pda r 0 "[x]"] by (auto simp: insert_nth_def)
  show "\<exists>s'. psc_dynarray_splice pda r 1 [] 0 = Some s' \<and> pda_ok s' \<and> da_list s' = remove_nth r (da_list pda)"
    if "r < length (da_list pda)"
    using that ok splice_spec [of pda r 1 "[]"] by (auto simp: remove_nth_def)
qed (rule da_search)

text \<open>The search only depends on how the key compares with the items in use.\<close>

lemma ceil_loop_cong:
  assumes "\<And>i. i < n \<Longrightarrow> cmpf key (base ! i) = cmpf' key' (base ! i)" "n \<le> length base"
  shows "0 \<le> lo \<Longrightarrow> hi < int n \<Longrightarrow> ceil_loop key base cmpf lo hi mid = ceil_loop key' base cmpf' lo hi mid"
proof (induction "nat (hi + 1 - lo)" arbitrary: lo hi mid rule: less_induct)
  case less
  note unf = ceil_loop.simps [of key base cmpf lo hi mid] ceil_loop.simps [of key' base cmpf' lo hi mid]
  show ?case
  proof (cases "lo \<le> hi")
    case False
    then show ?thesis unfolding unf by simp
  next
    case True
    define m where "m = (hi + lo) div 2"
    have m: "lo \<le> m" "m \<le> hi" "0 \<le> m" "nat m < n"
      using mid_bounds [OF True] less.prems by (auto simp: m_def nat_less_iff)
    have "rd base (nat m) = Some (base ! nat m)" using m(4) assms(2) by (simp add: rd_def)
    moreover have "ceil_loop key base cmpf lo (m - 1) m = ceil_loop key' base cmpf' lo (m - 1) m"
      "ceil_loop key base cmpf (m + 1) hi (m + 1) = ceil_loop key' base cmpf' (m + 1) hi (m + 1)"
      using m less.prems by (intro less.hyps; simp)+
    ultimately show ?thesis using True m assms(1) [OF m(4)] unfolding unf m_def [symmetric]
      by (simp cong: if_cong)
  qed
qed

lemma bsearch_cong:
  assumes "pda_ok pda" "\<And>p. p \<in> set (da_list pda) \<Longrightarrow> cmpf key p = cmpf' key' p"
  shows "psc_dynarray_bsearch pda key cmpf = psc_dynarray_bsearch pda key' cmpf'"
  unfolding bsearch_eq_ceil [OF assms(1)] bsearch_ceil_def
  by (rule ceil_loop_cong [where n = "pda_pos pda"]) (use assms in \<open>auto intro: nth_mem\<close>)

lemma registry_search:
  assumes keyed: "da.keyed k pda" and cmp: "\<And>p. p \<in> set (da_list pda) \<Longrightarrow> cmpf key p = Some (CMP key' (k p))"
  obtains r where "psc_dynarray_bsearch pda key cmpf = Some (int r)" "r \<le> pda_pos pda"
    "\<And>i. i < r \<Longrightarrow> k (da_list pda ! i) < key'" "\<And>i. r \<le> i \<Longrightarrow> i < pda_pos pda \<Longrightarrow> key' \<le> k (da_list pda ! i)"
    "key' \<in> k ` set (da_list pda) \<longleftrightarrow> r < pda_pos pda \<and> k (da_list pda ! r) = key'"
proof -
  have ok: "pda_ok pda" and s: "sorted_wrt (<) (map k (da_list pda))"
    using keyed by (simp_all add: da.keyed_def)
  have eq: "psc_dynarray_bsearch pda key cmpf = psc_dynarray_bsearch pda () (\<lambda>_ p. Some (CMP key' (k p)))"
    by (rule bsearch_cong [OF ok]) (rule cmp)
  obtain r' where r': "psc_dynarray_bsearch pda () (\<lambda>_ p. Some (CMP key' (k p))) = Some (int r')"
    using ceil_spec [of "pda_pos pda" "\<lambda>_ p. Some (CMP key' (k p))" "()" "da_list pda" "\<lambda>i. CMP key' (k (da_list pda ! i))"]
      cmp_sorted_keys [OF s, of key'] ok by (auto simp: bsearch_eq_ceil)
  from da.search_key [OF keyed, of key'] obtain r where
    "map_option nat (psc_dynarray_bsearch pda () (\<lambda>_ p. Some (CMP key' (k p)))) = Some r"
    "r \<le> length (da_list pda)" "\<And>i. i < r \<Longrightarrow> k (da_list pda ! i) < key'"
    "\<And>i. r \<le> i \<Longrightarrow> i < length (da_list pda) \<Longrightarrow> key' \<le> k (da_list pda ! i)"
    "key' \<in> k ` set (da_list pda) \<longleftrightarrow> r < length (da_list pda) \<and> k (da_list pda ! r) = key'" by blast
  then show thesis using that r' eq ok by simp
qed

subsection \<open>Properties\<close>

text \<open>
  Searching a dynamic array that is sorted for the comparison routine returns the position
  of an equal item if there is one, and otherwise the position at which inserting the key keeps
  the order; the loop ends and reads only items in use.
\<close>

theorem dynarray_search:
  assumes "pda_ok pda" "\<And>i. i < pda_pos pda \<Longrightarrow> cmpf key (da_list pda ! i) = Some (c i)"
    and "cmp_sorted c (pda_pos pda)"
  shows "\<exists>r. psc_dynarray_bsearch pda key cmpf = Some (int r) \<and> search_result c (pda_pos pda) r"
  using ceil_spec [of "pda_pos pda" cmpf key "da_list pda" c] assms
  by (metis bsearch_eq_ceil length_da_list order_refl)

lemma tens_facts:
  "pda_ok tens" "da_list tens = [Some 10, Some 20, Some 30]" "pda_pos tens = 3"
  by (simp_all add: tens_def pda_ok_def da_list_def)

lemma tens_cmp:
  "i < 3 \<Longrightarrow> num_cmp k ([Some 10, Some 20, Some 30] ! i) = Some (int k - int ([10, 20, 30] ! i))"
  "cmp_sorted (\<lambda>i. int k - int ([10, 20, 30] ! i)) 3"
  by (auto simp: num_cmp_def cmp_sorted_def less_Suc_eq numeral_3_eq_3 nth_Cons split: nat.splits)

theorem dynarray_search_witness:
  "\<exists>r. psc_dynarray_bsearch tens 25 num_cmp = Some (int r) \<and>
     search_result (\<lambda>i. 25 - int ([10, 20, 30] ! i)) 3 r"
  using dynarray_search [of tens num_cmp 25 "\<lambda>i. 25 - int ([10, 20, 30] ! i)"] tens_facts tens_cmp(1) [of _ 25] tens_cmp(2) [of 25]
  by simp

text \<open>
  \<^verbatim>\<open>bsearch_floor\<close> on a non-empty sorted array returns an equal entry, or else the position of
  the last entry that is less than the key, which is -1 when there is none.
\<close>

theorem floor_search:
  assumes "\<And>i. i < n \<Longrightarrow> cmpf key (base ! i) = Some (c i)" "0 < n" "n \<le> length base" "cmp_sorted c n"
  shows "(\<exists>r < n. bsearch_floor key base n cmpf = Some (int r) \<and> c r = 0) \<or>
    (\<exists>r \<le> n. bsearch_floor key base n cmpf = Some (int r - 1) \<and>
       (\<forall>i < r. 0 < c i) \<and> (\<forall>i. r \<le> i \<longrightarrow> i < n \<longrightarrow> c i < 0))"
  using floor_loop_spec [of n cmpf key base c 0 "int n - 1" 0] assms unfolding bsearch_floor_def by simp

theorem floor_search_witness:
  "bsearch_floor 5 [Some 10, Some 20, Some 30] 3 num_cmp = Some (-1)"
proof -
  let ?c = "\<lambda>i. 5 - int ([10, 20, 30] ! i)"
  have "\<exists>r \<le> 3. bsearch_floor 5 [Some 10, Some 20, Some 30] 3 num_cmp = Some (int r - 1) \<and> (\<forall>i < r. 0 < ?c i)"
  proof -
    have "?c r \<noteq> 0" if "r < 3" for r
    proof -
      have "r = 0 \<or> r = 1 \<or> r = 2" using that by linarith
      then show ?thesis by auto
    qed
    then show ?thesis
      using floor_search [of 3 num_cmp 5 "[Some 10, Some 20, Some 30]" ?c] tens_cmp(1) [of _ 5] tens_cmp(2) [of 5]
      by auto
  qed
  then obtain r where r: "bsearch_floor 5 [Some 10, Some 20, Some 30] 3 num_cmp = Some (int r - 1)"
    "\<forall>i < r. 0 < ?c i" by blast
  have "r = 0" using r(2) [rule_format, of 0] by auto
  then show ?thesis using r(1) by simp
qed

text \<open>
  Splicing replaces the given section of the array by the given items, when it only inserts
  or does not add more items than it removes.
\<close>

theorem dynarray_splice:
  assumes "pda_ok pda" "off + nrmv \<le> pda_pos pda" "nrmv = 0 \<or> length base \<le> nrmv"
  shows "\<exists>pda'. psc_dynarray_splice pda off (int nrmv) base (int (length base)) = Some pda' \<and>
    pda_ok pda' \<and> da_list pda' = take off (da_list pda) @ base @ drop (off + nrmv) (da_list pda)"
  using splice_spec [OF assms] by blast

theorem dynarray_splice_witness:
  "\<exists>pda'. psc_dynarray_splice tens 1 (int 1) [Some 15] (int (length [Some 15])) = Some pda' \<and>
     da_list pda' = [Some 10, Some 15, Some 30]"
  using dynarray_splice [of tens 1 1 "[Some 15]"] tens_facts by fastforce

text \<open>
  Splicing more items in than it removes moves the remaining items to the wrong place: replacing
  the first of three items by two loses the second one and leaves a null pointer at the end.
\<close>

theorem dynarray_splice_loses:
  "\<exists>pda'. psc_dynarray_splice tens 0 1 [Some 8, Some 9] 2 = Some pda' \<and>
     da_list pda' = [Some 8, Some 9, Some 30, None]"
  by (simp add: tens_def psc_dynarray_splice_def psc_dynarray_ensurelen_def Let_def get_range_def
      put_range_def da_list_def numeral_eq_Suc)

text \<open>
  Reversing a whole array reverses its items. Reversing a subsequence that does not start at
  position 0 does not: two items at position 1 stay as they are.
\<close>

theorem dynarray_reverse:
  assumes "pda_ok pda"
  shows "(\<exists>pda'. psc_dynarray_reverse pda = Some pda' \<and> pda_ok pda' \<and> da_list pda' = rev (da_list pda)) \<and>
    psc_dynarray_reverse_subsequence pda 1 2 = Some pda"
proof -
  have "reverse_loop (pda_items pda) 1 2 1 = Some (pda_items pda)" by (simp add: reverse_loop.simps)
  then show ?thesis using reverse_spec [OF assms] by (auto simp: psc_dynarray_reverse_subsequence_def)
qed

theorem dynarray_reverse_witness:
  "\<exists>pda'. psc_dynarray_reverse tens = Some pda' \<and> da_list pda' = [Some 30, Some 20, Some 10]"
  using dynarray_reverse [of tens] tens_facts by auto

end
