(* ===== verification/Fault.thy ===== *)
theory Fault
  imports Dynarray "HOL-Library.Sublist"
begin

text \<open>
  Fault injection points (\<^verbatim>\<open>src/pfl/fault.c\<close>): the registry of named points kept in a sorted
  dynamic array, the decision whether a point fires, and the control interface that reads and
  sets its parameters. Pointers to fault points are addresses into \<open>flt_mem\<close>.
\<close>

subsection \<open>Definitions\<close>

record pfl_fault =
  pflt_name :: string
  pflt_flags :: u32
  pflt_hits :: int
  pflt_unhits :: int
  pflt_skips :: int
  pflt_interval :: int
  pflt_delay :: int
  pflt_count :: int
  pflt_begin :: int
  pflt_chance :: int
  pflt_retval :: int

record faults =
  pfl_faults :: "nat psc_dynarray"
  flt_mem :: "nat \<Rightarrow> pfl_fault"
  flt_next :: nat

definition PFL_FAULT_NAME_MAX :: nat where "PFL_FAULT_NAME_MAX = 32"
definition PFLTF_ACTIVE :: u32 where "PFLTF_ACTIVE = 1"

definition pfl_fault_cmp :: "(nat \<Rightarrow> pfl_fault) \<Rightarrow> string \<Rightarrow> nat option \<Rightarrow> int option" where
  "pfl_fault_cmp mem a p = map_option (\<lambda>y. strcmp a (pflt_name (mem y))) p"

definition pfl_fault_destroy :: "faults \<Rightarrow> int \<Rightarrow> faults option" where
  "pfl_fault_destroy st pos =
     do {
       flt \<leftarrow> psc_dynarray_getpos (pfl_faults st) pos;
       arr \<leftarrow> psc_dynarray_splice (pfl_faults st) (nat pos) 1 [] 0;
       Some (st\<lparr>pfl_faults := arr\<rparr>)
     }"

definition new_fault :: "string \<Rightarrow> pfl_fault" where
  "new_fault name = \<lparr>pflt_name = name, pflt_flags = 0, pflt_hits = 0, pflt_unhits = 0,
     pflt_skips = 0, pflt_interval = 0, pflt_delay = 0, pflt_count = -1, pflt_begin = 0,
     pflt_chance = 100, pflt_retval = 0\<rparr>"

text \<open>
  \<open>name\<close> is the formatted name, which \<^verbatim>\<open>vsnprintf\<close> cuts to the size of its buffer. The pointer
  \<open>flt\<close> keeps what was read at \<open>pos\<close> when the names differ.
\<close>

definition pfl_fault_get :: "bool \<Rightarrow> string \<Rightarrow> faults \<Rightarrow> (faults \<times> nat option) option" where
  "pfl_fault_get populate name st =
     do {
       let name = take (PFL_FAULT_NAME_MAX - 1) name;
       pos \<leftarrow> psc_dynarray_bsearch (pfl_faults st) name (pfl_fault_cmp (flt_mem st));
       (flt, found) \<leftarrow>
         (if pos < int (pda_pos (pfl_faults st)) then do {
            p \<leftarrow> psc_dynarray_getpos (pfl_faults st) pos;
            a \<leftarrow> p;
            Some (Some a, strcmp (pflt_name (flt_mem st a)) name = 0)
          } else Some (None, False));
       if found then Some (st, flt)
       else if \<not> populate then Some (st, flt)
       else do {
         let a = flt_next st;
         let mem = (flt_mem st)(a := new_fault name);
         arr \<leftarrow> psc_dynarray_splice (pfl_faults st) (nat pos) 0 [Some a] 1;
         Some (st\<lparr>pfl_faults := arr, flt_mem := mem, flt_next := a + 1\<rparr>, Some a)
       }
     }"

text \<open>
  \<open>rnd\<close> is the value \<^verbatim>\<open>psc_random32u(100)\<close> returns, \<open>rcp\<close> the variable the caller passes a
  pointer to, if any. The result adds whether the point fired and how long it sleeps.
\<close>

definition pfl_fault_here ::
  "int \<Rightarrow> pfl_fault \<Rightarrow> int option \<Rightarrow> int \<Rightarrow> pfl_fault \<times> int option \<times> int \<times> bool" where
  "pfl_fault_here rnd flt rcp rc =
     (let out = (\<lambda>flt. (flt\<lparr>pflt_unhits := pflt_unhits flt + 1\<rparr>, rcp, 0, False));
          act = (\<lambda>flt. (flt\<lparr>pflt_hits := pflt_hits flt + 1\<rparr>,
                        map_option (\<lambda>_. if pflt_retval flt \<noteq> 0 then pflt_retval flt else rc) rcp,
                        pflt_delay flt, True))
      in if pflt_unhits flt < pflt_begin flt then out flt
         else if pflt_count flt \<ge> 0 \<and> pflt_hits flt \<ge> pflt_count flt then out flt
         else if pflt_count flt < 0 \<and> pflt_chance flt < rnd then out flt
         else if pflt_interval flt \<noteq> 0 then
           if pflt_skips flt < pflt_interval flt then out (flt\<lparr>pflt_skips := pflt_skips flt + 1\<rparr>)
           else act (flt\<lparr>pflt_skips := 0\<rparr>)
         else act flt)"

subsection \<open>The control interface\<close>

record psc_ctlmsg_fault =
  pcflt_thrname :: string
  pcflt_name :: string
  pcflt_flags :: u32
  pcflt_hits :: u32
  pcflt_unhits :: u32
  pcflt_delay :: u32
  pcflt_count :: u32
  pcflt_begin :: u32
  pcflt_retval :: u32
  pcflt_chance :: u8
  pcflt_interval :: u32

text \<open>
  The replies to a \<^verbatim>\<open>getfault\<close> request; \<open>send\<close> is the return code of sending one and \<open>senderr\<close>
  that of sending the error. The loop returns the replies, whether a point matched and the last
  return code.
\<close>

definition getfault_msg :: "psc_ctlmsg_fault \<Rightarrow> pfl_fault \<Rightarrow> psc_ctlmsg_fault" where
  "getfault_msg pcflt flt = pcflt\<lparr>pcflt_name := pflt_name flt, pcflt_flags := pflt_flags flt,
     pcflt_hits := word_of_int (pflt_hits flt), pcflt_unhits := word_of_int (pflt_unhits flt),
     pcflt_delay := word_of_int (pflt_delay flt), pcflt_count := word_of_int (pflt_count flt),
     pcflt_begin := word_of_int (pflt_begin flt), pcflt_retval := word_of_int (pflt_retval flt),
     pcflt_chance := word_of_int (pflt_chance flt)\<rparr>"

fun getfault_loop ::
  "(psc_ctlmsg_fault \<Rightarrow> int) \<Rightarrow> psc_ctlmsg_fault \<Rightarrow> string \<Rightarrow> faults \<Rightarrow> nat list \<Rightarrow> bool \<Rightarrow> int \<Rightarrow>
     (psc_ctlmsg_fault list \<times> bool \<times> int) option" where
  "getfault_loop send pcflt name st [] found rc = Some ([], found, rc)"
| "getfault_loop send pcflt name st (i # js) found rc =
     do {
       p \<leftarrow> psc_dynarray_getpos (pfl_faults st) (int i);
       a \<leftarrow> p;
       let flt = flt_mem st a;
       if name = [] \<or> take (length name) (pflt_name flt) = name then do {
         let msg = getfault_msg pcflt flt;
         let rc = send msg;
         if rc = 0 then Some ([msg], True, rc)
         else if strcmp (pflt_name flt) name = 0 then Some ([msg], True, rc)
         else do {
           (rs, found, rc) \<leftarrow> getfault_loop send msg name st js True rc;
           Some (msg # rs, found, rc)
         }
       }
       else getfault_loop send pcflt name st js found rc
     }"

definition psc_ctlrep_getfault ::
  "(psc_ctlmsg_fault \<Rightarrow> int) \<Rightarrow> int \<Rightarrow> psc_ctlmsg_fault \<Rightarrow> faults \<Rightarrow>
     (psc_ctlmsg_fault list \<times> bool \<times> int) option" where
  "psc_ctlrep_getfault send senderr pcflt st =
     do {
       let name = take (PFL_FAULT_NAME_MAX - 1) (pcflt_name pcflt);
       (rs, found, rc) \<leftarrow> getfault_loop send pcflt name st [0..<pda_pos (pfl_faults st)] False 1;
       if rc \<noteq> 0 \<and> \<not> found \<and> name \<noteq> [] then Some (rs, True, senderr)
       else Some (rs, False, rc)
     }"

datatype fault_field =
  F_active | F_delay | F_count | F_begin | F_chance | F_retval | F_interval | F_hits | F_unhits

fun field_name :: "fault_field \<Rightarrow> string" where
  "field_name F_active = ''active''"
| "field_name F_delay = ''delay''"
| "field_name F_count = ''count''"
| "field_name F_begin = ''begin''"
| "field_name F_chance = ''chance''"
| "field_name F_retval = ''retval''"
| "field_name F_interval = ''interval''"
| "field_name F_hits = ''hits''"
| "field_name F_unhits = ''unhits''"

fun field_get :: "fault_field \<Rightarrow> pfl_fault \<Rightarrow> int" where
  "field_get F_active flt = (if pflt_flags flt AND PFLTF_ACTIVE \<noteq> 0 then 1 else 0)"
| "field_get F_delay flt = pflt_delay flt"
| "field_get F_count flt = pflt_count flt"
| "field_get F_begin flt = pflt_begin flt"
| "field_get F_chance flt = pflt_chance flt"
| "field_get F_retval flt = pflt_retval flt"
| "field_get F_interval flt = pflt_interval flt"
| "field_get F_hits flt = pflt_hits flt"
| "field_get F_unhits flt = pflt_unhits flt"

text \<open>\<open>PCPF_ADD\<close> and \<open>PCPF_SUB\<close> of the request.\<close>

datatype set_mode = Set_add | Set_sub | Set_to

fun new_value :: "set_mode \<Rightarrow> int \<Rightarrow> int \<Rightarrow> int" where
  "new_value Set_add old val = old + val"
| "new_value Set_sub old val = old - val"
| "new_value Set_to old val = val"

text \<open>\<^const>\<open>None\<close>: the operation is invalid for the field.\<close>

fun field_set :: "fault_field \<Rightarrow> set_mode \<Rightarrow> int \<Rightarrow> pfl_fault \<Rightarrow> pfl_fault option" where
  "field_set F_active mode val flt =
     (if mode \<noteq> Set_to then None
      else if val \<noteq> 0 then Some (flt\<lparr>pflt_flags := pflt_flags flt OR PFLTF_ACTIVE\<rparr>)
      else Some (flt\<lparr>pflt_flags := pflt_flags flt AND NOT PFLTF_ACTIVE\<rparr>))"
| "field_set F_delay mode val flt = Some (flt\<lparr>pflt_delay := new_value mode (pflt_delay flt) val\<rparr>)"
| "field_set F_count mode val flt =
     Some (flt\<lparr>pflt_count := new_value mode (pflt_count flt) val, pflt_hits := 0\<rparr>)"
| "field_set F_begin mode val flt = Some (flt\<lparr>pflt_begin := new_value mode (pflt_begin flt) val\<rparr>)"
| "field_set F_chance mode val flt = Some (flt\<lparr>pflt_chance := new_value mode (pflt_chance flt) val\<rparr>)"
| "field_set F_retval mode val flt = Some (flt\<lparr>pflt_retval := new_value mode (pflt_retval flt) val\<rparr>)"
| "field_set F_interval mode val flt =
     Some (flt\<lparr>pflt_interval := new_value mode (pflt_interval flt) val\<rparr>)"
| "field_set F_hits mode val flt = Some (flt\<lparr>pflt_hits := new_value mode (pflt_hits flt) val\<rparr>)"
| "field_set F_unhits mode val flt = Some (flt\<lparr>pflt_unhits := new_value mode (pflt_unhits flt) val\<rparr>)"

text \<open>Replies on the control socket; \<open>send\<close> is the return code of sending one.\<close>

datatype ctl_reply = Ctl_param string string int | Ctl_err string

text \<open>
  The blocks of \<^verbatim>\<open>psc_ctlparam_faults_handle\<close>, one for each field in order; \<open>fld\<close> is
  \<^verbatim>\<open>levels[2]\<close> when the request has three levels.
\<close>

fun faults_handle_loop ::
  "(ctl_reply \<Rightarrow> int) \<Rightarrow> bool \<Rightarrow> set_mode \<Rightarrow> string option \<Rightarrow> int \<Rightarrow> fault_field list \<Rightarrow> pfl_fault \<Rightarrow>
     pfl_fault \<times> ctl_reply list \<times> int" where
  "faults_handle_loop send setp mode fld val [] flt = (flt, [], 1)"
| "faults_handle_loop send setp mode fld val (f # fs) flt =
     (if fld = None \<or> fld = Some (field_name f) then
        if fld \<noteq> None \<and> setp then
          case field_set f mode val flt of
            None \<Rightarrow> let r = Ctl_err ''invalid operation'' in (flt, [r], send r)
          | Some flt \<Rightarrow> faults_handle_loop send setp mode fld val fs flt
        else
          let r = Ctl_param (pflt_name flt) (field_name f) (field_get f flt)
          in if send r = 0 then (flt, [r], 0)
             else let (flt, rs, rc) = faults_handle_loop send setp mode fld val fs flt
                  in (flt, r # rs, rc)
      else faults_handle_loop send setp mode fld val fs flt)"

definition fault_fields :: "fault_field list" where
  "fault_fields =
     [F_active, F_delay, F_count, F_begin, F_chance, F_retval, F_interval, F_hits, F_unhits]"

definition psc_ctlparam_faults_handle ::
  "(ctl_reply \<Rightarrow> int) \<Rightarrow> bool \<Rightarrow> set_mode \<Rightarrow> string option \<Rightarrow> int \<Rightarrow> pfl_fault \<Rightarrow>
     pfl_fault \<times> ctl_reply list \<times> int" where
  "psc_ctlparam_faults_handle send setp mode fld val flt =
     faults_handle_loop send setp mode fld val fault_fields flt"

text \<open>\<^verbatim>\<open>strtol\<close> in base 10: the value and the rest of the string at \<^verbatim>\<open>endp\<close>.\<close>

definition is_space :: "char \<Rightarrow> bool" where
  "is_space c \<longleftrightarrow> c \<in> set [CHR '' '', CHR 0x09, CHR 0x0A, CHR 0x0B, CHR 0x0C, CHR 0x0D]"

definition is_digit :: "char \<Rightarrow> bool" where
  "is_digit c \<longleftrightarrow> 48 \<le> (of_char c :: nat) \<and> (of_char c :: nat) \<le> 57"

definition digits_value :: "string \<Rightarrow> int" where
  "digits_value = foldl (\<lambda>v c. 10 * v + (int (of_char c) - 48)) 0"

definition LONG_MAX :: int where "LONG_MAX = 2 ^ 63 - 1"
definition LONG_MIN :: int where "LONG_MIN = - (2 ^ 63)"
definition INT_MAX :: int where "INT_MAX = 2 ^ 31 - 1"

definition strtol10 :: "string \<Rightarrow> int \<times> string" where
  "strtol10 s =
     (let t = dropWhile is_space s;
          neg = (case t of [] \<Rightarrow> False | c # _ \<Rightarrow> c = CHR ''-'');
          u = (case t of [] \<Rightarrow> [] | c # t' \<Rightarrow> if c = CHR ''-'' \<or> c = CHR ''+'' then t' else t);
          v = digits_value (takeWhile is_digit u);
          v = (if neg then - v else v)
      in if takeWhile is_digit u = [] then (0, s)
         else (if v > LONG_MAX then LONG_MAX else if v < LONG_MIN then LONG_MIN else v,
               dropWhile is_digit u))"

fun faults_loop ::
  "(ctl_reply \<Rightarrow> int) \<Rightarrow> faults \<Rightarrow> nat list \<Rightarrow> (ctl_reply list \<times> int) option" where
  "faults_loop send st [] = Some ([], 1)"
| "faults_loop send st (j # js) =
     do {
       p \<leftarrow> psc_dynarray_getpos (pfl_faults st) (int j);
       a \<leftarrow> p;
       let (_, rs, rc) = psc_ctlparam_faults_handle send False Set_to None 0 (flt_mem st a);
       if rc = 0 then Some (rs, rc)
       else if js = [] then Some (rs, rc)
       else do {
         (rs', rc) \<leftarrow> faults_loop send st js;
         Some (rs @ rs', rc)
       }
     }"

text \<open>
  \<open>levels\<close> is the path of the parameter (its second level is used as a format string, so a percent
  sign in it makes \<^verbatim>\<open>vsnprintf\<close> read an argument that is not there), \<open>everyone\<close> whether the request names no thread, and
  \<open>setp\<close> whether it is a \<^verbatim>\<open>PCMT_SETPARAM\<close> message, with the text \<open>value\<close>.
\<close>

definition psc_ctlparam_faults ::
  "(ctl_reply \<Rightarrow> int) \<Rightarrow> bool \<Rightarrow> string list \<Rightarrow> bool \<Rightarrow> set_mode \<Rightarrow> string \<Rightarrow> faults \<Rightarrow>
     (faults \<times> ctl_reply list \<times> int) option" where
  "psc_ctlparam_faults send everyone levels setp mode value st =
     (let err = (\<lambda>msg. let r = Ctl_err msg in Some (st, [r], send r));
          (val, rest) = strtol10 value
      in if length levels > 3 then err ''invalid field''
         else if \<not> everyone then err ''invalid thread field''
         else if length levels = 3 \<and> levels ! 2 \<notin> field_name ` set fault_fields then
           err ''invalid faults field''
         else if setp \<and> length levels \<noteq> 3 then err ''invalid operation''
         else if setp \<and> (val = LONG_MIN \<or> val = LONG_MAX \<or> val > INT_MAX \<or> val < 0 \<or>
                         rest = value \<or> rest \<noteq> []) then err ''invalid fault point value''
         else if length levels = 1 then
           do {
             (rs, rc) \<leftarrow> faults_loop send st [0..<pda_pos (pfl_faults st)];
             Some (st, rs, rc)
           }
         else
           do {
             psc_assert (2 \<le> length levels \<and> CHR ''%'' \<notin> set (levels ! 1));
             (st, p) \<leftarrow> pfl_fault_get setp (levels ! 1) st;
             (case p of
                None \<Rightarrow> let r = Ctl_err ''unknown fault point'' in Some (st, [r], send r)
              | Some a \<Rightarrow>
                  let (flt, rs, rc) = psc_ctlparam_faults_handle send setp mode
                        (if length levels = 3 then Some (levels ! 2) else None) val (flt_mem st a)
                  in Some (st\<lparr>flt_mem := (flt_mem st)(a := flt)\<rparr>, rs, rc))
           })"

text \<open>Decimal printing, as \<^verbatim>\<open>snprintf("%d")\<close> of a value that is not negative.\<close>

fun dec :: "nat \<Rightarrow> string" where
  "dec n = (if n < 10 then [] else dec (n div 10)) @ [char_of (48 + n mod 10)]"

declare dec.simps [simp del]

text \<open>The registry: pointers to live fault points, with strictly increasing names.\<close>

definition fault_key :: "(nat \<Rightarrow> pfl_fault) \<Rightarrow> nat option \<Rightarrow> string" where
  "fault_key mem p = pflt_name (mem (the p))"

definition faults_ok :: "faults \<Rightarrow> bool" where
  "faults_ok st \<longleftrightarrow> da.keyed (fault_key (flt_mem st)) (pfl_faults st) \<and>
     (\<forall>p \<in> set (da_list (pfl_faults st)). \<exists>a < flt_next st. p = Some a)"

definition registered :: "faults \<Rightarrow> nat set" where
  "registered st = {a. Some a \<in> set (da_list (pfl_faults st))}"

definition no_faults :: faults where
  "no_faults = \<lparr>pfl_faults = psc_dynarray_initf 0, flt_mem = (\<lambda>_. new_fault []), flt_next = 0\<rparr>"

text \<open>\<open>n\<close> passes through a fault point.\<close>

primrec fault_run :: "(nat \<Rightarrow> int) \<Rightarrow> nat \<Rightarrow> pfl_fault \<Rightarrow> pfl_fault" where
  "fault_run rnd 0 flt = flt"
| "fault_run rnd (Suc n) flt = fst (pfl_fault_here (rnd n) (fault_run rnd n flt) None 0)"

subsection \<open>The registry\<close>

lemma fault_search:
  assumes "faults_ok st"
  obtains r where "psc_dynarray_bsearch (pfl_faults st) name (pfl_fault_cmp (flt_mem st)) = Some (int r)"
    "r \<le> pda_pos (pfl_faults st)"
    "\<And>i. i < r \<Longrightarrow> fault_key (flt_mem st) (da_list (pfl_faults st) ! i) < name"
    "\<And>i. r \<le> i \<Longrightarrow> i < pda_pos (pfl_faults st) \<Longrightarrow> name \<le> fault_key (flt_mem st) (da_list (pfl_faults st) ! i)"
    "name \<in> fault_key (flt_mem st) ` set (da_list (pfl_faults st)) \<longleftrightarrow>
       r < pda_pos (pfl_faults st) \<and> fault_key (flt_mem st) (da_list (pfl_faults st) ! r) = name"
proof (rule registry_search [of "fault_key (flt_mem st)" "pfl_faults st" "pfl_fault_cmp (flt_mem st)" name name])
  show "da.keyed (fault_key (flt_mem st)) (pfl_faults st)" using assms by (simp add: faults_ok_def)
  fix p assume "p \<in> set (da_list (pfl_faults st))"
  then obtain a where "p = Some a" using assms by (auto simp: faults_ok_def)
  then show "pfl_fault_cmp (flt_mem st) name p = Some (CMP name (fault_key (flt_mem st) p))"
    by (simp add: pfl_fault_cmp_def fault_key_def strcmp_def)
qed (rule that)

lemma faults_okD:
  assumes "faults_ok st"
  shows "pda_ok (pfl_faults st)" "sorted_wrt (<) (map (fault_key (flt_mem st)) (da_list (pfl_faults st)))"
    "\<And>p. p \<in> set (da_list (pfl_faults st)) \<Longrightarrow> \<exists>a < flt_next st. p = Some a"
  using assms by (auto simp: faults_ok_def da.keyed_def)

lemma registered_key:
  assumes "faults_ok st"
  shows "nm \<in> fault_key (flt_mem st) ` set (da_list (pfl_faults st)) \<longleftrightarrow>
    (\<exists>a \<in> registered st. pflt_name (flt_mem st a) = nm)"
proof
  assume "nm \<in> fault_key (flt_mem st) ` set (da_list (pfl_faults st))"
  then obtain p where p: "p \<in> set (da_list (pfl_faults st))" "nm = fault_key (flt_mem st) p" by blast
  then obtain a where "p = Some a" using faults_okD(3) [OF assms] by blast
  then show "\<exists>a \<in> registered st. pflt_name (flt_mem st a) = nm"
    using p by (auto simp: registered_def fault_key_def)
next
  assume "\<exists>a \<in> registered st. pflt_name (flt_mem st a) = nm"
  then obtain a where "Some a \<in> set (da_list (pfl_faults st))" "pflt_name (flt_mem st a) = nm"
    by (auto simp: registered_def)
  then show "nm \<in> fault_key (flt_mem st) ` set (da_list (pfl_faults st))"
    by (intro image_eqI [of _ _ "Some a"]) (simp_all add: fault_key_def)
qed

lemma faults_nth:
  assumes "faults_ok st" "i < pda_pos (pfl_faults st)"
  obtains a where "da_list (pfl_faults st) ! i = Some a" "a \<in> registered st" "a < flt_next st"
proof -
  have "da_list (pfl_faults st) ! i \<in> set (da_list (pfl_faults st))"
    using assms faults_okD(1) [OF assms(1)] by simp
  then show thesis using that faults_okD(3) [OF assms(1)] unfolding registered_def by fastforce
qed

text \<open>A lookup either finds the point of that name, or yields what stands at the insertion point.\<close>

lemma fault_get_eq:
  assumes ok: "faults_ok st" and nm: "nm = take (PFL_FAULT_NAME_MAX - 1) name"
  obtains r where "r \<le> pda_pos (pfl_faults st)"
    "\<And>i. i < r \<Longrightarrow> fault_key (flt_mem st) (da_list (pfl_faults st) ! i) < nm"
    "\<And>i. r \<le> i \<Longrightarrow> i < pda_pos (pfl_faults st) \<Longrightarrow> nm \<le> fault_key (flt_mem st) (da_list (pfl_faults st) ! i)"
    "(\<exists>a \<in> registered st. pflt_name (flt_mem st a) = nm) \<longleftrightarrow>
       r < pda_pos (pfl_faults st) \<and> fault_key (flt_mem st) (da_list (pfl_faults st) ! r) = nm"
    "pfl_fault_get populate name st =
       (if (\<exists>a \<in> registered st. pflt_name (flt_mem st a) = nm) \<or> \<not> populate then
          Some (st, if r < pda_pos (pfl_faults st) then da_list (pfl_faults st) ! r else None)
        else do {
          arr \<leftarrow> psc_dynarray_splice (pfl_faults st) r 0 [Some (flt_next st)] 1;
          Some (st\<lparr>pfl_faults := arr, flt_mem := (flt_mem st)(flt_next st := new_fault nm),
                   flt_next := flt_next st + 1\<rparr>,
                Some (flt_next st))
        })"
proof (rule fault_search [OF ok, of nm])
  fix r
  assume b: "psc_dynarray_bsearch (pfl_faults st) nm (pfl_fault_cmp (flt_mem st)) = Some (int r)"
    and r: "r \<le> pda_pos (pfl_faults st)"
      "\<And>i. i < r \<Longrightarrow> fault_key (flt_mem st) (da_list (pfl_faults st) ! i) < nm"
      "\<And>i. r \<le> i \<Longrightarrow> i < pda_pos (pfl_faults st) \<Longrightarrow> nm \<le> fault_key (flt_mem st) (da_list (pfl_faults st) ! i)"
    and mem: "nm \<in> fault_key (flt_mem st) ` set (da_list (pfl_faults st)) \<longleftrightarrow>
       r < pda_pos (pfl_faults st) \<and> fault_key (flt_mem st) (da_list (pfl_faults st) ! r) = nm"
  note mem = mem [unfolded registered_key [OF ok]]
  show thesis
  proof (rule that [OF r mem])
    show "pfl_fault_get populate name st =
       (if (\<exists>a \<in> registered st. pflt_name (flt_mem st a) = nm) \<or> \<not> populate then
          Some (st, if r < pda_pos (pfl_faults st) then da_list (pfl_faults st) ! r else None)
        else do {
          arr \<leftarrow> psc_dynarray_splice (pfl_faults st) r 0 [Some (flt_next st)] 1;
          Some (st\<lparr>pfl_faults := arr, flt_mem := (flt_mem st)(flt_next st := new_fault nm),
                   flt_next := flt_next st + 1\<rparr>,
                Some (flt_next st))
        })"
    proof (cases "r < pda_pos (pfl_faults st)")
      case True
      obtain a where a: "da_list (pfl_faults st) ! r = Some a" using faults_nth [OF ok True] .
      show ?thesis unfolding mem pfl_fault_get_def nm [symmetric] Let_def
        using True a faults_okD(1) [OF ok] by (simp add: b getpos_spec fault_key_def strcmp_def)
    next
      case False
      then show ?thesis unfolding mem pfl_fault_get_def nm [symmetric] Let_def by (simp add: b)
    qed
  qed
qed

lemma fault_get_found:
  assumes "faults_ok st" "a \<in> registered st" "pflt_name (flt_mem st a) = take (PFL_FAULT_NAME_MAX - 1) name"
  shows "pfl_fault_get populate name st = Some (st, Some a)"
proof (rule fault_get_eq [OF assms(1) refl, of name populate])
  let ?l = "da_list (pfl_faults st)" and ?nm = "take (PFL_FAULT_NAME_MAX - 1) name"
  fix r
  assume mem: "(\<exists>a \<in> registered st. pflt_name (flt_mem st a) = ?nm) \<longleftrightarrow>
       r < pda_pos (pfl_faults st) \<and> fault_key (flt_mem st) (?l ! r) = ?nm"
    and eq: "pfl_fault_get populate name st =
       (if (\<exists>a \<in> registered st. pflt_name (flt_mem st a) = ?nm) \<or> \<not> populate then
          Some (st, if r < pda_pos (pfl_faults st) then ?l ! r else None)
        else do {
          arr \<leftarrow> psc_dynarray_splice (pfl_faults st) r 0 [Some (flt_next st)] 1;
          Some (st\<lparr>pfl_faults := arr, flt_mem := (flt_mem st)(flt_next st := new_fault ?nm),
                   flt_next := flt_next st + 1\<rparr>, Some (flt_next st))
        })"
  have ex: "\<exists>a \<in> registered st. pflt_name (flt_mem st a) = ?nm" using assms(2,3) by blast
  then have r: "r < pda_pos (pfl_faults st)" "fault_key (flt_mem st) (?l ! r) = ?nm" using mem by simp_all
  obtain i where i: "i < pda_pos (pfl_faults st)" "?l ! i = Some a"
    using assms(2) faults_okD(1) [OF assms(1)] by (auto simp: registered_def in_set_conv_nth)
  have "distinct (map (fault_key (flt_mem st)) ?l)"
    using faults_okD(2) [OF assms(1)] strict_sorted_iff by blast
  moreover have "fault_key (flt_mem st) (?l ! i) = fault_key (flt_mem st) (?l ! r)"
    using i(2) r(2) assms(3) by (simp add: fault_key_def)
  ultimately have "i = r"
    using i(1) r(1) faults_okD(1) [OF assms(1)] nth_eq_iff_index_eq [of "map (fault_key (flt_mem st)) ?l" i r] by simp
  then show ?thesis using eq ex r i(2) by simp
qed

lemma keyed_cong:
  "(\<And>p. p \<in> set (da_list pda) \<Longrightarrow> k p = k' p) \<Longrightarrow> da.keyed k pda = da.keyed k' pda"
  by (simp add: da.keyed_def cong: map_cong)

lemma fault_get_new:
  assumes ok: "faults_ok st" and nm: "nm = take (PFL_FAULT_NAME_MAX - 1) name"
    and new: "\<not> (\<exists>a \<in> registered st. pflt_name (flt_mem st a) = nm)"
  obtains st' where "pfl_fault_get True name st = Some (st', Some (flt_next st))" "faults_ok st'"
    "flt_mem st' = (flt_mem st)(flt_next st := new_fault nm)"
    "registered st' = insert (flt_next st) (registered st)"
proof (rule fault_get_eq [OF ok nm, of True])
  let ?l = "da_list (pfl_faults st)" and ?a = "flt_next st"
  let ?mem = "(flt_mem st)(?a := new_fault nm)"
  fix r
  assume r: "r \<le> pda_pos (pfl_faults st)" "\<And>i. i < r \<Longrightarrow> fault_key (flt_mem st) (?l ! i) < nm"
    "\<And>i. r \<le> i \<Longrightarrow> i < pda_pos (pfl_faults st) \<Longrightarrow> nm \<le> fault_key (flt_mem st) (?l ! i)"
    and eq: "pfl_fault_get True name st =
       (if (\<exists>a \<in> registered st. pflt_name (flt_mem st a) = nm) \<or> \<not> True then
          Some (st, if r < pda_pos (pfl_faults st) then ?l ! r else None)
        else do {
          arr \<leftarrow> psc_dynarray_splice (pfl_faults st) r 0 [Some ?a] 1;
          Some (st\<lparr>pfl_faults := arr, flt_mem := ?mem, flt_next := ?a + 1\<rparr>, Some ?a)
        })"
  have pos: "length ?l = pda_pos (pfl_faults st)" using faults_okD(1) [OF ok] by simp
  have k: "fault_key ?mem p = fault_key (flt_mem st) p" if "p \<in> set ?l" for p
    using faults_okD(3) [OF ok that] by (auto simp: fault_key_def)
  have keyed: "da.keyed (fault_key ?mem) (pfl_faults st)"
    using ok keyed_cong [of "pfl_faults st" "fault_key ?mem" "fault_key (flt_mem st)"] k by (simp add: faults_ok_def)
  have ka: "fault_key ?mem (Some ?a) = nm" by (simp add: fault_key_def new_fault_def)
  have notin: "fault_key ?mem (Some ?a) \<notin> fault_key ?mem ` set ?l"
    using new registered_key [OF ok, of nm] k by (simp add: ka)
  have ki: "fault_key ?mem (?l ! i) = fault_key (flt_mem st) (?l ! i)" if "i < pda_pos (pfl_faults st)" for i
    using k that pos by simp
  have lo: "fault_key ?mem (?l ! i) < fault_key ?mem (Some ?a)" if "i < r" for i
    using r(1,2) that unfolding ka by (simp add: ki)
  have hi: "fault_key ?mem (Some ?a) \<le> fault_key ?mem (?l ! i)" if "r \<le> i" "i < length ?l" for i
    using r(3) that unfolding ka pos by (simp add: ki)
  obtain arr where arr: "psc_dynarray_splice (pfl_faults st) r 0 [Some ?a] 1 = Some arr"
    "da.keyed (fault_key ?mem) arr" "set (da_list arr) = insert (Some ?a) (set ?l)"
    by (rule da.insert_key [OF keyed lo hi _ notin, of r]) (use r(1) pos in auto)
  show thesis
  proof (rule that)
    show "pfl_fault_get True name st = Some (st\<lparr>pfl_faults := arr, flt_mem := ?mem, flt_next := ?a + 1\<rparr>, Some ?a)"
      using eq new arr(1) by simp
    show "faults_ok (st\<lparr>pfl_faults := arr, flt_mem := ?mem, flt_next := ?a + 1\<rparr>)"
      using arr(2,3) faults_okD(3) [OF ok] by (fastforce simp: faults_ok_def)
  qed (auto simp: registered_def arr(3))
qed

lemma fault_get_populate:
  assumes "faults_ok st"
  shows "\<exists>st' a. pfl_fault_get True name st = Some (st', Some a) \<and> faults_ok st' \<and>
    pflt_name (flt_mem st' a) = take (PFL_FAULT_NAME_MAX - 1) name \<and>
    registered st' = insert a (registered st) \<and>
    (\<forall>b \<in> registered st. flt_mem st' b = flt_mem st b) \<and>
    pfl_fault_get True name st' = Some (st', Some a)"
proof (cases "\<exists>a \<in> registered st. pflt_name (flt_mem st a) = take (PFL_FAULT_NAME_MAX - 1) name")
  case True
  then show ?thesis using fault_get_found [OF assms, of _ name True] assms by blast
next
  case False
  let ?a = "flt_next st" and ?nm = "take (PFL_FAULT_NAME_MAX - 1) name"
  obtain st' where st': "pfl_fault_get True name st = Some (st', Some ?a)" "faults_ok st'"
    "flt_mem st' = (flt_mem st)(?a := new_fault ?nm)" "registered st' = insert ?a (registered st)"
    by (rule fault_get_new [OF assms refl False])
  have "?a \<notin> registered st" using faults_okD(3) [OF assms] by (auto simp: registered_def)
  moreover have "pfl_fault_get True name st' = Some (st', Some ?a)"
    using st'(2-4) by (intro fault_get_found) (auto simp: new_fault_def)
  ultimately show ?thesis using st' by (auto simp: new_fault_def)
qed

text \<open>The replies of \<^verbatim>\<open>getfault\<close>, for the part of the registry that is left.\<close>

lemma getfault_msg_name [simp]: "pcflt_name (getfault_msg pcflt flt) = pflt_name flt"
  "getfault_msg (getfault_msg pcflt flt) flt' = getfault_msg pcflt flt'"
  by (simp_all add: getfault_msg_def)

lemma getfault_loop_part:
  assumes "faults_ok st" "\<forall>m. send m \<noteq> 0" "name \<noteq> []"
    and "\<forall>i \<in> set js. i < pda_pos (pfl_faults st) \<and> da_list (pfl_faults st) ! i = Some (f i)" "rc \<noteq> 0"
    and "\<forall>i \<in> set js. \<forall>j \<in> set js. pflt_name (flt_mem st (f i)) = name \<and>
      pflt_name (flt_mem st (f j)) = name \<longrightarrow> f i = f j"
  shows "\<exists>rs rc'. getfault_loop send pcflt name st js found rc =
      Some (rs, found \<or> (\<exists>i \<in> set js. prefix name (pflt_name (flt_mem st (f i)))), rc') \<and> rc' \<noteq> 0 \<and>
    (\<forall>m \<in> set rs. \<exists>i \<in> set js. m = getfault_msg pcflt (flt_mem st (f i)) \<and> prefix name (pcflt_name m)) \<and>
    (\<forall>i \<in> set js. pflt_name (flt_mem st (f i)) = name \<longrightarrow> getfault_msg pcflt (flt_mem st (f i)) \<in> set rs)"
  using assms(4-6)
proof (induction js arbitrary: found rc pcflt)
  case Nil
  then show ?case by simp
next
  case (Cons i js)
  let ?flt = "flt_mem st (f i)"
  have get: "psc_dynarray_getpos (pfl_faults st) (int i) = Some (Some (f i))"
    using Cons.prems(1) faults_okD(1) [OF assms(1)] by (simp add: getpos_spec)
  have pre: "take (length name) (pflt_name ?flt) = name \<longleftrightarrow> prefix name (pflt_name ?flt)"
    by (metis append_eq_conv_conj prefix_def take_is_prefix)
  have IH: "\<exists>rs rc'. getfault_loop send pcflt name st js found rc =
      Some (rs, found \<or> (\<exists>i \<in> set js. prefix name (pflt_name (flt_mem st (f i)))), rc') \<and> rc' \<noteq> 0 \<and>
    (\<forall>m \<in> set rs. \<exists>i \<in> set js. m = getfault_msg pcflt (flt_mem st (f i)) \<and> prefix name (pcflt_name m)) \<and>
    (\<forall>i \<in> set js. pflt_name (flt_mem st (f i)) = name \<longrightarrow> getfault_msg pcflt (flt_mem st (f i)) \<in> set rs)"
    if "rc \<noteq> 0" for pcflt found rc
    using Cons.prems by (intro Cons.IH) (use that in auto)
  consider "\<not> prefix name (pflt_name ?flt)" | "pflt_name ?flt = name"
    | "prefix name (pflt_name ?flt)" "pflt_name ?flt \<noteq> name" by auto
  then show ?case
  proof cases
    case 1
    then have "getfault_loop send pcflt name st (i # js) found rc = getfault_loop send pcflt name st js found rc"
      using assms(3) by (simp add: get pre)
    moreover have "pflt_name ?flt \<noteq> name" using 1 by auto
    ultimately show ?thesis using 1 IH [of rc pcflt found] Cons.prems(2)
      by (simp del: getfault_loop.simps) blast
  next
    case 2
    then have "getfault_loop send pcflt name st (i # js) found rc =
        Some ([getfault_msg pcflt ?flt], True, send (getfault_msg pcflt ?flt))"
      using assms(2) by (simp add: get strcmp_def CMP_def Let_def)
    moreover have "getfault_msg pcflt (flt_mem st (f j)) = getfault_msg pcflt ?flt"
      if "j \<in> set js" "pflt_name (flt_mem st (f j)) = name" for j
      using Cons.prems(3) that 2 by (metis list.set_intros)
    ultimately show ?thesis using 2 assms(2) by auto
  next
    case 3
    let ?m = "getfault_msg pcflt ?flt"
    obtain rs rc' where rs: "getfault_loop send ?m name st js True (send ?m) = Some (rs, True, rc')" "rc' \<noteq> 0"
      "\<forall>m \<in> set rs. \<exists>i \<in> set js. m = getfault_msg pcflt (flt_mem st (f i)) \<and> prefix name (pcflt_name m)"
      "\<forall>i \<in> set js. pflt_name (flt_mem st (f i)) = name \<longrightarrow> getfault_msg pcflt (flt_mem st (f i)) \<in> set rs"
      using IH [of "send ?m" ?m True] assms(2) by auto
    then have "getfault_loop send pcflt name st (i # js) found rc = Some (?m # rs, True, rc')"
      using 3 assms(2) by (auto simp: get pre strcmp_def CMP_def Let_def)
    then show ?thesis using 3 rs by auto
  qed
qed

lemma getfault_loop_spec:
  assumes "faults_ok st" "\<forall>m. send m \<noteq> 0" "name \<noteq> []"
  shows "\<exists>rs found rc. getfault_loop send pcflt name st [0..<pda_pos (pfl_faults st)] False 1 =
      Some (rs, found, rc) \<and> rc \<noteq> 0 \<and>
    (found \<longleftrightarrow> (\<exists>a \<in> registered st. prefix name (pflt_name (flt_mem st a)))) \<and>
    (\<forall>m \<in> set rs. \<exists>a \<in> registered st. m = getfault_msg pcflt (flt_mem st a) \<and> prefix name (pcflt_name m)) \<and>
    (\<forall>a \<in> registered st. pflt_name (flt_mem st a) = name \<longrightarrow> getfault_msg pcflt (flt_mem st a) \<in> set rs)"
proof -
  let ?l = "da_list (pfl_faults st)" and ?js = "[0..<pda_pos (pfl_faults st)]"
  define f where "f i = the (?l ! i)" for i
  have pos: "length ?l = pda_pos (pfl_faults st)" using faults_okD(1) [OF assms(1)] by simp
  have f: "?l ! i = Some (f i)" if "i < pda_pos (pfl_faults st)" for i
    by (rule faults_nth [OF assms(1) that]) (simp add: f_def)
  have "?l = map (\<lambda>i. Some (f i)) ?js" using f pos by (intro nth_equalityI) simp_all
  then have "set ?l = Some ` f ` set ?js" by (simp add: image_image)
  then have reg: "registered st = f ` set ?js" unfolding registered_def by auto
  have "distinct (map (fault_key (flt_mem st)) ?l)"
    using faults_okD(2) [OF assms(1)] strict_sorted_iff by blast
  then have "f i = f j"
    if "i < length ?l" "j < length ?l" "pflt_name (flt_mem st (f i)) = name" "pflt_name (flt_mem st (f j)) = name" for i j
    using nth_eq_iff_index_eq [of "map (fault_key (flt_mem st)) ?l" i j] that pos by (simp add: fault_key_def f)
  then have uniq: "\<forall>i \<in> set ?js. \<forall>j \<in> set ?js. pflt_name (flt_mem st (f i)) = name \<and>
      pflt_name (flt_mem st (f j)) = name \<longrightarrow> f i = f j" using pos by simp
  have "\<forall>i \<in> set ?js. i < pda_pos (pfl_faults st) \<and> ?l ! i = Some (f i)" using f by simp
  from getfault_loop_part [OF assms this one_neq_zero uniq, of pcflt False, unfolded simp_thms]
  show ?thesis unfolding reg bex_simps ball_simps by (elim exE conjE) (intro exI conjI, assumption+, auto)
qed

subsection \<open>Firing\<close>

text \<open>
  With an explicit count and no interval, a point stays quiet \<open>pflt_begin\<close> times, then fires
  \<open>pflt_count\<close> times, then stays quiet.
\<close>

lemma fault_run_frame [simp]:
  "pflt_begin (fault_run rnd n flt) = pflt_begin flt" "pflt_count (fault_run rnd n flt) = pflt_count flt"
  "pflt_interval (fault_run rnd n flt) = pflt_interval flt"
  by (induction n) (auto simp: pfl_fault_here_def Let_def)

lemma fault_run_counts:
  assumes "0 \<le> pflt_count flt" "pflt_interval flt = 0" "pflt_hits flt = 0" "pflt_unhits flt = 0"
    "0 \<le> pflt_begin flt"
  shows "pflt_hits (fault_run rnd n flt) = min (pflt_count flt) (max 0 (int n - pflt_begin flt)) \<and>
    pflt_unhits (fault_run rnd n flt) = int n - pflt_hits (fault_run rnd n flt)"
proof (induction n)
  case 0
  then show ?case using assms by simp
next
  case (Suc n)
  then show ?case using assms
    by (cases "int n < pflt_begin flt") (auto simp: pfl_fault_here_def Let_def)
qed

subsection \<open>Numbers on the control interface\<close>

lemma digit_char: "n < 10 \<Longrightarrow> (of_char (char_of (48 + n :: nat)) :: nat) = 48 + n"
  by simp

lemma dec_digits: "c \<in> set (dec n) \<Longrightarrow> is_digit c"
proof (induction n rule: dec.induct)
  case (1 n)
  have "is_digit (char_of (48 + n mod 10))" by (simp add: is_digit_def)
  then show ?case using 1 by (subst (asm) dec.simps) (auto split: if_splits)
qed

lemma dec_nonempty [simp]: "dec n \<noteq> []"
  by (subst dec.simps) simp

lemma digits_value_snoc: "digits_value (s @ [c]) = 10 * digits_value s + (int (of_char c) - 48)"
  by (simp add: digits_value_def)

lemma digits_value_dec: "digits_value (dec n) = int n"
proof (induction n rule: dec.induct)
  case (1 n)
  have c: "int (of_char (char_of (48 + n mod 10))) = 48 + int (n mod 10)"
    by (simp add: digit_char)
  show ?case
  proof (cases "n < 10")
    case True
    then show ?thesis using c by (subst dec.simps) (simp add: digits_value_def)
  next
    case False
    have "int n = 10 * int (n div 10) + int (n mod 10)" by presburger
    then show ?thesis using False 1 c by (subst dec.simps) (simp add: digits_value_snoc)
  qed
qed

lemma strtol_dec:
  assumes "int n \<le> INT_MAX"
  shows "strtol10 (dec n) = (int n, [])"
proof -
  have all: "takeWhile is_digit (dec n) = dec n" "dropWhile is_digit (dec n) = []"
    using dec_digits by (auto simp: takeWhile_eq_all_conv)
  obtain c cs where c: "dec n = c # cs" by (cases "dec n") auto
  then have "is_digit c" using dec_digits [of c n] by simp
  then have "\<not> is_space c" "c \<noteq> CHR ''-''" "c \<noteq> CHR ''+''" by (auto simp: is_digit_def is_space_def)
  then have "dropWhile is_space (dec n) = dec n" by (simp add: c)
  then show ?thesis
    using all c \<open>c \<noteq> CHR ''-''\<close> \<open>c \<noteq> CHR ''+''\<close> assms digits_value_dec [of n]
    by (auto simp: strtol10_def Let_def INT_MAX_def LONG_MAX_def LONG_MIN_def)
qed

lemma handle_set:
  assumes "field_set f mode val flt = Some flt'"
  shows "psc_ctlparam_faults_handle send True mode (Some (field_name f)) val flt = (flt', [], 1)"
  using assms unfolding psc_ctlparam_faults_handle_def fault_fields_def by (cases f) simp_all

lemma handle_get_one:
  assumes "send (Ctl_param (pflt_name flt) (field_name f) (field_get f flt)) \<noteq> 0"
  shows "psc_ctlparam_faults_handle send False mode (Some (field_name f)) val flt =
    (flt, [Ctl_param (pflt_name flt) (field_name f) (field_get f flt)], 1)"
  using assms unfolding psc_ctlparam_faults_handle_def fault_fields_def by (cases f) simp_all

lemma field_get_set:
  assumes "field_set f Set_to v flt = Some flt'" "f = F_active \<Longrightarrow> v = 0 \<or> v = 1"
  shows "field_get f flt' = v"
  using assms by (cases f) (auto simp: PFLTF_ACTIVE_def and.assoc split: if_splits)

lemma field_set_total:
  "\<exists>flt'. field_set f Set_to v flt = Some flt' \<and> pflt_name flt' = pflt_name flt"
  by (cases f) simp_all

text \<open>Changing a point without renaming it keeps the registry sorted.\<close>

lemma faults_ok_update:
  assumes "faults_ok st" "pflt_name flt = pflt_name (flt_mem st a)"
  shows "faults_ok (st\<lparr>flt_mem := (flt_mem st)(a := flt)\<rparr>)"
proof -
  have "fault_key ((flt_mem st)(a := flt)) = fault_key (flt_mem st)"
    using assms(2) by (auto simp: fault_key_def)
  then show ?thesis using assms(1) by (simp add: faults_ok_def)
qed

subsection \<open>Properties\<close>

text \<open>
  C28. Registering a fault point returns a point of that name (cut to 31 characters), creating it
  if needed; the registry stays sorted and without duplicates, the other points are untouched, and
  asking again returns the same point.
\<close>

theorem fault_register:
  assumes "faults_ok st"
  shows "\<exists>st' a. pfl_fault_get True name st = Some (st', Some a) \<and> faults_ok st' \<and>
    pflt_name (flt_mem st' a) = take (PFL_FAULT_NAME_MAX - 1) name \<and>
    registered st' = insert a (registered st) \<and>
    (\<forall>b \<in> registered st. flt_mem st' b = flt_mem st b) \<and>
    pfl_fault_get True name st' = Some (st', Some a)"
  by (rule fault_get_populate [OF assms])

lemma no_faults_ok: "faults_ok no_faults" "registered no_faults = {}"
  by (simp_all add: faults_ok_def da.keyed_def no_faults_def registered_def)

theorem fault_register_witness:
  "\<exists>st' a. pfl_fault_get True ''disk'' no_faults = Some (st', Some a) \<and> pflt_name (flt_mem st' a) = ''disk'' \<and>
     registered st' = {a}"
  using fault_register [OF no_faults_ok(1), of "''disk''"] no_faults_ok(2)
  by (auto simp: PFL_FAULT_NAME_MAX_def)

text \<open>
  A \<^verbatim>\<open>getfault\<close> request for a name that is registered reports that point, if all replies can be
  sent; every reply is about a registered point whose name starts with the requested one, and an
  error is sent exactly when there is no such point.
\<close>

theorem getfault_spec:
  assumes "faults_ok st" "\<And>m. send m \<noteq> 0" "name \<noteq> []" "length name < PFL_FAULT_NAME_MAX"
    "pcflt_name pcflt = name"
  shows "\<exists>rs err rc. psc_ctlrep_getfault send senderr pcflt st = Some (rs, err, rc) \<and>
    (\<forall>m \<in> set rs. \<exists>a \<in> registered st. m = getfault_msg pcflt (flt_mem st a) \<and> prefix name (pcflt_name m)) \<and>
    (\<forall>a \<in> registered st. pflt_name (flt_mem st a) = name \<longrightarrow> getfault_msg pcflt (flt_mem st a) \<in> set rs) \<and>
    (err \<longleftrightarrow> \<not> (\<exists>a \<in> registered st. prefix name (pflt_name (flt_mem st a))))"
proof -
  let ?l = "da_list (pfl_faults st)"
  have nm: "take (PFL_FAULT_NAME_MAX - 1) name = name" using assms(4) by (simp add: PFL_FAULT_NAME_MAX_def)
  obtain rs found rc where lp: "getfault_loop send pcflt name st [0..<pda_pos (pfl_faults st)] False 1 =
      Some (rs, found, rc)" "rc \<noteq> 0" "found \<longleftrightarrow> (\<exists>a \<in> registered st. prefix name (pflt_name (flt_mem st a)))"
    "\<forall>m \<in> set rs. \<exists>a \<in> registered st. m = getfault_msg pcflt (flt_mem st a) \<and> prefix name (pcflt_name m)"
    "\<forall>a \<in> registered st. pflt_name (flt_mem st a) = name \<longrightarrow> getfault_msg pcflt (flt_mem st a) \<in> set rs"
    using getfault_loop_spec [OF assms(1) allI assms(3), of send pcflt, OF assms(2)]
    by (elim exE conjE) (rule that)
  have "psc_ctlrep_getfault send senderr pcflt st = Some (rs, \<not> found, if found then rc else senderr)"
    using assms(3) lp(1,2) unfolding psc_ctlrep_getfault_def assms(5) Let_def nm by simp
  with lp(3-5) show ?thesis
    by (intro exI [of _ rs] exI [of _ "\<not> found"] exI [of _ "if found then rc else senderr"] conjI) simp_all
qed

text \<open>
  Peeking at a name that is not registered returns the wrong point: if any registered name
  comes after it, the result is a pointer to another fault point, not the null pointer.
\<close>

theorem fault_peek_wrong:
  assumes "faults_ok st" "nm = take (PFL_FAULT_NAME_MAX - 1) name"
    and "\<not> (\<exists>a \<in> registered st. pflt_name (flt_mem st a) = nm)"
    and "b \<in> registered st" "nm < pflt_name (flt_mem st b)"
  shows "\<exists>a. pfl_fault_get False name st = Some (st, Some a) \<and> a \<in> registered st \<and>
    pflt_name (flt_mem st a) \<noteq> nm"
proof (rule fault_get_eq [OF assms(1,2), of False])
  let ?l = "da_list (pfl_faults st)"
  fix r
  assume lo: "\<And>i. i < r \<Longrightarrow> fault_key (flt_mem st) (?l ! i) < nm"
    and eq: "pfl_fault_get False name st =
       (if (\<exists>a \<in> registered st. pflt_name (flt_mem st a) = nm) \<or> \<not> False then
          Some (st, if r < pda_pos (pfl_faults st) then ?l ! r else None)
        else do {
          arr \<leftarrow> psc_dynarray_splice (pfl_faults st) r 0 [Some (flt_next st)] 1;
          Some (st\<lparr>pfl_faults := arr, flt_mem := (flt_mem st)(flt_next st := new_fault nm),
                   flt_next := flt_next st + 1\<rparr>, Some (flt_next st))
        })"
  obtain i where i: "i < pda_pos (pfl_faults st)" "?l ! i = Some b"
    using assms(4) faults_okD(1) [OF assms(1)] by (auto simp: registered_def in_set_conv_nth)
  then have "\<not> i < r" using lo [of i] assms(5) by (auto simp: fault_key_def)
  then have r: "r < pda_pos (pfl_faults st)" using i(1) by simp
  obtain a where "?l ! r = Some a" "a \<in> registered st" using faults_nth [OF assms(1) r] .
  then show ?thesis using eq r assms(3) by auto
qed

lemma one_fault:
  obtains st a where "faults_ok st" "registered st = {a}" "pflt_name (flt_mem st a) = ''disk''"
proof -
  have "\<not> (\<exists>a \<in> registered no_faults. pflt_name (flt_mem no_faults a) = ''disk'')" using no_faults_ok(2) by simp
  then obtain st' where "faults_ok st'"
    "flt_mem st' = (flt_mem no_faults)(flt_next no_faults := new_fault ''disk'')"
    "registered st' = insert (flt_next no_faults) (registered no_faults)"
    by (rule fault_get_new [OF no_faults_ok(1), of "''disk''" "''disk''", rotated])
      (simp_all add: PFL_FAULT_NAME_MAX_def)
  then show thesis using that no_faults_ok(2) by (simp add: new_fault_def)
qed

theorem getfault_spec_witness:
  "\<exists>st a rs rc. registered st = {a} \<and> pflt_name (flt_mem st a) = ''disk'' \<and>
     psc_ctlrep_getfault (\<lambda>_. 1) 1 (getfault_msg undefined (new_fault ''disk'')) st = Some (rs, False, rc) \<and>
     set rs = {getfault_msg undefined (flt_mem st a)}"
proof (rule one_fault)
  fix st a assume st: "faults_ok st" "registered st = {a}" "pflt_name (flt_mem st a) = ''disk''"
  let ?q = "getfault_msg undefined (new_fault ''disk'')"
  have q: "pcflt_name ?q = ''disk''" "length ''disk'' < PFL_FAULT_NAME_MAX" "''disk'' \<noteq> []"
    by (simp_all add: new_fault_def PFL_FAULT_NAME_MAX_def)
  obtain rs err rc where r: "psc_ctlrep_getfault (\<lambda>_. 1) 1 ?q st = Some (rs, err, rc)"
    "\<forall>m \<in> set rs. \<exists>a \<in> registered st. m = getfault_msg ?q (flt_mem st a) \<and> prefix ''disk'' (pcflt_name m)"
    "\<forall>a \<in> registered st. pflt_name (flt_mem st a) = ''disk'' \<longrightarrow> getfault_msg ?q (flt_mem st a) \<in> set rs"
    "err \<longleftrightarrow> \<not> (\<exists>a \<in> registered st. prefix ''disk'' (pflt_name (flt_mem st a)))"
    using getfault_spec [of st "\<lambda>_. 1" "''disk''" ?q 1, OF st(1) one_neq_zero q(3,2,1)]
    by (elim exE conjE) (rule that)
  have "set rs \<subseteq> {getfault_msg undefined (flt_mem st a)}"
    using r(2) unfolding st(2) getfault_msg_name by blast
  moreover have "getfault_msg undefined (flt_mem st a) \<in> set rs" "\<not> err"
    using r(3,4) st(2,3) by simp_all
  ultimately have "set rs = {getfault_msg undefined (flt_mem st a)}" "err = False" by blast+
  with r(1) st(2,3) show ?thesis
    by (intro exI [of _ st] exI [of _ a] exI [of _ rs] exI [of _ rc] conjI) simp_all
qed

theorem fault_peek_wrong_witness:
  "\<exists>st a. registered st = {a} \<and> pflt_name (flt_mem st a) = ''disk'' \<and>
     pfl_fault_get False ''cpu'' st = Some (st, Some a)"
proof (rule one_fault)
  fix st a assume st: "faults_ok st" "registered st = {a}" "pflt_name (flt_mem st a) = ''disk''"
  then show ?thesis
    using fault_peek_wrong [of st "''cpu''" "''cpu''" a] by (auto simp: PFL_FAULT_NAME_MAX_def)
qed

text \<open>
  A fault point with an explicit count and no interval fires exactly as programmed: of the
  first \<open>n\<close> passes, the first \<open>pflt_begin\<close> do not fire, the next \<open>pflt_count\<close> do, and no later one
  does, whatever the random numbers are.
\<close>

theorem fault_fires:
  assumes "0 \<le> pflt_count flt" "pflt_interval flt = 0" "pflt_hits flt = 0" "pflt_unhits flt = 0"
    "0 \<le> pflt_begin flt"
  shows "snd (snd (snd (pfl_fault_here (rnd n) (fault_run rnd n flt) rcp rc))) \<longleftrightarrow>
    pflt_begin flt \<le> int n \<and> int n < pflt_begin flt + pflt_count flt"
proof -
  have "pflt_hits (fault_run rnd n flt) = min (pflt_count flt) (max 0 (int n - pflt_begin flt))"
    "pflt_unhits (fault_run rnd n flt) = int n - pflt_hits (fault_run rnd n flt)"
    using fault_run_counts [OF assms, of rnd n] by blast+
  then show ?thesis using assms by (auto simp: pfl_fault_here_def Let_def min_def max_def)
qed

theorem fault_fires_witness:
  "snd (snd (snd (pfl_fault_here 0 (fault_run (\<lambda>_. 0) 3 ((new_fault ''disk'')\<lparr>pflt_count := 2, pflt_begin := 2\<rparr>)) None 0)))"
  using fault_fires [of "(new_fault ''disk'')\<lparr>pflt_count := 2, pflt_begin := 2\<rparr>" "\<lambda>_. 0" 3 None 0]
  by (simp add: new_fault_def)

text \<open>
  Setting a parameter of a fault point through the control interface and reading it back
  returns the value that was written, for every field and every decimal number the interface
  accepts.
\<close>

theorem fault_param_roundtrip:
  assumes "faults_ok st" "length name < PFL_FAULT_NAME_MAX" "CHR ''%'' \<notin> set name"
    and "int n \<le> INT_MAX" "f = F_active \<Longrightarrow> n \<le> 1" "\<And>r. send r \<noteq> 0"
  shows "\<exists>st'. psc_ctlparam_faults send True [''faults'', name, field_name f] True Set_to (dec n) st =
      Some (st', [], 1) \<and>
    psc_ctlparam_faults send True [''faults'', name, field_name f] False mode v st' =
      Some (st', [Ctl_param name (field_name f) (int n)], 1)"
proof -
  have nm: "take (PFL_FAULT_NAME_MAX - 1) name = name" using assms(2) by (simp add: PFL_FAULT_NAME_MAX_def)
  obtain st1 a where st1: "pfl_fault_get True name st = Some (st1, Some a)" "faults_ok st1"
    "pflt_name (flt_mem st1 a) = name" "a \<in> registered st1"
    using fault_get_populate [OF assms(1), of name] unfolding nm by blast
  obtain flt where flt: "field_set f Set_to (int n) (flt_mem st1 a) = Some flt" "pflt_name flt = name"
    using field_set_total [of f "int n" "flt_mem st1 a"] st1(3) by metis
  let ?st = "st1\<lparr>flt_mem := (flt_mem st1)(a := flt)\<rparr>"
  have "field_get f flt = int n" using field_get_set [OF flt(1)] assms(5) by fastforce
  moreover have "faults_ok ?st" "a \<in> registered ?st"
    using faults_ok_update [OF st1(2)] flt(2) st1(3,4) by (simp_all add: registered_def)
  then have "pfl_fault_get False name ?st = Some (?st, Some a)"
    using fault_get_found [of ?st a name False, unfolded nm] flt(2) by simp
  moreover have "field_name f \<in> field_name ` set fault_fields" by (cases f) (simp_all add: fault_fields_def)
  ultimately show ?thesis
    using st1(1) assms(3,4,6) flt strtol_dec [OF assms(4)] handle_set [OF flt(1), of send]
      handle_get_one [of send flt f mode] dec_nonempty [symmetric, of n]
    by (intro exI [of _ ?st]) (simp add: psc_ctlparam_faults_def Let_def split_beta psc_assert_def INT_MAX_def LONG_MAX_def LONG_MIN_def)
qed

theorem fault_param_roundtrip_witness:
  "\<exists>st'. psc_ctlparam_faults (\<lambda>_. 1) True [''faults'', ''disk'', ''count''] True Set_to (dec 12) no_faults =
      Some (st', [], 1) \<and>
    psc_ctlparam_faults (\<lambda>_. 1) True [''faults'', ''disk'', ''count''] False Set_to [] st' =
      Some (st', [Ctl_param ''disk'' ''count'' 12], 1)"
  using fault_param_roundtrip [OF no_faults_ok(1), of "''disk''" 12 F_count "\<lambda>_. 1" Set_to "[]"]
  by (simp add: PFL_FAULT_NAME_MAX_def INT_MAX_def)

text \<open>
  A value that is not a plain number of the accepted range is refused: an error is sent and
  no fault point is created or changed.
\<close>

theorem fault_param_refused:
  assumes "strtol10 value = (val, rest)" "rest \<noteq> [] \<or> val < 0 \<or> INT_MAX < val" "length levels \<le> 3"
  shows "\<exists>msg. psc_ctlparam_faults send everyone levels True mode value st =
    Some (st, [Ctl_err msg], send (Ctl_err msg))"
  using assms by (auto simp: psc_ctlparam_faults_def Let_def)

theorem fault_param_refused_witness:
  "\<exists>msg. psc_ctlparam_faults (\<lambda>_. 1) True [''faults'', ''disk'', ''count''] True Set_to ''12x'' no_faults =
    Some (no_faults, [Ctl_err msg], 1)"
proof -
  have "strtol10 ''12x'' = (12, ''x'')" by code_simp
  then show ?thesis
    using fault_param_refused [of "''12x''" 12 "''x''" "[''faults'', ''disk'', ''count'']" "\<lambda>_. 1" True Set_to no_faults]
    by simp
qed

end
