(* ===== verification/Replica.thy ===== *)
theory Replica
  imports Prelude Sorted_Array
begin

text \<open>
  Replica states of a bmap (\<^verbatim>\<open>src/slash2/include/bmap.h\<close>) and the walk that reads and translates
  them (\<^verbatim>\<open>_mds_repl_bmap_apply\<close> and \<^verbatim>\<open>_mds_repl_bmap_walk\<close> of \<^verbatim>\<open>src/slash2/slashd/repl_mds.c\<close>).
  The state of each replica is a three-bit field of a packed byte array, and fields may cross
  byte boundaries. The locale \<open>state_table\<close> is the contract of such an array; the walk is verified
  against it.
\<close>

subsection \<open>Definitions\<close>

definition NBBY :: nat where "NBBY = 8"
definition SL_BITS_PER_REPLICA :: nat where "SL_BITS_PER_REPLICA = 3"
definition SL_DEF_REPLICAS :: nat where "SL_DEF_REPLICAS = 4"
definition SL_MAX_REPLICAS :: nat where "SL_MAX_REPLICAS = 64"
definition SL_INOX_NREPLICAS :: nat where "SL_INOX_NREPLICAS = SL_MAX_REPLICAS - SL_DEF_REPLICAS"
definition SL_REPLICA_MASK :: u8 where "SL_REPLICA_MASK = to_u8 (push_bit SL_BITS_PER_REPLICA 1 - 1)"
definition SL_REPLICA_NBYTES :: nat where
  "SL_REPLICA_NBYTES = SL_MAX_REPLICAS * SL_BITS_PER_REPLICA div NBBY"

definition BREPLST_INVALID :: int where "BREPLST_INVALID = 0"
definition BREPLST_REPL_SCHED :: int where "BREPLST_REPL_SCHED = 1"
definition BREPLST_REPL_QUEUED :: int where "BREPLST_REPL_QUEUED = 2"
definition BREPLST_VALID :: int where "BREPLST_VALID = 3"
definition BREPLST_TRUNC_QUEUED :: int where "BREPLST_TRUNC_QUEUED = 4"
definition BREPLST_TRUNC_SCHED :: int where "BREPLST_TRUNC_SCHED = 5"
definition BREPLST_GARBAGE_QUEUED :: int where "BREPLST_GARBAGE_QUEUED = 6"
definition BREPLST_GARBAGE_SCHED :: int where "BREPLST_GARBAGE_SCHED = 7"
definition NBREPLST :: nat where "NBREPLST = 8"

lemmas breplst_defs = BREPLST_INVALID_def BREPLST_REPL_SCHED_def BREPLST_REPL_QUEUED_def
  BREPLST_VALID_def BREPLST_TRUNC_QUEUED_def BREPLST_TRUNC_SCHED_def BREPLST_GARBAGE_QUEUED_def
  BREPLST_GARBAGE_SCHED_def

definition SL_REPL_GET_BMAP_IOS_STAT :: "u8 list \<Rightarrow> nat \<Rightarrow> int option" where
  "SL_REPL_GET_BMAP_IOS_STAT data off =
     do {
       lo \<leftarrow> rd data (off div NBBY);
       hi \<leftarrow> (if off mod NBBY + SL_BITS_PER_REPLICA > NBBY then do {
                b \<leftarrow> rd data (off div NBBY + 1);
                Some (push_bit (SL_BITS_PER_REPLICA - (off mod NBBY + SL_BITS_PER_REPLICA - NBBY)) (to_int b))
              } else Some 0);
       Some (uint (to_int SL_REPLICA_MASK AND (drop_bit (off mod NBBY) (to_int lo) OR hi)))
     }"

definition SL_REPL_SET_BMAP_IOS_STAT :: "u8 list \<Rightarrow> nat \<Rightarrow> int \<Rightarrow> u8 list option" where
  "SL_REPL_SET_BMAP_IOS_STAT data off val =
     do {
       let val = (word_of_int val :: u32);
       lo \<leftarrow> rd data (off div NBBY);
       data \<leftarrow> wr data (off div NBBY)
         (to_u8 (to_int lo AND NOT (push_bit (off mod NBBY) (to_int SL_REPLICA_MASK)) OR
                 push_bit (off mod NBBY) val));
       let j = int (off mod NBBY) + int SL_BITS_PER_REPLICA - int NBBY;
       if j > 0 then do {
         let j = SL_BITS_PER_REPLICA - nat j;
         hi \<leftarrow> rd data (off div NBBY + 1);
         wr data (off div NBBY + 1)
           (to_u8 (to_int hi AND NOT (drop_bit j (to_int SL_REPLICA_MASK)) OR drop_bit j val))
       } else Some data
     }"

definition brepls_init :: "int \<Rightarrow> int list" where
  "brepls_init val = replicate NBREPLST val"

definition brepls_init_idx :: "int list" where
  "brepls_init_idx = map int [0..<NBREPLST]"

fun brepls_check_loop :: "u8 list \<Rightarrow> nat \<Rightarrow> nat \<Rightarrow> unit option" where
  "brepls_check_loop repls off 0 = None"
| "brepls_check_loop repls off (Suc n) =
     do {
       val \<leftarrow> SL_REPL_GET_BMAP_IOS_STAT repls off;
       if val \<in> {BREPLST_VALID, BREPLST_GARBAGE_QUEUED, BREPLST_GARBAGE_SCHED,
                 BREPLST_TRUNC_QUEUED, BREPLST_TRUNC_SCHED} then Some ()
       else brepls_check_loop repls (off + SL_BITS_PER_REPLICA) n
     }"

definition mds_brepls_check :: "u8 list \<Rightarrow> nat \<Rightarrow> unit option" where
  "mds_brepls_check repls nr =
     do {
       psc_assert (0 < nr \<and> nr \<le> SL_MAX_REPLICAS);
       brepls_check_loop repls 0 nr
     }"

text \<open>
  The bmap: \<^verbatim>\<open>struct bmap\<close> with the part of \<^verbatim>\<open>struct bmap_mds_info\<close> the replication code works on.
  The lock fields are left out.
\<close>

record bmap =
  bcm_bmapno :: u32
  bcm_flags :: u32
  bcm_opcnt :: int
  bmi_crcstates :: "u8 list"
  bmi_repls :: "u8 list"
  bmi_crcs :: "u64 list"
  bes_gen :: u32
  bes_replpol :: u32
  bmi_orepls :: "u8 list"
  bmi_sys_prio :: int
  bmi_usr_prio :: int
  bmi_wr_ion :: "u32 option"
  bmi_leases :: "nat list"
  bmi_assign :: nat
  bmi_seq :: u64
  bmi_writers :: int
  bmi_readers :: int
  bmi_diocb :: int
  upd_flags :: u32

definition BMAPF_REPLMODWR :: u32 where "BMAPF_REPLMODWR = push_bit 11 1"
definition BMAPF_WAITERS :: u32 where "BMAPF_WAITERS = push_bit 8 1"
definition REPL_WALKF_SCIRCUIT :: u32 where "REPL_WALKF_SCIRCUIT = push_bit 0 1"
definition REPL_WALKF_MODOTH :: u32 where "REPL_WALKF_MODOTH = push_bit 1 1"

text \<open>
  A null \<^verbatim>\<open>tract\<close>, \<^verbatim>\<open>retifset\<close>, \<^verbatim>\<open>scircuit\<close> or callback is \<^const>\<open>None\<close>; the callback maps its argument
  to the new argument and may abort. While a worker still has to record the last change
  (\<^verbatim>\<open>BMAPF_REPLMODWR\<close>) a translation waits; the definition has no value then, and the states after
  the wait are those without the flag.
\<close>

type_synonym 'c walkcb = "bmap \<Rightarrow> nat \<Rightarrow> int \<Rightarrow> 'c \<Rightarrow> 'c option"

definition mds_repl_bmap_apply ::
  "bmap \<Rightarrow> int list option \<Rightarrow> int list option \<Rightarrow> u32 \<Rightarrow> nat \<Rightarrow> bool option \<Rightarrow> 'c walkcb option \<Rightarrow> 'c \<Rightarrow>
     (bmap \<times> int \<times> bool option \<times> 'c) option" where
  "mds_repl_bmap_apply b tract retifset flags off scircuit cbf cbarg =
     do {
       b \<leftarrow> (case tract of
               None \<Rightarrow> Some b
             | Some _ \<Rightarrow> do {
                 psc_assert (bcm_flags b AND BMAPF_REPLMODWR = 0);
                 psc_assert (flags AND REPL_WALKF_SCIRCUIT = 0);
                 Some (b\<lparr>bmi_orepls := bmi_repls b\<rparr>)
               });
       psc_assert (scircuit \<noteq> None \<or> flags AND REPL_WALKF_SCIRCUIT = 0);
       let scircuit = map_option (\<lambda>_. False) scircuit;
       val \<leftarrow> SL_REPL_GET_BMAP_IOS_STAT (bmi_repls b) off;
       psc_assert (val < int NBREPLST);
       cbarg \<leftarrow> (case cbf of None \<Rightarrow> Some cbarg | Some f \<Rightarrow> f b (off div SL_BITS_PER_REPLICA) val cbarg);
       rc \<leftarrow> (case retifset of None \<Rightarrow> Some 0 | Some r \<Rightarrow> rd r (nat val));
       if rc \<noteq> 0 \<and> flags AND REPL_WALKF_SCIRCUIT \<noteq> 0 then Some (b, rc, Some True, cbarg)
       else do {
         new \<leftarrow> (case tract of None \<Rightarrow> Some (-1) | Some t \<Rightarrow> rd t (nat val));
         if new \<noteq> -1 then do {
           repls \<leftarrow> SL_REPL_SET_BMAP_IOS_STAT (bmi_repls b) off new;
           Some (b\<lparr>bmi_repls := repls\<rparr>, rc, scircuit, cbarg)
         } else Some (b, rc, scircuit, cbarg)
       }
     }"

text \<open>
  \<^verbatim>\<open>bsearch\<close> of the C library, over the positions from \<open>lo\<close> below \<open>hi\<close> of an array that has been compared with the key;
  and the search of an index with it. It finds an index for sure only in an array that is sorted.
\<close>

function bsearch :: "(nat \<Rightarrow> int) \<Rightarrow> nat \<Rightarrow> nat \<Rightarrow> nat option" where
  "bsearch c lo hi =
     (if lo < hi then
        let i = (lo + hi) div 2
        in if c i < 0 then bsearch c lo i else if c i > 0 then bsearch c (i + 1) hi else Some i
      else None)"
  by pat_completeness auto
termination by (relation "measure (\<lambda>(c, lo, hi). hi - lo)") auto

declare bsearch.simps [simp del]

definition iosidx_cmp :: "nat \<Rightarrow> nat \<Rightarrow> int" where
  "iosidx_cmp x y = CMP x y"

definition iosidx_in :: "nat \<Rightarrow> nat list \<Rightarrow> bool" where
  "iosidx_in idx iosidx \<longleftrightarrow> bsearch (\<lambda>i. iosidx_cmp idx (iosidx ! i)) 0 (length iosidx) \<noteq> None"

text \<open>The loop of the walk, over the indexes it visits.\<close>

fun bmap_walk_loop ::
  "int list option \<Rightarrow> int list option \<Rightarrow> u32 \<Rightarrow> 'c walkcb option \<Rightarrow> nat list \<Rightarrow> bmap \<Rightarrow> int \<Rightarrow> 'c \<Rightarrow>
     (bmap \<times> int \<times> 'c) option" where
  "bmap_walk_loop tract retifset flags cbf [] b rc cbarg = Some (b, rc, cbarg)"
| "bmap_walk_loop tract retifset flags cbf (k # ks) b rc cbarg =
     do {
       (b, trc, scircuit, cbarg) \<leftarrow>
         mds_repl_bmap_apply b tract retifset flags (k * SL_BITS_PER_REPLICA) (Some False) cbf cbarg;
       let rc = (if trc \<noteq> 0 then trc else rc);
       if scircuit = Some True then Some (b, rc, cbarg)
       else bmap_walk_loop tract retifset flags cbf ks b rc cbarg
     }"

definition mds_repl_bmap_walk ::
  "nat \<Rightarrow> bmap \<Rightarrow> int list option \<Rightarrow> int list option \<Rightarrow> u32 \<Rightarrow> nat list \<Rightarrow> 'c walkcb option \<Rightarrow> 'c \<Rightarrow>
     (bmap \<times> int \<times> 'c) option" where
  "mds_repl_bmap_walk nr b tract retifset flags iosidx cbf cbarg =
     bmap_walk_loop tract retifset flags cbf
       (if iosidx = [] then [0..<nr]
        else if flags AND REPL_WALKF_MODOTH \<noteq> 0 then [k \<leftarrow> [0..<nr]. \<not> iosidx_in k iosidx]
        else iosidx)
       b 0 cbarg"

text \<open>The abstract view: the state of replica \<open>k\<close>, and what a translation makes of it.\<close>

definition brepl :: "u8 list \<Rightarrow> nat \<Rightarrow> int" where
  "brepl bs k = of_bool (buf_bit bs (3 * k)) + 2 * of_bool (buf_bit bs (3 * k + 1)) +
     4 * of_bool (buf_bit bs (3 * k + 2))"

definition repls_ok :: "u8 list \<Rightarrow> bool" where
  "repls_ok bs \<longleftrightarrow> length bs = SL_REPLICA_NBYTES"

definition tract_ok :: "int list \<Rightarrow> bool" where
  "tract_ok t \<longleftrightarrow> length t = NBREPLST \<and> (\<forall>v \<in> set t. -1 \<le> v \<and> v < int NBREPLST)"

definition retv :: "int list option \<Rightarrow> int \<Rightarrow> int" where
  "retv r v = (case r of None \<Rightarrow> 0 | Some r \<Rightarrow> r ! nat v)"

definition ret_ok :: "int list option \<Rightarrow> bool" where
  "ret_ok r \<longleftrightarrow> (case r of None \<Rightarrow> True | Some r \<Rightarrow> length r = NBREPLST)"

definition pure_cb :: "(nat \<Rightarrow> int \<Rightarrow> 'c \<Rightarrow> 'c) option \<Rightarrow> 'c walkcb option" where
  "pure_cb g = map_option (\<lambda>g _ k v c. Some (g k v c)) g"

abbreviation no_cb :: "'c walkcb option" where
  "no_cb \<equiv> pure_cb None"

definition run_cb :: "(nat \<Rightarrow> int \<Rightarrow> 'c \<Rightarrow> 'c) option \<Rightarrow> nat \<Rightarrow> int \<Rightarrow> 'c \<Rightarrow> 'c" where
  "run_cb g k v c = (case g of None \<Rightarrow> c | Some g \<Rightarrow> g k v c)"

definition tr :: "int list \<Rightarrow> int \<Rightarrow> int" where
  "tr t v = (if t ! nat v = -1 then v else t ! nat v)"

text \<open>
  A translating walk maps each visited state; \<open>bmi_orepls\<close> is left with the states before its last
  step. The return value is the last one that is set.
\<close>

definition walked :: "int list \<Rightarrow> nat list \<Rightarrow> u8 list \<Rightarrow> u8 list \<Rightarrow> bool" where
  "walked t ks bs cs \<longleftrightarrow> repls_ok cs \<and>
     (\<forall>j < SL_MAX_REPLICAS. brepl cs j = (if j \<in> set ks then tr t (brepl bs j) else brepl bs j))"

definition walk_rc :: "int list option \<Rightarrow> u8 list \<Rightarrow> nat list \<Rightarrow> int \<Rightarrow> int" where
  "walk_rc r bs ks rc = foldl (\<lambda>rc k. if retv r (brepl bs k) \<noteq> 0 then retv r (brepl bs k) else rc) rc ks"

definition walk_cb :: "(nat \<Rightarrow> int \<Rightarrow> 'c \<Rightarrow> 'c) option \<Rightarrow> u8 list \<Rightarrow> nat list \<Rightarrow> 'c \<Rightarrow> 'c" where
  "walk_cb g bs ks c = foldl (\<lambda>c k. run_cb g k (brepl bs k) c) c ks"

definition walk_list :: "nat \<Rightarrow> u32 \<Rightarrow> nat list \<Rightarrow> nat list" where
  "walk_list nr flags iosidx =
     (if iosidx = [] then [0..<nr]
      else if flags AND REPL_WALKF_MODOTH \<noteq> 0 then [k \<leftarrow> [0..<nr]. \<not> iosidx_in k iosidx]
      else iosidx)"

text \<open>What a walk is to visit: all replicas, those in the list, or those that are not in it.\<close>

definition walk_visits :: "nat \<Rightarrow> u32 \<Rightarrow> nat list \<Rightarrow> nat list" where
  "walk_visits nr flags iosidx =
     (if iosidx = [] then [0..<nr]
      else if flags AND REPL_WALKF_MODOTH \<noteq> 0 then [k \<leftarrow> [0..<nr]. k \<notin> set iosidx]
      else iosidx)"

named_theorems brepl_simps "translation tables"

subsection \<open>The packed array\<close>

locale state_table =
  fixes get :: "'t \<Rightarrow> nat \<Rightarrow> int option" and put :: "'t \<Rightarrow> nat \<Rightarrow> int \<Rightarrow> 't option"
    and ok :: "'t \<Rightarrow> bool" and state :: "'t \<Rightarrow> nat \<Rightarrow> int" and n :: nat
  assumes get_state: "ok t \<Longrightarrow> k < n \<Longrightarrow> get t k = Some (state t k)"
    and state_range: "0 \<le> state t k \<and> state t k < int NBREPLST"
    and put_state: "ok t \<Longrightarrow> k < n \<Longrightarrow> 0 \<le> v \<Longrightarrow> v < int NBREPLST \<Longrightarrow>
      \<exists>t'. put t k v = Some t' \<and> ok t' \<and> (\<forall>j < n. state t' j = (if j = k then v else state t j))"
begin

text \<open>Replacing one entry by its translation.\<close>

definition retable :: "int list \<Rightarrow> nat \<Rightarrow> 't \<Rightarrow> 't option" where
  "retable tract k t =
     do {
       v \<leftarrow> get t k;
       new \<leftarrow> rd tract (nat v);
       if new \<noteq> -1 then put t k new else Some t
     }"

lemma retable_state:
  assumes "ok t" "k < n" "tract_ok tract"
  obtains t' where "retable tract k t = Some t'" "ok t'"
    "\<And>j. j < n \<Longrightarrow> state t' j = (if j = k then tr tract (state t k) else state t j)"
proof -
  let ?v = "state t k" and ?new = "tract ! nat (state t k)"
  have len: "nat ?v < length tract" using state_range [of t k] assms(3) by (simp add: tract_ok_def nat_less_iff)
  then have new: "-1 \<le> ?new" "?new < int NBREPLST" using assms(3) nth_mem [OF len] by (auto simp: tract_ok_def)
  show thesis
  proof (cases "?new = -1")
    case True
    then show thesis using that [of t] assms len by (simp add: retable_def get_state tr_def mem_simps)
  next
    case False
    then obtain t' where "put t k ?new = Some t'" "ok t'" "\<forall>j < n. state t' j = (if j = k then ?new else state t j)"
      using put_state [OF assms(1,2), of ?new] new by auto
    then show thesis using that [of t'] False assms len by (simp add: retable_def get_state tr_def mem_simps)
  qed
qed

end

lemma bit_replica_mask [c_bits]: "bit SL_REPLICA_MASK i \<longleftrightarrow> i < 3"
proof -
  have "SL_REPLICA_MASK = 7" by (simp add: SL_REPLICA_MASK_def SL_BITS_PER_REPLICA_def to_u8_def)
  moreover have "bit (7 :: u8) i \<longleftrightarrow> i < 3"
    using bit_mask_iff [of 3 i, where 'a = "8 word"] by (simp add: mask_eq_exp_minus_1) auto
  ultimately show ?thesis by simp
qed

lemma buf_bit_lo:
  assumes "off mod 8 + i < 8"
  shows "buf_bit bs (off + i) = bit (bs ! (off div 8)) (off mod 8 + i)"
proof -
  have "8 * (off div 8) + off mod 8 = off" by simp
  then have "8 * (off div 8) + (off mod 8 + i) = off + i" by linarith
  then show ?thesis using buf_bit_at [OF assms, of bs "off div 8"] by metis
qed

lemma buf_bit_hi:
  assumes "8 \<le> off mod 8 + i" "off mod 8 + i < 16"
  shows "buf_bit bs (off + i) = bit (bs ! (off div 8 + 1)) (off mod 8 + i - 8)"
proof -
  define q r where qr: "q = off div 8" "r = off mod 8"
  obtain d where d: "r + i = 8 + d" using le_Suc_ex [OF assms(1)] qr by blast
  have "8 * q + r = off" by (simp add: qr)
  then have "8 * (q + 1) + d = off + i" using d by presburger
  moreover have "d < 8" using assms(2) d by (simp add: qr)
  ultimately show ?thesis using buf_bit_at [of d bs "q + 1"] d by (metis add_diff_cancel_left' qr)
qed

lemma u32_low3:
  assumes "\<And>i. bit (w :: u32) i \<longleftrightarrow> i < 3 \<and> f i"
  shows "uint w = of_bool (f 0) + 2 * of_bool (f 1) + 4 * of_bool (f 2)"
proof -
  have "w = of_bool (f 0) OR push_bit 1 (of_bool (f 1)) OR push_bit 2 (of_bool (f 2))"
  proof (rule bit_word_eqI)
    fix i assume "i < LENGTH(32)"
    have "i = 0 \<or> i = 1 \<or> i = 2 \<or> 2 < i" by linarith
    then show "bit w i \<longleftrightarrow> bit (of_bool (f 0) OR push_bit 1 (of_bool (f 1)) OR push_bit 2 (of_bool (f 2)) :: u32) i"
      unfolding assms bit_or_iff bit_push_bit_iff bit_of_bool_iff
      using \<open>i < LENGTH(32)\<close> by (elim disjE; simp)
  qed
  then show ?thesis by (cases "f 0"; cases "f 1"; cases "f 2") simp_all
qed

lemma get_bits:
  assumes "off + 3 \<le> 8 * length bs"
  shows "SL_REPL_GET_BMAP_IOS_STAT bs off =
    Some (of_bool (buf_bit bs off) + 2 * of_bool (buf_bit bs (off + 1)) + 4 * of_bool (buf_bit bs (off + 2)))"
proof -
  let ?r = "off mod 8" and ?lo = "bs ! (off div 8)" and ?hi = "bs ! (off div 8 + 1)"
  let ?h = "if 8 < ?r + 3 then push_bit (8 - ?r) (to_int ?hi) else 0"
  let ?w = "to_int SL_REPLICA_MASK AND (drop_bit ?r (to_int ?lo) OR ?h)"
  have q: "off div 8 < length bs" "8 < ?r + 3 \<Longrightarrow> off div 8 + 1 < length bs" using assms by presburger+
  have sh: "3 - (?r + 3 - 8) = 8 - ?r" if "8 < ?r + 3" using that by presburger
  have "SL_REPL_GET_BMAP_IOS_STAT bs off = Some (uint ?w)"
    using q sh by (simp add: SL_REPL_GET_BMAP_IOS_STAT_def NBBY_def SL_BITS_PER_REPLICA_def mem_simps)
  moreover have "bit ?w i \<longleftrightarrow> i < 3 \<and> buf_bit bs (off + i)" for i
  proof (cases "i < 3")
    case True
    show ?thesis
    proof (cases "?r + i < 8")
      case low: True
      then have "\<not> (8 - ?r \<le> i)" by linarith
      then show ?thesis using True by (simp add: buf_bit_lo [OF low] c_bits)
    next
      case False
      then have "8 - ?r \<le> i" "8 < ?r + 3" "?r + i < 16" "i - (8 - ?r) = ?r + i - 8" using True by linarith+
      moreover have "\<not> bit ?lo (?r + i)" using bit_u8_bound False by blast
      ultimately show ?thesis using True False buf_bit_hi [of off i bs] by (simp add: c_bits)
    qed
  qed (simp add: c_bits)
  ultimately show ?thesis using u32_low3 [of ?w "\<lambda>i. buf_bit bs (off + i)"] by simp
qed

lemma field_pos:
  fixes q p r j :: nat
  assumes "r < 8" "j < 8"
  shows "8 * q + r \<le> 8 * p + j \<and> 8 * p + j < 8 * q + r + 3 \<longleftrightarrow>
      (p = q \<and> r \<le> j \<and> j < r + 3) \<or> (p = q + 1 \<and> j + 8 < r + 3)"
    "p = q \<Longrightarrow> 8 * q + r \<le> 8 * p + j \<Longrightarrow> 8 * p + j - (8 * q + r) = j - r"
    "p = q + 1 \<Longrightarrow> 8 * p + j - (8 * q + r) = 8 + j - r"
proof -
  have "q \<le> p" if "8 * q + r \<le> 8 * p + j" using that assms by linarith
  moreover have "p \<le> q + 1" if "8 * p + j < 8 * q + r + 3" using that assms by linarith
  ultimately show "8 * q + r \<le> 8 * p + j \<and> 8 * p + j < 8 * q + r + 3 \<longleftrightarrow>
      (p = q \<and> r \<le> j \<and> j < r + 3) \<or> (p = q + 1 \<and> j + 8 < r + 3)"
    using assms by (cases "p = q"; cases "p = q + 1") auto
qed simp_all

lemma set_bits:
  assumes "off + 3 \<le> 8 * length bs" "0 \<le> v" "v < 8"
  obtains cs where "SL_REPL_SET_BMAP_IOS_STAT bs off v = Some cs" "length cs = length bs"
    "\<And>i. i < 8 * length bs \<Longrightarrow>
       buf_bit cs i = (if off \<le> i \<and> i < off + 3 then bit (word_of_int v :: u32) (i - off) else buf_bit bs i)"
proof -
  let ?q = "off div 8" and ?r = "off mod 8"
  let ?v = "word_of_int v :: u32"
  let ?lo = "to_u8 (to_int (bs ! ?q) AND NOT (push_bit ?r (to_int SL_REPLICA_MASK)) OR push_bit ?r ?v)"
  let ?hi = "to_u8 (to_int (bs ! (?q + 1)) AND NOT (drop_bit (8 - ?r) (to_int SL_REPLICA_MASK)) OR drop_bit (8 - ?r) ?v)"
  let ?cs = "if 8 < ?r + 3 then bs[?q := ?lo, ?q + 1 := ?hi] else bs[?q := ?lo]"
  have q: "?q < length bs" "8 < ?r + 3 \<Longrightarrow> ?q + 1 < length bs" using assms(1) by presburger+
  have sh: "3 - nat (int ?r - 5) = 8 - ?r" if "8 < ?r + 3" using that by linarith
  have "v = take_bit 3 v" using assms(2,3) by (simp add: take_bit_eq_mod)
  then have "\<not> bit v i" if "3 \<le> i" for i using that by (metis bit_take_bit_iff not_less)
  then have v: "\<not> bit ?v i" if "3 \<le> i" for i using that by (simp add: bit_word_of_int_iff)
  have set: "SL_REPL_SET_BMAP_IOS_STAT bs off v = Some ?cs"
    using q sh by (simp add: SL_REPL_SET_BMAP_IOS_STAT_def NBBY_def SL_BITS_PER_REPLICA_def mem_simps Let_def)
  have lo: "bit ?lo j \<longleftrightarrow> (if ?r \<le> j \<and> j < ?r + 3 then bit ?v (j - ?r) else bit (bs ! ?q) j)" if "j < 8" for j
    using that v by (auto simp: c_bits)
  have hi: "bit ?hi j \<longleftrightarrow> (if j + 8 < ?r + 3 then bit ?v (8 + j - ?r) else bit (bs ! (?q + 1)) j)"
    if "j < 8" "8 < ?r + 3" for j
    using that v by (auto simp: c_bits)
  show thesis
    using set
  proof (rule that)
    fix i :: nat
    let ?p = "i div 8" and ?j = "i mod 8"
    have r8: "?r < 8" "?j < 8" by simp_all
    have eqs: "8 * ?p + ?j = i" "8 * ?q + ?r = off" by (rule mult_div_mod_eq)+
    note rng = field_pos(1) [OF r8, of ?q ?p, unfolded eqs]
    show "buf_bit ?cs i = (if off \<le> i \<and> i < off + 3 then bit ?v (i - off) else buf_bit bs i)"
    proof (cases "off \<le> i \<and> i < off + 3")
      case True
      then consider "?p = ?q" "?r \<le> ?j" "?j < ?r + 3" | "?p = ?q + 1" "?j + 8 < ?r + 3" using rng by blast
      then show ?thesis
      proof cases
        case 1
        then show ?thesis using lo [OF r8(2)] q(1) field_pos(2) [OF r8 1(1), unfolded eqs] True by (simp add: buf_bit_def)
      next
        case 2
        then show ?thesis using hi [OF r8(2)] q field_pos(3) [OF r8 2(1), unfolded eqs] True by (simp add: buf_bit_def)
      qed
    next
      case False
      consider "?p = ?q" "\<not> (?r \<le> ?j \<and> ?j < ?r + 3)" | "?p = ?q + 1" "8 < ?r + 3" "\<not> ?j + 8 < ?r + 3"
        | "?p \<noteq> ?q" "?p = ?q + 1 \<longrightarrow> \<not> 8 < ?r + 3" using False rng by blast
      then have "buf_bit ?cs i = buf_bit bs i"
      proof cases
        case 1
        then show ?thesis using lo [OF r8(2)] q(1) unfolding if_not_P [OF 1(2)] by (simp add: buf_bit_def)
      next
        case 2
        then show ?thesis using hi [OF r8(2) 2(2)] q by (simp add: buf_bit_def)
      qed (auto simp: buf_bit_def nth_list_update)
      then show ?thesis unfolding if_not_P [OF False] .
    qed
  qed simp
qed

lemma brepl_range: "0 \<le> brepl bs k" "brepl bs k < 8"
  by (auto simp: brepl_def of_bool_def)

lemma word3_bits:
  assumes "0 \<le> v" "v < 8"
  shows "of_bool (bit (word_of_int v :: u32) 0) + 2 * of_bool (bit (word_of_int v :: u32) 1) +
    4 * of_bool (bit (word_of_int v :: u32) 2) = v"
proof -
  let ?w = "word_of_int v :: u32"
  have v: "v = take_bit 3 v" using assms by (simp add: take_bit_eq_mod)
  have "bit ?w i \<longleftrightarrow> i < 3 \<and> bit ?w i" for i
    using v by (metis (no_types, lifting) bit_take_bit_iff bit_word_of_int_iff)
  then have "uint ?w = of_bool (bit ?w 0) + 2 * of_bool (bit ?w 1) + 4 * of_bool (bit ?w 2)"
    by (rule u32_low3)
  moreover have "uint ?w = v" using assms by (simp add: uint_word_of_int_eq take_bit_eq_mod)
  ultimately show ?thesis by simp
qed

interpretation rt: state_table "\<lambda>bs k. SL_REPL_GET_BMAP_IOS_STAT bs (k * SL_BITS_PER_REPLICA)"
  "\<lambda>bs k. SL_REPL_SET_BMAP_IOS_STAT bs (k * SL_BITS_PER_REPLICA)" repls_ok brepl SL_MAX_REPLICAS
proof
  fix t k
  assume ok: "repls_ok t" and k: "k < SL_MAX_REPLICAS"
  then have len: "length t = 24" and fits: "3 * k + 3 \<le> 8 * length t"
    by (simp_all add: repls_ok_def SL_REPLICA_NBYTES_def SL_MAX_REPLICAS_def SL_BITS_PER_REPLICA_def NBBY_def)
  show "SL_REPL_GET_BMAP_IOS_STAT t (k * SL_BITS_PER_REPLICA) = Some (brepl t k)"
    using get_bits [OF fits] by (simp add: brepl_def SL_BITS_PER_REPLICA_def mult.commute)
  fix v :: int
  assume v: "0 \<le> v" "v < int NBREPLST"
  then have v8: "v < 8" by (simp add: NBREPLST_def)
  obtain cs where cs: "SL_REPL_SET_BMAP_IOS_STAT t (3 * k) v = Some cs" "length cs = length t"
    "\<And>i. i < 8 * length t \<Longrightarrow> buf_bit cs i =
       (if 3 * k \<le> i \<and> i < 3 * k + 3 then bit (word_of_int v :: u32) (i - 3 * k) else buf_bit t i)"
    by (rule set_bits [OF fits v(1) v8]) blast
  have "brepl cs j = (if j = k then v else brepl t j)" if "j < SL_MAX_REPLICAS" for j
  proof (cases "j = k")
    case True
    then show ?thesis using cs(3) [of "3 * k"] cs(3) [of "3 * k + 1"] cs(3) [of "3 * k + 2"] fits word3_bits [OF v(1) v8]
      by (simp add: brepl_def)
  next
    case False
    have "buf_bit cs (3 * j + i) = buf_bit t (3 * j + i)" if "i < 3" for i
      using cs(3) [of "3 * j + i"] \<open>j < SL_MAX_REPLICAS\<close> that False len by (auto simp: SL_MAX_REPLICAS_def)
    from this [of 0] this [of 1] this [of 2] show ?thesis using False by (simp add: brepl_def)
  qed
  then show "\<exists>t'. SL_REPL_SET_BMAP_IOS_STAT t (k * SL_BITS_PER_REPLICA) v = Some t' \<and> repls_ok t' \<and>
      (\<forall>j < SL_MAX_REPLICAS. brepl t' j = (if j = k then v else brepl t j))"
    using cs(1,2) ok by (simp add: SL_BITS_PER_REPLICA_def mult.commute repls_ok_def)
qed (simp add: brepl_range NBREPLST_def)

subsection \<open>The walk\<close>

lemma retv_rd: "ret_ok r \<Longrightarrow> (case r of None \<Rightarrow> Some 0 | Some r \<Rightarrow> rd r (nat (brepl bs k))) = Some (retv r (brepl bs k))"
  using brepl_range [of bs k] by (auto simp: ret_ok_def retv_def NBREPLST_def rd_Some nat_less_iff split: option.splits)

lemma pure_cb_run: "(case pure_cb g of None \<Rightarrow> Some c | Some f \<Rightarrow> f b k v c) = Some (run_cb g k v c)"
  by (cases g) (simp_all add: pure_cb_def run_cb_def)

lemma idx_div [simp]: "k * SL_BITS_PER_REPLICA div SL_BITS_PER_REPLICA = k"
  by (simp add: SL_BITS_PER_REPLICA_def)

lemma apply_query:
  assumes "repls_ok (bmi_repls b)" "k < SL_MAX_REPLICAS" "ret_ok r"
    and "sc \<noteq> None \<or> flags AND REPL_WALKF_SCIRCUIT = 0"
  shows "mds_repl_bmap_apply b None r flags (k * SL_BITS_PER_REPLICA) sc (pure_cb g) c =
    Some (b, retv r (brepl (bmi_repls b) k),
      (if retv r (brepl (bmi_repls b) k) \<noteq> 0 \<and> flags AND REPL_WALKF_SCIRCUIT \<noteq> 0 then Some True
       else map_option (\<lambda>_. False) sc),
      run_cb g k (brepl (bmi_repls b) k) c)"
  using assms(4) brepl_range [of "bmi_repls b" k]
  unfolding mds_repl_bmap_apply_def
  by (simp add: pure_cb_run Let_def NBREPLST_def rt.get_state [OF assms(1,2)] retv_rd [OF assms(3)])

lemma apply_translate:
  assumes "repls_ok (bmi_repls b)" "k < SL_MAX_REPLICAS" "ret_ok r" "tract_ok t"
    and "flags AND REPL_WALKF_SCIRCUIT = 0" "bcm_flags b AND BMAPF_REPLMODWR = 0"
  obtains repls where "mds_repl_bmap_apply b (Some t) r flags (k * SL_BITS_PER_REPLICA) sc (pure_cb g) c =
      Some (b\<lparr>bmi_repls := repls, bmi_orepls := bmi_repls b\<rparr>, retv r (brepl (bmi_repls b) k),
        map_option (\<lambda>_. False) sc, run_cb g k (brepl (bmi_repls b) k) c)"
    "repls_ok repls"
    "\<And>j. j < SL_MAX_REPLICAS \<Longrightarrow>
       brepl repls j = (if j = k then tr t (brepl (bmi_repls b) k) else brepl (bmi_repls b) j)"
proof -
  obtain repls where re: "rt.retable t k (bmi_repls b) = Some repls" "repls_ok repls"
    "\<And>j. j < SL_MAX_REPLICAS \<Longrightarrow>
       brepl repls j = (if j = k then tr t (brepl (bmi_repls b) k) else brepl (bmi_repls b) j)"
    by (rule rt.retable_state [OF assms(1,2,4)]) blast
  obtain new where new: "rd t (nat (brepl (bmi_repls b) k)) = Some new"
    "(if new \<noteq> -1 then SL_REPL_SET_BMAP_IOS_STAT (bmi_repls b) (k * SL_BITS_PER_REPLICA) new
      else Some (bmi_repls b)) = Some repls"
    using re(1) by (auto simp: rt.retable_def rt.get_state [OF assms(1,2)] bind_eq_Some_conv)
  have "mds_repl_bmap_apply b (Some t) r flags (k * SL_BITS_PER_REPLICA) sc (pure_cb g) c =
      Some (b\<lparr>bmi_repls := repls, bmi_orepls := bmi_repls b\<rparr>, retv r (brepl (bmi_repls b) k),
        map_option (\<lambda>_. False) sc, run_cb g k (brepl (bmi_repls b) k) c)"
  proof (cases "new = -1")
    case True
    then have repls: "repls = bmi_repls b" using new(2) by simp
    show ?thesis using assms(5,6) brepl_range [of "bmi_repls b" k] new(1) True
      unfolding mds_repl_bmap_apply_def repls
      by (simp add: pure_cb_run Let_def NBREPLST_def rt.get_state [OF assms(1,2)] retv_rd [OF assms(3)])
  next
    case False
    then show ?thesis using assms(5,6) brepl_range [of "bmi_repls b" k] new unfolding mds_repl_bmap_apply_def
      by (simp add: pure_cb_run Let_def NBREPLST_def rt.get_state [OF assms(1,2)] retv_rd [OF assms(3)])
  qed
  then show thesis using re(2,3) that by blast
qed

lemma walk_rc_cong:
  "(\<And>k. k \<in> set ks \<Longrightarrow> brepl bs k = brepl cs k) \<Longrightarrow> walk_rc r bs ks rc = walk_rc r cs ks rc"
  unfolding walk_rc_def by (rule foldl_cong) simp_all

lemma walk_cb_cong:
  "(\<And>k. k \<in> set ks \<Longrightarrow> brepl bs k = brepl cs k) \<Longrightarrow> walk_cb g bs ks c = walk_cb g cs ks c"
  unfolding walk_cb_def by (rule foldl_cong) simp_all

lemma walk_loop_translate:
  assumes "repls_ok (bmi_repls b)" "ret_ok r" "tract_ok t" "flags AND REPL_WALKF_SCIRCUIT = 0"
    and "bcm_flags b AND BMAPF_REPLMODWR = 0" "distinct ks" "\<forall>k \<in> set ks. k < SL_MAX_REPLICAS"
  shows "\<exists>repls orepls. bmap_walk_loop (Some t) r flags (pure_cb g) ks b rc c =
      Some (b\<lparr>bmi_repls := repls, bmi_orepls := orepls\<rparr>, walk_rc r (bmi_repls b) ks rc,
        walk_cb g (bmi_repls b) ks c) \<and>
    walked t ks (bmi_repls b) repls \<and>
    (if ks = [] then orepls = bmi_orepls b else walked t (butlast ks) (bmi_repls b) orepls)"
  using assms
proof (induction ks arbitrary: b rc c)
  case Nil
  then show ?case by (intro exI [of _ "bmi_repls b"] exI [of _ "bmi_orepls b"])
    (simp add: walked_def walk_rc_def walk_cb_def)
next
  case (Cons k ks)
  have k: "k < SL_MAX_REPLICAS" "k \<notin> set ks" using Cons.prems(6,7) by simp_all
  obtain bs where bs: "mds_repl_bmap_apply b (Some t) r flags (k * SL_BITS_PER_REPLICA) (Some False) (pure_cb g) c =
      Some (b\<lparr>bmi_repls := bs, bmi_orepls := bmi_repls b\<rparr>, retv r (brepl (bmi_repls b) k),
        map_option (\<lambda>_. False) (Some False), run_cb g k (brepl (bmi_repls b) k) c)"
    "repls_ok bs"
    "\<And>j. j < SL_MAX_REPLICAS \<Longrightarrow>
       brepl bs j = (if j = k then tr t (brepl (bmi_repls b) k) else brepl (bmi_repls b) j)"
    by (rule apply_translate [OF Cons.prems(1) k(1) Cons.prems(2-5)]) blast
  let ?b = "b\<lparr>bmi_repls := bs, bmi_orepls := bmi_repls b\<rparr>"
  let ?rc = "if retv r (brepl (bmi_repls b) k) \<noteq> 0 then retv r (brepl (bmi_repls b) k) else rc"
  let ?c = "run_cb g k (brepl (bmi_repls b) k) c"
  have p: "repls_ok (bmi_repls ?b)" "bcm_flags ?b AND BMAPF_REPLMODWR = 0" "distinct ks"
    "\<forall>k \<in> set ks. k < SL_MAX_REPLICAS"
    using Cons.prems(5-7) bs(2) by simp_all
  obtain repls orepls where IH0: "bmap_walk_loop (Some t) r flags (pure_cb g) ks ?b ?rc ?c =
      Some (?b\<lparr>bmi_repls := repls, bmi_orepls := orepls\<rparr>, walk_rc r (bmi_repls ?b) ks ?rc,
        walk_cb g (bmi_repls ?b) ks ?c)"
    "walked t ks (bmi_repls ?b) repls"
    "if ks = [] then orepls = bmi_orepls ?b else walked t (butlast ks) (bmi_repls ?b) orepls"
    using Cons.IH [OF p(1) Cons.prems(2-4) p(2-4), of ?rc ?c] by (elim exE conjE) (rule that)
  have b: "bmi_repls ?b = bs" "bmi_orepls ?b = bmi_repls b"
    "?b\<lparr>bmi_repls := repls, bmi_orepls := orepls\<rparr> = b\<lparr>bmi_repls := repls, bmi_orepls := orepls\<rparr>" by simp_all
  note IH = IH0 [unfolded b]
  have same: "brepl bs j = brepl (bmi_repls b) j" if "j \<in> set ks" for j
    using bs(3) [of j] Cons.prems(7) that k(2) by (cases "j = k") simp_all
  have shift: "walked t (k # xs) (bmi_repls b) cs" if "walked t xs bs cs" "set xs \<subseteq> set ks" for xs cs
  proof -
    have "brepl cs j = (if j \<in> set (k # xs) then tr t (brepl (bmi_repls b) j) else brepl (bmi_repls b) j)"
      if j: "j < SL_MAX_REPLICAS" for j
    proof (cases "j = k")
      case True
      then have "j \<notin> set xs" using k(2) \<open>set xs \<subseteq> set ks\<close> by blast
      then show ?thesis using True j bs(3) [OF j] \<open>walked t xs bs cs\<close> by (simp add: walked_def)
    next
      case False
      then show ?thesis using j bs(3) [OF j] \<open>walked t xs bs cs\<close> by (simp add: walked_def)
    qed
    then show ?thesis using \<open>walked t xs bs cs\<close> by (simp add: walked_def)
  qed
  have rc: "walk_rc r bs ks ?rc = walk_rc r (bmi_repls b) (k # ks) rc"
    using walk_rc_cong [of ks bs "bmi_repls b" r ?rc] same unfolding walk_rc_def by simp
  have cb: "walk_cb g bs ks ?c = walk_cb g (bmi_repls b) (k # ks) c"
    using walk_cb_cong [of ks bs "bmi_repls b" g ?c] same unfolding walk_cb_def by simp
  have last: "walked t (butlast (k # ks)) (bmi_repls b) orepls"
  proof (cases "ks = []")
    case True
    then show ?thesis using IH(3) Cons.prems(1) by (simp add: walked_def)
  next
    case False
    moreover have "set (butlast ks) \<subseteq> set ks" by (auto dest: in_set_butlastD)
    ultimately show ?thesis using IH(3) shift [of "butlast ks" orepls] by simp
  qed
  have "bmap_walk_loop (Some t) r flags (pure_cb g) (k # ks) b rc c =
      bmap_walk_loop (Some t) r flags (pure_cb g) ks ?b ?rc ?c"
    by (simp add: bs(1) Let_def del: if_split cong: if_cong)
  then have "bmap_walk_loop (Some t) r flags (pure_cb g) (k # ks) b rc c =
      Some (b\<lparr>bmi_repls := repls, bmi_orepls := orepls\<rparr>, walk_rc r (bmi_repls b) (k # ks) rc,
        walk_cb g (bmi_repls b) (k # ks) c)" using IH(1) unfolding rc cb by (rule trans)
  moreover have "walked t (k # ks) (bmi_repls b) repls" using shift [OF IH(2)] by simp
  ultimately show ?case using last by (intro exI [of _ repls] exI [of _ orepls] conjI) simp_all
qed

text \<open>A query leaves the bmap alone, and returns zero exactly when no visited state asks for a value.\<close>

lemma walk_loop_query:
  assumes "repls_ok (bmi_repls b)" "ret_ok r" "\<forall>k \<in> set ks. k < SL_MAX_REPLICAS"
  shows "\<exists>rc' c'. bmap_walk_loop None r flags (pure_cb g) ks b rc c = Some (b, rc', c') \<and>
    (rc' = 0 \<longleftrightarrow> rc = 0 \<and> (\<forall>k \<in> set ks. retv r (brepl (bmi_repls b) k) = 0)) \<and>
    (flags AND REPL_WALKF_SCIRCUIT = 0 \<longrightarrow>
       rc' = walk_rc r (bmi_repls b) ks rc \<and> c' = walk_cb g (bmi_repls b) ks c)"
  using assms(3)
proof (induction ks arbitrary: rc c)
  case (Cons k ks)
  then show ?case
    using apply_query [OF assms(1) _ assms(2), of k "Some False" flags g c]
    by (auto simp: Let_def walk_rc_def walk_cb_def)
qed (simp add: walk_rc_def walk_cb_def)

subsection \<open>Translation tables\<close>

lemma breplst_range [brepl_simps]:
  "0 \<le> BREPLST_INVALID" "0 \<le> BREPLST_REPL_SCHED" "0 \<le> BREPLST_REPL_QUEUED" "0 \<le> BREPLST_VALID"
  "0 \<le> BREPLST_TRUNC_QUEUED" "0 \<le> BREPLST_TRUNC_SCHED" "0 \<le> BREPLST_GARBAGE_QUEUED" "0 \<le> BREPLST_GARBAGE_SCHED"
  "BREPLST_INVALID < 8" "BREPLST_REPL_SCHED < 8" "BREPLST_REPL_QUEUED < 8" "BREPLST_VALID < 8"
  "BREPLST_TRUNC_QUEUED < 8" "BREPLST_TRUNC_SCHED < 8" "BREPLST_GARBAGE_QUEUED < 8" "BREPLST_GARBAGE_SCHED < 8"
  by (simp_all add: breplst_defs)

lemma breplst_distinct [brepl_simps]:
  "BREPLST_INVALID \<noteq> BREPLST_REPL_SCHED" "BREPLST_INVALID \<noteq> BREPLST_REPL_QUEUED" "BREPLST_INVALID \<noteq> BREPLST_VALID"
  "BREPLST_INVALID \<noteq> BREPLST_TRUNC_QUEUED" "BREPLST_INVALID \<noteq> BREPLST_TRUNC_SCHED"
  "BREPLST_INVALID \<noteq> BREPLST_GARBAGE_QUEUED" "BREPLST_INVALID \<noteq> BREPLST_GARBAGE_SCHED"
  "BREPLST_REPL_SCHED \<noteq> BREPLST_REPL_QUEUED" "BREPLST_REPL_SCHED \<noteq> BREPLST_VALID"
  "BREPLST_REPL_SCHED \<noteq> BREPLST_TRUNC_QUEUED" "BREPLST_REPL_SCHED \<noteq> BREPLST_TRUNC_SCHED"
  "BREPLST_REPL_SCHED \<noteq> BREPLST_GARBAGE_QUEUED" "BREPLST_REPL_SCHED \<noteq> BREPLST_GARBAGE_SCHED"
  "BREPLST_REPL_QUEUED \<noteq> BREPLST_VALID" "BREPLST_REPL_QUEUED \<noteq> BREPLST_TRUNC_QUEUED"
  "BREPLST_REPL_QUEUED \<noteq> BREPLST_TRUNC_SCHED" "BREPLST_REPL_QUEUED \<noteq> BREPLST_GARBAGE_QUEUED"
  "BREPLST_REPL_QUEUED \<noteq> BREPLST_GARBAGE_SCHED" "BREPLST_VALID \<noteq> BREPLST_TRUNC_QUEUED"
  "BREPLST_VALID \<noteq> BREPLST_TRUNC_SCHED" "BREPLST_VALID \<noteq> BREPLST_GARBAGE_QUEUED"
  "BREPLST_VALID \<noteq> BREPLST_GARBAGE_SCHED" "BREPLST_TRUNC_QUEUED \<noteq> BREPLST_TRUNC_SCHED"
  "BREPLST_TRUNC_QUEUED \<noteq> BREPLST_GARBAGE_QUEUED" "BREPLST_TRUNC_QUEUED \<noteq> BREPLST_GARBAGE_SCHED"
  "BREPLST_TRUNC_SCHED \<noteq> BREPLST_GARBAGE_QUEUED" "BREPLST_TRUNC_SCHED \<noteq> BREPLST_GARBAGE_SCHED"
  "BREPLST_GARBAGE_QUEUED \<noteq> BREPLST_GARBAGE_SCHED"
  by (simp_all add: breplst_defs)

lemmas breplst_distinct' [brepl_simps] = breplst_distinct [symmetric]

lemma breplst_neg [brepl_simps]:
  "0 \<le> v \<Longrightarrow> (v = (-1 :: int)) = False"
  by simp

lemma length_brepls_init [brepl_simps]:
  "length (brepls_init v) = 8" "length brepls_init_idx = 8" "length (t[i := x]) = length t"
  by (simp_all add: brepls_init_def brepls_init_idx_def NBREPLST_def)

lemma nth_brepls_init [brepl_simps]:
  "0 \<le> v \<Longrightarrow> v < 8 \<Longrightarrow> brepls_init x ! nat v = x" "0 \<le> v \<Longrightarrow> v < 8 \<Longrightarrow> brepls_init_idx ! nat v = v"
  by (simp_all add: brepls_init_def brepls_init_idx_def NBREPLST_def nat_less_iff)

lemma nth_table_upd [brepl_simps]:
  assumes "length t = 8" "0 \<le> v" "v < 8" "0 \<le> i" "i < 8"
  shows "t[nat i := x] ! nat v = (if v = i then x else t ! nat v)"
  using assms by (auto simp: nth_list_update nat_less_iff eq_nat_nat_iff)

lemma tract_ok_init [brepl_simps, simp]: "tract_ok (brepls_init (-1))"
  by (simp add: tract_ok_def brepls_init_def NBREPLST_def)

lemma tract_ok_upd [brepl_simps]:
  assumes "tract_ok t" "-1 \<le> x" "x < 8"
  shows "tract_ok (t[i := x])"
  using assms set_update_subset_insert [of t i x] by (fastforce simp: tract_ok_def NBREPLST_def)

lemma breplst_ge_m1 [brepl_simps]: "0 \<le> x \<Longrightarrow> (-1 :: int) \<le> x"
  by simp

lemma ret_ok_len [brepl_simps]: "ret_ok (Some r) \<longleftrightarrow> length r = 8" "ret_ok None"
  by (simp_all add: ret_ok_def NBREPLST_def)

lemma brepl_range' [brepl_simps]: "0 \<le> brepl bs k" "brepl bs k < 8"
  by (rule brepl_range)+

lemma run_none [simp]: "run_cb None k v c = c" "walk_cb None bs ks c = c"
proof -
  show 1: "run_cb None k v c = c" for k v c by (simp add: run_cb_def)
  show "walk_cb None bs ks c = c" unfolding walk_cb_def 1 by (induction ks) simp_all
qed

lemma walk_rc_zero:
  "walk_rc r bs ks rc = 0 \<longleftrightarrow> rc = 0 \<and> (\<forall>k \<in> set ks. retv r (brepl bs k) = 0)"
  unfolding walk_rc_def by (induction ks arbitrary: rc) auto

subsection \<open>Walks\<close>

lemma walk_list_less:
  "nr \<le> SL_MAX_REPLICAS \<Longrightarrow> \<forall>k \<in> set iosidx. k < SL_MAX_REPLICAS \<Longrightarrow> \<forall>k \<in> set (walk_list nr flags iosidx). k < SL_MAX_REPLICAS"
  by (auto simp: walk_list_def)

lemma walk_eq:
  "mds_repl_bmap_walk nr b tract retifset flags iosidx cbf c =
     bmap_walk_loop tract retifset flags cbf (walk_list nr flags iosidx) b 0 c"
  by (simp add: mds_repl_bmap_walk_def walk_list_def)

lemma bsearch_found: "bsearch c lo hi = Some i \<Longrightarrow> lo \<le> i \<and> i < hi \<and> c i = 0"
proof (induction c lo hi rule: bsearch.induct)
  case (1 c lo hi)
  show ?case using 1(1) 1(2) 1(3) by (subst (asm) (3) bsearch.simps) (force simp: Let_def split: if_splits)
qed

lemma bsearch_none:
  "cmp_sorted c n \<Longrightarrow> hi \<le> n \<Longrightarrow> bsearch c lo hi = None \<Longrightarrow> lo \<le> j \<Longrightarrow> j < hi \<Longrightarrow> c j \<noteq> 0"
proof (induction c lo hi rule: bsearch.induct)
  case (1 c lo hi)
  let ?i = "(lo + hi) div 2"
  have i: "lo \<le> ?i" "?i < hi" "lo < hi" using 1(6,7) by auto
  note b = 1(5) [unfolded bsearch.simps [of c lo hi] Let_def if_P [OF i(3)]]
  consider "c ?i < 0" | "0 < c ?i" "\<not> c ?i < 0" | "c ?i = 0" by linarith
  then show ?case
  proof cases
    case a: 1
    then have "j < ?i \<Longrightarrow> c j \<noteq> 0" using 1(1) [OF i(3) refl a 1(3)] 1(4,6) i b by simp
    moreover have "?i \<le> j \<Longrightarrow> c j < 0" using cmp_sortedD(1) [OF 1(3)] a 1(4,7) by (meson le_trans less_le_trans)
    ultimately show ?thesis by (cases "j < ?i") auto
  next
    case a: 2
    then have "?i + 1 \<le> j \<Longrightarrow> c j \<noteq> 0" using 1(2) [OF i(3) refl a(2) a(1) 1(3)] 1(4,7) i b by simp
    moreover have "j \<le> ?i \<Longrightarrow> 0 < c j" using cmp_sortedD(2) [OF 1(3)] a(1) 1(4) i(2) by (meson less_le_trans)
    ultimately show ?thesis by (cases "j \<le> ?i") auto
  next
    case 3
    then show ?thesis using b by simp
  qed
qed

lemma iosidx_in_sorted: "sorted iosidx \<Longrightarrow> iosidx_in k iosidx \<longleftrightarrow> k \<in> set iosidx"
proof -
  let ?c = "\<lambda>i. CMP k (iosidx ! i)"
  assume "sorted iosidx"
  then have s: "cmp_sorted ?c (length iosidx)" unfolding cmp_sorted_def CMP_sign
    by (meson order.strict_trans1 order.strict_trans2 sorted_nth_mono)
  show ?thesis
  proof
    assume "iosidx_in k iosidx"
    then show "k \<in> set iosidx" using bsearch_found [of ?c 0 "length iosidx"] by (auto simp: iosidx_in_def iosidx_cmp_def)
  next
    assume "k \<in> set iosidx"
    then show "iosidx_in k iosidx" using bsearch_none [OF s order_refl, of 0]
      by (auto simp: iosidx_in_def iosidx_cmp_def in_set_conv_nth)
  qed
qed

lemma iosidx_in_single [simp]: "iosidx_in k [i] \<longleftrightarrow> k = i"
  by (simp add: iosidx_in_sorted)

lemma walk_list_sorted: "sorted iosidx \<Longrightarrow> walk_list nr flags iosidx = walk_visits nr flags iosidx"
  by (simp add: walk_list_def walk_visits_def iosidx_in_sorted)

lemma walk_translate:
  assumes "repls_ok (bmi_repls b)" "ret_ok r" "tract_ok t" "flags AND REPL_WALKF_SCIRCUIT = 0"
    and "bcm_flags b AND BMAPF_REPLMODWR = 0" "distinct iosidx" "\<forall>k \<in> set iosidx. k < SL_MAX_REPLICAS"
    and "nr \<le> SL_MAX_REPLICAS" "ks = walk_list nr flags iosidx"
  obtains repls orepls where "mds_repl_bmap_walk nr b (Some t) r flags iosidx (pure_cb g) c =
      Some (b\<lparr>bmi_repls := repls, bmi_orepls := orepls\<rparr>, walk_rc r (bmi_repls b) ks 0,
        walk_cb g (bmi_repls b) ks c)"
    "walked t ks (bmi_repls b) repls"
    "if ks = [] then orepls = bmi_orepls b else walked t (butlast ks) (bmi_repls b) orepls"
proof -
  have "distinct (walk_list nr flags iosidx)" using assms(6) by (simp add: walk_list_def)
  from walk_loop_translate [OF assms(1-5) this walk_list_less [OF assms(8,7), of flags], of g 0 c]
  show thesis by (elim exE conjE) (rule that [unfolded walk_eq assms(9)])
qed

lemma walk_query:
  assumes "repls_ok (bmi_repls b)" "ret_ok r" "\<forall>k \<in> set iosidx. k < SL_MAX_REPLICAS"
    and "nr \<le> SL_MAX_REPLICAS" "ks = walk_list nr flags iosidx"
  obtains rc c' where "mds_repl_bmap_walk nr b None r flags iosidx (pure_cb g) c = Some (b, rc, c')"
    "rc = 0 \<longleftrightarrow> (\<forall>k \<in> set ks. retv r (brepl (bmi_repls b) k) = 0)"
    "flags AND REPL_WALKF_SCIRCUIT = 0 \<Longrightarrow> c' = walk_cb g (bmi_repls b) ks c"
  using walk_loop_query [OF assms(1,2) walk_list_less [OF assms(4,3), of flags], of flags g 0 c] that
  unfolding walk_eq assms(5) by (elim exE conjE) simp

text \<open>What a walk leaves of the change to be found in \<open>bmi_orepls\<close>: its last step.\<close>

lemma walked_butlast:
  assumes "walked t ks bs cs" "walked t (butlast ks) bs ds" "distinct ks" "ks \<noteq> []" "j < SL_MAX_REPLICAS"
  shows "brepl ds j = (if j = last ks then brepl bs j else brepl cs j)"
proof -
  have ks: "set ks = insert (last ks) (set (butlast ks))" "last ks \<notin> set (butlast ks)"
    using assms(3,4) by (metis append_butlast_last_id list.set(1,2) set_append sup_bot_right Un_insert_right,
        metis append_butlast_last_id assms(4) distinct_append disjoint_insert(2) list.set(2))
  then show ?thesis using assms(1,2,5) unfolding walked_def by auto
qed

subsection \<open>Properties\<close>

text \<open>
  The packed array of residency states is read and written within its bounds: for each of the 64
  replicas the status macros stay inside the 24 bytes, the state read is one of the eight, and
  storing a state makes it readable and leaves the other 63 as they were.
\<close>

theorem repl_stat_bounds:
  assumes "length bs = SL_REPLICA_NBYTES" "k < SL_MAX_REPLICAS" "0 \<le> v" "v < int NBREPLST"
  shows "\<exists>old cs. SL_REPL_GET_BMAP_IOS_STAT bs (k * SL_BITS_PER_REPLICA) = Some old \<and> 0 \<le> old \<and> old < int NBREPLST \<and>
    SL_REPL_SET_BMAP_IOS_STAT bs (k * SL_BITS_PER_REPLICA) v = Some cs \<and> length cs = SL_REPLICA_NBYTES \<and>
    (\<forall>j < SL_MAX_REPLICAS. SL_REPL_GET_BMAP_IOS_STAT cs (j * SL_BITS_PER_REPLICA) =
       (if j = k then Some v else SL_REPL_GET_BMAP_IOS_STAT bs (j * SL_BITS_PER_REPLICA)))"
proof -
  have ok: "repls_ok bs" using assms(1) by (simp add: repls_ok_def)
  obtain cs where cs: "SL_REPL_SET_BMAP_IOS_STAT bs (k * SL_BITS_PER_REPLICA) v = Some cs" "repls_ok cs"
    "\<forall>j < SL_MAX_REPLICAS. brepl cs j = (if j = k then v else brepl bs j)"
    using rt.put_state [OF ok assms(2-4)] by blast
  have "SL_REPL_GET_BMAP_IOS_STAT cs (j * SL_BITS_PER_REPLICA) =
      (if j = k then Some v else SL_REPL_GET_BMAP_IOS_STAT bs (j * SL_BITS_PER_REPLICA))" if "j < SL_MAX_REPLICAS" for j
    using cs(3) that rt.get_state [OF cs(2) that] rt.get_state [OF ok that] by simp
  then show ?thesis using cs(1,2) rt.get_state [OF ok assms(2)] rt.state_range [of bs k] by (simp add: repls_ok_def)
qed

theorem repl_stat_bounds_witness:
  "\<exists>cs. SL_REPL_SET_BMAP_IOS_STAT (replicate 24 0) (2 * SL_BITS_PER_REPLICA) BREPLST_VALID = Some cs \<and>
    SL_REPL_GET_BMAP_IOS_STAT cs (2 * SL_BITS_PER_REPLICA) = Some BREPLST_VALID"
proof -
  let ?z = "replicate 24 0 :: u8 list"
  have p: "length ?z = SL_REPLICA_NBYTES" "2 < SL_MAX_REPLICAS" "0 \<le> BREPLST_VALID" "BREPLST_VALID < int NBREPLST"
    by (simp_all add: SL_REPLICA_NBYTES_def SL_MAX_REPLICAS_def SL_BITS_PER_REPLICA_def NBBY_def NBREPLST_def breplst_defs)
  obtain cs where cs: "SL_REPL_SET_BMAP_IOS_STAT ?z (2 * SL_BITS_PER_REPLICA) BREPLST_VALID = Some cs"
    "\<forall>j < SL_MAX_REPLICAS. SL_REPL_GET_BMAP_IOS_STAT cs (j * SL_BITS_PER_REPLICA) =
       (if j = 2 then Some BREPLST_VALID else SL_REPL_GET_BMAP_IOS_STAT ?z (j * SL_BITS_PER_REPLICA))"
    using repl_stat_bounds [OF p] by (elim exE conjE) (rule that)
  from cs(2) [rule_format, OF p(2)] have "SL_REPL_GET_BMAP_IOS_STAT cs (2 * SL_BITS_PER_REPLICA) = Some BREPLST_VALID"
    unfolding if_P [OF refl] .
  with cs(1) show ?thesis by (intro exI [of _ cs] conjI)
qed

text \<open>
  C9. A walk over the replicas of a bmap with a sorted list of indexes without duplicates, as the lookup of the I/O
  systems returns it, acts on the list of their states: with an empty list it visits all replicas of the file, with
  the flag for the others those that are not in the list, and else those in the list. Every replica it
  visits has its state replaced by the one the translation table gives, the others keep theirs, and the
  walk reports a value exactly when one of the states visited has one.
\<close>

theorem bmap_walk_refines:
  assumes "repls_ok (bmi_repls b)" "tract_ok tract" "length retifset = NBREPLST" "nr \<le> SL_MAX_REPLICAS"
    and "sorted iosidx" "distinct iosidx" "\<forall>k \<in> set iosidx. k < SL_MAX_REPLICAS" "bcm_flags b AND BMAPF_REPLMODWR = 0"
    and "flags AND REPL_WALKF_SCIRCUIT = 0"
  shows "\<exists>b' rc. mds_repl_bmap_walk nr b (Some tract) (Some retifset) flags iosidx (no_cb :: unit walkcb option) () = Some (b', rc, ()) \<and>
    map (brepl (bmi_repls b')) [0..<SL_MAX_REPLICAS] =
      map (\<lambda>k. if k \<in> set (walk_visits nr flags iosidx) then tr tract (brepl (bmi_repls b) k) else brepl (bmi_repls b) k)
        [0..<SL_MAX_REPLICAS] \<and>
    (rc \<noteq> 0 \<longleftrightarrow> list_ex (\<lambda>k. retifset ! nat (brepl (bmi_repls b) k) \<noteq> 0) (walk_visits nr flags iosidx))"
proof -
  have r: "ret_ok (Some retifset)" using assms(3) by (simp add: ret_ok_def)
  obtain repls orepls where w: "mds_repl_bmap_walk nr b (Some tract) (Some retifset) flags iosidx (no_cb :: unit walkcb option) () =
      Some (b\<lparr>bmi_repls := repls, bmi_orepls := orepls\<rparr>, walk_rc (Some retifset) (bmi_repls b) (walk_visits nr flags iosidx) 0,
        walk_cb None (bmi_repls b) (walk_visits nr flags iosidx) ())"
    "walked tract (walk_visits nr flags iosidx) (bmi_repls b) repls"
    by (rule walk_translate [OF assms(1) r assms(2,9,8,6,7,4) refl]) (simp only: walk_list_sorted [OF assms(5)])
  then show ?thesis by (auto simp: walked_def walk_rc_zero retv_def list_ex_iff)
qed

end
