(* ===== verification/Inode.thy ===== *)
theory Inode
  imports Bytes Crc Replica
begin

text \<open>
  The inode of a file on the metadata server (\<^verbatim>\<open>src/slash2/slashd/inode.c\<close>) and its table of
  replicas (\<^verbatim>\<open>_mds_repl_ios_lookup\<close> and \<^verbatim>\<open>_mds_repl_iosv_lookup\<close> of \<^verbatim>\<open>src/slash2/slashd/repl_mds.c\<close>).
  The first four I/O systems of a file are named in the inode at the start of its metafile, the
  others in an extension block behind it, which is loaded when it is first needed; both are
  followed by a checksum. The metafile is a list of bytes, and each access to it takes the next
  return code from \<open>mf_rcs\<close>, zero when there is none left: a failing access has no effect.
\<close>

subsection \<open>Data\<close>

record slm_ino_od =
  ino_version :: "16 word"
  ino_flags :: "16 word"
  ino_bsz :: u32
  ino_nrepls :: u32
  ino_replpol :: u32
  ino_repls :: "u32 list"
  ino_repl_nblks :: "u64 list"

record slm_inox_od =
  inox_snaps :: "u64 list"
  inox_repls :: "u32 list"
  inox_repl_nblks :: "u64 list"

record slm_inoh =
  inoh_ino :: slm_ino_od
  inoh_extras :: "slm_inox_od option"
  inoh_flags :: u32

definition INO_VERSION :: "16 word" where "INO_VERSION = 2"
definition INOH_INO_NEW :: u32 where "INOH_INO_NEW = push_bit 0 1"
definition INOH_INO_NOTLOADED :: u32 where "INOH_INO_NOTLOADED = push_bit 1 1"
definition FCMH_INITING :: u32 where "FCMH_INITING = push_bit 2 1"
definition SLASH_BMAP_SIZE :: nat where "SLASH_BMAP_SIZE = 128 * (1024 * 1024)"
definition SL_EXTRAS_START_OFF :: nat where "SL_EXTRAS_START_OFF = 0x200"

definition EIO :: int where "EIO = 5"
definition ENOENT :: int where "ENOENT = 2"
definition EINVAL :: int where "EINVAL = 22"
definition ENOSPC :: int where "ENOSPC = 28"
definition PFLERR_BADCRC :: int where "PFLERR_BADCRC = 500 + 10"
definition SLERR_RES_UNKNOWN :: int where "SLERR_RES_UNKNOWN = 1000 + 7"
definition SLERR_SHORTIO :: int where "SLERR_SHORTIO = 1000 + 13"
definition SLERR_RES_BADTYPE :: int where "SLERR_RES_BADTYPE = 1000 + 30"

text \<open>The structures as bytes.\<close>

definition ino_bytes :: "slm_ino_od \<Rightarrow> u8 list" where
  "ino_bytes i = le16 (ino_version i) @ le16 (ino_flags i) @ le32 (ino_bsz i) @ le32 (ino_nrepls i) @
     le32 (ino_replpol i) @ enc_arr le32 (ino_repls i) @ enc_arr le64 (ino_repl_nblks i)"

definition ino_of_bytes :: "u8 list \<Rightarrow> slm_ino_od" where
  "ino_of_bytes bs =
     \<lparr>ino_version = un_le16 bs, ino_flags = un_le16 (drop 2 bs), ino_bsz = un_le32 (drop 4 bs),
      ino_nrepls = un_le32 (drop 8 bs), ino_replpol = un_le32 (drop 12 bs),
      ino_repls = dec_arr un_le32 4 SL_DEF_REPLICAS (drop 16 bs),
      ino_repl_nblks = dec_arr un_le64 8 SL_DEF_REPLICAS (drop 32 bs)\<rparr>"

definition INO_SZ :: nat where "INO_SZ = 64"

definition inox_bytes :: "slm_inox_od \<Rightarrow> u8 list" where
  "inox_bytes x = enc_arr le64 (inox_snaps x) @ enc_arr le32 (inox_repls x) @
     enc_arr le64 (inox_repl_nblks x)"

definition inox_of_bytes :: "u8 list \<Rightarrow> slm_inox_od" where
  "inox_of_bytes bs =
     \<lparr>inox_snaps = dec_arr un_le64 8 3 bs, inox_repls = dec_arr un_le32 4 SL_INOX_NREPLICAS (drop 24 bs),
      inox_repl_nblks = dec_arr un_le64 8 SL_INOX_NREPLICAS (drop 264 bs)\<rparr>"

definition INOX_SZ :: nat where "INOX_SZ = 744"

subsection \<open>The metafile\<close>

record mfile =
  mf_data :: "u8 list"
  mf_rcs :: "int list"

definition mdsio_rc :: "mfile \<Rightarrow> int \<times> mfile" where
  "mdsio_rc mf = (case mf_rcs mf of [] \<Rightarrow> (0, mf) | r # rs \<Rightarrow> (r, mf\<lparr>mf_rcs := rs\<rparr>))"

text \<open>The bytes read, at most \<open>n\<close>, and the number of bytes written.\<close>

definition mdsio_preadv :: "mfile \<Rightarrow> nat \<Rightarrow> nat \<Rightarrow> mfile \<times> int \<times> u8 list" where
  "mdsio_preadv mf n off =
     (let (rc, mf) = mdsio_rc mf
      in (mf, rc, if rc = 0 then take n (drop off (mf_data mf)) else []))"

definition mdsio_pwritev :: "mfile \<Rightarrow> u8 list \<Rightarrow> nat \<Rightarrow> mfile \<times> int \<times> nat" where
  "mdsio_pwritev mf bs off =
     (let (rc, mf) = mdsio_rc mf
      in if rc = 0 then (mf\<lparr>mf_data := pwrite (mf_data mf) off bs\<rparr>, 0, length bs) else (mf, rc, 0))"

text \<open>A buffer of \<open>n\<close> bytes that was zero before the bytes \<open>bs\<close> were read into it.\<close>

definition filled :: "nat \<Rightarrow> u8 list \<Rightarrow> u8 list" where
  "filled n bs = take n bs @ replicate (n - length bs) 0"

subsection \<open>Inode input and output\<close>

definition mds_inode_od_initnew :: "slm_inoh \<Rightarrow> slm_inoh" where
  "mds_inode_od_initnew ih =
     ih\<lparr>inoh_flags := INOH_INO_NEW,
        inoh_ino := (inoh_ino ih)\<lparr>ino_bsz := word_of_nat SLASH_BMAP_SIZE, ino_version := INO_VERSION\<rparr>\<rparr>"

text \<open>
  \<open>vfsid_rc\<close> is the result of \<^verbatim>\<open>slfid_to_vfsid\<close>. The conversion of inodes of older formats
  (\<^verbatim>\<open>mds_inode_update_interrupted\<close> and \<^verbatim>\<open>mds_inode_update\<close>) is a parameter of the read:
  \<open>interrupted\<close> returns whether it found an interrupted conversion, the handle, the file and the
  return code, \<open>update\<close> converts from the given version.
\<close>

definition mds_inode_read ::
  "(slm_inoh \<Rightarrow> mfile \<Rightarrow> bool \<times> slm_inoh \<times> mfile \<times> int) \<Rightarrow>
   (slm_inoh \<Rightarrow> mfile \<Rightarrow> 16 word \<Rightarrow> slm_inoh \<times> mfile \<times> int) \<Rightarrow> bool \<Rightarrow> u32 \<Rightarrow> int \<Rightarrow> slm_inoh \<Rightarrow> mfile \<Rightarrow>
   (slm_inoh \<times> mfile \<times> int) option" where
  "mds_inode_read interrupted update slm_crc_check fcmh_flags vfsid_rc ih mf =
     (if vfsid_rc \<noteq> 0 then Some (ih, mf, - vfsid_rc)
      else do {
        psc_assert (fcmh_flags AND FCMH_INITING \<noteq> 0);
        psc_assert (inoh_flags ih AND INOH_INO_NOTLOADED \<noteq> 0);
        let (mf, rc, bs) = mdsio_preadv mf (INO_SZ + 8) 0;
        let ih = ih\<lparr>inoh_ino := ino_of_bytes (filled INO_SZ bs)\<rparr>;
        let (ih, mf, rc) =
          (if rc = 0 \<and> bs = [] then
             let ih = mds_inode_od_initnew ih;
                 b = ino_bytes (inoh_ino ih);
                 (mf, rc, nb) = mdsio_pwritev mf (b @ le64 (psc_crc64_calc b)) 0
             in (ih, mf, rc)
           else
             let rc = (if rc = 0 \<and> length bs \<noteq> INO_SZ + 8 then EIO else rc)
             in if rc \<noteq> 0 then (ih, mf, rc)
                else if psc_crc64_calc (ino_bytes (inoh_ino ih)) \<noteq> un_le64 (drop INO_SZ bs) \<and> slm_crc_check then
                  let vers = ino_version (inoh_ino ih);
                      ih = ih\<lparr>inoh_ino := ino_of_bytes (replicate INO_SZ 0)\<rparr>;
                      (found, ih, mf, rc) = interrupted ih mf
                  in if found then (ih, mf, rc)
                     else if vers \<noteq> 0 \<and> vers < INO_VERSION then update ih mf vers
                     else (ih, mf, EIO)
                else (ih, mf, rc));
        let ih = (if rc = 0 then ih\<lparr>inoh_flags := inoh_flags ih AND NOT INOH_INO_NOTLOADED\<rparr> else ih);
        Some (ih, mf, rc)
      })"

definition mds_inode_write :: "slm_inoh \<Rightarrow> mfile \<Rightarrow> slm_inoh \<times> mfile \<times> int" where
  "mds_inode_write ih mf =
     (let b = ino_bytes (inoh_ino ih);
          (mf, rc, nb) = mdsio_pwritev mf (b @ le64 (psc_crc64_calc b)) 0;
          rc = (if rc \<noteq> 0 then - \<bar>rc\<bar> else rc);
          rc = (if rc = 0 \<and> nb \<noteq> INO_SZ + 8 then - SLERR_SHORTIO else rc);
          ih = (if rc = 0 then ih\<lparr>inoh_flags := inoh_flags ih AND NOT INOH_INO_NEW\<rparr> else ih)
      in (ih, mf, rc))"

definition mds_inox_write :: "slm_inoh \<Rightarrow> mfile \<Rightarrow> (slm_inoh \<times> mfile \<times> int) option" where
  "mds_inox_write ih mf =
     do {
       ix \<leftarrow> inoh_extras ih;
       let b = inox_bytes ix;
       let (mf, rc, nb) = mdsio_pwritev mf (b @ le64 (psc_crc64_calc b)) SL_EXTRAS_START_OFF;
       let rc = (if rc \<noteq> 0 then - \<bar>rc\<bar> else rc);
       let rc = (if rc = 0 \<and> nb \<noteq> INOX_SZ + 8 then - SLERR_SHORTIO else rc);
       Some (ih, mf, rc)
     }"

text \<open>One file has its checksum errors ignored by number.\<close>

definition mds_inox_load_locked :: "bool \<Rightarrow> u64 \<Rightarrow> slm_inoh \<Rightarrow> mfile \<Rightarrow> slm_inoh \<times> mfile \<times> int" where
  "mds_inox_load_locked slm_crc_check fid ih mf =
     (let (mf, rc, bs) = mdsio_preadv mf (INOX_SZ + 8) SL_EXTRAS_START_OFF;
          buf = filled INOX_SZ bs;
          od_crc = un_le64 (filled 8 (drop INOX_SZ bs));
          rc = (if rc = 0 \<and> od_crc = 0 \<and> list_all (\<lambda>b. b = 0) buf then 0
                else if rc \<noteq> 0 then - \<bar>rc\<bar>
                else if length bs \<noteq> INOX_SZ + 8 then - SLERR_SHORTIO
                else if psc_crc64_calc buf \<noteq> od_crc then
                  if fid = 0x1000000b5cccf7 then 0 else if slm_crc_check then - PFLERR_BADCRC else rc
                else rc)
      in (ih\<lparr>inoh_extras := if rc \<noteq> 0 then None else Some (inox_of_bytes buf)\<rparr>, mf, rc))"

definition mds_inox_ensure_loaded :: "bool \<Rightarrow> u64 \<Rightarrow> slm_inoh \<Rightarrow> mfile \<Rightarrow> (slm_inoh \<times> mfile \<times> int) option" where
  "mds_inox_ensure_loaded slm_crc_check fid ih mf =
     do {
       let (ih, mf, rc) = (if inoh_extras ih = None then mds_inox_load_locked slm_crc_check fid ih mf
                           else (ih, mf, 0));
       psc_assert (rc \<le> 0);
       Some (ih, mf, rc)
     }"

definition mds_inodes_odsync :: "bool \<Rightarrow> u64 \<Rightarrow> slm_inoh \<Rightarrow> mfile \<Rightarrow> (slm_inoh \<times> mfile \<times> int) option" where
  "mds_inodes_odsync slm_crc_check fid ih mf =
     do {
       let many = unat (ino_nrepls (inoh_ino ih)) > SL_DEF_REPLICAS;
       (ih, mf, rc) \<leftarrow> (if many then mds_inox_ensure_loaded slm_crc_check fid ih mf else Some (ih, mf, 0));
       (ih, mf, rc) \<leftarrow>
         (if rc \<noteq> 0 then Some (ih, mf, rc)
          else do {
            let (ih, mf, rc) = mds_inode_write ih mf;
            if rc = 0 \<and> many then mds_inox_write ih mf else Some (ih, mf, rc)
          });
       psc_assert (rc \<le> 0);
       Some (ih, mf, rc)
     }"

subsection \<open>The replica table\<close>

datatype sl_res_type =
  SLREST_NONE | SLREST_ARCHIVAL_FS | SLREST_CLUSTER_NOSHARE_LFS | SLREST_MDS
| SLREST_PARALLEL_COMPNT | SLREST_PARALLEL_LFS | SLREST_STANDALONE_FS

text \<open>
  The configuration maps the identifiers of the resources to their descriptions, as
  \<^verbatim>\<open>libsl_id2res\<close> does.
\<close>

record sl_resource =
  res_id :: u32
  res_type :: sl_res_type

type_synonym sl_config = "u32 \<Rightarrow> sl_resource option"

definition RES_ISFS :: "sl_resource \<Rightarrow> bool" where
  "RES_ISFS r \<longleftrightarrow> res_type r \<in> {SLREST_ARCHIVAL_FS, SLREST_PARALLEL_COMPNT, SLREST_STANDALONE_FS}"

datatype iosv_lookupf = IOSV_LOOKUPF_ADD | IOSV_LOOKUPF_DEL | IOSV_LOOKUPF_LOOKUP

definition fcmh_getrepl :: "slm_inoh \<Rightarrow> nat \<Rightarrow> u32 option" where
  "fcmh_getrepl ih n =
     (if n < SL_DEF_REPLICAS then rd (ino_repls (inoh_ino ih)) n
      else do { ix \<leftarrow> inoh_extras ih; rd (inox_repls ix) (n - SL_DEF_REPLICAS) })"

text \<open>\<^verbatim>\<open>memmove\<close> of the items after \<open>j\<close> down by one; the last item stays where it is.\<close>

definition move_down :: "'a list \<Rightarrow> nat \<Rightarrow> 'a list" where
  "move_down xs j = take j xs @ drop (Suc j) xs @ drop (length xs - 1) xs"

text \<open>
  The search. The result is an error of loading the extension block, or the position, if any;
  \<open>rc\<close> is the value the return code has when the loop ends.
\<close>

fun ios_lookup_loop ::
  "bool \<Rightarrow> u64 \<Rightarrow> u32 \<Rightarrow> nat list \<Rightarrow> slm_inoh \<Rightarrow> mfile \<Rightarrow> int \<Rightarrow>
     (slm_inoh \<times> mfile \<times> int \<times> nat option \<times> bool) option" where
  "ios_lookup_loop chk fid ios [] ih mf rc = Some (ih, mf, rc, None, False)"
| "ios_lookup_loop chk fid ios (i # is) ih mf rc =
     do {
       (ih, mf, rc) \<leftarrow> (if i = SL_DEF_REPLICAS then mds_inox_ensure_loaded chk fid ih mf else Some (ih, mf, rc));
       if i = SL_DEF_REPLICAS \<and> rc \<noteq> 0 then Some (ih, mf, rc, None, True)
       else do {
         id \<leftarrow> fcmh_getrepl ih i;
         if id = ios then Some (ih, mf, rc, Some i, False)
         else ios_lookup_loop chk fid ios is ih mf rc
       }
     }"

text \<open>Taking the entry at \<open>i\<close> out of the table of \<open>nr\<close> entries.\<close>

definition ios_delete :: "bool \<Rightarrow> u64 \<Rightarrow> nat \<Rightarrow> nat \<Rightarrow> slm_inoh \<Rightarrow> mfile \<Rightarrow> (slm_inoh \<times> mfile \<times> int) option" where
  "ios_delete chk fid nr i ih mf =
     do {
       let ino = inoh_ino ih;
       let ino = (if i < SL_DEF_REPLICAS - 1 then ino\<lparr>ino_repls := move_down (ino_repls ino) i\<rparr> else ino);
       if nr \<le> SL_DEF_REPLICAS then do {
         repls \<leftarrow> wr (ino_repls ino) (nr - 1) 0;
         mds_inodes_odsync chk fid
           (ih\<lparr>inoh_ino := ino\<lparr>ino_repls := repls, ino_nrepls := word_of_nat (nr - 1)\<rparr>\<rparr>) mf
       }
       else do {
         let ih = ih\<lparr>inoh_ino := ino\<rparr>;
         (ih, mf, rc) \<leftarrow> (if i < SL_DEF_REPLICAS then mds_inox_ensure_loaded chk fid ih mf else Some (ih, mf, 0));
         if rc \<noteq> 0 then Some (ih, mf, rc)
         else do {
           ix \<leftarrow> inoh_extras ih;
           first \<leftarrow> rd (inox_repls ix) 0;
           repls \<leftarrow> (if i < SL_DEF_REPLICAS then wr (ino_repls (inoh_ino ih)) (SL_DEF_REPLICAS - 1) first
                     else Some (ino_repls (inoh_ino ih)));
           let j = (if i < SL_DEF_REPLICAS then 0 else i - SL_DEF_REPLICAS);
           let xrepls = (if i < SL_MAX_REPLICAS - 1 then move_down (inox_repls ix) j else inox_repls ix);
           xrepls \<leftarrow> wr xrepls (nr - SL_DEF_REPLICAS - 1) 0;
           mds_inodes_odsync chk fid
             (ih\<lparr>inoh_ino := (inoh_ino ih)\<lparr>ino_repls := repls, ino_nrepls := word_of_nat (nr - 1)\<rparr>,
                 inoh_extras := Some (ix\<lparr>inox_repls := xrepls\<rparr>)\<rparr>) mf
         }
       }
     }"

definition ios_add :: "bool \<Rightarrow> u64 \<Rightarrow> u32 \<Rightarrow> nat \<Rightarrow> slm_inoh \<Rightarrow> mfile \<Rightarrow> (slm_inoh \<times> mfile \<times> int) option" where
  "ios_add chk fid ios nr ih mf =
     (if nr = SL_MAX_REPLICAS then Some (ih, mf, - ENOSPC)
      else do {
        (ih, mf, rc) \<leftarrow> (if nr \<ge> SL_DEF_REPLICAS then mds_inox_ensure_loaded chk fid ih mf else Some (ih, mf, 0));
        if rc \<noteq> 0 then Some (ih, mf, rc)
        else do {
          ih \<leftarrow> (if nr \<ge> SL_DEF_REPLICAS then do {
                   ix \<leftarrow> inoh_extras ih;
                   repls \<leftarrow> wr (inox_repls ix) (nr - SL_DEF_REPLICAS) ios;
                   Some (ih\<lparr>inoh_extras := Some (ix\<lparr>inox_repls := repls\<rparr>)\<rparr>)
                 } else do {
                   repls \<leftarrow> wr (ino_repls (inoh_ino ih)) nr ios;
                   Some (ih\<lparr>inoh_ino := (inoh_ino ih)\<lparr>ino_repls := repls\<rparr>\<rparr>)
                 });
          (ih, mf, rc) \<leftarrow> mds_inodes_odsync chk fid
            (ih\<lparr>inoh_ino := (inoh_ino ih)\<lparr>ino_nrepls := word_of_nat (nr + 1)\<rparr>\<rparr>) mf;
          Some (ih, mf, if rc = 0 then int nr else rc)
        }
      })"

definition mds_repl_ios_lookup ::
  "sl_config \<Rightarrow> bool \<Rightarrow> u64 \<Rightarrow> u32 \<Rightarrow> iosv_lookupf \<Rightarrow> slm_inoh \<Rightarrow> mfile \<Rightarrow> (slm_inoh \<times> mfile \<times> int) option" where
  "mds_repl_ios_lookup cfg chk fid ios flag ih mf =
     do {
       let nr = unat (ino_nrepls (inoh_ino ih));
       psc_assert (nr \<le> SL_MAX_REPLICAS);
       (case cfg ios of
          None \<Rightarrow> Some (ih, mf, - SLERR_RES_UNKNOWN)
        | Some res \<Rightarrow>
            if \<not> RES_ISFS res then Some (ih, mf, - SLERR_RES_BADTYPE)
            else do {
              (ih, mf, rc, pos, err) \<leftarrow> ios_lookup_loop chk fid ios [0..<nr] ih mf (- ENOENT);
              (case pos of
                 Some i \<Rightarrow>
                   if flag = IOSV_LOOKUPF_DEL then do {
                     (ih, mf, rc) \<leftarrow> ios_delete chk fid nr i ih mf;
                     Some (ih, mf, if rc \<noteq> 0 then rc else int i)
                   } else Some (ih, mf, int i)
               | None \<Rightarrow>
                   if err \<or> flag \<noteq> IOSV_LOOKUPF_ADD then Some (ih, mf, rc)
                   else ios_add chk fid ios nr ih mf)
            })
     }"

fun iosv_lookup_loop ::
  "sl_config \<Rightarrow> bool \<Rightarrow> u64 \<Rightarrow> iosv_lookupf \<Rightarrow> u32 list \<Rightarrow> slm_inoh \<Rightarrow> mfile \<Rightarrow> nat list \<Rightarrow>
     (slm_inoh \<times> mfile \<times> int \<times> nat list) option" where
  "iosv_lookup_loop cfg chk fid flag [] ih mf idx = Some (ih, mf, 0, idx)"
| "iosv_lookup_loop cfg chk fid flag (ios # iosv) ih mf idx =
     do {
       (ih, mf, k) \<leftarrow> mds_repl_ios_lookup cfg chk fid ios flag ih mf;
       if k < 0 then Some (ih, mf, - k, idx)
       else iosv_lookup_loop cfg chk fid flag iosv ih mf (idx @ [nat k])
     }"

text \<open>The return code and the sorted indexes; \<open>0\<close> on success.\<close>

definition mds_repl_iosv_lookup ::
  "sl_config \<Rightarrow> bool \<Rightarrow> u64 \<Rightarrow> iosv_lookupf \<Rightarrow> u32 list \<Rightarrow> slm_inoh \<Rightarrow> mfile \<Rightarrow>
     (slm_inoh \<times> mfile \<times> int \<times> nat list) option" where
  "mds_repl_iosv_lookup cfg chk fid flag iosv ih mf =
     do {
       (ih, mf, rc, idx) \<leftarrow> iosv_lookup_loop cfg chk fid flag iosv ih mf [];
       if rc \<noteq> 0 then Some (ih, mf, rc, idx)
       else let idx = sort idx
            in Some (ih, mf, if distinct idx then 0 else EINVAL, idx)
     }"

text \<open>Well-formed handles, the table they hold, and what the metafile stores.\<close>

definition nrepls :: "slm_inoh \<Rightarrow> nat" where
  "nrepls ih = unat (ino_nrepls (inoh_ino ih))"

definition ino_ok :: "slm_ino_od \<Rightarrow> bool" where
  "ino_ok i \<longleftrightarrow> length (ino_repls i) = SL_DEF_REPLICAS \<and> length (ino_repl_nblks i) = SL_DEF_REPLICAS \<and>
     unat (ino_nrepls i) \<le> SL_MAX_REPLICAS"

definition inox_ok :: "slm_inox_od \<Rightarrow> bool" where
  "inox_ok x \<longleftrightarrow> length (inox_snaps x) = 3 \<and> length (inox_repls x) = SL_INOX_NREPLICAS \<and>
     length (inox_repl_nblks x) = SL_INOX_NREPLICAS"

definition inoh_ok :: "slm_inoh \<Rightarrow> bool" where
  "inoh_ok ih \<longleftrightarrow> ino_ok (inoh_ino ih) \<and>
     (case inoh_extras ih of None \<Rightarrow> nrepls ih \<le> SL_DEF_REPLICAS | Some x \<Rightarrow> inox_ok x)"

definition ios_table :: "slm_inoh \<Rightarrow> u32 list" where
  "ios_table ih = take (nrepls ih)
     (ino_repls (inoh_ino ih) @ (case inoh_extras ih of None \<Rightarrow> [] | Some x \<Rightarrow> inox_repls x))"

definition ios_index :: "u32 \<Rightarrow> u32 list \<Rightarrow> nat" where
  "ios_index ios t = length (takeWhile (\<lambda>x. x \<noteq> ios) t)"

definition stored :: "slm_inoh \<Rightarrow> mfile \<Rightarrow> bool" where
  "stored ih mf \<longleftrightarrow>
     pread (mf_data mf) 0 (INO_SZ + 8) =
       Some (ino_bytes (inoh_ino ih) @ le64 (psc_crc64_calc (ino_bytes (inoh_ino ih)))) \<and>
     (SL_DEF_REPLICAS < nrepls ih \<longrightarrow>
       (\<exists>x. inoh_extras ih = Some x \<and>
         pread (mf_data mf) SL_EXTRAS_START_OFF (INOX_SZ + 8) =
           Some (inox_bytes x @ le64 (psc_crc64_calc (inox_bytes x)))))"

text \<open>Example handles and a configuration that knows every identifier.\<close>

definition all_fs :: sl_config where
  "all_fs ios = Some \<lparr>res_id = ios, res_type = SLREST_STANDALONE_FS\<rparr>"

definition sample_inoh :: "u32 list \<Rightarrow> slm_inoh" where
  "sample_inoh t = \<lparr>inoh_ino = \<lparr>ino_version = INO_VERSION, ino_flags = 0, ino_bsz = 0,
       ino_nrepls = word_of_nat (length t), ino_replpol = 0,
       ino_repls = take SL_DEF_REPLICAS (t @ replicate SL_DEF_REPLICAS 0), ino_repl_nblks = replicate SL_DEF_REPLICAS 0\<rparr>,
     inoh_extras = Some \<lparr>inox_snaps = replicate 3 0,
       inox_repls = take SL_INOX_NREPLICAS (drop SL_DEF_REPLICAS t @ replicate SL_INOX_NREPLICAS 0),
       inox_repl_nblks = replicate SL_INOX_NREPLICAS 0\<rparr>,
     inoh_flags = 0\<rparr>"

definition empty_mfile :: mfile where
  "empty_mfile = \<lparr>mf_data = [], mf_rcs = []\<rparr>"

lemmas ino_sizes = SL_DEF_REPLICAS_def SL_MAX_REPLICAS_def SL_INOX_NREPLICAS_def INO_SZ_def INOX_SZ_def
  SL_EXTRAS_START_OFF_def

subsection \<open>Formats\<close>

lemma length_ino_bytes: "ino_ok i \<Longrightarrow> length (ino_bytes i) = INO_SZ"
  by (simp add: ino_bytes_def ino_ok_def le32.length_enc_arr le64.length_enc_arr ino_sizes)

lemma length_inox_bytes: "inox_ok x \<Longrightarrow> length (inox_bytes x) = INOX_SZ"
  by (simp add: inox_bytes_def inox_ok_def le32.length_enc_arr le64.length_enc_arr ino_sizes)

lemma ino_of_bytes_ino_bytes:
  assumes "ino_ok i"
  shows "ino_of_bytes (ino_bytes i @ rest) = i"
proof -
  have "dec_arr un_le32 4 SL_DEF_REPLICAS (enc_arr le32 (ino_repls i) @ r) = ino_repls i"
    "dec_arr un_le64 8 SL_DEF_REPLICAS (enc_arr le64 (ino_repl_nblks i) @ r) = ino_repl_nblks i"
    "length (enc_arr le32 (ino_repls i)) = 16" for r
    using assms le32.dec_enc_arr [of "ino_repls i" r] le64.dec_enc_arr [of "ino_repl_nblks i" r]
    by (simp_all add: ino_ok_def le32.length_enc_arr ino_sizes)
  then show ?thesis
    by (simp add: ino_of_bytes_def ino_bytes_def un_le16_le16 un_le32_le32)
qed

lemma inox_of_bytes_inox_bytes:
  assumes "inox_ok x"
  shows "inox_of_bytes (inox_bytes x @ rest) = x"
proof -
  have "dec_arr un_le64 8 3 (enc_arr le64 (inox_snaps x) @ r) = inox_snaps x"
    "dec_arr un_le32 4 SL_INOX_NREPLICAS (enc_arr le32 (inox_repls x) @ r) = inox_repls x"
    "dec_arr un_le64 8 SL_INOX_NREPLICAS (enc_arr le64 (inox_repl_nblks x) @ r) = inox_repl_nblks x"
    "length (enc_arr le64 (inox_snaps x)) = 24" "length (enc_arr le32 (inox_repls x)) = 240" for r
    using assms le64.dec_enc_arr [of "inox_snaps x" r] le32.dec_enc_arr [of "inox_repls x" r]
      le64.dec_enc_arr [of "inox_repl_nblks x" r]
    by (simp_all add: inox_ok_def le32.length_enc_arr le64.length_enc_arr ino_sizes)
  then show ?thesis by (simp add: inox_of_bytes_def inox_bytes_def)
qed

subsection \<open>Synchronisation\<close>

lemma mdsio_ok:
  assumes "mf_rcs mf = []"
  shows "mdsio_pwritev mf bs off = (mf\<lparr>mf_data := pwrite (mf_data mf) off bs\<rparr>, 0, length bs)"
    "mdsio_preadv mf n off = (mf, 0, take n (drop off (mf_data mf)))"
  using assms by (simp_all add: mdsio_pwritev_def mdsio_preadv_def mdsio_rc_def)

lemma nrepls_flags [simp]:
  "nrepls (ih\<lparr>inoh_flags := f\<rparr>) = nrepls ih" "ios_table (ih\<lparr>inoh_flags := f\<rparr>) = ios_table ih"
  "inoh_ok (ih\<lparr>inoh_flags := f\<rparr>) = inoh_ok ih" "stored (ih\<lparr>inoh_flags := f\<rparr>) mf = stored ih mf"
  by (simp_all add: nrepls_def ios_table_def inoh_ok_def stored_def split: option.splits)

lemma odsync_stored:
  assumes "inoh_ok ih" "mf_rcs mf = []"
  obtains mf' where "mds_inodes_odsync chk fid ih mf =
      Some (ih\<lparr>inoh_flags := inoh_flags ih AND NOT INOH_INO_NEW\<rparr>, mf', 0)"
    "mf_rcs mf' = []" "stored ih mf'"
proof -
  let ?b = "ino_bytes (inoh_ino ih)"
  let ?d = "pwrite (mf_data mf) 0 (?b @ le64 (psc_crc64_calc ?b))"
  have b: "length ?b = 64" using assms(1) length_ino_bytes by (simp add: inoh_ok_def ino_sizes)
  have one: "pread ?d 0 72 = Some (?b @ le64 (psc_crc64_calc ?b))"
    using pread_pwrite_same [of 0 0 72 "?b @ le64 (psc_crc64_calc ?b)" "mf_data mf"] b by simp
  show thesis
  proof (cases "SL_DEF_REPLICAS < nrepls ih")
    case False
    then show thesis using that [of "mf\<lparr>mf_data := ?d\<rparr>"] assms(2) one b
      by (simp add: mds_inodes_odsync_def mds_inode_write_def mdsio_ok stored_def nrepls_def ino_sizes Let_def)
  next
    case True
    then obtain x where x: "inoh_extras ih = Some x" "inox_ok x"
      using assms(1) by (auto simp: inoh_ok_def split: option.splits)
    let ?c = "inox_bytes x"
    have c: "length ?c = 744" using length_inox_bytes [OF x(2)] by (simp add: ino_sizes)
    let ?e = "pwrite ?d 512 (?c @ le64 (psc_crc64_calc ?c))"
    have "pread ?e 512 752 = Some (?c @ le64 (psc_crc64_calc ?c))"
      using pread_pwrite_same [of 512 512 752 "?c @ le64 (psc_crc64_calc ?c)" ?d] c by simp
    moreover have "pread ?e 0 72 = Some (?b @ le64 (psc_crc64_calc ?b))"
      by (rule pread_pwrite_other [OF one]) simp
    ultimately show thesis using that [of "mf\<lparr>mf_data := ?e\<rparr>"] True assms(2) x b c
      by (simp add: mds_inodes_odsync_def mds_inode_write_def mds_inox_write_def mds_inox_ensure_loaded_def
          mdsio_ok stored_def nrepls_def ino_sizes Let_def)
  qed
qed

lemma inode_read_stored:
  assumes "inoh_ok ih" "mf_rcs mf = []" "stored ih mf" "inoh_flags h AND INOH_INO_NOTLOADED \<noteq> 0"
  shows "mds_inode_read interrupted update chk FCMH_INITING 0 h mf =
    Some (h\<lparr>inoh_ino := inoh_ino ih, inoh_flags := inoh_flags h AND NOT INOH_INO_NOTLOADED\<rparr>, mf, 0)"
proof -
  let ?b = "ino_bytes (inoh_ino ih)"
  let ?bs = "?b @ le64 (psc_crc64_calc ?b)"
  have b: "length ?b = INO_SZ" using assms(1) length_ino_bytes by (simp add: inoh_ok_def)
  have bs: "take (INO_SZ + 8) (mf_data mf) = ?bs"
    using assms(3) by (simp add: stored_def pread_def split: if_splits)
  have "filled INO_SZ ?bs = ?b" using b by (simp add: filled_def)
  then have "ino_of_bytes (filled INO_SZ ?bs) = inoh_ino ih"
    using ino_of_bytes_ino_bytes [of "inoh_ino ih" "[]"] assms(1) by (simp add: inoh_ok_def)
  moreover have "un_le64 (drop INO_SZ ?bs) = psc_crc64_calc ?b" using b le64.dec_enc_id by simp
  moreover have "?bs \<noteq> []" "length ?bs = INO_SZ + 8" using b by (auto simp: INO_SZ_def)
  ultimately show ?thesis using assms(2,4) bs
    by (simp add: mds_inode_read_def mdsio_ok Let_def FCMH_INITING_def del: append_is_Nil_conv length_append)
qed

lemma inox_load_stored:
  assumes "mf_rcs mf = []" "stored ih mf" "inoh_extras ih = Some x" "SL_DEF_REPLICAS < nrepls ih" "inox_ok x"
  shows "mds_inox_load_locked chk fid h mf = (h\<lparr>inoh_extras := Some x\<rparr>, mf, 0)"
proof -
  let ?b = "inox_bytes x"
  let ?bs = "?b @ le64 (psc_crc64_calc ?b)"
  have b: "length ?b = INOX_SZ" by (rule length_inox_bytes [OF assms(5)])
  have bs: "take (INOX_SZ + 8) (drop SL_EXTRAS_START_OFF (mf_data mf)) = ?bs"
    using assms(2-4) by (auto simp: stored_def pread_def split: if_splits)
  have buf: "filled INOX_SZ ?bs = ?b" using b by (simp add: filled_def)
  have "filled 8 (drop INOX_SZ ?bs) = le64 (psc_crc64_calc ?b)" using b by (simp add: filled_def)
  then have crc: "un_le64 (filled 8 (drop INOX_SZ ?bs)) = psc_crc64_calc ?b" using le64.dec_enc_id by simp
  have "inox_of_bytes ?b = x" using inox_of_bytes_inox_bytes [OF assms(5), of "[]"] by simp
  then show ?thesis using assms(1) b
    unfolding mds_inox_load_locked_def mdsio_ok(2) [OF assms(1)] bs Let_def prod.case buf crc by simp
qed

subsection \<open>The table\<close>

lemma length_ios_table:
  assumes "inoh_ok ih"
  shows "length (ios_table ih) = nrepls ih"
  using assms by (auto simp: ios_table_def inoh_ok_def ino_ok_def inox_ok_def nrepls_def ino_sizes min_def
      split: option.splits)

lemma ios_table_nth:
  assumes "inoh_ok ih" "j < nrepls ih"
  shows "ios_table ih ! j = (if j < SL_DEF_REPLICAS then ino_repls (inoh_ino ih) ! j
    else inox_repls (the (inoh_extras ih)) ! (j - SL_DEF_REPLICAS))"
  using assms by (auto simp: ios_table_def inoh_ok_def ino_ok_def nth_append split: option.splits)

lemma inoh_okD:
  assumes "inoh_ok ih"
  shows "nrepls ih \<le> SL_MAX_REPLICAS" "length (ino_repls (inoh_ino ih)) = SL_DEF_REPLICAS"
    "\<And>x. inoh_extras ih = Some x \<Longrightarrow> inox_ok x"
    "SL_DEF_REPLICAS < nrepls ih \<Longrightarrow> \<exists>x. inoh_extras ih = Some x"
  using assms by (auto simp: inoh_ok_def ino_ok_def nrepls_def split: option.splits)

lemma getrepl_table:
  assumes "inoh_ok ih" "i < nrepls ih"
  shows "fcmh_getrepl ih i = Some (ios_table ih ! i)"
proof (cases "i < SL_DEF_REPLICAS")
  case True
  then show ?thesis using ios_table_nth [OF assms] inoh_okD(2) [OF assms(1)] by (simp add: fcmh_getrepl_def rd_Some)
next
  case False
  then obtain x where x: "inoh_extras ih = Some x" "length (inox_repls x) = SL_INOX_NREPLICAS"
    using inoh_okD(3,4) [OF assms(1)] assms(2) by (fastforce simp: inox_ok_def)
  moreover have "i - SL_DEF_REPLICAS < SL_INOX_NREPLICAS"
    using assms(2) inoh_okD(1) [OF assms(1)] False by (simp add: ino_sizes)
  ultimately show ?thesis using False ios_table_nth [OF assms] by (simp add: fcmh_getrepl_def rd_Some)
qed

text \<open>
  The search finds the first entry. Once it has passed into the extension block the return code
  is zero, whether it finds the entry or not.
\<close>

lemma lookup_loop:
  assumes "inoh_ok ih" "k \<le> nrepls ih"
  shows "\<exists>rc' pos. ios_lookup_loop chk fid ios [k..<nrepls ih] ih mf rc = Some (ih, mf, rc', pos, False) \<and>
    (case pos of
       None \<Rightarrow> (\<forall>i. k \<le> i \<longrightarrow> i < nrepls ih \<longrightarrow> ios_table ih ! i \<noteq> ios) \<and>
         rc' = (if k \<le> SL_DEF_REPLICAS \<and> SL_DEF_REPLICAS < nrepls ih then 0 else rc)
     | Some i \<Rightarrow> k \<le> i \<and> i < nrepls ih \<and> ios_table ih ! i = ios \<and>
         (\<forall>j. k \<le> j \<longrightarrow> j < i \<longrightarrow> ios_table ih ! j \<noteq> ios))"
  using assms(2)
proof (induction "nrepls ih - k" arbitrary: k rc)
  case 0
  then show ?case by auto
next
  case (Suc m)
  then have k: "k < nrepls ih" "[k..<nrepls ih] = k # [Suc k..<nrepls ih]" by (simp_all add: upt_conv_Cons)
  have m: "m = nrepls ih - Suc k" "Suc k \<le> nrepls ih" using Suc.hyps(2) k(1) by simp_all
  let ?rc = "if k = SL_DEF_REPLICAS then 0 else rc"
  have step: "ios_lookup_loop chk fid ios [k..<nrepls ih] ih mf rc =
      (if ios_table ih ! k = ios then Some (ih, mf, ?rc, Some k, False)
       else ios_lookup_loop chk fid ios [Suc k..<nrepls ih] ih mf ?rc)"
    using k getrepl_table [OF assms(1) k(1)] inoh_okD(4) [OF assms(1)]
    by (auto simp: mds_inox_ensure_loaded_def simp del: upt_Suc)
  obtain rc' pos where IH: "ios_lookup_loop chk fid ios [Suc k..<nrepls ih] ih mf ?rc = Some (ih, mf, rc', pos, False)"
    "case pos of
       None \<Rightarrow> (\<forall>i. Suc k \<le> i \<longrightarrow> i < nrepls ih \<longrightarrow> ios_table ih ! i \<noteq> ios) \<and>
         rc' = (if Suc k \<le> SL_DEF_REPLICAS \<and> SL_DEF_REPLICAS < nrepls ih then 0 else ?rc)
     | Some i \<Rightarrow> Suc k \<le> i \<and> i < nrepls ih \<and> ios_table ih ! i = ios \<and>
         (\<forall>j. Suc k \<le> j \<longrightarrow> j < i \<longrightarrow> ios_table ih ! j \<noteq> ios)"
    using Suc.hyps(1) [OF m, of ?rc] by (elim exE conjE) (rule that)
  show ?case
  proof (cases "ios_table ih ! k = ios")
    case True
    then show ?thesis using step k(1) by auto
  next
    case False
    have all: "\<forall>i. k \<le> i \<longrightarrow> i < m \<longrightarrow> ios_table ih ! i \<noteq> ios"
      if "\<forall>i. Suc k \<le> i \<longrightarrow> i < m \<longrightarrow> ios_table ih ! i \<noteq> ios" for m
      using that False le_neq_implies_less by (metis Suc_leI)
    show ?thesis using step False IH k(1) all
      by (intro exI [of _ rc'] exI [of _ pos]) (auto split: option.splits)
  qed
qed

lemma move_down_nth:
  assumes "i < length xs"
  shows "length (move_down xs i) = length xs"
    "\<And>j. j < length xs - 1 \<Longrightarrow> move_down xs i ! j = (if j < i then xs ! j else xs ! Suc j)"
  using assms by (auto simp: move_down_def nth_append min_def)

text \<open>Deleting and adding entries, with the files as they are left.\<close>

lemma ios_table_eqI:
  assumes "inoh_ok ih" "length t = nrepls ih"
    and "\<And>j. j < nrepls ih \<Longrightarrow> t ! j = (if j < SL_DEF_REPLICAS then ino_repls (inoh_ino ih) ! j
      else inox_repls (the (inoh_extras ih)) ! (j - SL_DEF_REPLICAS))"
  shows "ios_table ih = t"
  using assms length_ios_table [OF assms(1)] ios_table_nth [OF assms(1)] by (intro nth_equalityI) simp_all

lemma remove_nth_nth:
  "i < length t \<Longrightarrow> j < length t - 1 \<Longrightarrow> (take i t @ drop (Suc i) t) ! j = (if j < i then t ! j else t ! Suc j)"
  by (simp add: nth_append min_def)

lemma unat_nrepls: "n \<le> SL_MAX_REPLICAS \<Longrightarrow> unat (word_of_nat n :: u32) = n"
  by (rule unat_word32) (simp add: SL_MAX_REPLICAS_def)

lemma delete_small:
  assumes ok: "inoh_ok ih" "mf_rcs mf = []" and i: "i < nrepls ih" "nrepls ih \<le> SL_DEF_REPLICAS"
  shows "\<exists>ih' mf'. ios_delete chk fid (nrepls ih) i ih mf = Some (ih', mf', 0) \<and> inoh_ok ih' \<and> mf_rcs mf' = [] \<and>
    stored ih' mf' \<and> ios_table ih' = take i (ios_table ih) @ drop (Suc i) (ios_table ih)"
proof -
  let ?n = "nrepls ih" and ?a = "ino_repls (inoh_ino ih)"
  let ?a' = "(if i < SL_DEF_REPLICAS - 1 then move_down ?a i else ?a)[?n - 1 := 0]"
  let ?ih = "ih\<lparr>inoh_ino := (inoh_ino ih)\<lparr>ino_repls := ?a', ino_nrepls := word_of_nat (?n - 1)\<rparr>\<rparr>"
  have a: "length ?a = SL_DEF_REPLICAS" "?n \<le> SL_MAX_REPLICAS" using inoh_okD(1,2) [OF ok(1)] by simp_all
  have md: "length (move_down ?a i) = SL_DEF_REPLICAS" using move_down_nth(1) [of i ?a] i a by simp
  have n: "nrepls ?ih = ?n - 1" using a by (simp add: nrepls_def unat_nrepls)
  have ok': "inoh_ok ?ih"
    using ok(1) n md i(2) unfolding inoh_ok_def ino_ok_def by (auto simp: nrepls_def split: option.splits)
  obtain mf' where sync: "mds_inodes_odsync chk fid ?ih mf =
      Some (?ih\<lparr>inoh_flags := inoh_flags ?ih AND NOT INOH_INO_NEW\<rparr>, mf', 0)" "mf_rcs mf' = []" "stored ?ih mf'"
    by (rule odsync_stored [OF ok' ok(2)])
  have "ios_delete chk fid ?n i ih mf = mds_inodes_odsync chk fid ?ih mf"
    using i a md by (auto simp: ios_delete_def Let_def wr_Some)
  moreover have "ios_table ?ih = take i (ios_table ih) @ drop (Suc i) (ios_table ih)"
  proof (rule ios_table_eqI [OF ok'])
    show "length (take i (ios_table ih) @ drop (Suc i) (ios_table ih)) = nrepls ?ih"
      using i n length_ios_table [OF ok(1)] by simp
    fix j assume j: "j < nrepls ?ih"
    then have "j < SL_DEF_REPLICAS" using i n by linarith
    have "(take i (ios_table ih) @ drop (Suc i) (ios_table ih)) ! j = (if j < i then ?a ! j else ?a ! Suc j)"
      using remove_nth_nth [of i "ios_table ih" j] length_ios_table [OF ok(1)] ios_table_nth [OF ok(1)] i j n by simp
    moreover have "?a' ! j = (if j < i then ?a ! j else ?a ! Suc j)"
      using move_down_nth(2) [of i ?a j] i j n a by (auto simp: SL_DEF_REPLICAS_def)
    ultimately show "(take i (ios_table ih) @ drop (Suc i) (ios_table ih)) ! j =
        (if j < SL_DEF_REPLICAS then ino_repls (inoh_ino ?ih) ! j
         else inox_repls (the (inoh_extras ?ih)) ! (j - SL_DEF_REPLICAS))"
      using \<open>j < SL_DEF_REPLICAS\<close> by simp
  qed
  ultimately show ?thesis using sync ok' by (intro exI conjI) (simp, simp_all)
qed

lemma delete_large:
  assumes ok: "inoh_ok ih" "mf_rcs mf = []" and i: "i < nrepls ih" "SL_DEF_REPLICAS < nrepls ih"
  shows "\<exists>ih' mf'. ios_delete chk fid (nrepls ih) i ih mf = Some (ih', mf', 0) \<and> inoh_ok ih' \<and> mf_rcs mf' = [] \<and>
    stored ih' mf' \<and> ios_table ih' = take i (ios_table ih) @ drop (Suc i) (ios_table ih)"
proof -
  let ?n = "nrepls ih" and ?a = "ino_repls (inoh_ino ih)" and ?t = "ios_table ih"
  obtain x where x: "inoh_extras ih = Some x" "inox_ok x" using inoh_okD(3,4) [OF ok(1)] i(2) by blast
  let ?x = "inox_repls x"
  let ?a1 = "if i < SL_DEF_REPLICAS - 1 then move_down ?a i else ?a"
  let ?a' = "if i < SL_DEF_REPLICAS then ?a1[SL_DEF_REPLICAS - 1 := ?x ! 0] else ?a"
  let ?j = "if i < SL_DEF_REPLICAS then 0 else i - SL_DEF_REPLICAS"
  let ?x' = "(if i < SL_MAX_REPLICAS - 1 then move_down ?x ?j else ?x)[?n - SL_DEF_REPLICAS - 1 := 0]"
  let ?ih = "ih\<lparr>inoh_ino := (inoh_ino ih)\<lparr>ino_repls := ?a', ino_nrepls := word_of_nat (?n - 1)\<rparr>,
      inoh_extras := Some (x\<lparr>inox_repls := ?x'\<rparr>)\<rparr>"
  have a: "length ?a = 4" "?n \<le> 64" "length ?x = 60"
    using inoh_okD(1,2) [OF ok(1)] x(2) by (simp_all add: inox_ok_def ino_sizes)
  have md: "length (move_down ?a i) = 4" if "i < 4" using move_down_nth(1) [of i ?a] that a by simp
  have jx: "?j < 60" using i(1) a(2) by (auto simp: ino_sizes)
  then have mx: "length (move_down ?x ?j) = 60" using move_down_nth(1) [of ?j ?x] a by simp
  have n: "nrepls ?ih = ?n - 1" using a by (simp add: nrepls_def unat_nrepls ino_sizes)
  have ok': "inoh_ok ?ih" using ok(1) n md mx x(2) a unfolding inoh_ok_def ino_ok_def inox_ok_def
    by (auto simp: nrepls_def ino_sizes)
  obtain mf' where sync: "mds_inodes_odsync chk fid ?ih mf =
      Some (?ih\<lparr>inoh_flags := inoh_flags ?ih AND NOT INOH_INO_NEW\<rparr>, mf', 0)" "mf_rcs mf' = []" "stored ?ih mf'"
    by (rule odsync_stored [OF ok' ok(2)])
  have "ios_delete chk fid ?n i ih mf = mds_inodes_odsync chk fid ?ih mf"
    using i a md mx x by (auto simp: ios_delete_def Let_def wr_Some rd_Some mds_inox_ensure_loaded_def ino_sizes)
  moreover have "ios_table ?ih = take i ?t @ drop (Suc i) ?t"
  proof (rule ios_table_eqI [OF ok'])
    show "length (take i ?t @ drop (Suc i) ?t) = nrepls ?ih"
      using i n length_ios_table [OF ok(1)] by simp
    fix j assume j: "j < nrepls ?ih"
    then have sj: "Suc j < ?n" using n by simp
    have t: "?t ! k = (if k < 4 then ?a ! k else ?x ! (k - 4))" if "k < ?n" for k
      using ios_table_nth [OF ok(1) that] x(1) by (simp add: SL_DEF_REPLICAS_def)
    have "(take i ?t @ drop (Suc i) ?t) ! j = (if j < i then ?t ! j else ?t ! Suc j)"
      using remove_nth_nth [of i ?t j] length_ios_table [OF ok(1)] i j n by simp
    moreover have "?a' ! j = (if j < i then ?t ! j else ?t ! Suc j)" if "j < 4"
      using move_down_nth(2) [of i ?a j] t [of j] t [of "Suc j"] i j n a md that by (auto simp: ino_sizes nth_list_update)
    moreover have "?x' ! (j - 4) = (if j < i then ?t ! j else ?t ! Suc j)" if "4 \<le> j"
    proof -
      have "Suc (j - 4) = j - 3" "j - 4 < 59" "?n - 5 \<noteq> j - 4" using that j n a(2) by simp_all
      moreover have "j - 4 < i - 4 \<longleftrightarrow> j < i" if "4 \<le> i" using that \<open>4 \<le> j\<close> by linarith
      ultimately show ?thesis using move_down_nth(2) [of ?j ?x "j - 4"] t [of j] t [OF sj] i j n a mx jx that
        by (auto simp: ino_sizes nth_list_update)
    qed
    ultimately show "(take i ?t @ drop (Suc i) ?t) ! j = (if j < SL_DEF_REPLICAS then ino_repls (inoh_ino ?ih) ! j
         else inox_repls (the (inoh_extras ?ih)) ! (j - SL_DEF_REPLICAS))"
      by (simp add: SL_DEF_REPLICAS_def)
  qed
  ultimately show ?thesis using sync ok' by (intro exI conjI) (simp, simp_all)
qed

lemma ensure_loaded:
  assumes "inoh_ok ih" "mf_rcs mf = []"
    and "inoh_extras ih \<noteq> None \<or> snd (snd (mds_inox_load_locked chk fid ih mf)) = 0"
  obtains ih' x where "mds_inox_ensure_loaded chk fid ih mf = Some (ih', mf, 0)" "inoh_ok ih'"
    "ih' = ih\<lparr>inoh_extras := Some x\<rparr>" "inox_ok x" "ios_table ih' = ios_table ih"
proof (cases "inoh_extras ih")
  case None
  let ?bs = "take (INOX_SZ + 8) (drop SL_EXTRAS_START_OFF (mf_data mf))"
  let ?x = "inox_of_bytes (filled INOX_SZ ?bs)"
  let ?ih = "ih\<lparr>inoh_extras := Some ?x\<rparr>"
  have x: "inox_ok ?x" by (simp add: inox_ok_def inox_of_bytes_def dec_arr_def)
  have "mds_inox_load_locked chk fid ih mf = (?ih, mf, 0)"
    using assms(2,3) None by (auto simp: mds_inox_load_locked_def mdsio_ok Let_def split: if_splits)
  then have "mds_inox_ensure_loaded chk fid ih mf = Some (?ih, mf, 0)"
    using None by (simp add: mds_inox_ensure_loaded_def)
  moreover have "inoh_ok ?ih" using assms(1) x by (simp add: inoh_ok_def)
  moreover have "ios_table ?ih = ios_table ih"
    using assms(1) None by (simp add: ios_table_def inoh_ok_def ino_ok_def nrepls_def)
  ultimately show thesis using that [of ?ih ?x] x by blast
next
  case (Some x)
  then have "ih = ih\<lparr>inoh_extras := Some x\<rparr>" by simp
  then show thesis
    using that [of ih x] Some assms(1) inoh_okD(3) [OF assms(1)] by (simp add: mds_inox_ensure_loaded_def)
qed

lemma add_entry:
  assumes ok: "inoh_ok ih" "mf_rcs mf = []" and n: "nrepls ih < SL_MAX_REPLICAS"
    and load: "SL_DEF_REPLICAS \<le> nrepls ih \<Longrightarrow>
      inoh_extras ih \<noteq> None \<or> snd (snd (mds_inox_load_locked chk fid ih mf)) = 0"
  shows "\<exists>ih' mf'. ios_add chk fid ios (nrepls ih) ih mf = Some (ih', mf', int (nrepls ih)) \<and> inoh_ok ih' \<and>
    mf_rcs mf' = [] \<and> stored ih' mf' \<and> ios_table ih' = ios_table ih @ [ios]"
proof (cases "SL_DEF_REPLICAS \<le> nrepls ih")
  case True
  obtain ih1 x where l: "mds_inox_ensure_loaded chk fid ih mf = Some (ih1, mf, 0)" "inoh_ok ih1"
    "ih1 = ih\<lparr>inoh_extras := Some x\<rparr>" "inox_ok x" "ios_table ih1 = ios_table ih"
    by (rule ensure_loaded [OF ok load [OF True]])
  let ?n = "nrepls ih" and ?x = "(inox_repls x)[nrepls ih - SL_DEF_REPLICAS := ios]"
  let ?ih = "ih\<lparr>inoh_extras := Some (x\<lparr>inox_repls := ?x\<rparr>),
      inoh_ino := (inoh_ino ih)\<lparr>ino_nrepls := word_of_nat (?n + 1)\<rparr>\<rparr>"
  have n': "nrepls ?ih = ?n + 1" using n unat_nrepls [of "?n + 1"] by (simp add: nrepls_def)
  have ok': "inoh_ok ?ih" using ok(1) n n' l(4) unfolding inoh_ok_def ino_ok_def inox_ok_def by (simp add: nrepls_def)
  obtain mf' where sync: "mds_inodes_odsync chk fid ?ih mf =
      Some (?ih\<lparr>inoh_flags := inoh_flags ?ih AND NOT INOH_INO_NEW\<rparr>, mf', 0)" "mf_rcs mf' = []" "stored ?ih mf'"
    by (rule odsync_stored [OF ok' ok(2)])
  have "ios_add chk fid ios ?n ih mf =
      Some (?ih\<lparr>inoh_flags := inoh_flags ?ih AND NOT INOH_INO_NEW\<rparr>, mf', int ?n)"
    using True n l sync(1) by (simp add: ios_add_def wr_Some inox_ok_def ino_sizes)
  moreover have "ios_table ?ih = ios_table ih @ [ios]"
  proof (rule ios_table_eqI [OF ok'])
    show "length (ios_table ih @ [ios]) = nrepls ?ih" using n' length_ios_table [OF ok(1)] by simp
    fix j assume j: "j < nrepls ?ih"
    have "nrepls ih1 = ?n" using l(3) by (simp add: nrepls_def)
    then have t: "ios_table ih ! j = (if j < 4 then ino_repls (inoh_ino ih) ! j else inox_repls x ! (j - 4))" if "j < ?n"
      using ios_table_nth [OF l(2), of j] that l(3,5) by (simp add: SL_DEF_REPLICAS_def)
    have x: "length (inox_repls x) = 60" "?n < 64" "4 \<le> ?n" using l(4) n True by (simp_all add: inox_ok_def ino_sizes)
    then show "(ios_table ih @ [ios]) ! j = (if j < SL_DEF_REPLICAS then ino_repls (inoh_ino ?ih) ! j
         else inox_repls (the (inoh_extras ?ih)) ! (j - SL_DEF_REPLICAS))"
    proof (cases "j = ?n")
      case True
      then show ?thesis using x length_ios_table [OF ok(1)] by (simp add: nth_append SL_DEF_REPLICAS_def)
    next
      case False
      then have "j < ?n" using j n' by simp
      moreover have "j - 4 \<noteq> ?n - 4" if "4 \<le> j" using that \<open>j < ?n\<close> by linarith
      ultimately show ?thesis using t length_ios_table [OF ok(1)] by (auto simp: nth_append SL_DEF_REPLICAS_def)
    qed
  qed
  ultimately show ?thesis using sync ok' by (intro exI conjI) (simp, simp_all)
next
  case False
  let ?n = "nrepls ih" and ?a = "(ino_repls (inoh_ino ih))[nrepls ih := ios]"
  let ?ih = "ih\<lparr>inoh_ino := (inoh_ino ih)\<lparr>ino_repls := ?a, ino_nrepls := word_of_nat (?n + 1)\<rparr>\<rparr>"
  have n': "nrepls ?ih = ?n + 1" using n unat_nrepls [of "?n + 1"] by (simp add: nrepls_def)
  have ok': "inoh_ok ?ih" using ok(1) n n' False unfolding inoh_ok_def ino_ok_def
    by (auto simp: nrepls_def split: option.splits)
  obtain mf' where sync: "mds_inodes_odsync chk fid ?ih mf =
      Some (?ih\<lparr>inoh_flags := inoh_flags ?ih AND NOT INOH_INO_NEW\<rparr>, mf', 0)" "mf_rcs mf' = []" "stored ?ih mf'"
    by (rule odsync_stored [OF ok' ok(2)])
  have a: "length (ino_repls (inoh_ino ih)) = SL_DEF_REPLICAS" using inoh_okD(2) [OF ok(1)] .
  have "ios_add chk fid ios ?n ih mf =
      Some (?ih\<lparr>inoh_flags := inoh_flags ?ih AND NOT INOH_INO_NEW\<rparr>, mf', int ?n)"
    using False n a sync(1) by (simp add: ios_add_def wr_Some)
  moreover have "ios_table ?ih = ios_table ih @ [ios]"
    using n' a False unfolding ios_table_def by (simp add: take_Suc_conv_app_nth)
  ultimately show ?thesis using sync ok' by (intro exI conjI) (simp, simp_all)
qed

lemma lookup_eq:
  assumes "inoh_ok ih" "cfg ios = Some r" "RES_ISFS r"
  shows "mds_repl_ios_lookup cfg chk fid ios flag ih mf =
     (if ios \<in> set (ios_table ih) then
        if flag = IOSV_LOOKUPF_DEL then do {
          (ih', mf, rc) \<leftarrow> ios_delete chk fid (nrepls ih) (ios_index ios (ios_table ih)) ih mf;
          Some (ih', mf, if rc \<noteq> 0 then rc else int (ios_index ios (ios_table ih)))
        } else Some (ih, mf, int (ios_index ios (ios_table ih)))
      else if flag \<noteq> IOSV_LOOKUPF_ADD then
        Some (ih, mf, if SL_DEF_REPLICAS < nrepls ih then 0 else - ENOENT)
      else ios_add chk fid ios (nrepls ih) ih mf)"
proof -
  let ?t = "ios_table ih"
  obtain rc pos where l: "ios_lookup_loop chk fid ios [0..<nrepls ih] ih mf (- ENOENT) = Some (ih, mf, rc, pos, False)"
    "case pos of
       None \<Rightarrow> (\<forall>i. 0 \<le> i \<longrightarrow> i < nrepls ih \<longrightarrow> ?t ! i \<noteq> ios) \<and>
         rc = (if 0 \<le> SL_DEF_REPLICAS \<and> SL_DEF_REPLICAS < nrepls ih then 0 else - ENOENT)
     | Some i \<Rightarrow> 0 \<le> i \<and> i < nrepls ih \<and> ?t ! i = ios \<and> (\<forall>j. 0 \<le> j \<longrightarrow> j < i \<longrightarrow> ?t ! j \<noteq> ios)"
    using lookup_loop [OF assms(1) le0, of chk fid ios mf "- ENOENT"] by (elim exE conjE) (rule that)
  have len: "length ?t = nrepls ih" by (rule length_ios_table [OF assms(1)])
  have "nrepls ih \<le> SL_MAX_REPLICAS" using inoh_okD(1) [OF assms(1)] .
  then have eq: "mds_repl_ios_lookup cfg chk fid ios flag ih mf =
      (case pos of
         Some i \<Rightarrow> if flag = IOSV_LOOKUPF_DEL then do {
             (ih', mf, rc) \<leftarrow> ios_delete chk fid (nrepls ih) i ih mf;
             Some (ih', mf, if rc \<noteq> 0 then rc else int i)
           } else Some (ih, mf, int i)
       | None \<Rightarrow> if flag \<noteq> IOSV_LOOKUPF_ADD then Some (ih, mf, rc) else ios_add chk fid ios (nrepls ih) ih mf)"
    using assms(2,3) l(1) by (cases pos) (simp_all add: mds_repl_ios_lookup_def nrepls_def [symmetric] Let_def)
  show ?thesis
  proof (cases pos)
    case None
    then have "ios \<notin> set ?t" using l(2) len by (auto simp: in_set_conv_nth)
    then show ?thesis using eq None l(2) by simp
  next
    case (Some i)
    then have "takeWhile (\<lambda>x. x \<noteq> ios) ?t = take i ?t"
      using l(2) len by (intro takeWhile_eq_take_P_nth) auto
    then have i: "ios_index ios ?t = i" "ios \<in> set ?t" using Some l(2) len by (auto simp: ios_index_def)
    show ?thesis unfolding i(1) using eq Some i(2) by simp
  qed
qed

lemma ios_index_less: "ios \<in> set t \<Longrightarrow> ios_index ios t < length t \<and> t ! ios_index ios t = ios"
  by (induction t) (auto simp: ios_index_def)

lemma delete_entry:
  assumes "inoh_ok ih" "mf_rcs mf = []" "i < nrepls ih"
  shows "\<exists>ih' mf'. ios_delete chk fid (nrepls ih) i ih mf = Some (ih', mf', 0) \<and> inoh_ok ih' \<and> mf_rcs mf' = [] \<and>
    stored ih' mf' \<and> ios_table ih' = take i (ios_table ih) @ drop (Suc i) (ios_table ih)"
  using delete_small [OF assms] delete_large [OF assms] by (meson not_le)

lemma lookup_delete:
  assumes "inoh_ok ih" "mf_rcs mf = []" "cfg a = Some r" "RES_ISFS r" "ios_table ih = us @ a # vs" "a \<notin> set us"
  shows "\<exists>ih' mf'. mds_repl_ios_lookup cfg chk fid a IOSV_LOOKUPF_DEL ih mf = Some (ih', mf', int (length us)) \<and>
    inoh_ok ih' \<and> mf_rcs mf' = [] \<and> ios_table ih' = us @ vs"
proof -
  have "takeWhile (\<lambda>x. x \<noteq> a) (us @ a # vs) = us" using assms(6) by (subst takeWhile_append2) auto
  then have i: "ios_index a (us @ a # vs) = length us" by (simp add: ios_index_def)
  have "length us < nrepls ih" using length_ios_table [OF assms(1)] assms(5) by simp
  from delete_entry [OF assms(1,2) this, of chk fid] obtain ih' mf' where
    "ios_delete chk fid (nrepls ih) (length us) ih mf = Some (ih', mf', 0)" "inoh_ok ih'" "mf_rcs mf' = []"
    "ios_table ih' = take (length us) (ios_table ih) @ drop (Suc (length us)) (ios_table ih)" by blast
  then show ?thesis using assms(5) by (simp add: lookup_eq [of ih cfg a, OF assms(1,3,4)] i)
qed

lemma lookup_only:
  assumes "inoh_ok ih"
  shows "\<exists>k. mds_repl_ios_lookup cfg chk fid ios IOSV_LOOKUPF_LOOKUP ih mf = Some (ih, mf, k) \<and> k < int (nrepls ih)"
proof (cases "cfg ios")
  case None
  then show ?thesis using inoh_okD(1) [OF assms]
    by (simp add: mds_repl_ios_lookup_def nrepls_def [symmetric] psc_assert_def SLERR_RES_UNKNOWN_def)
next
  case (Some r)
  show ?thesis
  proof (cases "RES_ISFS r")
    case True
    then show ?thesis using ios_index_less [of ios "ios_table ih"] length_ios_table [OF assms]
      by (auto simp: lookup_eq [of ih cfg ios, OF assms Some] ENOENT_def)
  next
    case False
    then show ?thesis using Some inoh_okD(1) [OF assms]
      by (simp add: mds_repl_ios_lookup_def nrepls_def [symmetric] psc_assert_def SLERR_RES_BADTYPE_def)
  qed
qed

lemma iosv_lookup_only:
  assumes "inoh_ok ih"
  obtains rc idx where "mds_repl_iosv_lookup cfg chk fid IOSV_LOOKUPF_LOOKUP iosv ih mf = Some (ih, mf, rc, idx)"
    "rc = 0 \<Longrightarrow> distinct idx" "rc = 0 \<Longrightarrow> length idx = length iosv" "rc = 0 \<Longrightarrow> \<forall>k \<in> set idx. k < nrepls ih"
proof -
  have "\<exists>rc idx'. iosv_lookup_loop cfg chk fid IOSV_LOOKUPF_LOOKUP iosv ih mf idx = Some (ih, mf, rc, idx') \<and>
      (rc = 0 \<longrightarrow> length idx' = length idx + length iosv \<and> (\<forall>k \<in> set idx'. k < nrepls ih))"
    if "\<forall>k \<in> set idx. k < nrepls ih" for idx
    using that
  proof (induction iosv arbitrary: idx)
    case (Cons ios iosv)
    obtain k where k: "mds_repl_ios_lookup cfg chk fid ios IOSV_LOOKUPF_LOOKUP ih mf = Some (ih, mf, k)" "k < int (nrepls ih)"
      using lookup_only [OF assms, of cfg chk fid ios mf] by (elim exE conjE) (rule that)
    show ?case
    proof (cases "k < 0")
      case False
      then have "\<forall>j \<in> set (idx @ [nat k]). j < nrepls ih" using k(2) Cons.prems by auto
      then show ?thesis using Cons.IH [of "idx @ [nat k]"] False k(1) by auto
    qed (simp add: k(1))
  qed simp
  from this [of "[]"] obtain rc idx where r: "iosv_lookup_loop cfg chk fid IOSV_LOOKUPF_LOOKUP iosv ih mf [] = Some (ih, mf, rc, idx)"
    "rc = 0 \<longrightarrow> length idx = length iosv \<and> (\<forall>k \<in> set idx. k < nrepls ih)" by auto
  show thesis
    by (rule that [of "if rc \<noteq> 0 then rc else if distinct (sort idx) then 0 else EINVAL" "if rc \<noteq> 0 then idx else sort idx"])
      (use r in \<open>auto simp: mds_repl_iosv_lookup_def Let_def EINVAL_def split: if_splits\<close>)
qed

subsection \<open>Properties\<close>

text \<open>
  C13. The replica table behaves as a list without its storage layout showing: looking up or adding an I/O
  system that is present returns its position and changes nothing, deleting it removes that entry, and adding an
  absent one appends it, or fails when the table is full. The table is then on disk. Looking up or deleting an absent one
  changes nothing; it fails in a table of up to four entries, but in a longer one it returns
  position 0, which is that of another I/O system.
\<close>

theorem ios_table_refines:
  assumes "inoh_ok ih" "mf_rcs mf = []" "cfg ios = Some r" "RES_ISFS r"
    and "inoh_extras ih \<noteq> None \<or> snd (snd (mds_inox_load_locked chk fid ih mf)) = 0"
  shows "if ios \<in> set (ios_table ih) then
      (\<exists>i < length (ios_table ih). ios_table ih ! i = ios \<and>
        mds_repl_ios_lookup cfg chk fid ios IOSV_LOOKUPF_ADD ih mf = Some (ih, mf, int i) \<and>
        mds_repl_ios_lookup cfg chk fid ios IOSV_LOOKUPF_LOOKUP ih mf = Some (ih, mf, int i)) \<and>
      (\<exists>ih' mf' i. mds_repl_ios_lookup cfg chk fid ios IOSV_LOOKUPF_DEL ih mf = Some (ih', mf', int i) \<and>
        i < length (ios_table ih) \<and> ios_table ih ! i = ios \<and> inoh_ok ih' \<and> stored ih' mf' \<and>
        ios_table ih' = take i (ios_table ih) @ drop (Suc i) (ios_table ih))
    else
      mds_repl_ios_lookup cfg chk fid ios IOSV_LOOKUPF_LOOKUP ih mf =
        Some (ih, mf, if length (ios_table ih) \<le> SL_DEF_REPLICAS then - ENOENT else 0) \<and>
      mds_repl_ios_lookup cfg chk fid ios IOSV_LOOKUPF_DEL ih mf =
        Some (ih, mf, if length (ios_table ih) \<le> SL_DEF_REPLICAS then - ENOENT else 0) \<and>
      (if length (ios_table ih) < SL_MAX_REPLICAS then
         \<exists>ih' mf'. mds_repl_ios_lookup cfg chk fid ios IOSV_LOOKUPF_ADD ih mf = Some (ih', mf', int (length (ios_table ih))) \<and>
           inoh_ok ih' \<and> stored ih' mf' \<and> ios_table ih' = ios_table ih @ [ios]
       else mds_repl_ios_lookup cfg chk fid ios IOSV_LOOKUPF_ADD ih mf = Some (ih, mf, - ENOSPC))"
proof (cases "ios \<in> set (ios_table ih)")
  case True
  let ?i = "ios_index ios (ios_table ih)"
  have i: "?i < length (ios_table ih)" "ios_table ih ! ?i = ios" using ios_index_less [OF True] by simp_all
  obtain ih' mf' where del: "ios_delete chk fid (nrepls ih) ?i ih mf = Some (ih', mf', 0)" "inoh_ok ih'" "stored ih' mf'"
    "ios_table ih' = take ?i (ios_table ih) @ drop (Suc ?i) (ios_table ih)"
    using delete_entry [OF assms(1,2), of ?i chk fid] i(1) length_ios_table [OF assms(1)] by auto
  have "mds_repl_ios_lookup cfg chk fid ios IOSV_LOOKUPF_ADD ih mf = Some (ih, mf, int ?i)"
    "mds_repl_ios_lookup cfg chk fid ios IOSV_LOOKUPF_LOOKUP ih mf = Some (ih, mf, int ?i)"
    "mds_repl_ios_lookup cfg chk fid ios IOSV_LOOKUPF_DEL ih mf = Some (ih', mf', int ?i)"
    using True del(1) by (simp_all add: lookup_eq [of ih cfg ios, OF assms(1,3,4)])
  then show ?thesis unfolding if_P [OF True] using i del(2-4) by blast
next
  case False
  then have "mds_repl_ios_lookup cfg chk fid ios IOSV_LOOKUPF_ADD ih mf = ios_add chk fid ios (nrepls ih) ih mf"
    using lookup_eq [of ih cfg ios, OF assms(1,3,4)] by simp
  then have add: "if length (ios_table ih) < SL_MAX_REPLICAS then
         \<exists>ih' mf'. mds_repl_ios_lookup cfg chk fid ios IOSV_LOOKUPF_ADD ih mf = Some (ih', mf', int (length (ios_table ih))) \<and>
           inoh_ok ih' \<and> stored ih' mf' \<and> ios_table ih' = ios_table ih @ [ios]
       else mds_repl_ios_lookup cfg chk fid ios IOSV_LOOKUPF_ADD ih mf = Some (ih, mf, - ENOSPC)"
    using add_entry [OF assms(1,2) _ assms(5), of ios] inoh_okD(1) [OF assms(1)] length_ios_table [OF assms(1)]
    by (auto simp: ios_add_def)
  have "mds_repl_ios_lookup cfg chk fid ios flag ih mf = Some (ih, mf, if length (ios_table ih) \<le> SL_DEF_REPLICAS then - ENOENT else 0)"
    if "flag \<noteq> IOSV_LOOKUPF_ADD" for flag
    using False that lookup_eq [of ih cfg ios, OF assms(1,3,4)] length_ios_table [OF assms(1)] by auto
  then show ?thesis unfolding if_not_P [OF False] using add by simp
qed

lemma sample_ok:
  assumes "length t \<le> SL_MAX_REPLICAS"
  shows "inoh_ok (sample_inoh t)" "ios_table (sample_inoh t) = t"
proof -
  have n: "nrepls (sample_inoh t) = length t" using assms by (simp add: nrepls_def sample_inoh_def unat_nrepls)
  show ok: "inoh_ok (sample_inoh t)"
    using assms n by (simp add: inoh_ok_def ino_ok_def inox_ok_def nrepls_def sample_inoh_def min_def)
  show "ios_table (sample_inoh t) = t"
  proof (rule ios_table_eqI [OF ok])
    fix j assume "j < nrepls (sample_inoh t)"
    then show "t ! j = (if j < SL_DEF_REPLICAS then ino_repls (inoh_ino (sample_inoh t)) ! j
        else inox_repls (the (inoh_extras (sample_inoh t))) ! (j - SL_DEF_REPLICAS))"
      using assms n by (auto simp: sample_inoh_def nth_append ino_sizes)
  qed (simp add: n)
qed

theorem ios_table_refines_witness:
  "(\<exists>ih' mf'. mds_repl_ios_lookup all_fs True 1 30 IOSV_LOOKUPF_ADD (sample_inoh [10, 20]) empty_mfile =
      Some (ih', mf', 2) \<and> ios_table ih' = [10, 20, 30]) \<and>
   mds_repl_ios_lookup all_fs True 1 30 IOSV_LOOKUPF_DEL (sample_inoh [10, 20]) empty_mfile =
      Some (sample_inoh [10, 20], empty_mfile, - ENOENT)"
proof -
  have "inoh_ok (sample_inoh [10, 20])" "ios_table (sample_inoh [10, 20]) = [10, 20]"
    by (rule sample_ok, simp add: SL_MAX_REPLICAS_def)+
  then show ?thesis
    using ios_table_refines [of "sample_inoh [10, 20]" empty_mfile all_fs 30 _ True 1]
    by (auto simp: all_fs_def RES_ISFS_def empty_mfile_def sample_inoh_def SL_MAX_REPLICAS_def ino_sizes)
qed

text \<open>
  Looking up an I/O system that a file with more than four replicas does not have returns
  position 0, the position of another I/O system, instead of an error.
\<close>

lemma ios_lookup_missing:
  assumes "inoh_ok ih" "cfg ios = Some r" "RES_ISFS r"
    and "ios \<notin> set (ios_table ih)" "SL_DEF_REPLICAS < length (ios_table ih)"
  shows "mds_repl_ios_lookup cfg chk fid ios IOSV_LOOKUPF_LOOKUP ih mf = Some (ih, mf, 0) \<and>
    ios_table ih ! 0 \<noteq> ios"
proof -
  have "ios_table ih ! 0 \<in> set (ios_table ih)" using assms(5) by (intro nth_mem) linarith
  then show ?thesis using assms lookup_eq [of ih cfg ios, OF assms(1-3)] length_ios_table [OF assms(1)] by auto
qed

text \<open>
  C14. What \<^verbatim>\<open>mds_inodes_odsync\<close> writes is read back: a fresh handle gets the same inode, and
  loading the extension block of a file with more than four replicas gets the same block.
\<close>

theorem inode_roundtrip:
  assumes "inoh_ok ih" "mf_rcs mf = []" "inoh_flags h AND INOH_INO_NOTLOADED \<noteq> 0" "inoh_extras h = None"
  shows "\<exists>ih' mf' h'. mds_inodes_odsync chk fid ih mf = Some (ih', mf', 0) \<and>
    mds_inode_read interrupted update chk FCMH_INITING 0 h mf' = Some (h', mf', 0) \<and>
    inoh_ino h' = inoh_ino ih \<and>
    (if SL_DEF_REPLICAS < length (ios_table ih) then
       \<exists>h''. mds_inox_load_locked chk fid h' mf' = (h'', mf', 0) \<and> ios_table h'' = ios_table ih
     else ios_table h' = ios_table ih)"
proof -
  obtain mf' where sync: "mds_inodes_odsync chk fid ih mf =
      Some (ih\<lparr>inoh_flags := inoh_flags ih AND NOT INOH_INO_NEW\<rparr>, mf', 0)" "mf_rcs mf' = []" "stored ih mf'"
    by (rule odsync_stored [OF assms(1,2)])
  let ?h = "h\<lparr>inoh_ino := inoh_ino ih, inoh_flags := inoh_flags h AND NOT INOH_INO_NOTLOADED\<rparr>"
  have read: "mds_inode_read interrupted update chk FCMH_INITING 0 h mf' = Some (?h, mf', 0)"
    using inode_read_stored [OF assms(1) sync(2,3)] assms(3) by simp
  have h: "nrepls ?h = nrepls ih" by (simp add: nrepls_def)
  show ?thesis
  proof (cases "SL_DEF_REPLICAS < nrepls ih")
    case True
    obtain x where x: "inoh_extras ih = Some x" using inoh_okD(4) [OF assms(1) True] ..
    have "mds_inox_load_locked chk fid ?h mf' = (?h\<lparr>inoh_extras := Some x\<rparr>, mf', 0)"
      by (rule inox_load_stored [OF sync(2,3) x True inoh_okD(3) [OF assms(1) x]])
    moreover have "ios_table (?h\<lparr>inoh_extras := Some x\<rparr>) = ios_table ih" using x by (simp add: ios_table_def nrepls_def)
    ultimately show ?thesis using sync(1) read True length_ios_table [OF assms(1)]
      by (intro exI [of _ "ih\<lparr>inoh_flags := inoh_flags ih AND NOT INOH_INO_NEW\<rparr>"] exI [of _ mf'] exI [of _ ?h]) simp
  next
    case False
    have "ios_table ?h = ios_table ih"
      using False assms(4) inoh_okD(2) [OF assms(1)] by (simp add: ios_table_def nrepls_def)
    then show ?thesis using sync(1) read False length_ios_table [OF assms(1)]
      by (intro exI [of _ "ih\<lparr>inoh_flags := inoh_flags ih AND NOT INOH_INO_NEW\<rparr>"] exI [of _ mf'] exI [of _ ?h]) simp
  qed
qed

theorem inode_roundtrip_witness:
  "\<exists>ih' mf' h'. mds_inodes_odsync True 1 (sample_inoh [10, 20]) empty_mfile = Some (ih', mf', 0) \<and>
    mds_inode_read (\<lambda>h m. (False, h, m, 0)) (\<lambda>h m v. (h, m, 0)) True FCMH_INITING 0
      ((sample_inoh [])\<lparr>inoh_flags := INOH_INO_NOTLOADED, inoh_extras := None\<rparr>) mf' = Some (h', mf', 0) \<and>
    ios_table h' = [10, 20]"
proof -
  have s: "inoh_ok (sample_inoh [10, 20])" "ios_table (sample_inoh [10, 20]) = [10, 20]"
    by (rule sample_ok, simp add: SL_MAX_REPLICAS_def)+
  show ?thesis
    using inode_roundtrip [OF s(1), of empty_mfile "(sample_inoh [])\<lparr>inoh_flags := INOH_INO_NOTLOADED, inoh_extras := None\<rparr>"
        True 1 "\<lambda>h m. (False, h, m, 0)" "\<lambda>h m v. (h, m, 0)"] s(2)
    by (auto simp: empty_mfile_def INOH_INO_NOTLOADED_def SL_DEF_REPLICAS_def)
qed

text \<open>
  C29. Deleting two neighbouring I/O systems from the replica table of a directory reports
  invalid arguments although both entries have been removed: the second one has moved to the
  position of the first, and the equal positions are taken for a repeated request.
\<close>

theorem iosv_delete_spurious:
  assumes "inoh_ok ih" "mf_rcs mf = []" "cfg a = Some ra" "RES_ISFS ra" "cfg b = Some rb" "RES_ISFS rb"
    and "ios_table ih = us @ a # b # vs" "distinct (ios_table ih)"
  shows "\<exists>ih' mf' idx. mds_repl_iosv_lookup cfg chk fid IOSV_LOOKUPF_DEL [a, b] ih mf = Some (ih', mf', EINVAL, idx) \<and>
    ios_table ih' = us @ vs"
proof -
  have d: "a \<notin> set us" "b \<notin> set us" using assms(7,8) by auto
  obtain ih1 mf1 where 1: "mds_repl_ios_lookup cfg chk fid a IOSV_LOOKUPF_DEL ih mf = Some (ih1, mf1, int (length us))"
    "inoh_ok ih1" "mf_rcs mf1 = []" "ios_table ih1 = us @ b # vs"
    using lookup_delete [of ih mf cfg a, OF assms(1-4,7) d(1)] by blast
  obtain ih2 mf2 where 2: "mds_repl_ios_lookup cfg chk fid b IOSV_LOOKUPF_DEL ih1 mf1 = Some (ih2, mf2, int (length us))"
    "ios_table ih2 = us @ vs"
    using lookup_delete [of ih1 mf1 cfg b, OF 1(2,3) assms(5,6) 1(4) d(2)] by blast
  show ?thesis using 1(1) 2 by (auto simp: mds_repl_iosv_lookup_def Let_def)
qed

theorem iosv_delete_spurious_witness:
  "\<exists>ih' mf' idx. mds_repl_iosv_lookup all_fs True 1 IOSV_LOOKUPF_DEL [10, 20] (sample_inoh [10, 20, 30]) empty_mfile =
      Some (ih', mf', EINVAL, idx) \<and> ios_table ih' = [30]"
proof -
  have s: "inoh_ok (sample_inoh [10, 20, 30])" "ios_table (sample_inoh [10, 20, 30]) = [10, 20, 30]"
    by (rule sample_ok, simp add: SL_MAX_REPLICAS_def)+
  show ?thesis
    using iosv_delete_spurious [of "sample_inoh [10, 20, 30]" empty_mfile all_fs 10 _ 20 _ "[]" "[30]" True 1] s
    by (simp add: all_fs_def RES_ISFS_def empty_mfile_def)
qed

end
