(* ===== verification/Bmap_Mds.thy ===== *)
theory Bmap_Mds
  imports Inode
begin

text \<open>
  The bmaps of a file at the metadata server (\<^verbatim>\<open>share/bmap.c\<close>, \<^verbatim>\<open>slashd/bmap_mds.c\<close>): the cache of
  bmaps of a file with its reference counts, the record a bmap has in the metafile, loading with
  the checksum test and the return of work a previous server had scheduled, and writing with the
  hand-over to the worker that brings the table of pending work up to date.

  The state is in two records. \<open>slm\<close> is the state of the server: its queues, the rows of the
  table \<^verbatim>\<open>upsch\<close>, and what it keeps about each I/O system. \<open>fcmh\<close> is one file: its inode handle,
  its metafile and the cached bmaps. A routine that C lets wait (for a flag of a bmap another
  thread will clear) has no value in the state in which it waits; it runs in the states in which
  the wait is over. Reference counts of files are not kept.
\<close>

subsection \<open>The state\<close>

record rpmi_ios =
  si_flags :: u32
  si_repl_ingress_pending :: int
  si_repl_egress_pending :: int
  si_repl_ingress_aggr :: int
  si_repl_egress_aggr :: int

datatype slm_opstates = SLM_OPSTATE_INIT | SLM_OPSTATE_REPLAY | SLM_OPSTATE_NORMAL

datatype upsch_status = Status_Q | Status_S

record upsch_row =
  up_resid :: u32
  up_fid :: u64
  up_bno :: u32
  up_uid :: u32
  up_gid :: u32
  up_status :: upsch_status
  up_sys_prio :: int
  up_usr_prio :: int
  up_nonce :: u32

text \<open>Queued work: the routine, the file and the bmap.\<close>

datatype slm_wk = WK_wr_brepl u64 u32 | WK_upd_pagein u64 u32 | WK_upsch_purge u64 u32

record slm =
  slm_crc_check :: bool
  sl_sys_upnonce :: u32
  slm_opstate :: slm_opstates
  slm_workq :: "slm_wk list"
  slm_db_hipri_workq :: "slm_wk list"
  slm_upsch_queue :: "(u64 \<times> u32) list"
  upsch :: "upsch_row list"
  iosinfo :: "u32 \<Rightarrow> rpmi_ios"
  slm_upsch_bandwidth :: int
  slm_preclaim_enabled :: bool

record fcmh =
  fcmh_fid :: u64
  sst_uid :: u32
  sst_gid :: u32
  fcmh_2_fsz :: nat
  fcmh_isdir :: bool
  fcmh_isreg :: bool
  fcmh_inoh :: slm_inoh
  fcmh_mf :: mfile
  fcmh_bmaptree :: "u32 \<Rightarrow> bmap option"
  fmi_ptrunc_nios :: int
  fcmh_in_ptrunc :: bool
  fmi_cb_count :: int

abbreviation fcmh_2_nrepls :: "fcmh \<Rightarrow> nat" where
  "fcmh_2_nrepls f \<equiv> nrepls (fcmh_inoh f)"

definition fcmh_nvalidbmaps :: "fcmh \<Rightarrow> nat" where
  "fcmh_nvalidbmaps f = (fcmh_2_fsz f + SLASH_BMAP_SIZE - 1) div SLASH_BMAP_SIZE"

definition BMAPF_RD :: u32 where "BMAPF_RD = push_bit 0 1"
definition BMAPF_WR :: u32 where "BMAPF_WR = push_bit 1 1"
definition BMAPF_LOADED :: u32 where "BMAPF_LOADED = push_bit 2 1"
definition BMAPF_LOADING :: u32 where "BMAPF_LOADING = push_bit 3 1"
definition BMAPF_TOFREE :: u32 where "BMAPF_TOFREE = push_bit 5 1"
definition BMAPF_DISCARD :: u32 where "BMAPF_DISCARD = push_bit 6 1"
definition BMAPF_MODECHNG :: u32 where "BMAPF_MODECHNG = push_bit 7 1"

definition BMAPGETF_NONBLOCK :: u32 where "BMAPGETF_NONBLOCK = push_bit 0 1"
definition BMAPGETF_CREATE :: u32 where "BMAPGETF_CREATE = push_bit 1 1"
definition BMAPGETF_NORETRIEVE :: u32 where "BMAPGETF_NORETRIEVE = push_bit 2 1"
definition BMAPGETF_NOAUTOINST :: u32 where "BMAPGETF_NOAUTOINST = push_bit 3 1"
definition BMAPGETF_NODISKREAD :: u32 where "BMAPGETF_NODISKREAD = push_bit 4 1"

definition UPDF_BUSY :: u32 where "UPDF_BUSY = push_bit 0 1"
definition UPDF_LIST :: u32 where "UPDF_LIST = push_bit 1 1"

definition SLERR_BMAP_INVALID :: int where "SLERR_BMAP_INVALID = 1000 + 4"
definition BMAP_NULL_CRC :: u64 where "BMAP_NULL_CRC = 0x436f5d7c450ed606"
definition SLASH_SLVRS_PER_BMAP :: nat where "SLASH_SLVRS_PER_BMAP = 128"
definition SL_BMAP_START_OFF :: nat where "SL_BMAP_START_OFF = 0x600"
definition BMAP_OD_CRCSZ :: nat where "BMAP_OD_CRCSZ = 1184"
definition BMAP_OD_SZ :: nat where "BMAP_OD_SZ = BMAP_OD_CRCSZ + 8"

subsection \<open>The record in the metafile\<close>

definition bod_bytes :: "bmap \<Rightarrow> u8 list" where
  "bod_bytes b = bmi_crcstates b @ bmi_repls b @ enc_arr le64 (bmi_crcs b) @ le32 (bes_gen b) @ le32 (bes_replpol b)"

definition bod_set :: "bmap \<Rightarrow> u8 list \<Rightarrow> bmap" where
  "bod_set b bs =
     b\<lparr>bmi_crcstates := take 128 bs,
       bmi_repls := take 24 (drop 128 bs),
       bmi_crcs := dec_arr un_le64 8 SLASH_SLVRS_PER_BMAP (drop 152 bs),
       bes_gen := un_le32 (drop 1176 bs),
       bes_replpol := un_le32 (drop 1180 bs)\<rparr>"

text \<open>A read of fewer bytes leaves the rest of the record as it was.\<close>

definition bod_read :: "bmap \<Rightarrow> u8 list \<Rightarrow> bmap" where
  "bod_read b bs =
     (let bs = take BMAP_OD_CRCSZ bs in bod_set b (bs @ drop (length bs) (bod_bytes b)))"

definition bmap_foff_od :: "bmap \<Rightarrow> nat" where
  "bmap_foff_od b = BMAP_OD_SZ * unat (bcm_bmapno b) + SL_BMAP_START_OFF"

definition mds_bmap_initnew :: "fcmh \<Rightarrow> slm \<Rightarrow> bmap \<Rightarrow> bmap" where
  "mds_bmap_initnew f s b =
     b\<lparr>bmi_crcs := replicate SLASH_SLVRS_PER_BMAP BMAP_NULL_CRC,
       bes_replpol := ino_replpol (inoh_ino (fcmh_inoh f)),
       bes_gen := sl_sys_upnonce s,
       bmi_sys_prio := -1,
       bmi_usr_prio := -1\<rparr>"

text \<open>Whether one of the replicas holds data; the code only logs a warning when none does.\<close>

definition mds_bmap_ensure_valid :: "fcmh \<Rightarrow> bmap \<Rightarrow> bool option" where
  "mds_bmap_ensure_valid f b =
     do {
       let retifset = (brepls_init 0)[nat BREPLST_VALID := 1, nat BREPLST_GARBAGE_QUEUED := 1,
         nat BREPLST_GARBAGE_SCHED := 1, nat BREPLST_TRUNC_QUEUED := 1, nat BREPLST_TRUNC_SCHED := 1];
       (b, rc, _) \<leftarrow> mds_repl_bmap_walk (fcmh_2_nrepls f) b None (Some retifset) REPL_WALKF_SCIRCUIT []
         no_cb ();
       Some (rc \<noteq> 0)
     }"

text \<open>
  Writing the record. With \<open>logrepls\<close> the log routine is \<^verbatim>\<open>mdslog_bmap_repls\<close>: the bmap is then
  marked as having changes the worker has to enter into the database, and holds a reference for it.
\<close>

definition mds_bmap_write :: "bool \<Rightarrow> bmap \<Rightarrow> fcmh \<Rightarrow> slm \<Rightarrow> (bmap \<times> fcmh \<times> slm \<times> int) option" where
  "mds_bmap_write logrepls b f s =
     do {
       _ \<leftarrow> mds_bmap_ensure_valid f b;
       let bs = bod_bytes b;
       let (mf, rc, nb) = mdsio_pwritev (fcmh_mf f) (bs @ le64 (psc_crc64_calc bs)) (bmap_foff_od b);
       let f = f\<lparr>fcmh_mf := mf\<rparr>;
       let rc = (if rc = 0 \<and> nb \<noteq> BMAP_OD_SZ then SLERR_SHORTIO else rc);
       if rc = 0 \<and> logrepls then do {
         psc_assert (slm_opstate s = SLM_OPSTATE_NORMAL);
         Some (b\<lparr>bcm_flags := bcm_flags b OR BMAPF_REPLMODWR, bcm_opcnt := bcm_opcnt b + 1\<rparr>, f,
           s\<lparr>slm_workq := slm_workq s @ [WK_wr_brepl (fcmh_fid f) (bcm_bmapno b)]\<rparr>, rc)
       } else Some (b, f, s, rc)
     }"

abbreviation mds_bmap_write_logrepls :: "bmap \<Rightarrow> fcmh \<Rightarrow> slm \<Rightarrow> (bmap \<times> fcmh \<times> slm \<times> int) option" where
  "mds_bmap_write_logrepls \<equiv> mds_bmap_write True"

definition requeue_tract :: "int list" where
  "requeue_tract = (brepls_init (-1))[nat BREPLST_REPL_SCHED := BREPLST_REPL_QUEUED,
     nat BREPLST_GARBAGE_SCHED := BREPLST_GARBAGE_QUEUED]"

definition requeue_retifset :: "int list" where
  "requeue_retifset = (brepls_init 0)[nat BREPLST_REPL_SCHED := 1, nat BREPLST_GARBAGE_SCHED := 1]"

definition slm_bmap_resetnonce :: "bmap \<Rightarrow> fcmh \<Rightarrow> slm \<Rightarrow> (bmap \<times> fcmh \<times> slm) option" where
  "slm_bmap_resetnonce b f s =
     do {
       (b, rc, _) \<leftarrow> mds_repl_bmap_walk (fcmh_2_nrepls f) b (Some requeue_tract) (Some requeue_retifset) 0 []
         no_cb ();
       if rc \<noteq> 0 then do {
         (b, f, s, _) \<leftarrow> mds_bmap_write_logrepls b f s;
         Some (b, f, s)
       } else Some (b, f, s)
     }"

text \<open>What follows a load: a bmap of an earlier run of the server has its scheduled work queued again.\<close>

definition bmap_read_nonce :: "bmap \<Rightarrow> fcmh \<Rightarrow> slm \<Rightarrow> (bmap \<times> fcmh \<times> slm) option" where
  "bmap_read_nonce b f s =
     (if bes_gen b = sl_sys_upnonce s then Some (b, f, s)
      else let b = b\<lparr>bes_gen := sl_sys_upnonce s\<rparr>
           in if slm_opstate s \<noteq> SLM_OPSTATE_REPLAY then slm_bmap_resetnonce b f s else Some (b, f, s))"

definition mds_bmap_read :: "u32 \<Rightarrow> bmap \<Rightarrow> fcmh \<Rightarrow> slm \<Rightarrow> (bmap \<times> fcmh \<times> slm \<times> int) option" where
  "mds_bmap_read flags b f s =
     (let b = b\<lparr>upd_flags := 0\<rparr> in
      if flags AND BMAPGETF_NODISKREAD \<noteq> 0 then do {
        (b, f, s) \<leftarrow> bmap_read_nonce (mds_bmap_initnew f s b) f s;
        Some (b, f, s, 0)
      } else
        let (mf, rc, bs) = mdsio_preadv (fcmh_mf f) BMAP_OD_SZ (bmap_foff_od b);
            f = f\<lparr>fcmh_mf := mf\<rparr>
        in if rc \<noteq> 0 then Some (b, f, s, rc)
           else if bs = [] \<and> flags AND BMAPGETF_NOAUTOINST \<noteq> 0 then Some (b, f, s, SLERR_BMAP_INVALID)
           else
             let b = bod_read b bs;
                 od_crc = un_le64 (filled 8 (drop BMAP_OD_CRCSZ bs))
             in if bs = [] \<or> length bs = BMAP_OD_SZ \<and> od_crc = 0 \<and> list_all (\<lambda>x. x = 0) (bod_bytes b) then
                  Some (mds_bmap_initnew f s b, f, s, 0)
                else if length bs = BMAP_OD_SZ \<and> od_crc \<noteq> psc_crc64_calc (bod_bytes b) then
                  Some (b, f, s, PFLERR_BADCRC)
                else do {
                  _ \<leftarrow> mds_bmap_ensure_valid f b;
                  (b, f, s) \<leftarrow> bmap_read_nonce b f s;
                  Some (b, f, s, 0)
                })"

subsection \<open>The cache\<close>

definition mds_bmap_init :: "bmap \<Rightarrow> bmap" where
  "mds_bmap_init b = b\<lparr>bmi_sys_prio := -1, bmi_usr_prio := -1\<rparr>"

text \<open>The memory of a fresh bmap is zero.\<close>

definition bmap_zero :: "u32 \<Rightarrow> u32 \<Rightarrow> bmap" where
  "bmap_zero n flags =
     \<lparr>bcm_bmapno = n, bcm_flags = flags, bcm_opcnt = 0, bmi_crcstates = replicate SLASH_SLVRS_PER_BMAP 0,
      bmi_repls = replicate SL_REPLICA_NBYTES 0, bmi_crcs = replicate SLASH_SLVRS_PER_BMAP 0, bes_gen = 0,
      bes_replpol = 0, bmi_orepls = replicate SL_REPLICA_NBYTES 0, bmi_sys_prio = 0, bmi_usr_prio = 0,
      bmi_wr_ion = None, bmi_leases = [], bmi_assign = 0, bmi_seq = 0, bmi_writers = 0, bmi_readers = 0,
      bmi_diocb = 0, upd_flags = 0\<rparr>"

definition bmap_lookup_cache :: "fcmh \<Rightarrow> u32 \<Rightarrow> u32 \<Rightarrow> bool \<Rightarrow> (fcmh \<times> bmap option \<times> bool) option" where
  "bmap_lookup_cache f n bmaprw doalloc =
     (case fcmh_bmaptree f n of
        Some b \<Rightarrow> do {
          psc_assert (bcm_flags b AND BMAPF_TOFREE = 0 \<and> bcm_flags b AND BMAPF_DISCARD = 0);
          let b = b\<lparr>bcm_opcnt := bcm_opcnt b + 1\<rparr>;
          Some (f\<lparr>fcmh_bmaptree := (fcmh_bmaptree f)(n \<mapsto> b)\<rparr>, Some b, False)
        }
      | None \<Rightarrow>
          if \<not> doalloc then Some (f, None, False)
          else do {
            psc_assert (bmaprw = BMAPF_RD \<or> bmaprw = BMAPF_WR);
            let b = mds_bmap_init ((bmap_zero n bmaprw)\<lparr>bcm_opcnt := 1\<rparr>);
            Some (f\<lparr>fcmh_bmaptree := (fcmh_bmaptree f)(n \<mapsto> b)\<rparr>, Some b, True)
          })"

definition bmap_wake_locked :: "bmap \<Rightarrow> bmap" where
  "bmap_wake_locked b = b\<lparr>bcm_flags := bcm_flags b AND NOT BMAPF_WAITERS\<rparr>"

definition mds_bmap_destroy :: "bmap \<Rightarrow> unit option" where
  "mds_bmap_destroy b =
     do {
       psc_assert (bmi_writers b = 0);
       psc_assert (bmi_readers b = 0);
       psc_assert (bmi_leases b = []);
       psc_assert (upd_flags b AND UPDF_LIST = 0);
       psc_assert (upd_flags b AND UPDF_BUSY = 0)
     }"

definition bmap_remove :: "bmap \<Rightarrow> fcmh \<Rightarrow> fcmh" where
  "bmap_remove b f =
     (if bcm_flags b AND BMAPF_DISCARD = 0 then f\<lparr>fcmh_bmaptree := (fcmh_bmaptree f)(bcm_bmapno b := None)\<rparr> else f)"

definition bmap_op_done :: "bmap \<Rightarrow> fcmh \<Rightarrow> fcmh option" where
  "bmap_op_done b f =
     do {
       psc_assert (bcm_opcnt b > 0);
       let b = b\<lparr>bcm_opcnt := bcm_opcnt b - 1\<rparr>;
       if bcm_opcnt b = 0 then do {
         mds_bmap_destroy b;
         Some (bmap_remove b f)
       } else Some (f\<lparr>fcmh_bmaptree := (fcmh_bmaptree f)(bcm_bmapno b \<mapsto> bmap_wake_locked b)\<rparr>)
     }"

datatype rw = SL_READ | SL_WRITE

definition bmap_get_out :: "bmap \<Rightarrow> fcmh \<Rightarrow> slm \<Rightarrow> int \<Rightarrow> (fcmh \<times> slm \<times> int \<times> bmap option) option" where
  "bmap_get_out b f s rc =
     (if rc \<noteq> 0 then do { f \<leftarrow> bmap_op_done b f; Some (f, s, rc, None) }
      else Some (f\<lparr>fcmh_bmaptree := (fcmh_bmaptree f)(bcm_bmapno b \<mapsto> b)\<rparr>, s, 0, Some b))"

text \<open>The server has no routine for a change of the access mode, so a loaded bmap is returned as it is.\<close>

definition bmap_get_loaded ::
  "u32 \<Rightarrow> u32 \<Rightarrow> bmap \<Rightarrow> fcmh \<Rightarrow> slm \<Rightarrow> int \<Rightarrow> (fcmh \<times> slm \<times> int \<times> bmap option) option" where
  "bmap_get_loaded flags bmaprw b f s rc =
     (if rc \<noteq> 0 \<or> bmaprw = 0 then bmap_get_out b f s rc
      else if flags AND BMAPGETF_NONBLOCK \<noteq> 0 then bmap_get_out b f s rc
      else do {
        psc_assert (bcm_flags b AND BMAPF_MODECHNG = 0);
        bmap_get_out b f s rc
      })"

definition bmap_getf :: "fcmh \<Rightarrow> u32 \<Rightarrow> rw option \<Rightarrow> u32 \<Rightarrow> slm \<Rightarrow> (fcmh \<times> slm \<times> int \<times> bmap option) option" where
  "bmap_getf f n rw flags s =
     do {
       let bmaprw = (case rw of None \<Rightarrow> 0 | Some SL_WRITE \<Rightarrow> BMAPF_WR | Some SL_READ \<Rightarrow> BMAPF_RD);
       (f, bo, _) \<leftarrow> bmap_lookup_cache f n bmaprw (flags AND BMAPGETF_CREATE \<noteq> 0);
       case bo of
         None \<Rightarrow> Some (f, s, ENOENT, None)
       | Some b \<Rightarrow>
           if flags AND BMAPGETF_NONBLOCK \<noteq> 0 \<and> bcm_flags b AND BMAPF_LOADING \<noteq> 0 then bmap_get_out b f s 0
           else do {
             psc_assert (bcm_flags b AND BMAPF_LOADING = 0);
             if bcm_flags b AND BMAPF_LOADED \<noteq> 0 then bmap_get_loaded flags bmaprw b f s 0
             else if flags AND BMAPGETF_NORETRIEVE \<noteq> 0 then bmap_get_out b f s 0
             else do {
               (b, f, s, rc) \<leftarrow> mds_bmap_read flags (b\<lparr>bcm_flags := bcm_flags b OR BMAPF_LOADING\<rparr>) f s;
               if flags AND BMAPGETF_NONBLOCK \<noteq> 0 then
                 bmap_get_out (if rc \<noteq> 0 then b\<lparr>bcm_flags := bcm_flags b AND NOT BMAPF_LOADING\<rparr> else b) f s rc
               else
                 let b = b\<lparr>bcm_flags := bcm_flags b AND NOT BMAPF_LOADING\<rparr>;
                     b = (if rc = 0 then bmap_wake_locked (b\<lparr>bcm_flags := bcm_flags b OR BMAPF_LOADED\<rparr>) else b)
                 in bmap_get_loaded flags bmaprw b f s rc
             }
           }
     }"

abbreviation bmap_get :: "fcmh \<Rightarrow> u32 \<Rightarrow> rw \<Rightarrow> slm \<Rightarrow> (fcmh \<times> slm \<times> int \<times> bmap option) option" where
  "bmap_get f n rw s \<equiv> bmap_getf f n (Some rw) BMAPGETF_CREATE s"

text \<open>Well-formed bmaps and files, and what the metafile holds.\<close>

definition bmap_ok :: "bmap \<Rightarrow> bool" where
  "bmap_ok b \<longleftrightarrow> length (bmi_crcstates b) = SLASH_SLVRS_PER_BMAP \<and> repls_ok (bmi_repls b) \<and>
     length (bmi_crcs b) = SLASH_SLVRS_PER_BMAP"

definition fcmh_ok :: "fcmh \<Rightarrow> bool" where
  "fcmh_ok f \<longleftrightarrow> inoh_ok (fcmh_inoh f) \<and> mf_rcs (fcmh_mf f) = []"

definition od_copy :: "bmap \<Rightarrow> bmap \<Rightarrow> bmap" where
  "od_copy b c = b\<lparr>bmi_crcstates := bmi_crcstates c, bmi_repls := bmi_repls c, bmi_crcs := bmi_crcs c,
     bes_gen := bes_gen c, bes_replpol := bes_replpol c\<rparr>"

definition bmap_rec :: "bmap \<Rightarrow> u8 list" where
  "bmap_rec b = bod_bytes b @ le64 (psc_crc64_calc (bod_bytes b))"

definition bmap_stored :: "bmap \<Rightarrow> mfile \<Rightarrow> bool" where
  "bmap_stored b mf \<longleftrightarrow> pread (mf_data mf) (bmap_foff_od b) BMAP_OD_SZ = Some (bmap_rec b)"

definition wr_mark :: "bool \<Rightarrow> bmap \<Rightarrow> bmap" where
  "wr_mark lr b = (if lr then b\<lparr>bcm_flags := bcm_flags b OR BMAPF_REPLMODWR, bcm_opcnt := bcm_opcnt b + 1\<rparr> else b)"

definition wr_file :: "bmap \<Rightarrow> fcmh \<Rightarrow> fcmh" where
  "wr_file b f = f\<lparr>fcmh_mf := (fcmh_mf f)\<lparr>mf_data := pwrite (mf_data (fcmh_mf f)) (bmap_foff_od b) (bmap_rec b)\<rparr>\<rparr>"

definition wr_queue :: "bool \<Rightarrow> bmap \<Rightarrow> fcmh \<Rightarrow> slm \<Rightarrow> slm" where
  "wr_queue lr b f s = (if lr then s\<lparr>slm_workq := slm_workq s @ [WK_wr_brepl (fcmh_fid f) (bcm_bmapno b)]\<rparr> else s)"

definition fresh_bmap :: "u32 \<Rightarrow> u32 \<Rightarrow> bmap" where
  "fresh_bmap n flags = (mds_bmap_init ((bmap_zero n flags)\<lparr>bcm_opcnt := 1\<rparr>))"

definition loaded :: "bmap \<Rightarrow> bmap" where
  "loaded b = b\<lparr>bcm_flags := ((bcm_flags b AND NOT BMAPF_LOADING) OR BMAPF_LOADED) AND NOT BMAPF_WAITERS\<rparr>"

text \<open>Work that was scheduled goes back to the queue.\<close>

definition requeued :: "int \<Rightarrow> int" where
  "requeued v = (if v = BREPLST_REPL_SCHED then BREPLST_REPL_QUEUED
     else if v = BREPLST_GARBAGE_SCHED then BREPLST_GARBAGE_QUEUED else v)"

definition sched_work :: "nat \<Rightarrow> u8 list \<Rightarrow> bool" where
  "sched_work nr bs \<longleftrightarrow> list_ex (\<lambda>k. brepl bs k \<in> {BREPLST_REPL_SCHED, BREPLST_GARBAGE_SCHED}) [0..<nr]"

text \<open>A file and a server to run examples on.\<close>

definition sample_fcmh :: "u32 list \<Rightarrow> fcmh" where
  "sample_fcmh t = \<lparr>fcmh_fid = 7, sst_uid = 0, sst_gid = 0, fcmh_2_fsz = SLASH_BMAP_SIZE, fcmh_isdir = False,
     fcmh_isreg = True, fcmh_inoh = sample_inoh t, fcmh_mf = empty_mfile, fcmh_bmaptree = (\<lambda>_. None),
     fmi_ptrunc_nios = 0, fcmh_in_ptrunc = False, fmi_cb_count = 0\<rparr>"

definition sample_slm :: slm where
  "sample_slm = \<lparr>slm_crc_check = True, sl_sys_upnonce = 5, slm_opstate = SLM_OPSTATE_NORMAL, slm_workq = [],
     slm_db_hipri_workq = [], slm_upsch_queue = [], upsch = [],
     iosinfo = (\<lambda>_. \<lparr>si_flags = 0, si_repl_ingress_pending = 0, si_repl_egress_pending = 0,
       si_repl_ingress_aggr = 0, si_repl_egress_aggr = 0\<rparr>),
     slm_upsch_bandwidth = 0, slm_preclaim_enabled = True\<rparr>"

definition sample_bmap :: "u8 list \<Rightarrow> u32 \<Rightarrow> bmap" where
  "sample_bmap repls gen = (fresh_bmap 0 BMAPF_WR)\<lparr>bmi_repls := repls @ replicate (SL_REPLICA_NBYTES - length repls) 0,
     bes_gen := gen\<rparr>"

lemmas bod_sizes = SLASH_SLVRS_PER_BMAP_def BMAP_OD_CRCSZ_def BMAP_OD_SZ_def SL_REPLICA_NBYTES_def
  SL_MAX_REPLICAS_def SL_BITS_PER_REPLICA_def NBBY_def SL_BMAP_START_OFF_def

subsection \<open>The record\<close>

lemma length_bod: "bmap_ok b \<Longrightarrow> length (bod_bytes b) = BMAP_OD_CRCSZ"
  by (simp add: bod_bytes_def bmap_ok_def repls_ok_def le64.length_enc_arr bod_sizes)

lemma length_bmap_rec: "bmap_ok b \<Longrightarrow> length (bmap_rec b) = BMAP_OD_SZ"
  by (simp add: bmap_rec_def length_bod BMAP_OD_SZ_def)

lemma bod_set_bytes:
  assumes "bmap_ok c"
  shows "bod_set b (bod_bytes c @ rest) = od_copy b c"
proof -
  have "dec_arr un_le64 8 SLASH_SLVRS_PER_BMAP (enc_arr le64 (bmi_crcs c) @ r) = bmi_crcs c"
    "length (enc_arr le64 (bmi_crcs c)) = 1024" for r
    using assms le64.dec_enc_arr [of "bmi_crcs c" r] by (simp_all add: bmap_ok_def le64.length_enc_arr bod_sizes)
  then show ?thesis using assms
    by (simp add: bod_set_def bod_bytes_def od_copy_def un_le32_le32 bmap_ok_def repls_ok_def bod_sizes)
qed

lemma bod_bytes_copy [simp]: "bod_bytes (od_copy b c) = bod_bytes c" "bmi_repls (od_copy b c) = bmi_repls c"
  "bes_gen (od_copy b c) = bes_gen c" "bcm_flags (od_copy b c) = bcm_flags b" "bcm_opcnt (od_copy b c) = bcm_opcnt b"
  "bcm_bmapno (od_copy b c) = bcm_bmapno b" "bmi_wr_ion (od_copy b c) = bmi_wr_ion b" "upd_flags (od_copy b c) = upd_flags b"
  by (simp_all add: od_copy_def bod_bytes_def)

lemma bmap_ok_copy [simp]: "bmap_ok (od_copy b c) = bmap_ok c"
  by (simp add: od_copy_def bmap_ok_def)

lemma enc_gen_nonzero:
  assumes "bes_gen b \<noteq> 0"
  shows "\<not> list_all (\<lambda>x. x = 0) (bod_bytes b)"
proof
  assume "list_all (\<lambda>x. x = 0) (bod_bytes b)"
  then have "\<forall>x \<in> set (le32 (bes_gen b)). x = 0" by (auto simp: bod_bytes_def list_all_iff)
  then have "le32 (bes_gen b) = le32 0"
    by (intro nth_equalityI) (auto simp: le32_def)
  then show False using assms le32.enc_inj by blast
qed

subsection \<open>Writing\<close>

lemma fcmh_nr: "fcmh_ok f \<Longrightarrow> fcmh_2_nrepls f \<le> SL_MAX_REPLICAS"
  using inoh_okD(1) by (simp add: fcmh_ok_def)

lemma ensure_valid_returns:
  assumes "fcmh_ok f" "repls_ok (bmi_repls b)"
  obtains v where "mds_bmap_ensure_valid f b = Some v"
proof -
  let ?r = "(brepls_init 0)[nat BREPLST_VALID := 1, nat BREPLST_GARBAGE_QUEUED := 1,
    nat BREPLST_GARBAGE_SCHED := 1, nat BREPLST_TRUNC_QUEUED := 1, nat BREPLST_TRUNC_SCHED := 1]"
  have "ret_ok (Some ?r)" by (simp add: brepl_simps)
  then obtain rc c where "mds_repl_bmap_walk (fcmh_2_nrepls f) b None (Some ?r) REPL_WALKF_SCIRCUIT [] (pure_cb None) () =
      Some (b, rc, c)"
    by (rule walk_query [where iosidx = "[]" and flags = REPL_WALKF_SCIRCUIT and g = None and c = "()",
          OF assms(2) _ _ fcmh_nr [OF assms(1)] refl]) (simp, blast)
  then show thesis using that unfolding mds_bmap_ensure_valid_def Let_def by simp
qed

lemma wr_file_ok [simp]: "fcmh_ok (wr_file b f) = fcmh_ok f" "fcmh_inoh (wr_file b f) = fcmh_inoh f"
  "fcmh_bmaptree (wr_file b f) = fcmh_bmaptree f" "fcmh_fid (wr_file b f) = fcmh_fid f"
  by (simp_all add: fcmh_ok_def wr_file_def)

lemma wr_mark_same [simp]: "bmi_repls (wr_mark lr b) = bmi_repls b" "bmap_ok (wr_mark lr b) = bmap_ok b"
  "bcm_bmapno (wr_mark lr b) = bcm_bmapno b" "bod_bytes (wr_mark lr b) = bod_bytes b" "bes_gen (wr_mark lr b) = bes_gen b"
  "bmi_orepls (wr_mark lr b) = bmi_orepls b"
  by (simp_all add: wr_mark_def bmap_ok_def bod_bytes_def)

lemma write_eq:
  assumes "fcmh_ok f" "bmap_ok b" "lr \<longrightarrow> slm_opstate s = SLM_OPSTATE_NORMAL"
  shows "mds_bmap_write lr b f s = Some (wr_mark lr b, wr_file b f, wr_queue lr b f s, 0)"
proof -
  have "repls_ok (bmi_repls b)" using assms(2) by (simp add: bmap_ok_def)
  then obtain v where v: "mds_bmap_ensure_valid f b = Some v" by (rule ensure_valid_returns [OF assms(1)])
  have mf: "mf_rcs (fcmh_mf f) = []" using assms(1) by (simp add: fcmh_ok_def)
  have "length (bod_bytes b @ le64 (psc_crc64_calc (bod_bytes b))) = BMAP_OD_SZ"
    using length_bmap_rec [OF assms(2)] by (simp add: bmap_rec_def)
  then show ?thesis using assms(3) unfolding mds_bmap_write_def v mdsio_ok(1) [OF mf]
    by (simp add: wr_mark_def wr_file_def wr_queue_def bmap_rec_def Let_def psc_assert_def del: length_append)
qed

lemma wr_file_stored:
  assumes "bmap_ok b"
  shows "bmap_stored b (fcmh_mf (wr_file b f))"
  using pread_pwrite_same [of "bmap_foff_od b" "bmap_foff_od b" BMAP_OD_SZ "bmap_rec b" "mf_data (fcmh_mf f)"]
    length_bmap_rec [OF assms] by (simp add: bmap_stored_def wr_file_def)

lemma foff_apart:
  assumes "bcm_bmapno b \<noteq> bcm_bmapno c"
  shows "bmap_foff_od c + BMAP_OD_SZ \<le> bmap_foff_od b \<or> bmap_foff_od b + BMAP_OD_SZ \<le> bmap_foff_od c"
proof -
  let ?i = "unat (bcm_bmapno b)" and ?j = "unat (bcm_bmapno c)"
  have "?i \<noteq> ?j" using assms by (simp add: word_unat_eq_iff)
  then have "?j + 1 \<le> ?i \<or> ?i + 1 \<le> ?j" by linarith
  then have "BMAP_OD_SZ * (?j + 1) \<le> BMAP_OD_SZ * ?i \<or> BMAP_OD_SZ * (?i + 1) \<le> BMAP_OD_SZ * ?j"
    using mult_le_mono2 by blast
  then show ?thesis by (simp add: bmap_foff_od_def add.commute)
qed

lemma wr_file_other:
  assumes "bmap_ok b" "bmap_stored c (fcmh_mf f)" "bcm_bmapno b \<noteq> bcm_bmapno c"
  shows "bmap_stored c (fcmh_mf (wr_file b f))"
  using assms(2) foff_apart [OF assms(3)] unfolding bmap_stored_def wr_file_def
  by (simp add: pread_pwrite_other length_bmap_rec [OF assms(1)])

lemma wr_file_inode:
  assumes "stored ih (fcmh_mf f)"
  shows "stored ih (fcmh_mf (wr_file b f))"
proof -
  have "1536 \<le> bmap_foff_od b" by (simp add: bmap_foff_od_def SL_BMAP_START_OFF_def)
  then show ?thesis using assms unfolding stored_def wr_file_def
    by (auto simp: ino_sizes intro!: pread_pwrite_other)
qed

subsection \<open>Reading\<close>

lemma read_stored_eq:
  assumes "fcmh_ok f" "bmap_ok c" "bmap_stored c (fcmh_mf f)" "bcm_bmapno b = bcm_bmapno c"
    and "flags AND BMAPGETF_NODISKREAD = 0" "bes_gen c \<noteq> 0"
  shows "mds_bmap_read flags b f s =
    do { (b, f, s) \<leftarrow> bmap_read_nonce (od_copy (b\<lparr>upd_flags := 0\<rparr>) c) f s; Some (b, f, s, 0) }"
proof -
  let ?b = "b\<lparr>upd_flags := 0\<rparr>"
  have mf: "mf_rcs (fcmh_mf f) = []" using assms(1) by (simp add: fcmh_ok_def)
  have len: "length (bod_bytes c) = BMAP_OD_CRCSZ" by (rule length_bod [OF assms(2)])
  have bs: "take BMAP_OD_SZ (drop (bmap_foff_od ?b) (mf_data (fcmh_mf f))) = bmap_rec c"
    using assms(3,4) by (simp add: bmap_stored_def pread_def bmap_foff_od_def split: if_splits)
  have ne: "bmap_rec c \<noteq> []" "length (bmap_rec c) = BMAP_OD_SZ"
    using length_bmap_rec [OF assms(2)] by (auto simp: BMAP_OD_SZ_def)
  have "filled 8 (drop BMAP_OD_CRCSZ (bmap_rec c)) = le64 (psc_crc64_calc (bod_bytes c))"
    using len by (simp add: bmap_rec_def filled_def)
  then have crc: "un_le64 (filled 8 (drop BMAP_OD_CRCSZ (bmap_rec c))) = psc_crc64_calc (bod_bytes c)"
    using le64.dec_enc_id by simp
  have "take BMAP_OD_CRCSZ (bmap_rec c) = bod_bytes c" using len by (simp add: bmap_rec_def)
  then have rd: "bod_read ?b (bmap_rec c) = od_copy ?b c"
    by (simp add: bod_read_def bod_set_bytes [OF assms(2)] Let_def)
  have "repls_ok (bmi_repls (od_copy ?b c))" using assms(2) by (simp add: bmap_ok_def)
  then obtain v where v: "mds_bmap_ensure_valid f (od_copy ?b c) = Some v" by (rule ensure_valid_returns [OF assms(1)])
  show ?thesis
    using assms(5) ne enc_gen_nonzero [OF assms(6)]
    unfolding mds_bmap_read_def Let_def mdsio_ok(2) [OF mf] prod.case bs crc rd
    by (simp add: v)
qed

subsection \<open>Getting a bmap that is not cached\<close>

lemma flag_vals: "BMAPGETF_CREATE = 2" "BMAPGETF_NODISKREAD = 16" "BMAPGETF_NONBLOCK = 1" "BMAPGETF_NORETRIEVE = 4"
  "BMAPGETF_NOAUTOINST = 8" "BMAPF_RD = 1" "BMAPF_WR = 2" "BMAPF_LOADED = 4" "BMAPF_LOADING = 8" "BMAPF_TOFREE = 32"
  "BMAPF_DISCARD = 64" "BMAPF_MODECHNG = 128" "BMAPF_WAITERS = 256" "BMAPF_REPLMODWR = 2048" "UPDF_BUSY = 1" "UPDF_LIST = 2"
  by (simp_all add: BMAPGETF_CREATE_def BMAPGETF_NODISKREAD_def BMAPGETF_NONBLOCK_def BMAPGETF_NORETRIEVE_def
      BMAPGETF_NOAUTOINST_def BMAPF_RD_def BMAPF_WR_def BMAPF_LOADED_def BMAPF_LOADING_def BMAPF_TOFREE_def
      BMAPF_DISCARD_def BMAPF_MODECHNG_def BMAPF_WAITERS_def BMAPF_REPLMODWR_def UPDF_BUSY_def UPDF_LIST_def)

lemma fresh_flags: "(fresh_bmap n x)\<lparr>bcm_flags := y\<rparr> = fresh_bmap n y"
  by (simp add: fresh_bmap_def mds_bmap_init_def bmap_zero_def)

lemma flag_bit: "(w :: u32) AND push_bit k 1 = 0 \<longleftrightarrow> \<not> bit w k"
  by (simp add: push_bit_of_1 and_exp_eq_0_iff_not_bit)

lemmas flag_bits = flag_vals bit_and_iff bit_or_iff bit_not_iff

lemma get_uncached:
  assumes "fcmh_bmaptree f n = None"
    and "mds_bmap_read BMAPGETF_CREATE (fresh_bmap n (BMAPF_WR OR BMAPF_LOADING))
      (f\<lparr>fcmh_bmaptree := (fcmh_bmaptree f)(n \<mapsto> fresh_bmap n BMAPF_WR)\<rparr>) s = Some (b, f', s', 0)"
    and "bcm_flags b AND BMAPF_MODECHNG = 0" "bcm_bmapno b = n"
  shows "bmap_get f n SL_WRITE s =
    Some (f'\<lparr>fcmh_bmaptree := (fcmh_bmaptree f')(n \<mapsto> loaded b)\<rparr>, s', 0, Some (loaded b))"
proof -
  have fr: "mds_bmap_init (bmap_zero n BMAPF_WR\<lparr>bcm_opcnt := 1\<rparr>) = fresh_bmap n BMAPF_WR"
    by (simp add: fresh_bmap_def)
  have fl: "bcm_flags (fresh_bmap n BMAPF_WR) = BMAPF_WR" "BMAPF_WR AND BMAPF_LOADING = 0" "BMAPF_WR AND BMAPF_LOADED = 0"
    "BMAPGETF_CREATE AND BMAPGETF_NONBLOCK = 0" "BMAPGETF_CREATE AND BMAPGETF_NORETRIEVE = 0" "BMAPF_WR \<noteq> 0"
    "BMAPGETF_CREATE AND BMAPGETF_CREATE \<noteq> 0"
    by (simp_all add: flag_vals fresh_bmap_def mds_bmap_init_def bmap_zero_def)
  have mc: "bcm_flags (loaded b) AND BMAPF_MODECHNG = 0"
    using assms(3) unfolding loaded_def BMAPF_MODECHNG_def flag_bit by (simp add: flag_bits)
  show ?thesis
    using assms(1,2) mc assms(4) fl
    unfolding bmap_getf_def bmap_lookup_cache_def Let_def option.case rw.case
    by (simp add: fr fresh_flags psc_assert_def bmap_get_loaded_def bmap_get_out_def Let_def loaded_def bmap_wake_locked_def)
qed

subsection \<open>Scheduled work of an earlier run\<close>

lemma requeue_tables: "tract_ok requeue_tract" "ret_ok (Some requeue_retifset)"
  "0 \<le> v \<Longrightarrow> v < 8 \<Longrightarrow> tr requeue_tract v = requeued v"
  "0 \<le> v \<Longrightarrow> v < 8 \<Longrightarrow> retv (Some requeue_retifset) v \<noteq> 0 \<longleftrightarrow> v \<in> {BREPLST_REPL_SCHED, BREPLST_GARBAGE_SCHED}"
  by (simp_all add: requeue_tract_def requeue_retifset_def tr_def retv_def requeued_def brepl_simps)

lemma resetnonce_eq:
  assumes "fcmh_ok f" "bmap_ok b" "bcm_flags b AND BMAPF_REPLMODWR = 0" "slm_opstate s = SLM_OPSTATE_NORMAL"
  obtains repls orepls where
    "slm_bmap_resetnonce b f s =
       (let c = b\<lparr>bmi_repls := repls, bmi_orepls := orepls\<rparr>; ch = sched_work (fcmh_2_nrepls f) (bmi_repls b)
        in Some (wr_mark ch c, if ch then wr_file c f else f, wr_queue ch c f s))"
    "repls_ok repls"
    "\<And>j. j < SL_MAX_REPLICAS \<Longrightarrow>
       brepl repls j = (if j < fcmh_2_nrepls f then requeued (brepl (bmi_repls b) j) else brepl (bmi_repls b) j)"
proof -
  let ?ks = "[0..<fcmh_2_nrepls f]" and ?ch = "sched_work (fcmh_2_nrepls f) (bmi_repls b)"
  have ok: "repls_ok (bmi_repls b)" using assms(2) by (simp add: bmap_ok_def)
  obtain repls orepls where w: "mds_repl_bmap_walk (fcmh_2_nrepls f) b (Some requeue_tract) (Some requeue_retifset) 0 []
      (pure_cb None) () = Some (b\<lparr>bmi_repls := repls, bmi_orepls := orepls\<rparr>,
        walk_rc (Some requeue_retifset) (bmi_repls b) ?ks 0, ())"
    "walked requeue_tract ?ks (bmi_repls b) repls"
    by (rule walk_translate [where iosidx = "[]" and flags = 0 and g = None and c = "()",
          OF ok requeue_tables(2,1) _ assms(3) _ _ fcmh_nr [OF assms(1)] refl]) (simp_all add: walk_list_def)
  let ?c = "b\<lparr>bmi_repls := repls, bmi_orepls := orepls\<rparr>"
  have rc: "walk_rc (Some requeue_retifset) (bmi_repls b) ?ks 0 \<noteq> 0 \<longleftrightarrow> ?ch"
    using requeue_tables(4) [OF brepl_range, of "bmi_repls b"] by (simp add: walk_rc_zero sched_work_def list_ex_iff)
  have "repls_ok repls" using w(2) by (simp add: walked_def)
  moreover from this have c: "bmap_ok ?c" using assms(2) by (simp add: bmap_ok_def)
  have "slm_bmap_resetnonce b f s = (let c = ?c; ch = ?ch in Some (wr_mark ch c, if ch then wr_file c f else f, wr_queue ch c f s))"
  proof (cases ?ch)
    case True
    then show ?thesis using rc write_eq [OF assms(1) c, of True s] assms(4)
      by (simp add: slm_bmap_resetnonce_def w(1) Let_def)
  next
    case False
    then show ?thesis using rc by (simp add: slm_bmap_resetnonce_def w(1) Let_def wr_mark_def wr_queue_def)
  qed
  moreover have "brepl repls j = (if j < fcmh_2_nrepls f then requeued (brepl (bmi_repls b) j) else brepl (bmi_repls b) j)"
    if "j < SL_MAX_REPLICAS" for j
    using w(2) that requeue_tables(3) [OF brepl_range, of "bmi_repls b"] by (simp add: walked_def)
  ultimately show thesis using that by blast
qed

lemma fresh_fields [simp]: "bcm_bmapno (fresh_bmap n x) = n" "bcm_flags (fresh_bmap n x) = x" "bcm_opcnt (fresh_bmap n x) = 1"
  "upd_flags (fresh_bmap n x) = 0" "bmap_ok (fresh_bmap n x)"
  by (simp_all add: fresh_bmap_def mds_bmap_init_def bmap_zero_def bmap_ok_def repls_ok_def)

lemma fresh_upd [simp]: "(fresh_bmap n x)\<lparr>upd_flags := 0\<rparr> = fresh_bmap n x"
  by (simp add: fresh_bmap_def mds_bmap_init_def bmap_zero_def)

lemma wr_load_flags: "(BMAPF_WR OR BMAPF_LOADING) AND BMAPF_MODECHNG = 0" "(BMAPF_WR OR BMAPF_LOADING) AND BMAPF_REPLMODWR = 0"
  "BMAPGETF_CREATE AND BMAPGETF_NODISKREAD = 0"
  by (simp_all add: flag_vals)

lemma loaded_fields [simp]: "bod_bytes (loaded b) = bod_bytes b" "bmi_repls (loaded b) = bmi_repls b" "bes_gen (loaded b) = bes_gen b"
  "bcm_bmapno (loaded b) = bcm_bmapno b" "bcm_opcnt (loaded b) = bcm_opcnt b" "bmap_ok (loaded b) = bmap_ok b"
  by (simp_all add: loaded_def bod_bytes_def bmap_ok_def)

lemma stored_cong: "bod_bytes b = bod_bytes c \<Longrightarrow> bcm_bmapno b = bcm_bmapno c \<Longrightarrow> bmap_stored b mf = bmap_stored c mf"
  by (simp add: bmap_stored_def bmap_rec_def bmap_foff_od_def)

lemma loaded_marked: "bcm_flags (loaded (wr_mark ch b)) AND BMAPF_REPLMODWR = 0 \<longleftrightarrow> \<not> ch \<and> bcm_flags b AND BMAPF_REPLMODWR = 0"
  unfolding loaded_def BMAPF_REPLMODWR_def flag_bit wr_mark_def by (simp add: flag_bits)

lemma marked_mode: "bcm_flags (wr_mark ch b) AND BMAPF_MODECHNG = 0 \<longleftrightarrow> bcm_flags b AND BMAPF_MODECHNG = 0"
  unfolding BMAPF_MODECHNG_def flag_bit wr_mark_def by (simp add: flag_bits)

lemma od_copy_fields [simp]: "bmi_crcstates (od_copy b c) = bmi_crcstates c" "bmi_crcs (od_copy b c) = bmi_crcs c"
  "bes_replpol (od_copy b c) = bes_replpol c"
  by (simp_all add: od_copy_def)

lemma loaded_od [simp]: "bmi_crcstates (loaded (wr_mark ch b)) = bmi_crcstates b" "bmi_crcs (loaded (wr_mark ch b)) = bmi_crcs b"
  "bes_replpol (loaded (wr_mark ch b)) = bes_replpol b" "bes_gen (loaded (wr_mark ch b)) = bes_gen b" "bmi_repls (loaded (wr_mark ch b)) = bmi_repls b"
  by (simp_all add: loaded_def wr_mark_def)

text \<open>
  Loading the record of \<open>c\<close>, whose generation is not that of the running server. The bmap \<open>d\<close> is what the record and
  the walk over its scheduled work give; it is written back when there is such work.
\<close>

lemma get_stale:
  assumes "fcmh_ok f" "bmap_ok c" "bmap_stored c (fcmh_mf f)" "fcmh_bmaptree f (bcm_bmapno c) = None"
    and "bes_gen c \<noteq> 0" "bes_gen c \<noteq> sl_sys_upnonce s" "slm_opstate s = SLM_OPSTATE_NORMAL"
  obtains d ch f' where "ch = sched_work (fcmh_2_nrepls f) (bmi_repls c)"
    "bmap_get f (bcm_bmapno c) SL_WRITE s = Some (f', wr_queue ch d f s, 0, Some (loaded (wr_mark ch d)))"
    "fcmh_mf f' = (if ch then fcmh_mf (wr_file d f) else fcmh_mf f)" "bmap_ok d" "bcm_bmapno d = bcm_bmapno c"
    "bcm_flags d AND BMAPF_REPLMODWR = 0" "bes_gen d = sl_sys_upnonce s" "bmi_crcstates d = bmi_crcstates c" "bmi_crcs d = bmi_crcs c"
    "bes_replpol d = bes_replpol c"
    "\<And>k. k < SL_MAX_REPLICAS \<Longrightarrow> brepl (bmi_repls d) k =
       (if k < fcmh_2_nrepls f then requeued (brepl (bmi_repls c) k) else brepl (bmi_repls c) k)"
proof -
  let ?n = "bcm_bmapno c" and ?ch = "sched_work (fcmh_2_nrepls f) (bmi_repls c)"
  let ?g = "f\<lparr>fcmh_bmaptree := (fcmh_bmaptree f)(?n \<mapsto> fresh_bmap ?n BMAPF_WR)\<rparr>"
  let ?c = "(od_copy (fresh_bmap ?n (BMAPF_WR OR BMAPF_LOADING)) c)\<lparr>bes_gen := sl_sys_upnonce s\<rparr>"
  have g: "fcmh_ok ?g" "bmap_stored c (fcmh_mf ?g)" using assms(1,3) by (simp_all add: fcmh_ok_def)
  have c: "bmap_ok ?c" "bcm_flags ?c AND BMAPF_REPLMODWR = 0" "bcm_flags ?c AND BMAPF_MODECHNG = 0" "bcm_bmapno ?c = ?n"
    "bmi_repls ?c = bmi_repls c"
    using assms(2) by (simp_all add: wr_load_flags) (simp_all add: bmap_ok_def od_copy_def)
  obtain repls orepls where re: "slm_bmap_resetnonce ?c ?g s =
      (let c = ?c\<lparr>bmi_repls := repls, bmi_orepls := orepls\<rparr>; ch = sched_work (fcmh_2_nrepls ?g) (bmi_repls ?c)
       in Some (wr_mark ch c, if ch then wr_file c ?g else ?g, wr_queue ch c ?g s))" "repls_ok repls"
    "\<And>j. j < SL_MAX_REPLICAS \<Longrightarrow>
       brepl repls j = (if j < fcmh_2_nrepls ?g then requeued (brepl (bmi_repls ?c) j) else brepl (bmi_repls ?c) j)"
    by (rule resetnonce_eq [OF g(1) c(1,2) assms(7)]) blast
  let ?d = "?c\<lparr>bmi_repls := repls, bmi_orepls := orepls\<rparr>"
  let ?h = "if ?ch then wr_file ?d ?g else ?g"
  have q: "wr_queue ?ch ?d ?g s = wr_queue ?ch ?d f s" by (simp add: wr_queue_def)
  have "mds_bmap_read BMAPGETF_CREATE (fresh_bmap ?n (BMAPF_WR OR BMAPF_LOADING)) ?g s = Some (wr_mark ?ch ?d, ?h, wr_queue ?ch ?d f s, 0)"
    using assms(6,7) re(1) q by (simp add: read_stored_eq [OF g(1) assms(2) g(2) _ _ assms(5)] wr_load_flags
        bmap_read_nonce_def Let_def)
  then have get: "bmap_get f ?n SL_WRITE s = Some (?h\<lparr>fcmh_bmaptree := (fcmh_bmaptree ?h)(?n \<mapsto> loaded (wr_mark ?ch ?d))\<rparr>,
      wr_queue ?ch ?d f s, 0, Some (loaded (wr_mark ?ch ?d)))"
    using assms(4) c(3,4) by (intro get_uncached) (simp_all add: marked_mode)
  have d: "bmap_ok ?d" using c(1) re(2) by (simp add: bmap_ok_def)
  show thesis by (rule that [OF refl get _ d]) (use re(3) c(2) in \<open>simp_all add: wr_file_def\<close>)
qed

subsection \<open>Properties\<close>

text \<open>
  C10. What \<^verbatim>\<open>mds_bmap_write\<close> writes is what a later \<^verbatim>\<open>bmap_get\<close> in the same run of the server loads once the bmap has
  left the cache, with the checksum accepted. The checksums, the states of the slivers and the policy are those
  written. If the generation written is that of the running server, so is the whole record. If it is
  another one, as the invalidation of replicas makes it, the generation is reset to that of the
  server and replication and reclamation that were scheduled come back as queued. The records of the other
  bmaps and the inode in the same metafile stay as they were.
\<close>

theorem bmap_roundtrip:
  assumes "fcmh_ok f" "bmap_ok b" "bes_gen b \<noteq> 0" "slm_opstate s = SLM_OPSTATE_NORMAL" "fcmh_bmaptree f (bcm_bmapno b) = None"
  shows "\<exists>b' f' s' f'' s'' c. mds_bmap_write logrepls b f s = Some (b', f', s', 0) \<and>
    bmap_get f' (bcm_bmapno b) SL_WRITE s' = Some (f'', s'', 0, Some c) \<and>
    bmi_crcstates c = bmi_crcstates b \<and> bmi_crcs c = bmi_crcs b \<and> bes_replpol c = bes_replpol b \<and> bes_gen c = sl_sys_upnonce s \<and>
    (bes_gen b = sl_sys_upnonce s \<longrightarrow> bod_bytes c = bod_bytes b \<and> bcm_opcnt c = 1 \<and> bcm_flags c = BMAPF_WR OR BMAPF_LOADED) \<and>
    (\<forall>k < SL_MAX_REPLICAS. brepl (bmi_repls c) k =
       (if bes_gen b \<noteq> sl_sys_upnonce s \<and> k < fcmh_2_nrepls f then requeued (brepl (bmi_repls b) k) else brepl (bmi_repls b) k)) \<and>
    (\<forall>d. bmap_stored d (fcmh_mf f) \<and> bcm_bmapno b \<noteq> bcm_bmapno d \<longrightarrow> bmap_stored d (fcmh_mf f'')) \<and>
    (\<forall>ih. stored ih (fcmh_mf f) \<longrightarrow> stored ih (fcmh_mf f''))"
proof -
  let ?n = "bcm_bmapno b" and ?f = "wr_file b f" and ?s = "wr_queue logrepls b f s"
  have w: "mds_bmap_write logrepls b f s = Some (wr_mark logrepls b, ?f, ?s, 0)" using write_eq [OF assms(1,2)] assms(4) by simp
  have s: "sl_sys_upnonce ?s = sl_sys_upnonce s" "slm_opstate ?s = SLM_OPSTATE_NORMAL" using assms(4) by (simp_all add: wr_queue_def)
  have f: "fcmh_ok ?f" "bmap_stored b (fcmh_mf ?f)" "fcmh_bmaptree ?f ?n = None" "fcmh_2_nrepls ?f = fcmh_2_nrepls f"
    using assms(1,5) wr_file_stored [OF assms(2), of f] by (simp_all add: fcmh_ok_def wr_file_def)
  note keep = wr_file_other [OF assms(2)] wr_file_inode
  show ?thesis
  proof (cases "bes_gen b = sl_sys_upnonce s")
    case True
    let ?g = "?f\<lparr>fcmh_bmaptree := (fcmh_bmaptree f)(?n \<mapsto> fresh_bmap ?n BMAPF_WR)\<rparr>"
    let ?c = "od_copy (fresh_bmap ?n (BMAPF_WR OR BMAPF_LOADING)) b"
    have g: "fcmh_ok ?g" "bmap_stored b (fcmh_mf ?g)" using f(1,2) by (simp_all add: fcmh_ok_def)
    have "mds_bmap_read BMAPGETF_CREATE (fresh_bmap ?n (BMAPF_WR OR BMAPF_LOADING)) ?g ?s = Some (?c, ?g, ?s, 0)"
      using assms(3) s(1) True by (simp add: read_stored_eq [OF g(1) assms(2) g(2)] wr_load_flags bmap_read_nonce_def)
    then have "bmap_get ?f ?n SL_WRITE ?s =
        Some (?g\<lparr>fcmh_bmaptree := (fcmh_bmaptree ?g)(?n \<mapsto> loaded ?c)\<rparr>, ?s, 0, Some (loaded ?c))"
      using f(3) by (intro get_uncached) (simp_all add: wr_load_flags)
    moreover have "bcm_flags (loaded ?c) = BMAPF_WR OR BMAPF_LOADED" by (simp add: loaded_def flag_vals)
    moreover have "bmi_crcstates (loaded ?c) = bmi_crcstates b" "bmi_crcs (loaded ?c) = bmi_crcs b" "bes_replpol (loaded ?c) = bes_replpol b"
      "bes_gen (loaded ?c) = bes_gen b" "bmi_repls (loaded ?c) = bmi_repls b" by (simp_all add: loaded_def od_copy_def)
    ultimately show ?thesis using w keep True
      by (intro exI [of _ "wr_mark logrepls b"] exI [of _ ?f] exI [of _ ?s]
          exI [of _ "?g\<lparr>fcmh_bmaptree := (fcmh_bmaptree ?g)(?n \<mapsto> loaded ?c)\<rparr>"] exI [of _ ?s] exI [of _ "loaded ?c"]) simp
  next
    case False
    obtain d ch f' where d: "bmap_get ?f ?n SL_WRITE ?s = Some (f', wr_queue ch d ?f ?s, 0, Some (loaded (wr_mark ch d)))"
      "fcmh_mf f' = (if ch then fcmh_mf (wr_file d ?f) else fcmh_mf ?f)" "bmap_ok d" "bcm_bmapno d = ?n" "bes_gen d = sl_sys_upnonce s"
      "bmi_crcstates d = bmi_crcstates b" "bmi_crcs d = bmi_crcs b" "bes_replpol d = bes_replpol b"
      "\<And>k. k < SL_MAX_REPLICAS \<Longrightarrow> brepl (bmi_repls d) k =
         (if k < fcmh_2_nrepls f then requeued (brepl (bmi_repls b) k) else brepl (bmi_repls b) k)"
      using get_stale [OF f(1) assms(2) f(2,3) assms(3) _ s(2)] False unfolding s(1) f(4) by metis
    have "bmap_stored e (fcmh_mf f')" if "bmap_stored e (fcmh_mf f)" "?n \<noteq> bcm_bmapno e" for e
      using keep(1) [OF that] wr_file_other [OF d(3), of e ?f] that(2) d(2,4) by simp
    moreover have "stored ih (fcmh_mf f')" if "stored ih (fcmh_mf f)" for ih
      using keep(2) [OF that, of b] wr_file_inode [of ih ?f d] d(2) by simp
    ultimately show ?thesis using w d False
      by (intro exI [of _ "wr_mark logrepls b"] exI [of _ ?f] exI [of _ ?s] exI [of _ f'] exI [of _ "wr_queue ch d ?f ?s"]
          exI [of _ "loaded (wr_mark ch d)"]) simp
  qed
qed

text \<open>
  C11. A bmap whose record an earlier run of the server wrote is loaded with replication and
  reclamation that were scheduled queued again. Every other state is kept, also that of a truncation that was
  scheduled. The generation becomes that of the running server, and the change is written back and
  handed to the database worker exactly when there was such replication or reclamation.
\<close>

theorem bmap_restart:
  assumes "fcmh_ok f" "bmap_ok c" "bmap_stored c (fcmh_mf f)" "fcmh_bmaptree f (bcm_bmapno c) = None"
    and "bes_gen c \<noteq> 0" "bes_gen c \<noteq> sl_sys_upnonce s" "slm_opstate s = SLM_OPSTATE_NORMAL"
  shows "\<exists>b f' s'. bmap_get f (bcm_bmapno c) SL_WRITE s = Some (f', s', 0, Some b) \<and>
    bes_gen b = sl_sys_upnonce s \<and>
    (\<forall>k < SL_MAX_REPLICAS. brepl (bmi_repls b) k =
       (if k < fcmh_2_nrepls f then requeued (brepl (bmi_repls c) k) else brepl (bmi_repls c) k)) \<and>
    (if sched_work (fcmh_2_nrepls f) (bmi_repls c)
     then bcm_flags b AND BMAPF_REPLMODWR \<noteq> 0 \<and> bmap_stored b (fcmh_mf f') \<and>
       slm_workq s' = slm_workq s @ [WK_wr_brepl (fcmh_fid f) (bcm_bmapno c)]
     else bcm_flags b AND BMAPF_REPLMODWR = 0 \<and> bmap_stored c (fcmh_mf f') \<and> s' = s)"
proof -
  obtain d ch f' where d: "ch = sched_work (fcmh_2_nrepls f) (bmi_repls c)"
    "bmap_get f (bcm_bmapno c) SL_WRITE s = Some (f', wr_queue ch d f s, 0, Some (loaded (wr_mark ch d)))"
    "fcmh_mf f' = (if ch then fcmh_mf (wr_file d f) else fcmh_mf f)" "bmap_ok d" "bcm_bmapno d = bcm_bmapno c"
    "bcm_flags d AND BMAPF_REPLMODWR = 0" "bes_gen d = sl_sys_upnonce s"
    "\<And>k. k < SL_MAX_REPLICAS \<Longrightarrow> brepl (bmi_repls d) k =
       (if k < fcmh_2_nrepls f then requeued (brepl (bmi_repls c) k) else brepl (bmi_repls c) k)"
    using get_stale [OF assms] by metis
  have st: "bmap_stored (loaded (wr_mark True d)) mf = bmap_stored d mf" for mf by (rule stored_cong) simp_all
  show ?thesis
    using d assms(3) wr_file_stored [OF d(4), of f]
    by (intro exI [of _ "loaded (wr_mark ch d)"] exI [of _ f'] exI [of _ "wr_queue ch d f s"])
      (simp add: loaded_marked st wr_queue_def)
qed

subsection \<open>Examples\<close>

lemma sample_fcmh_ok: "length t \<le> SL_MAX_REPLICAS \<Longrightarrow> fcmh_ok (sample_fcmh t)"
  "length t \<le> SL_MAX_REPLICAS \<Longrightarrow> fcmh_2_nrepls (sample_fcmh t) = length t"
  using sample_ok length_ios_table [of "sample_inoh t"]
  by (simp_all add: fcmh_ok_def sample_fcmh_def empty_mfile_def)

lemma sample_bmap_ok: "length r \<le> SL_REPLICA_NBYTES \<Longrightarrow> bmap_ok (sample_bmap r gen)" "bes_gen (sample_bmap r gen) = gen"
  "bcm_bmapno (sample_bmap r gen) = 0" "bcm_flags (sample_bmap r gen) = BMAPF_WR"
  using fresh_fields(5) [of 0 BMAPF_WR] by (simp_all add: sample_bmap_def bmap_ok_def repls_ok_def)

lemma sample_slm_fields: "sl_sys_upnonce sample_slm = 5" "slm_opstate sample_slm = SLM_OPSTATE_NORMAL"
  "slm_crc_check sample_slm" "slm_workq sample_slm = []" "upsch sample_slm = []"
  by (simp_all add: sample_slm_def)

lemma sample_sched: "brepl (bmi_repls (sample_bmap [3 + 8] 4)) 0 = BREPLST_VALID"
  "brepl (bmi_repls (sample_bmap [3 + 8] 4)) 1 = BREPLST_REPL_SCHED"
  by (simp_all add: sample_bmap_def brepl_def buf_bit_def breplst_defs)

text \<open>A generation that is not the server's (5), with work that is scheduled.\<close>

theorem bmap_roundtrip_witness:
  "\<exists>b' f' s' f'' s'' c. mds_bmap_write True (sample_bmap [3 + 8] 4) (sample_fcmh [10, 20]) sample_slm = Some (b', f', s', 0) \<and>
    bmap_get f' 0 SL_WRITE s' = Some (f'', s'', 0, Some c) \<and> bmi_crcs c = bmi_crcs (sample_bmap [3 + 8] 4) \<and> bes_gen c = 5 \<and>
    brepl (bmi_repls c) 0 = BREPLST_VALID \<and> brepl (bmi_repls c) 1 = BREPLST_REPL_QUEUED"
proof -
  let ?b = "sample_bmap [3 + 8] 4" and ?f = "sample_fcmh [10, 20]"
  have b: "bmap_ok ?b" "bes_gen ?b \<noteq> 0" "bcm_bmapno ?b = 0" "bes_gen ?b \<noteq> sl_sys_upnonce sample_slm"
    using sample_bmap_ok(1) [of "[3 + 8]" 4] by (simp_all add: bod_sizes sample_bmap_ok sample_slm_fields)
  have f: "fcmh_ok ?f" "fcmh_2_nrepls ?f = 2" "fcmh_bmaptree ?f (bcm_bmapno ?b) = None"
    using sample_fcmh_ok [of "[10, 20]"] by (simp_all add: SL_MAX_REPLICAS_def sample_fcmh_def)
  obtain b' f' s' f'' s'' c where c: "mds_bmap_write True ?b ?f sample_slm = Some (b', f', s', 0)"
    "bmap_get f' 0 SL_WRITE s' = Some (f'', s'', 0, Some c)" "bmi_crcs c = bmi_crcs ?b" "bes_gen c = sl_sys_upnonce sample_slm"
    "\<forall>k < SL_MAX_REPLICAS. brepl (bmi_repls c) k =
       (if bes_gen ?b \<noteq> sl_sys_upnonce sample_slm \<and> k < 2 then requeued (brepl (bmi_repls ?b) k) else brepl (bmi_repls ?b) k)"
    using bmap_roundtrip [OF f(1) b(1,2) sample_slm_fields(2) f(3), of True, unfolded f(2) b(3)] by (elim exE conjE) (rule that)
  have "brepl (bmi_repls c) 0 = BREPLST_VALID" "brepl (bmi_repls c) 1 = BREPLST_REPL_QUEUED"
    using c(5) [rule_format, of 0] c(5) [rule_format, of 1] sample_sched b(4)
    by (simp_all add: SL_MAX_REPLICAS_def requeued_def breplst_defs)
  then show ?thesis using c(1-4) sample_slm_fields(1) by metis
qed

theorem bmap_restart_witness:
  "\<exists>b f' s'. bmap_get (wr_file (sample_bmap [3 + 8] 4) (sample_fcmh [10, 20])) 0 SL_WRITE sample_slm = Some (f', s', 0, Some b) \<and>
     brepl (bmi_repls b) 0 = BREPLST_VALID \<and> brepl (bmi_repls b) 1 = BREPLST_REPL_QUEUED"
proof -
  let ?b = "sample_bmap [3 + 8] 4" and ?f = "sample_fcmh [10, 20]"
  have b: "bmap_ok ?b" by (rule sample_bmap_ok) (simp add: bod_sizes)
  have f: "fcmh_ok ?f" "fcmh_2_nrepls ?f = 2" using sample_fcmh_ok [of "[10, 20]"] by (simp_all add: SL_MAX_REPLICAS_def)
  have r: "brepl (bmi_repls ?b) 0 = BREPLST_VALID" "brepl (bmi_repls ?b) 1 = BREPLST_REPL_SCHED"
    by (simp_all add: sample_bmap_def brepl_def buf_bit_def breplst_defs)
  have p: "fcmh_ok (wr_file ?b ?f)" "fcmh_bmaptree (wr_file ?b ?f) (bcm_bmapno ?b) = None" "bes_gen ?b \<noteq> 0"
    "bes_gen ?b \<noteq> sl_sys_upnonce sample_slm" "fcmh_2_nrepls (wr_file ?b ?f) = 2" "bcm_bmapno ?b = 0"
    using f by (simp_all add: sample_bmap_ok sample_slm_fields sample_fcmh_def)
  obtain c f' s' where c: "bmap_get (wr_file ?b ?f) 0 SL_WRITE sample_slm = Some (f', s', 0, Some c)"
    "\<forall>k < SL_MAX_REPLICAS. brepl (bmi_repls c) k =
       (if k < 2 then requeued (brepl (bmi_repls ?b) k) else brepl (bmi_repls ?b) k)"
    using bmap_restart [OF p(1) b wr_file_stored [OF b, of ?f] p(2-4) sample_slm_fields(2), unfolded p(5,6)]
    by (elim exE conjE) (rule that)
  have "brepl (bmi_repls c) 0 = BREPLST_VALID" "brepl (bmi_repls c) 1 = BREPLST_REPL_QUEUED"
    using c(2) [rule_format, of 0] c(2) [rule_format, of 1] r
    by (simp_all add: SL_MAX_REPLICAS_def requeued_def breplst_defs)
  then show ?thesis using c(1) by blast
qed

end
