(* ===== verification/Repl.thy ===== *)
theory Repl
  imports Bmap_Mds
begin

text \<open>
  Replication requests (\<^verbatim>\<open>slashd/repl_mds.c\<close>): invalidation of the other replicas after a write,
  requests to add and to remove replicas of a range of bmaps, the bandwidth account of a pair of
  I/O systems, and the worker that turns the difference between the old and the new replica
  states of a bmap into rows of the table \<^verbatim>\<open>upsch\<close>. The table is the list of its rows; SQLite's
  \<^verbatim>\<open>UNIQUE\<close> constraint makes an insertion of a key that is present fail. The result of
  \<^verbatim>\<open>slm_fcmh_get\<close> is an argument of the request handlers.
\<close>

subsection \<open>Constants and the database\<close>

definition SIF_DISABLE_LEASE :: u32 where "SIF_DISABLE_LEASE = push_bit 1 1"
definition SIF_DISABLE_ADVLEASE :: u32 where "SIF_DISABLE_ADVLEASE = push_bit 2 1"
definition SIF_PRECLAIM_NOTSUP :: u32 where "SIF_PRECLAIM_NOTSUP = push_bit 6 1"
definition BRPOL_PERSIST :: u32 where "BRPOL_PERSIST = 1"
definition FLAG_REPLICA_STATE_DIRTY :: u32 where "FLAG_REPLICA_STATE_DIRTY = push_bit 0 1"
definition FLAG_REPLICA_STATE_INVALID :: u32 where "FLAG_REPLICA_STATE_INVALID = push_bit 1 1"
definition SLM_REPLRQ_NBMAPS_MAX :: nat where "SLM_REPLRQ_NBMAPS_MAX = 64"
definition BW_UNITSZ :: int where "BW_UNITSZ = 1024 * 1024"

definition ESRCH :: int where "ESRCH = 3"
definition PFLERR_NOTSUP :: int where "PFLERR_NOTSUP = 500 + 4"
definition PFLERR_WOULDBLOCK :: int where "PFLERR_WOULDBLOCK = 500 + 12"
definition SLERR_REPLICA_STATE_INVALID :: int where "SLERR_REPLICA_STATE_INVALID = 1000 + 3"
definition SLERR_LASTREPL :: int where "SLERR_LASTREPL = 1000 + 11"
definition SQLITE_CONSTRAINT :: int where "SQLITE_CONSTRAINT = 19"

definition up_key :: "upsch_row \<Rightarrow> u32 \<times> u64 \<times> u32" where
  "up_key r = (up_resid r, up_fid r, up_bno r)"

definition slm_null_iosinfo :: rpmi_ios where
  "slm_null_iosinfo = \<lparr>si_flags = SIF_PRECLAIM_NOTSUP, si_repl_ingress_pending = 0, si_repl_egress_pending = 0,
     si_repl_ingress_aggr = 0, si_repl_egress_aggr = 0\<rparr>"

definition fcmh_2_repl :: "nat \<Rightarrow> fcmh \<Rightarrow> slm \<Rightarrow> (u32 \<times> fcmh) option" where
  "fcmh_2_repl idx f s =
     (if idx < SL_DEF_REPLICAS then do { r \<leftarrow> rd (ino_repls (inoh_ino (fcmh_inoh f))) idx; Some (r, f) }
      else do {
        (ih, mf, _) \<leftarrow> mds_inox_ensure_loaded (slm_crc_check s) (fcmh_fid f) (fcmh_inoh f) (fcmh_mf f);
        ix \<leftarrow> inoh_extras ih;
        r \<leftarrow> rd (inox_repls ix) (idx - SL_DEF_REPLICAS);
        Some (r, f\<lparr>fcmh_inoh := ih, fcmh_mf := mf\<rparr>)
      })"

definition upsch_enqueue :: "bmap \<Rightarrow> fcmh \<Rightarrow> slm \<Rightarrow> bmap \<times> slm" where
  "upsch_enqueue b f s =
     (if upd_flags b AND UPDF_LIST = 0
      then (b\<lparr>upd_flags := upd_flags b OR UPDF_LIST, bcm_opcnt := bcm_opcnt b + 1\<rparr>,
        s\<lparr>slm_upsch_queue := slm_upsch_queue s @ [(fcmh_fid f, bcm_bmapno b)]\<rparr>)
      else (b, s))"

definition slm_upsch_insert :: "sl_config \<Rightarrow> bmap \<Rightarrow> fcmh \<Rightarrow> u32 \<Rightarrow> int \<Rightarrow> int \<Rightarrow> slm \<Rightarrow> slm \<times> int" where
  "slm_upsch_insert cfg b f resid sys_prio usr_prio s =
     (if cfg resid = None then (s, ESRCH)
      else if (resid, fcmh_fid f, bcm_bmapno b) \<in> up_key ` set (upsch s) then (s, SQLITE_CONSTRAINT)
      else (s\<lparr>upsch := upsch s @ [\<lparr>up_resid = resid, up_fid = fcmh_fid f, up_bno = bcm_bmapno b, up_uid = sst_uid f,
              up_gid = sst_gid f, up_status = Status_Q, up_sys_prio = sys_prio, up_usr_prio = usr_prio,
              up_nonce = sl_sys_upnonce s\<rparr>],
            slm_workq := slm_workq s @ [WK_upd_pagein (fcmh_fid f) (bcm_bmapno b)]\<rparr>, 0))"

definition upsch_delete :: "u32 \<times> u64 \<times> u32 \<Rightarrow> slm \<Rightarrow> slm" where
  "upsch_delete key s = s\<lparr>upsch := [r \<leftarrow> upsch s. up_key r \<noteq> key]\<rparr>"

definition upsch_update :: "u32 \<times> u64 \<times> u32 \<Rightarrow> upsch_status option \<Rightarrow> int \<Rightarrow> int \<Rightarrow> slm \<Rightarrow> slm" where
  "upsch_update key st sprio uprio s =
     s\<lparr>upsch := map (\<lambda>r. if up_key r = key
        then r\<lparr>up_status := case st of None \<Rightarrow> up_status r | Some x \<Rightarrow> x,
               up_sys_prio := if sprio = -1 then up_sys_prio r else sprio,
               up_usr_prio := if uprio = -1 then up_usr_prio r else uprio\<rparr>
        else r) (upsch s)\<rparr>"

subsection \<open>The database worker\<close>

text \<open>What the change of one replica's state means for the table.\<close>

datatype upd_act = Upd_none | Upd_add | Upd_del | Upd_chg "upsch_status option"

definition upd_act_of :: "u32 \<Rightarrow> int \<Rightarrow> int \<Rightarrow> int \<Rightarrow> int \<Rightarrow> upd_act" where
  "upd_act_of flags sprio uprio vold vnew =
     (if vold = vnew then Upd_none
      else if vold \<noteq> BREPLST_REPL_SCHED \<and> vold \<noteq> BREPLST_GARBAGE_QUEUED \<and> vold \<noteq> BREPLST_GARBAGE_SCHED \<and>
                vnew = BREPLST_REPL_QUEUED \<or>
              vold \<noteq> BREPLST_GARBAGE_SCHED \<and> vnew = BREPLST_GARBAGE_QUEUED \<and> flags AND SIF_PRECLAIM_NOTSUP = 0
        then Upd_add
      else if (vold = BREPLST_REPL_QUEUED \<or> vold = BREPLST_REPL_SCHED \<or> vold = BREPLST_TRUNC_SCHED \<or>
               vold = BREPLST_TRUNC_QUEUED \<or> vold = BREPLST_GARBAGE_SCHED \<or> vold = BREPLST_VALID) \<and>
              (flags AND SIF_PRECLAIM_NOTSUP \<noteq> 0 \<and> vnew = BREPLST_GARBAGE_QUEUED \<or>
               vnew = BREPLST_VALID \<or> vnew = BREPLST_INVALID)
        then Upd_del
      else if vold = BREPLST_REPL_SCHED \<or> vold = BREPLST_GARBAGE_SCHED \<or> vold = BREPLST_TRUNC_SCHED
        then Upd_chg (Some Status_Q)
      else if vnew = BREPLST_REPL_SCHED \<or> vnew = BREPLST_GARBAGE_SCHED \<or> vnew = BREPLST_TRUNC_SCHED
        then Upd_chg (Some Status_S)
      else if sprio \<noteq> -1 \<or> uprio \<noteq> -1 then Upd_chg None
      else Upd_none)"

text \<open>The first loop, over the replicas from \<open>n\<close> on: the actions with the resource they are for.\<close>

fun upd_write_loop :: "sl_config \<Rightarrow> bmap \<Rightarrow> slm \<Rightarrow> nat list \<Rightarrow> fcmh \<Rightarrow> ((u32 \<times> upd_act) list \<times> fcmh) option" where
  "upd_write_loop cfg b s [] f = Some ([], f)"
| "upd_write_loop cfg b s (n # ns) f =
     do {
       f \<leftarrow> (if n = SL_DEF_REPLICAS then do {
               (ih, mf, _) \<leftarrow> mds_inox_ensure_loaded (slm_crc_check s) (fcmh_fid f) (fcmh_inoh f) (fcmh_mf f);
               Some (f\<lparr>fcmh_inoh := ih, fcmh_mf := mf\<rparr>)
             } else Some f);
       (resid, f) \<leftarrow> fcmh_2_repl n f s;
       vold \<leftarrow> SL_REPL_GET_BMAP_IOS_STAT (bmi_orepls b) (n * SL_BITS_PER_REPLICA);
       vnew \<leftarrow> SL_REPL_GET_BMAP_IOS_STAT (bmi_repls b) (n * SL_BITS_PER_REPLICA);
       let si = (case cfg resid of None \<Rightarrow> slm_null_iosinfo | Some r \<Rightarrow> iosinfo s (res_id r));
       (acts, f) \<leftarrow> upd_write_loop cfg b s ns f;
       Some ((resid, upd_act_of (si_flags si) (bmi_sys_prio b) (bmi_usr_prio b) vold vnew) # acts, f)
     }"

definition upd_adds :: "(u32 \<times> upd_act) list \<Rightarrow> u32 list" where
  "upd_adds acts = [r. (r, a) \<leftarrow> acts, a = Upd_add]"

definition upd_dels :: "(u32 \<times> upd_act) list \<Rightarrow> u32 list" where
  "upd_dels acts = [r. (r, a) \<leftarrow> acts, a = Upd_del]"

definition upd_chgs :: "(u32 \<times> upd_act) list \<Rightarrow> (u32 \<times> upsch_status option) list" where
  "upd_chgs acts = concat (map (\<lambda>(r, a). case a of Upd_chg st \<Rightarrow> [(r, st)] | _ \<Rightarrow> []) acts)"

text \<open>With \<open>rel\<close> the reference of the worker is dropped, so no bmap is returned.\<close>

definition slm_repl_upd_write :: "sl_config \<Rightarrow> bmap \<Rightarrow> bool \<Rightarrow> fcmh \<Rightarrow> slm \<Rightarrow> (bmap option \<times> fcmh \<times> slm) option" where
  "slm_repl_upd_write cfg b rel f s =
     do {
       let sprio = bmi_sys_prio b;
       let uprio = bmi_usr_prio b;
       (acts, f) \<leftarrow> upd_write_loop cfg b s [0..<fcmh_2_nrepls f] f;
       let s = fold (\<lambda>r s. fst (slm_upsch_insert cfg b f r sprio uprio s)) (upd_adds acts) s;
       let s = fold (\<lambda>r. upsch_delete (r, fcmh_fid f, bcm_bmapno b)) (upd_dels acts) s;
       let s = fold (\<lambda>(r, st). upsch_update (r, fcmh_fid f, bcm_bmapno b) st sprio uprio) (upd_chgs acts) s;
       let b = b\<lparr>bmi_sys_prio := -1, bmi_usr_prio := -1\<rparr>;
       if rel then do {
         f \<leftarrow> bmap_op_done (bmap_wake_locked (b\<lparr>bcm_flags := bcm_flags b AND NOT BMAPF_REPLMODWR\<rparr>)) f;
         Some (None, f, s)
       } else Some (Some b, f, s)
     }"

text \<open>The work item that a logged write of a bmap queues.\<close>

definition slm_wkcb_wr_brepl :: "sl_config \<Rightarrow> u32 \<Rightarrow> fcmh \<Rightarrow> slm \<Rightarrow> (fcmh \<times> slm) option" where
  "slm_wkcb_wr_brepl cfg bno f s =
     do {
       b \<leftarrow> fcmh_bmaptree f bno;
       (_, f, s) \<leftarrow> slm_repl_upd_write cfg b True f s;
       Some (f, s)
     }"

subsection \<open>Invalidation\<close>

definition inv_active_tract :: "int list" where
  "inv_active_tract = (brepls_init (-1))[nat BREPLST_INVALID := BREPLST_VALID,
     nat BREPLST_GARBAGE_SCHED := BREPLST_VALID, nat BREPLST_GARBAGE_QUEUED := BREPLST_VALID]"

definition inv_active_retifset :: "int list" where
  "inv_active_retifset = brepls_init_idx[nat BREPLST_INVALID := 0, nat BREPLST_VALID := 0]"

definition inv_others_tract :: "u32 \<Rightarrow> int list" where
  "inv_others_tract policy = (brepls_init (-1))
     [nat BREPLST_VALID := if policy = BRPOL_PERSIST then BREPLST_REPL_QUEUED else BREPLST_GARBAGE_QUEUED,
      nat BREPLST_REPL_SCHED := BREPLST_REPL_QUEUED]"

definition inv_others_retifset :: "int list" where
  "inv_others_retifset = (brepls_init 0)[nat BREPLST_VALID := 1, nat BREPLST_REPL_SCHED := 1]"

definition mds_repl_inv_except :: "nat \<Rightarrow> bmap \<Rightarrow> fcmh \<Rightarrow> slm \<Rightarrow> (bmap \<times> fcmh \<times> slm \<times> int) option" where
  "mds_repl_inv_except iosidx b f s =
     do {
       (b, _, _) \<leftarrow> mds_repl_bmap_walk (fcmh_2_nrepls f) b (Some inv_active_tract) (Some inv_active_retifset) 0
         [iosidx] no_cb ();
       let policy = bes_replpol b;
       (b, rc, _) \<leftarrow> mds_repl_bmap_walk (fcmh_2_nrepls f) b (Some (inv_others_tract policy)) (Some inv_others_retifset)
         REPL_WALKF_MODOTH [iosidx] no_cb ();
       let logit = (rc \<noteq> 0);
       let b = (if logit then b\<lparr>bes_gen := bes_gen b + 1\<rparr> else b);
       (b, f, s, rc) \<leftarrow> mds_bmap_write logit b f s;
       let (b, s) = (if policy = BRPOL_PERSIST then upsch_enqueue b f s else (b, s));
       Some (b, f, s, rc)
     }"

subsection \<open>Requests to replicate\<close>

definition addrq_flags :: "int \<Rightarrow> u32 \<Rightarrow> u32" where
  "addrq_flags val flags =
     (if val \<in> {BREPLST_GARBAGE_QUEUED, BREPLST_GARBAGE_SCHED, BREPLST_INVALID} then flags OR FLAG_REPLICA_STATE_DIRTY
      else if val \<in> {BREPLST_TRUNC_QUEUED, BREPLST_TRUNC_SCHED} then flags OR FLAG_REPLICA_STATE_INVALID
      else flags)"

definition slm_repl_addrq_cb :: "u32 walkcb option" where
  "slm_repl_addrq_cb = pure_cb (Some (\<lambda>_. addrq_flags))"

definition ret_hasvalid :: "int list" where
  "ret_hasvalid = (brepls_init 0)[nat BREPLST_VALID := 1]"

definition addrq_tract :: "int list" where
  "addrq_tract = (brepls_init (-1))[nat BREPLST_INVALID := BREPLST_REPL_QUEUED,
     nat BREPLST_GARBAGE_SCHED := BREPLST_REPL_QUEUED, nat BREPLST_GARBAGE_QUEUED := BREPLST_REPL_QUEUED]"

text \<open>
  What the request does to one bmap, with the bmap held. The return value is zero, or the code
  with which the loop of \<^verbatim>\<open>mds_repl_addrq\<close> is left.
\<close>

definition addrq_one ::
  "sl_config \<Rightarrow> nat list \<Rightarrow> int \<Rightarrow> int \<Rightarrow> bmap \<Rightarrow> fcmh \<Rightarrow> slm \<Rightarrow> (bmap \<times> fcmh \<times> slm \<times> int) option" where
  "addrq_one cfg iosidx sys_prio usr_prio b f s =
     do {
       (b, has, _) \<leftarrow> mds_repl_bmap_walk (fcmh_2_nrepls f) b None (Some ret_hasvalid) REPL_WALKF_SCIRCUIT [] no_cb ();
       if has = 0 then Some (b, f, s, 0)
       else do {
         (b, _, flags) \<leftarrow> mds_repl_bmap_walk (fcmh_2_nrepls f) b (Some addrq_tract) None 0 iosidx slm_repl_addrq_cb 0;
         let b = b\<lparr>bmi_sys_prio := sys_prio, bmi_usr_prio := usr_prio\<rparr>;
         (b, f, s) \<leftarrow>
           (if flags AND FLAG_REPLICA_STATE_DIRTY \<noteq> 0 then do {
              (b, f, s, _) \<leftarrow> mds_bmap_write_logrepls b f s;
              Some (b, f, s)
            } else if sys_prio \<noteq> -1 \<or> usr_prio \<noteq> -1 then do {
              (bo, f, s) \<leftarrow> slm_repl_upd_write cfg b False f s;
              b \<leftarrow> bo;
              Some (b, f, s)
            } else Some (b, f, s));
         Some (b, f, s, if flags AND FLAG_REPLICA_STATE_INVALID \<noteq> 0 then - SLERR_REPLICA_STATE_INVALID else 0)
       }
     }"

definition addrq_bmap ::
  "sl_config \<Rightarrow> nat list \<Rightarrow> int \<Rightarrow> int \<Rightarrow> u32 \<Rightarrow> fcmh \<Rightarrow> slm \<Rightarrow> (fcmh \<times> slm \<times> int) option" where
  "addrq_bmap cfg iosidx sys_prio usr_prio bmapno f s =
     do {
       (f, s, rc, bo) \<leftarrow> bmap_get f bmapno SL_WRITE s;
       case bo of
         None \<Rightarrow> Some (f, s, - rc)
       | Some b \<Rightarrow> do {
           (b, f, s, rc) \<leftarrow> addrq_one cfg iosidx sys_prio usr_prio b f s;
           f \<leftarrow> bmap_op_done b f;
           Some (f, s, rc)
         }
     }"

fun addrq_loop ::
  "sl_config \<Rightarrow> nat list \<Rightarrow> int \<Rightarrow> int \<Rightarrow> nat \<Rightarrow> u32 \<Rightarrow> nat \<Rightarrow> int \<Rightarrow> fcmh \<Rightarrow> slm \<Rightarrow>
     (fcmh \<times> slm \<times> int \<times> nat) option" where
  "addrq_loop cfg iosidx sys_prio usr_prio 0 bmapno np rc f s = Some (f, s, rc, np)"
| "addrq_loop cfg iosidx sys_prio usr_prio (Suc n) bmapno np rc f s =
     (if fcmh_nvalidbmaps f \<le> unat bmapno then Some (f, s, rc, np)
      else if SLM_REPLRQ_NBMAPS_MAX \<le> np then Some (f, s, - PFLERR_WOULDBLOCK, np)
      else do {
        (f, s, rc) \<leftarrow> addrq_bmap cfg iosidx sys_prio usr_prio bmapno f s;
        if rc \<noteq> 0 then Some (f, s, rc, np)
        else addrq_loop cfg iosidx sys_prio usr_prio n (bmapno + 1) (Suc np) 0 f s
      })"

definition mds_repl_addrq ::
  "sl_config \<Rightarrow> int \<Rightarrow> u32 \<Rightarrow> u32 \<Rightarrow> u32 list \<Rightarrow> int \<Rightarrow> int \<Rightarrow> fcmh \<Rightarrow> slm \<Rightarrow> (fcmh \<times> slm \<times> int \<times> nat) option" where
  "mds_repl_addrq cfg get_rc bmapno nbmaps iosv sys_prio usr_prio f s =
     (if length iosv < 1 \<or> SL_MAX_REPLICAS < length iosv \<or> nbmaps = 0 then Some (f, s, - EINVAL, unat nbmaps)
      else if get_rc \<noteq> 0 then Some (f, s, - get_rc, unat nbmaps)
      else if \<not> fcmh_isdir f \<and> \<not> fcmh_isreg f then Some (f, s, - PFLERR_NOTSUP, 0)
      else do {
        (ih, mf, rc, iosidx) \<leftarrow> mds_repl_iosv_lookup cfg (slm_crc_check s) (fcmh_fid f) IOSV_LOOKUPF_ADD iosv
          (fcmh_inoh f) (fcmh_mf f);
        let f = f\<lparr>fcmh_inoh := ih, fcmh_mf := mf\<rparr>;
        if rc \<noteq> 0 then Some (f, s, - rc, 0)
        else if fcmh_isdir f then Some (f, s, 0, 0)
        else addrq_loop cfg iosidx sys_prio usr_prio (unat nbmaps) bmapno 0
          (if nbmaps \<noteq> -1 then - SLERR_BMAP_INVALID else 0) f s
      })"

subsection \<open>Requests to remove replicas\<close>

text \<open>The callback that counts the valid replicas which the request leaves on known I/O systems.\<close>

definition slm_repl_countvalid_cb :: "sl_config \<Rightarrow> bool \<Rightarrow> u64 \<Rightarrow> nat list \<Rightarrow> (int \<times> slm_inoh \<times> mfile) walkcb" where
  "slm_repl_countvalid_cb cfg chk fid idx b iosidx val t =
     (if val \<noteq> BREPLST_VALID then Some t
      else if iosidx \<in> set idx then Some t
      else
        let (n, ih, mf) = t in
        if iosidx < SL_DEF_REPLICAS then do {
          r \<leftarrow> rd (ino_repls (inoh_ino ih)) iosidx;
          Some (if cfg r \<noteq> None then n + 1 else n, ih, mf)
        } else do {
          (ih, mf, rc) \<leftarrow> mds_inox_ensure_loaded chk fid ih mf;
          if rc \<noteq> 0 then Some (n, ih, mf)
          else do {
            ix \<leftarrow> inoh_extras ih;
            r \<leftarrow> rd (inox_repls ix) (iosidx - SL_DEF_REPLICAS);
            Some (if cfg r \<noteq> None then n + 1 else n, ih, mf)
          }
        })"

definition delrq_flags :: "int \<Rightarrow> u32 \<Rightarrow> u32" where
  "delrq_flags val flags =
     (if val \<in> {BREPLST_REPL_QUEUED, BREPLST_REPL_SCHED, BREPLST_TRUNC_QUEUED, BREPLST_TRUNC_SCHED,
        BREPLST_GARBAGE_SCHED, BREPLST_VALID} then flags OR FLAG_REPLICA_STATE_DIRTY
      else flags)"

definition slm_repl_delrq_cb :: "u32 walkcb option" where
  "slm_repl_delrq_cb = pure_cb (Some (\<lambda>_. delrq_flags))"

definition delrq_tract :: "int list" where
  "delrq_tract = (brepls_init (-1))[nat BREPLST_REPL_QUEUED := BREPLST_GARBAGE_QUEUED,
     nat BREPLST_REPL_SCHED := BREPLST_GARBAGE_QUEUED, nat BREPLST_TRUNC_QUEUED := BREPLST_GARBAGE_QUEUED,
     nat BREPLST_TRUNC_SCHED := BREPLST_GARBAGE_QUEUED, nat BREPLST_GARBAGE_SCHED := BREPLST_GARBAGE_QUEUED,
     nat BREPLST_VALID := BREPLST_GARBAGE_QUEUED]"

definition delrq_one :: "sl_config \<Rightarrow> nat list \<Rightarrow> bmap \<Rightarrow> fcmh \<Rightarrow> slm \<Rightarrow> (bmap \<times> fcmh \<times> slm \<times> int) option" where
  "delrq_one cfg iosidx b f s =
     do {
       (b, _, (n, ih, mf)) \<leftarrow> mds_repl_bmap_walk (fcmh_2_nrepls f) b None None 0 []
         (Some (slm_repl_countvalid_cb cfg (slm_crc_check s) (fcmh_fid f) iosidx)) (0, fcmh_inoh f, fcmh_mf f);
       let f = f\<lparr>fcmh_inoh := ih, fcmh_mf := mf\<rparr>;
       if n = 0 then Some (b, f, s, - SLERR_LASTREPL)
       else do {
         (b, rc, flags) \<leftarrow> mds_repl_bmap_walk (fcmh_2_nrepls f) b (Some delrq_tract) None 0 iosidx slm_repl_delrq_cb 0;
         psc_assert (rc = 0);
         if flags AND FLAG_REPLICA_STATE_DIRTY \<noteq> 0 then mds_bmap_write_logrepls b f s else Some (b, f, s, 0)
       }
     }"

definition delrq_bmap :: "sl_config \<Rightarrow> nat list \<Rightarrow> u32 \<Rightarrow> fcmh \<Rightarrow> slm \<Rightarrow> (fcmh \<times> slm \<times> int) option" where
  "delrq_bmap cfg iosidx bmapno f s =
     do {
       (f, s, rc, bo) \<leftarrow> bmap_get f bmapno SL_WRITE s;
       case bo of
         None \<Rightarrow> Some (f, s, - rc)
       | Some b \<Rightarrow> do {
           (b, f, s, rc) \<leftarrow> delrq_one cfg iosidx b f s;
           f \<leftarrow> bmap_op_done b f;
           Some (f, s, rc)
         }
     }"

fun delrq_loop :: "sl_config \<Rightarrow> nat list \<Rightarrow> nat \<Rightarrow> nat \<Rightarrow> u32 \<Rightarrow> nat \<Rightarrow> int \<Rightarrow> fcmh \<Rightarrow> slm \<Rightarrow> (fcmh \<times> slm \<times> int \<times> nat) option" where
  "delrq_loop cfg iosidx nvalid 0 bmapno np rc f s = Some (f, s, rc, np)"
| "delrq_loop cfg iosidx nvalid (Suc n) bmapno np rc f s =
     (if nvalid \<le> unat bmapno then Some (f, s, rc, np)
      else if SLM_REPLRQ_NBMAPS_MAX \<le> np then Some (f, s, - PFLERR_WOULDBLOCK, np)
      else do {
        (f, s, rc) \<leftarrow> delrq_bmap cfg iosidx bmapno f s;
        if rc \<noteq> 0 then Some (f, s, rc, np)
        else delrq_loop cfg iosidx nvalid n (bmapno + 1) (Suc np) 0 f s
      })"

definition mds_repl_delrq ::
  "sl_config \<Rightarrow> int \<Rightarrow> u32 \<Rightarrow> u32 \<Rightarrow> u32 list \<Rightarrow> fcmh \<Rightarrow> slm \<Rightarrow> (fcmh \<times> slm \<times> int \<times> nat) option" where
  "mds_repl_delrq cfg get_rc bmapno nbmaps iosv f s =
     (if length iosv < 1 \<or> SL_MAX_REPLICAS < length iosv \<or> nbmaps = 0 then Some (f, s, - EINVAL, unat nbmaps)
      else if get_rc \<noteq> 0 then Some (f, s, - get_rc, unat nbmaps)
      else do {
        (ih, mf, rc, iosidx) \<leftarrow> mds_repl_iosv_lookup cfg (slm_crc_check s) (fcmh_fid f)
          (if fcmh_isdir f then IOSV_LOOKUPF_DEL else IOSV_LOOKUPF_LOOKUP) iosv (fcmh_inoh f) (fcmh_mf f);
        let f = f\<lparr>fcmh_inoh := ih, fcmh_mf := mf\<rparr>;
        if fcmh_isdir f \<or> rc \<noteq> 0 then Some (f, s, - rc, 0)
        else delrq_loop cfg iosidx (fcmh_nvalidbmaps f) (unat nbmaps) bmapno 0
          (if nbmaps \<noteq> -1 then - SLERR_BMAP_INVALID else 0) f s
      })"

subsection \<open>Bandwidth\<close>

definition resmpair_bw_adj :: "u32 \<Rightarrow> u32 \<Rightarrow> int \<Rightarrow> int \<Rightarrow> slm \<Rightarrow> (slm \<times> int) option" where
  "resmpair_bw_adj src dst amt rc s =
     do {
       let info = iosinfo s;
       let cap = slm_upsch_bandwidth s;
       psc_assert (amt \<noteq> 0);
       if 0 < amt then
         let src_total = si_repl_ingress_pending (info src) + si_repl_egress_pending (info src) + amt;
             dst_total = si_repl_ingress_pending (info src) + si_repl_egress_pending (info src) + amt
         in if cap \<noteq> 0 \<and> (src_total > cap * BW_UNITSZ \<or> dst_total > cap * BW_UNITSZ) then Some (s, 0)
            else
              let info = info(src := (info src)\<lparr>si_repl_egress_pending := si_repl_egress_pending (info src) + amt\<rparr>);
                  info = info(dst := (info dst)\<lparr>si_repl_ingress_pending := si_repl_ingress_pending (info dst) + amt\<rparr>)
              in Some (s\<lparr>iosinfo := info\<rparr>, 1)
       else do {
         let info = info(src := (info src)\<lparr>si_repl_egress_pending := si_repl_egress_pending (info src) + amt\<rparr>);
         let info = info(dst := (info dst)\<lparr>si_repl_ingress_pending := si_repl_ingress_pending (info dst) + amt\<rparr>);
         psc_assert (si_repl_egress_pending (info src) \<ge> 0);
         psc_assert (si_repl_ingress_pending (info dst) \<ge> 0);
         let info = (if rc = 0 then
             let info = info(src := (info src)\<lparr>si_repl_egress_aggr := si_repl_egress_aggr (info src) - amt\<rparr>)
             in info(dst := (info dst)\<lparr>si_repl_ingress_aggr := si_repl_ingress_aggr (info dst) - amt\<rparr>)
           else info);
         Some (s\<lparr>iosinfo := info\<rparr>, 1)
       }
     }"

text \<open>What the tables do to a state.\<close>

definition activated :: "int \<Rightarrow> int" where
  "activated v = (if v \<in> {BREPLST_INVALID, BREPLST_GARBAGE_SCHED, BREPLST_GARBAGE_QUEUED} then BREPLST_VALID else v)"

definition outdated :: "u32 \<Rightarrow> int \<Rightarrow> int" where
  "outdated policy v =
     (if v = BREPLST_VALID then if policy = BRPOL_PERSIST then BREPLST_REPL_QUEUED else BREPLST_GARBAGE_QUEUED
      else if v = BREPLST_REPL_SCHED then BREPLST_REPL_QUEUED else v)"

definition requested :: "int \<Rightarrow> int" where
  "requested v = (if v \<in> {BREPLST_INVALID, BREPLST_GARBAGE_SCHED, BREPLST_GARBAGE_QUEUED} then BREPLST_REPL_QUEUED else v)"

definition dropped :: "int \<Rightarrow> int" where
  "dropped v = (if v = BREPLST_INVALID then v else BREPLST_GARBAGE_QUEUED)"

definition outdates :: "nat \<Rightarrow> nat \<Rightarrow> u8 list \<Rightarrow> bool" where
  "outdates nr iosidx bs \<longleftrightarrow>
     list_ex (\<lambda>k. k \<noteq> iosidx \<and> brepl bs k \<in> {BREPLST_VALID, BREPLST_REPL_SCHED}) [0..<nr]"

definition last_other :: "nat \<Rightarrow> nat \<Rightarrow> nat" where
  "last_other nr iosidx = last [k \<leftarrow> [0..<nr]. k \<noteq> iosidx]"

text \<open>A bmap that is cached, loaded and free of waits.\<close>

definition cached :: "fcmh \<Rightarrow> u32 \<Rightarrow> bmap \<Rightarrow> bool" where
  "cached f n b \<longleftrightarrow> fcmh_bmaptree f n = Some b \<and> bcm_bmapno b = n \<and> bmap_ok b \<and> repls_ok (bmi_orepls b) \<and> 0 < bcm_opcnt b \<and>
     bcm_flags b AND BMAPF_LOADED \<noteq> 0 \<and> bcm_flags b AND BMAPF_LOADING = 0 \<and> bcm_flags b AND BMAPF_TOFREE = 0 \<and>
     bcm_flags b AND BMAPF_DISCARD = 0 \<and> bcm_flags b AND BMAPF_MODECHNG = 0 \<and> bcm_flags b AND BMAPF_REPLMODWR = 0"

definition known_valid :: "sl_config \<Rightarrow> fcmh \<Rightarrow> u8 list \<Rightarrow> nat list \<Rightarrow> bool" where
  "known_valid cfg f bs iosidx \<longleftrightarrow> list_ex (\<lambda>k. k \<notin> set iosidx \<and> brepl bs k = BREPLST_VALID \<and>
     cfg (ios_table (fcmh_inoh f) ! k) \<noteq> None) [0..<fcmh_2_nrepls f]"

text \<open>The actions of the worker, from the table of the file.\<close>

definition si_of :: "sl_config \<Rightarrow> slm \<Rightarrow> u32 \<Rightarrow> rpmi_ios" where
  "si_of cfg s resid = (case cfg resid of None \<Rightarrow> slm_null_iosinfo | Some r \<Rightarrow> iosinfo s (res_id r))"

definition upd_acts :: "sl_config \<Rightarrow> bmap \<Rightarrow> slm \<Rightarrow> fcmh \<Rightarrow> nat \<Rightarrow> u32 \<times> upd_act" where
  "upd_acts cfg b s f n = (let r = ios_table (fcmh_inoh f) ! n in
     (r, upd_act_of (si_flags (si_of cfg s r)) (bmi_sys_prio b) (bmi_usr_prio b)
       (brepl (bmi_orepls b) n) (brepl (bmi_repls b) n)))"

text \<open>A bmap after the worker has let it go.\<close>

definition released :: "bmap \<Rightarrow> bmap" where
  "released b = b\<lparr>bmi_sys_prio := -1, bmi_usr_prio := -1, bcm_opcnt := bcm_opcnt b - 1,
     bcm_flags := (bcm_flags b AND NOT BMAPF_REPLMODWR) AND NOT BMAPF_WAITERS\<rparr>"

text \<open>A file with its first bmap cached, for the examples.\<close>

definition sample_cached :: "u8 list \<Rightarrow> bmap" where
  "sample_cached repls = (sample_bmap repls 5)\<lparr>bcm_flags := BMAPF_WR OR BMAPF_LOADED\<rparr>"

definition sample_file :: "u32 list \<Rightarrow> u8 list \<Rightarrow> fcmh" where
  "sample_file t repls = (sample_fcmh t)\<lparr>fcmh_bmaptree := [0 \<mapsto> sample_cached repls]\<rparr>"

text \<open>Storing a bmap in the cache, and bmaps with a copy of the data to fall back on.\<close>

definition taken :: "fcmh \<Rightarrow> bmap \<Rightarrow> fcmh" where
  "taken f b = f\<lparr>fcmh_bmaptree := (fcmh_bmaptree f)(bcm_bmapno b \<mapsto> b)\<rparr>"

definition safe_bmap :: "sl_config \<Rightarrow> fcmh \<Rightarrow> u32 \<Rightarrow> bool" where
  "safe_bmap cfg f n \<longleftrightarrow> (\<exists>b. fcmh_bmaptree f n = Some b \<and> known_valid cfg f (bmi_repls b) [])"

subsection \<open>Tables\<close>

lemma inv_tables: "tract_ok inv_active_tract" "ret_ok (Some inv_active_retifset)" "tract_ok (inv_others_tract p)"
  "ret_ok (Some inv_others_retifset)"
  "0 \<le> v \<Longrightarrow> v < 8 \<Longrightarrow> tr inv_active_tract v = activated v"
  "0 \<le> v \<Longrightarrow> v < 8 \<Longrightarrow> tr (inv_others_tract p) v = outdated p v"
  "0 \<le> v \<Longrightarrow> v < 8 \<Longrightarrow> retv (Some inv_others_retifset) v \<noteq> 0 \<longleftrightarrow> v \<in> {BREPLST_VALID, BREPLST_REPL_SCHED}"
  by (simp_all add: inv_active_tract_def inv_active_retifset_def inv_others_tract_def inv_others_retifset_def
      tr_def retv_def activated_def outdated_def brepl_simps)

lemma rq_tables: "tract_ok addrq_tract" "tract_ok delrq_tract" "ret_ok (Some ret_hasvalid)"
  "0 \<le> v \<Longrightarrow> v < 8 \<Longrightarrow> tr addrq_tract v = requested v"
  "0 \<le> v \<Longrightarrow> v < 8 \<Longrightarrow> tr delrq_tract v = dropped v"
  "0 \<le> v \<Longrightarrow> v < 8 \<Longrightarrow> retv (Some ret_hasvalid) v \<noteq> 0 \<longleftrightarrow> v = BREPLST_VALID"
proof -
  assume v: "0 \<le> v" "v < 8"
  then have "v = BREPLST_INVALID \<or> v = BREPLST_REPL_SCHED \<or> v = BREPLST_REPL_QUEUED \<or> v = BREPLST_VALID \<or>
      v = BREPLST_TRUNC_QUEUED \<or> v = BREPLST_TRUNC_SCHED \<or> v = BREPLST_GARBAGE_QUEUED \<or> v = BREPLST_GARBAGE_SCHED"
    by (simp add: breplst_defs) presburger
  then show "tr delrq_tract v = dropped v"
    using v by (auto simp: delrq_tract_def tr_def dropped_def brepl_simps)
qed (simp_all add: addrq_tract_def delrq_tract_def ret_hasvalid_def tr_def retv_def requested_def brepl_simps)

subsection \<open>Invalidation\<close>

lemma inv_except_eq:
  assumes "fcmh_ok f" "bmap_ok b" "bcm_flags b AND BMAPF_REPLMODWR = 0" "slm_opstate s = SLM_OPSTATE_NORMAL"
    and "iosidx < fcmh_2_nrepls f"
  obtains repls orepls where
    "mds_repl_inv_except iosidx b f s =
       (let ch = outdates (fcmh_2_nrepls f) iosidx (bmi_repls b);
            c = b\<lparr>bmi_repls := repls, bmi_orepls := orepls, bes_gen := if ch then bes_gen b + 1 else bes_gen b\<rparr>;
            (b', s') = (if bes_replpol b = BRPOL_PERSIST then upsch_enqueue (wr_mark ch c) f (wr_queue ch c f s)
                        else (wr_mark ch c, wr_queue ch c f s))
        in Some (b', wr_file c f, s', 0))"
    "repls_ok repls" "repls_ok orepls"
    "\<And>k. k < SL_MAX_REPLICAS \<Longrightarrow> brepl repls k =
       (if k = iosidx then activated (brepl (bmi_repls b) k)
        else if k < fcmh_2_nrepls f then outdated (bes_replpol b) (brepl (bmi_repls b) k) else brepl (bmi_repls b) k)"
    "\<And>k. 1 < fcmh_2_nrepls f \<Longrightarrow> k < SL_MAX_REPLICAS \<Longrightarrow> brepl orepls k =
       (if k = last_other (fcmh_2_nrepls f) iosidx then brepl (bmi_repls b) k else brepl repls k)"
proof -
  let ?nr = "fcmh_2_nrepls f" and ?bs = "bmi_repls b" and ?p = "bes_replpol b"
  let ?ks = "[k \<leftarrow> [0..<?nr]. k \<noteq> iosidx]"
  have ok: "repls_ok ?bs" and i: "iosidx < SL_MAX_REPLICAS"
    using assms(2,5) fcmh_nr [OF assms(1)] by (simp_all add: bmap_ok_def)
  obtain bs1 os1 where w1: "mds_repl_bmap_walk ?nr b (Some inv_active_tract) (Some inv_active_retifset) 0 [iosidx] no_cb () =
      Some (b\<lparr>bmi_repls := bs1, bmi_orepls := os1\<rparr>, walk_rc (Some inv_active_retifset) ?bs [iosidx] 0, ())"
    "walked inv_active_tract [iosidx] ?bs bs1" "walked inv_active_tract [] ?bs os1"
    by (rule walk_translate [where iosidx = "[iosidx]" and flags = 0 and g = None and c = "()",
          OF ok inv_tables(2,1) _ assms(3) _ _ fcmh_nr [OF assms(1)] refl]) (use i in \<open>simp_all add: walk_list_def\<close>)
  let ?b = "b\<lparr>bmi_repls := bs1, bmi_orepls := os1\<rparr>"
  have b1: "repls_ok (bmi_repls ?b)" "bcm_flags ?b AND BMAPF_REPLMODWR = 0" using w1(2) assms(3) by (simp_all add: walked_def)
  have ks: "walk_list ?nr REPL_WALKF_MODOTH [iosidx] = ?ks" "REPL_WALKF_MODOTH AND REPL_WALKF_SCIRCUIT = 0"
    by (simp_all add: walk_list_def REPL_WALKF_MODOTH_def REPL_WALKF_SCIRCUIT_def)
  obtain repls orepls where w2': "mds_repl_bmap_walk ?nr ?b (Some (inv_others_tract ?p)) (Some inv_others_retifset)
        REPL_WALKF_MODOTH [iosidx] no_cb () =
      Some (?b\<lparr>bmi_repls := repls, bmi_orepls := orepls\<rparr>, walk_rc (Some inv_others_retifset) (bmi_repls ?b) ?ks 0,
        walk_cb None (bmi_repls ?b) ?ks ())"
    "walked (inv_others_tract ?p) ?ks (bmi_repls ?b) repls"
    "if ?ks = [] then orepls = bmi_orepls ?b else walked (inv_others_tract ?p) (butlast ?ks) (bmi_repls ?b) orepls"
    by (rule walk_translate [where iosidx = "[iosidx]" and flags = REPL_WALKF_MODOTH and g = None and c = "()",
          OF b1(1) inv_tables(4) inv_tables(3) [of ?p] ks(2) b1(2) _ _ fcmh_nr [OF assms(1)] ks(1) [symmetric]])
      (simp, use i in simp, blast)
  have b2: "bmi_repls ?b = bs1" "bmi_orepls ?b = os1"
    "?b\<lparr>bmi_repls := repls, bmi_orepls := orepls\<rparr> = b\<lparr>bmi_repls := repls, bmi_orepls := orepls\<rparr>" by simp_all
  note w2 = w2' [unfolded b2]
  have same: "brepl bs1 k = brepl ?bs k" if "k < SL_MAX_REPLICAS" "k \<noteq> iosidx" for k
    using w1(2) that by (simp add: walked_def)
  have "walk_rc (Some inv_others_retifset) bs1 ?ks 0 = walk_rc (Some inv_others_retifset) ?bs ?ks 0"
    using same fcmh_nr [OF assms(1)] by (intro walk_rc_cong) simp
  then have rc: "walk_rc (Some inv_others_retifset) bs1 ?ks 0 \<noteq> 0 \<longleftrightarrow> outdates ?nr iosidx ?bs"
    using inv_tables(7) [OF brepl_range, of ?bs] by (auto simp: walk_rc_zero outdates_def list_ex_iff)
  let ?ch = "outdates ?nr iosidx ?bs"
  let ?c = "b\<lparr>bmi_repls := repls, bmi_orepls := orepls, bes_gen := if ?ch then bes_gen b + 1 else bes_gen b\<rparr>"
  have ok2: "repls_ok repls" "repls_ok orepls"
    using w2(2,3) w1(3) by (auto simp: walked_def split: if_splits)
  then have c: "bmap_ok ?c" using assms(2) by (simp add: bmap_ok_def)
  have eq: "mds_repl_inv_except iosidx b f s =
      (let (b', s') = (if ?p = BRPOL_PERSIST then upsch_enqueue (wr_mark ?ch ?c) (wr_file ?c f) (wr_queue ?ch ?c f s)
                       else (wr_mark ?ch ?c, wr_queue ?ch ?c f s))
       in Some (b', wr_file ?c f, s', 0))"
    using rc write_eq [OF assms(1) c, of ?ch s] assms(4)
    by (cases ?ch) (simp_all add: mds_repl_inv_except_def w1(1) w2(1) Let_def)
  have st: "brepl repls k = (if k = iosidx then activated (brepl ?bs k)
      else if k < ?nr then outdated ?p (brepl ?bs k) else brepl ?bs k)" if "k < SL_MAX_REPLICAS" for k
    using that w1(2) w2(2) inv_tables(5,6) [OF brepl_range] assms(5) by (simp add: walked_def)
  have "brepl orepls k = (if k = last_other ?nr iosidx then brepl ?bs k else brepl repls k)"
    if "1 < ?nr" "k < SL_MAX_REPLICAS" for k
  proof -
    let ?o = "if iosidx = 0 then 1 else 0"
    have "?o \<in> set ?ks" using that(1) by simp
    then have ne: "?ks \<noteq> []" by (metis list.distinct(1) list.set_cases)
    then have "last ?ks \<in> set ?ks" by (rule last_in_set)
    then have "last ?ks \<noteq> iosidx" by simp
    moreover have "walked (inv_others_tract ?p) (butlast ?ks) bs1 orepls" using w2(3) ne by simp
    ultimately show ?thesis using walked_butlast [OF w2(2) _ _ ne that(2), of orepls] same [OF that(2)]
      unfolding last_other_def by (cases "k = last ?ks") simp_all
  qed
  then show thesis using that [OF _ ok2 st] eq by (simp add: upsch_enqueue_def Let_def cong: if_cong)
qed

subsection \<open>The database worker\<close>

lemma repl_lookup:
  assumes "fcmh_ok f" "n < fcmh_2_nrepls f"
  shows "fcmh_2_repl n f s = Some (ios_table (fcmh_inoh f) ! n, f)"
    "SL_DEF_REPLICAS \<le> n \<Longrightarrow> mds_inox_ensure_loaded chk fid (fcmh_inoh f) mf = Some (fcmh_inoh f, mf, 0)"
proof -
  have ih: "inoh_ok (fcmh_inoh f)" using assms(1) by (simp add: fcmh_ok_def)
  have g: "fcmh_getrepl (fcmh_inoh f) n = Some (ios_table (fcmh_inoh f) ! n)" by (rule getrepl_table [OF ih assms(2)])
  have l: "mds_inox_ensure_loaded chk fid (fcmh_inoh f) mf = Some (fcmh_inoh f, mf, 0)" if "SL_DEF_REPLICAS \<le> n" for chk fid mf
    using inoh_okD(4) [OF ih] assms(2) that by (auto simp: mds_inox_ensure_loaded_def psc_assert_def)
  then show "SL_DEF_REPLICAS \<le> n \<Longrightarrow> mds_inox_ensure_loaded chk fid (fcmh_inoh f) mf = Some (fcmh_inoh f, mf, 0)" .
  show "fcmh_2_repl n f s = Some (ios_table (fcmh_inoh f) ! n, f)"
    using g l unfolding fcmh_2_repl_def fcmh_getrepl_def
    by (cases "n < SL_DEF_REPLICAS") (auto simp: bind_eq_Some_conv)
qed

lemma upd_write_loop_eq:
  assumes "fcmh_ok f" "repls_ok (bmi_repls b)" "repls_ok (bmi_orepls b)" "\<forall>n \<in> set ns. n < fcmh_2_nrepls f"
  shows "upd_write_loop cfg b s ns f = Some (map (upd_acts cfg b s f) ns, f)"
  using assms(4)
proof (induction ns)
  case (Cons n ns)
  have n: "n < fcmh_2_nrepls f" "n < SL_MAX_REPLICAS" using Cons.prems fcmh_nr [OF assms(1)] by simp_all
  have same: "f\<lparr>fcmh_inoh := fcmh_inoh f, fcmh_mf := fcmh_mf f\<rparr> = f" by simp
  have ld: "(if n = SL_DEF_REPLICAS then do {
      (ih, mf, _) \<leftarrow> mds_inox_ensure_loaded (slm_crc_check s) (fcmh_fid f) (fcmh_inoh f) (fcmh_mf f);
      Some (f\<lparr>fcmh_inoh := ih, fcmh_mf := mf\<rparr>)
    } else Some f) = Some f"
    using repl_lookup(2) [OF assms(1) n(1)] by (simp add: same)
  show ?case using Cons.IH Cons.prems
    unfolding upd_write_loop.simps ld
    by (simp add: repl_lookup(1) [OF assms(1) n(1)] rt.get_state [OF assms(2) n(2)] rt.get_state [OF assms(3) n(2)]
        upd_acts_def si_of_def Let_def)
qed simp

lemma upd_write_unchanged:
  assumes "fcmh_ok f" "repls_ok (bmi_repls b)" "repls_ok (bmi_orepls b)"
    and "\<And>n. n < fcmh_2_nrepls f \<Longrightarrow> brepl (bmi_orepls b) n = brepl (bmi_repls b) n"
  shows "slm_repl_upd_write cfg b rel f s =
    (let b = b\<lparr>bmi_sys_prio := -1, bmi_usr_prio := -1\<rparr>
     in if rel then do {
          f \<leftarrow> bmap_op_done (bmap_wake_locked (b\<lparr>bcm_flags := bcm_flags b AND NOT BMAPF_REPLMODWR\<rparr>)) f;
          Some (None, f, s)
        } else Some (Some b, f, s))"
proof -
  have "\<forall>n \<in> set [0..<fcmh_2_nrepls f]. snd (upd_acts cfg b s f n) = Upd_none"
    using assms(4) by (simp add: upd_acts_def upd_act_of_def Let_def)
  then have "upd_adds (map (upd_acts cfg b s f) [0..<fcmh_2_nrepls f]) = [] \<and>
      upd_dels (map (upd_acts cfg b s f) [0..<fcmh_2_nrepls f]) = [] \<and>
      upd_chgs (map (upd_acts cfg b s f) [0..<fcmh_2_nrepls f]) = []"
    by (auto simp: upd_adds_def upd_dels_def upd_chgs_def split_def)
  then show ?thesis
    using upd_write_loop_eq [OF assms(1-3), of "[0..<fcmh_2_nrepls f]" cfg s]
    by (simp add: slm_repl_upd_write_def Let_def)
qed

lemma last_other:
  assumes "1 < nr"
  shows "last_other nr iosidx < nr" "last_other nr iosidx \<noteq> iosidx"
proof -
  let ?ks = "[k \<leftarrow> [0..<nr]. k \<noteq> iosidx]"
  have "(if iosidx = 0 then 1 else 0) \<in> set ?ks" using assms by simp
  then have "?ks \<noteq> []" by (metis list.distinct(1) list.set_cases)
  then have "last ?ks \<in> set ?ks" by (rule last_in_set)
  then show "last_other nr iosidx < nr" "last_other nr iosidx \<noteq> iosidx" by (simp_all add: last_other_def)
qed

text \<open>The worker on a bmap whose old and new states agree drops its reference and nothing else.\<close>

lemma worker_unchanged:
  assumes "fcmh_ok f" "repls_ok (bmi_repls b)" "repls_ok (bmi_orepls b)" "1 < bcm_opcnt b"
    and "\<And>n. n < fcmh_2_nrepls f \<Longrightarrow> brepl (bmi_orepls b) n = brepl (bmi_repls b) n"
    and "fcmh_bmaptree f n = Some b" "bcm_bmapno b = n"
  shows "slm_wkcb_wr_brepl cfg n f s = Some (f\<lparr>fcmh_bmaptree := (fcmh_bmaptree f)(n \<mapsto> released b)\<rparr>, s)"
  using assms(4,6,7) upd_write_unchanged [OF assms(1-3), of cfg True s] assms(5)
  by (simp add: slm_wkcb_wr_brepl_def bmap_op_done_def psc_assert_def bmap_wake_locked_def released_def Let_def)

subsection \<open>Cached bmaps\<close>

lemma get_cached:
  assumes "cached f n b"
  shows "bmap_get f n SL_WRITE s =
    Some (taken f (b\<lparr>bcm_opcnt := bcm_opcnt b + 1\<rparr>), s, 0, Some (b\<lparr>bcm_opcnt := bcm_opcnt b + 1\<rparr>))"
proof -
  have "BMAPGETF_CREATE AND BMAPGETF_NONBLOCK = 0" by (simp add: flag_vals)
  then show ?thesis using assms
    by (simp add: cached_def bmap_getf_def bmap_lookup_cache_def psc_assert_def bmap_get_loaded_def bmap_get_out_def
        taken_def Let_def)
qed

lemma op_done_cached:
  assumes "1 < bcm_opcnt b"
  shows "bmap_op_done b f = Some (taken f (bmap_wake_locked (b\<lparr>bcm_opcnt := bcm_opcnt b - 1\<rparr>)))"
  using assms by (simp add: bmap_op_done_def psc_assert_def taken_def bmap_wake_locked_def Let_def)

subsection \<open>Removal\<close>

text \<open>The callback that counts does not change the file when the extension block is loaded.\<close>

lemma countvalid_eq:
  assumes "fcmh_ok f" "k < fcmh_2_nrepls f"
  shows "slm_repl_countvalid_cb cfg chk fid idx b k v (n, fcmh_inoh f, mf) =
    Some (if v = BREPLST_VALID \<and> k \<notin> set idx \<and> cfg (ios_table (fcmh_inoh f) ! k) \<noteq> None then n + 1 else n, fcmh_inoh f, mf)"
proof -
  have ih: "inoh_ok (fcmh_inoh f)" using assms(1) by (simp add: fcmh_ok_def)
  have "fcmh_getrepl (fcmh_inoh f) k = Some (ios_table (fcmh_inoh f) ! k)" by (rule getrepl_table [OF ih assms(2)])
  then show ?thesis using repl_lookup(2) [OF assms, of chk fid mf]
    by (cases "k < SL_DEF_REPLICAS") (auto simp: slm_repl_countvalid_cb_def fcmh_getrepl_def bind_eq_Some_conv Let_def)
qed

lemma countvalid_loop:
  assumes "fcmh_ok f" "repls_ok (bmi_repls b)" "\<forall>k \<in> set ks. k < fcmh_2_nrepls f"
  shows "\<exists>m. bmap_walk_loop None None 0 (Some (slm_repl_countvalid_cb cfg chk fid idx)) ks b rc (n, fcmh_inoh f, mf) =
      Some (b, rc, n + int m, fcmh_inoh f, mf) \<and>
    (m = 0 \<longleftrightarrow> (\<forall>k \<in> set ks. \<not> (brepl (bmi_repls b) k = BREPLST_VALID \<and> k \<notin> set idx \<and> cfg (ios_table (fcmh_inoh f) ! k) \<noteq> None)))"
  using assms(3)
proof (induction ks arbitrary: n)
  case (Cons k ks)
  have k: "k < fcmh_2_nrepls f" "k < SL_MAX_REPLICAS" and tl: "\<forall>k \<in> set ks. k < fcmh_2_nrepls f"
    using Cons.prems fcmh_nr [OF assms(1)] by simp_all
  let ?v = "brepl (bmi_repls b) k" let ?c = "?v = BREPLST_VALID \<and> k \<notin> set idx \<and> cfg (ios_table (fcmh_inoh f) ! k) \<noteq> None"
  obtain m where m: "bmap_walk_loop None None 0 (Some (slm_repl_countvalid_cb cfg chk fid idx)) ks b rc
      (if ?c then n + 1 else n, fcmh_inoh f, mf) = Some (b, rc, (if ?c then n + 1 else n) + int m, fcmh_inoh f, mf)"
    "m = 0 \<longleftrightarrow> (\<forall>k \<in> set ks. \<not> (brepl (bmi_repls b) k = BREPLST_VALID \<and> k \<notin> set idx \<and> cfg (ios_table (fcmh_inoh f) ! k) \<noteq> None))"
    using Cons.IH [OF tl, of "if ?c then n + 1 else n"] by (elim exE conjE) (rule that)
  have "mds_repl_bmap_apply b None None 0 (k * SL_BITS_PER_REPLICA) (Some False)
      (Some (slm_repl_countvalid_cb cfg chk fid idx)) (n, fcmh_inoh f, mf) =
    Some (b, 0, Some False, if ?c then n + 1 else n, fcmh_inoh f, mf)"
    using brepl_range [of "bmi_repls b" k]
    by (simp add: mds_repl_bmap_apply_def rt.get_state [OF assms(2) k(2)] countvalid_eq [OF assms(1) k(1)] psc_assert_def NBREPLST_def Let_def)
  then show ?case using m
    by (cases ?c) (auto simp: Let_def intro: exI [of _ "Suc m"] exI [of _ m])
qed simp

lemma taken_fields [simp]: "fcmh_inoh (taken f b) = fcmh_inoh f" "fcmh_mf (taken f b) = fcmh_mf f" "fcmh_fid (taken f b) = fcmh_fid f"
  "fcmh_ok (taken f b) = fcmh_ok f" "fcmh_bmaptree (taken f b) n = (if n = bcm_bmapno b then Some b else fcmh_bmaptree f n)"
  by (simp_all add: taken_def fcmh_ok_def)

lemma wake_fields [simp]: "bmi_repls (bmap_wake_locked b) = bmi_repls b" "bcm_bmapno (bmap_wake_locked b) = bcm_bmapno b"
  by (simp_all add: bmap_wake_locked_def)

lemma delrq_bmap_eq:
  assumes "fcmh_ok f" "cached f n b" "slm_opstate s = SLM_OPSTATE_NORMAL" "distinct iosidx" "iosidx \<noteq> []"
    and "\<forall>k \<in> set iosidx. k < fcmh_2_nrepls f"
  obtains f' s' b' where
    "delrq_bmap cfg iosidx n f s =
       Some (f', s', if known_valid cfg f (bmi_repls b) iosidx then 0 else - SLERR_LASTREPL)"
    "fcmh_ok f'" "fcmh_inoh f' = fcmh_inoh f" "slm_opstate s' = slm_opstate s" "fcmh_bmaptree f' n = Some b'"
    "\<And>m. m \<noteq> n \<Longrightarrow> fcmh_bmaptree f' m = fcmh_bmaptree f m"
    "\<And>k. k < SL_MAX_REPLICAS \<Longrightarrow> brepl (bmi_repls b') k =
       (if known_valid cfg f (bmi_repls b) iosidx \<and> k \<in> set iosidx then dropped (brepl (bmi_repls b) k) else brepl (bmi_repls b) k)"
proof -
  let ?nr = "fcmh_2_nrepls f" and ?b = "b\<lparr>bcm_opcnt := bcm_opcnt b + 1\<rparr>" and ?kv = "known_valid cfg f (bmi_repls b) iosidx"
  have b: "bmap_ok b" "repls_ok (bmi_repls ?b)" "bcm_flags ?b AND BMAPF_REPLMODWR = 0" "0 < bcm_opcnt b" "bcm_bmapno b = n"
    using assms(2) by (simp_all add: cached_def bmap_ok_def)
  have lt: "\<forall>k \<in> set [0..<?nr]. k < ?nr" by simp
  obtain m where m: "bmap_walk_loop None None 0 (Some (slm_repl_countvalid_cb cfg (slm_crc_check s) (fcmh_fid f) iosidx)) [0..<?nr]
      ?b 0 (0, fcmh_inoh f, fcmh_mf f) = Some (?b, 0, 0 + int m, fcmh_inoh f, fcmh_mf f)"
    "m = 0 \<longleftrightarrow> (\<forall>k \<in> set [0..<?nr]. \<not> (brepl (bmi_repls ?b) k = BREPLST_VALID \<and> k \<notin> set iosidx \<and> cfg (ios_table (fcmh_inoh f) ! k) \<noteq> None))"
    using countvalid_loop [OF assms(1) b(2), of "[0..<?nr]" cfg "slm_crc_check s" "fcmh_fid f" iosidx 0 0 "fcmh_mf f", OF lt]
    by (elim exE conjE) (rule that)
  have kv: "m = 0 \<longleftrightarrow> \<not> ?kv" using m(2) by (auto simp: known_valid_def list_ex_iff)
  have walk: "mds_repl_bmap_walk ?nr ?b None None 0 [] (Some (slm_repl_countvalid_cb cfg (slm_crc_check s) (fcmh_fid f) iosidx))
      (0, fcmh_inoh f, fcmh_mf f) = Some (?b, 0, int m, fcmh_inoh f, fcmh_mf f)"
    using m(1) by (simp add: walk_eq walk_list_def)
  have same: "taken f ?b\<lparr>fcmh_inoh := fcmh_inoh f, fcmh_mf := fcmh_mf f\<rparr> = taken f ?b" by (simp add: taken_def)
  have lt64: "\<forall>k \<in> set iosidx. k < SL_MAX_REPLICAS" using assms(6) fcmh_nr [OF assms(1)] by auto
  show thesis
  proof (cases ?kv)
    case False
    then have "delrq_bmap cfg iosidx n f s = Some (taken (taken f ?b) (bmap_wake_locked b), s, - SLERR_LASTREPL)"
      using kv b(4) by (simp add: delrq_bmap_def delrq_one_def get_cached [OF assms(2)] walk same op_done_cached Let_def)
    then show thesis using that [of _ s] False assms(1) b(5) by simp
  next
    case True
    obtain repls orepls where w: "mds_repl_bmap_walk ?nr ?b (Some delrq_tract) None 0 iosidx slm_repl_delrq_cb 0 =
        Some (?b\<lparr>bmi_repls := repls, bmi_orepls := orepls\<rparr>, walk_rc None (bmi_repls ?b) iosidx 0,
          walk_cb (Some (\<lambda>_. delrq_flags)) (bmi_repls ?b) iosidx 0)" "walked delrq_tract iosidx (bmi_repls ?b) repls"
      unfolding slm_repl_delrq_cb_def
      by (rule walk_translate [where g = "Some (\<lambda>_. delrq_flags)" and c = "0 :: u32" and flags = 0,
            OF b(2) ret_ok_len(2) rq_tables(2) _ b(3) assms(4) lt64 fcmh_nr [OF assms(1)], of iosidx])
        (simp_all add: walk_list_def assms(5))
    let ?c = "?b\<lparr>bmi_repls := repls, bmi_orepls := orepls\<rparr>" and ?fl = "walk_cb (Some (\<lambda>_. delrq_flags)) (bmi_repls ?b) iosidx 0"
    have rc: "walk_rc None (bmi_repls ?b) iosidx 0 = 0" by (simp add: walk_rc_zero retv_def)
    have c: "bmap_ok ?c" "fcmh_ok (taken f ?b)" using b(1) w(2) assms(1) by (simp_all add: bmap_ok_def walked_def)
    have st: "brepl repls k = (if k \<in> set iosidx then dropped (brepl (bmi_repls b) k) else brepl (bmi_repls b) k)"
      if "k < SL_MAX_REPLICAS" for k
      using w(2) that rq_tables(5) [OF brepl_range] by (simp add: walked_def)
    show thesis
    proof (cases "?fl AND FLAG_REPLICA_STATE_DIRTY = 0")
      case True
      then have "delrq_bmap cfg iosidx n f s =
          Some (taken (taken f ?b) (bmap_wake_locked (?c\<lparr>bcm_opcnt := bcm_opcnt b\<rparr>)), s, 0)"
        using kv \<open>?kv\<close> b(4) rc
        by (simp add: delrq_bmap_def delrq_one_def get_cached [OF assms(2)] walk same w(1) op_done_cached psc_assert_def Let_def)
      then show thesis using that [of _ s] \<open>?kv\<close> assms(1) b(5) st by simp
    next
      case False
      let ?d = "wr_mark True ?c" and ?g = "wr_file ?c (taken f ?b)" and ?s = "wr_queue True ?c (taken f ?b) s"
      have "bcm_opcnt ?d = bcm_opcnt b + 2" by (simp add: wr_mark_def)
      then have "delrq_bmap cfg iosidx n f s =
          Some (taken ?g (bmap_wake_locked (?d\<lparr>bcm_opcnt := 1 + bcm_opcnt b\<rparr>)), ?s, 0)"
        using kv \<open>?kv\<close> b(4) rc False write_eq [OF c(2,1), of True s] assms(3)
        by (simp add: delrq_bmap_def delrq_one_def get_cached [OF assms(2)] walk same w(1) op_done_cached psc_assert_def Let_def)
      then show thesis using that [of _ ?s] \<open>?kv\<close> c(2) b(5) st by (simp add: wr_queue_def)
    qed
  qed
qed

lemma delrq_bmap_safe:
  assumes "fcmh_ok f" "cached f n b" "slm_opstate s = SLM_OPSTATE_NORMAL" "distinct iosidx" "iosidx \<noteq> []"
    and "\<forall>k \<in> set iosidx. k < fcmh_2_nrepls f"
  obtains f' s' rc where "delrq_bmap cfg iosidx n f s = Some (f', s', rc)" "fcmh_ok f'" "fcmh_inoh f' = fcmh_inoh f"
    "slm_opstate s' = slm_opstate s" "\<And>m. m \<noteq> n \<Longrightarrow> fcmh_bmaptree f' m = fcmh_bmaptree f m"
    "\<And>m. safe_bmap cfg f m \<Longrightarrow> safe_bmap cfg f' m"
proof -
  obtain f' s' b' where r: "delrq_bmap cfg iosidx n f s =
       Some (f', s', if known_valid cfg f (bmi_repls b) iosidx then 0 else - SLERR_LASTREPL)"
    "fcmh_ok f'" "fcmh_inoh f' = fcmh_inoh f" "slm_opstate s' = slm_opstate s" "fcmh_bmaptree f' n = Some b'"
    "\<And>m. m \<noteq> n \<Longrightarrow> fcmh_bmaptree f' m = fcmh_bmaptree f m"
    "\<And>k. k < SL_MAX_REPLICAS \<Longrightarrow> brepl (bmi_repls b') k =
       (if known_valid cfg f (bmi_repls b) iosidx \<and> k \<in> set iosidx then dropped (brepl (bmi_repls b) k) else brepl (bmi_repls b) k)"
    by (rule delrq_bmap_eq [OF assms]) blast
  have n: "fcmh_bmaptree f n = Some b" using assms(2) by (simp add: cached_def)
  have "known_valid cfg f' (bmi_repls b') []" if "known_valid cfg f (bmi_repls b) []"
  proof (cases "known_valid cfg f (bmi_repls b) iosidx")
    case True
    then obtain k where "k < fcmh_2_nrepls f" "k \<notin> set iosidx" "brepl (bmi_repls b) k = BREPLST_VALID"
      "cfg (ios_table (fcmh_inoh f) ! k) \<noteq> None" by (auto simp: known_valid_def list_ex_iff)
    then show ?thesis using r(3) r(7) [of k] fcmh_nr [OF assms(1)] by (auto simp: known_valid_def list_ex_iff)
  next
    case False
    from that obtain k where "k < fcmh_2_nrepls f" "brepl (bmi_repls b) k = BREPLST_VALID"
      "cfg (ios_table (fcmh_inoh f) ! k) \<noteq> None" by (auto simp: known_valid_def list_ex_iff)
    then show ?thesis using False r(3) r(7) [of k] fcmh_nr [OF assms(1)] by (auto simp: known_valid_def [of cfg f'] list_ex_iff)
  qed
  then have "safe_bmap cfg f' m" if "safe_bmap cfg f m" for m
    using that r(3,5) r(6) [of m] n by (cases "m = n") (auto simp: safe_bmap_def known_valid_def)
  then show thesis using that r(1-4,6) by blast
qed

lemma delrq_loop_safe:
  assumes "fcmh_ok f" "slm_opstate s = SLM_OPSTATE_NORMAL" "distinct iosidx" "iosidx \<noteq> []"
    and "\<forall>k \<in> set iosidx. k < fcmh_2_nrepls f" "nvalid < 2 ^ 32"
    and "\<forall>n. unat bmapno \<le> unat n \<and> unat n < nvalid \<longrightarrow> (\<exists>b. cached f n b)"
  shows "\<exists>f' s' rc' np'. delrq_loop cfg iosidx nvalid cnt bmapno np rc f s = Some (f', s', rc', np') \<and>
    (\<forall>m. safe_bmap cfg f m \<longrightarrow> safe_bmap cfg f' m)"
  using assms(1,2,5,7)
proof (induction cnt arbitrary: bmapno np rc f s)
  case (Suc cnt)
  show ?case
  proof (cases "nvalid \<le> unat bmapno \<or> SLM_REPLRQ_NBMAPS_MAX \<le> np")
    case False
    then obtain b where b: "cached f bmapno b" using Suc.prems(4) by auto
    obtain f1 s1 rc1 where r: "delrq_bmap cfg iosidx bmapno f s = Some (f1, s1, rc1)" "fcmh_ok f1" "fcmh_inoh f1 = fcmh_inoh f"
      "slm_opstate s1 = slm_opstate s" "\<And>m. m \<noteq> bmapno \<Longrightarrow> fcmh_bmaptree f1 m = fcmh_bmaptree f m"
      "\<And>m. safe_bmap cfg f m \<Longrightarrow> safe_bmap cfg f1 m"
      by (rule delrq_bmap_safe [OF Suc.prems(1) b Suc.prems(2) assms(3,4) Suc.prems(3)]) blast
    have next_no: "unat (bmapno + 1) = unat bmapno + 1" using False assms(6) by (simp add: unat_word_ariths(1))
    have "cached f1 n = cached f n" if "unat (bmapno + 1) \<le> unat n" for n
    proof -
      have "n \<noteq> bmapno" using that next_no by auto
      then show ?thesis using r(5) by (auto simp: cached_def fun_eq_iff)
    qed
    then have c: "\<forall>n. unat (bmapno + 1) \<le> unat n \<and> unat n < nvalid \<longrightarrow> (\<exists>b. cached f1 n b)"
      using Suc.prems(4) next_no by simp
    have p: "slm_opstate s1 = SLM_OPSTATE_NORMAL" "\<forall>k \<in> set iosidx. k < fcmh_2_nrepls f1" using Suc.prems(2,3) r(3,4) by simp_all
    obtain f' s' rc' np' where "delrq_loop cfg iosidx nvalid cnt (bmapno + 1) (Suc np) 0 f1 s1 = Some (f', s', rc', np')"
      "\<forall>m. safe_bmap cfg f1 m \<longrightarrow> safe_bmap cfg f' m"
      using Suc.IH [OF r(2) p c, of "Suc np" 0] by (elim exE conjE) (rule that)
    then show ?thesis using False r(1,6) by (cases "rc1 = 0") auto
  qed auto
qed simp

subsection \<open>Requests to replicate\<close>

lemma flag_or: "(w OR x) AND FLAG_REPLICA_STATE_INVALID = 0 \<longleftrightarrow>
    w AND FLAG_REPLICA_STATE_INVALID = 0 \<and> x AND FLAG_REPLICA_STATE_INVALID = 0"
  "FLAG_REPLICA_STATE_DIRTY AND FLAG_REPLICA_STATE_INVALID = 0" "FLAG_REPLICA_STATE_INVALID \<noteq> 0"
  unfolding FLAG_REPLICA_STATE_INVALID_def flag_bit by (simp_all add: bit_or_iff FLAG_REPLICA_STATE_DIRTY_def)

lemma addrq_flags_invalid:
  "addrq_flags v fl AND FLAG_REPLICA_STATE_INVALID = 0 \<longleftrightarrow>
     fl AND FLAG_REPLICA_STATE_INVALID = 0 \<and> v \<notin> {BREPLST_TRUNC_QUEUED, BREPLST_TRUNC_SCHED}"
  by (auto simp: addrq_flags_def flag_or brepl_simps)

lemma addrq_flags_walk:
  "walk_cb (Some (\<lambda>_. addrq_flags)) bs ks fl AND FLAG_REPLICA_STATE_INVALID = 0 \<longleftrightarrow>
     fl AND FLAG_REPLICA_STATE_INVALID = 0 \<and> (\<forall>k \<in> set ks. brepl bs k \<notin> {BREPLST_TRUNC_QUEUED, BREPLST_TRUNC_SCHED})"
proof (induction ks arbitrary: fl)
  case (Cons k ks)
  have "walk_cb (Some (\<lambda>_. addrq_flags)) bs (k # ks) fl = walk_cb (Some (\<lambda>_. addrq_flags)) bs ks (addrq_flags (brepl bs k) fl)"
    by (simp add: walk_cb_def run_cb_def)
  then show ?case using Cons [of "addrq_flags (brepl bs k) fl"] by (simp add: addrq_flags_invalid conj_ac)
qed (simp add: walk_cb_def)

lemma fold_opstate:
  "(\<And>x s. slm_opstate (g x s) = slm_opstate s) \<Longrightarrow> slm_opstate (fold g xs s) = slm_opstate s"
  by (induction xs arbitrary: s) simp_all

lemma upd_write_keeps:
  assumes "fcmh_ok f" "repls_ok (bmi_repls b)" "repls_ok (bmi_orepls b)"
  obtains s' where "slm_repl_upd_write cfg b False f s = Some (Some (b\<lparr>bmi_sys_prio := -1, bmi_usr_prio := -1\<rparr>), f, s')"
    "slm_opstate s' = slm_opstate s"
proof -
  have op: "slm_opstate (fold (\<lambda>r s. fst (slm_upsch_insert cfg b f r sp up s)) xs s) = slm_opstate s"
    "slm_opstate (fold (\<lambda>r. upsch_delete (r, fcmh_fid f, bcm_bmapno b)) xs s) = slm_opstate s"
    "slm_opstate (fold (\<lambda>(r, st). upsch_update (r, fcmh_fid f, bcm_bmapno b) st sp up) ys s) = slm_opstate s" for sp up xs ys s
    by (intro fold_opstate; simp add: slm_upsch_insert_def upsch_delete_def upsch_update_def split_def)+
  show thesis
    using upd_write_loop_eq [OF assms, of "[0..<fcmh_2_nrepls f]" cfg s] that
    by (simp add: slm_repl_upd_write_def op Let_def)
qed

lemma addrq_bmap_eq:
  assumes "fcmh_ok f" "cached f n b" "slm_opstate s = SLM_OPSTATE_NORMAL" "distinct iosidx" "iosidx \<noteq> []"
    and "\<forall>k \<in> set iosidx. k < fcmh_2_nrepls f"
    and "has = list_ex (\<lambda>k. brepl (bmi_repls b) k = BREPLST_VALID) [0..<fcmh_2_nrepls f]"
  obtains f' s' b' where
    "addrq_bmap cfg iosidx sys_prio usr_prio n f s =
       Some (f', s', if has \<and> list_ex (\<lambda>k. brepl (bmi_repls b) k \<in> {BREPLST_TRUNC_QUEUED, BREPLST_TRUNC_SCHED}) iosidx
         then - SLERR_REPLICA_STATE_INVALID else 0)"
    "fcmh_ok f'" "fcmh_inoh f' = fcmh_inoh f" "slm_opstate s' = slm_opstate s" "fcmh_bmaptree f' n = Some b'"
    "\<And>m. m \<noteq> n \<Longrightarrow> fcmh_bmaptree f' m = fcmh_bmaptree f m"
    "\<And>k. k < SL_MAX_REPLICAS \<Longrightarrow> brepl (bmi_repls b') k =
       (if has \<and> k \<in> set iosidx then requested (brepl (bmi_repls b) k) else brepl (bmi_repls b) k)"
proof -
  let ?nr = "fcmh_2_nrepls f" and ?b = "b\<lparr>bcm_opcnt := bcm_opcnt b + 1\<rparr>"
  have b: "bmap_ok b" "repls_ok (bmi_repls ?b)" "bcm_flags ?b AND BMAPF_REPLMODWR = 0" "0 < bcm_opcnt b" "bcm_bmapno b = n"
    using assms(2) by (simp_all add: cached_def bmap_ok_def)
  have lt64: "\<forall>k \<in> set iosidx. k < SL_MAX_REPLICAS" using assms(6) fcmh_nr [OF assms(1)] by auto
  obtain rc where q: "mds_repl_bmap_walk ?nr ?b None (Some ret_hasvalid) REPL_WALKF_SCIRCUIT [] no_cb () = Some (?b, rc, ())"
    "rc = 0 \<longleftrightarrow> (\<forall>k \<in> set [0..<?nr]. retv (Some ret_hasvalid) (brepl (bmi_repls ?b) k) = 0)"
    by (rule walk_query [where iosidx = "[]" and flags = REPL_WALKF_SCIRCUIT and g = None and c = "()",
          OF b(2) rq_tables(3) _ fcmh_nr [OF assms(1)], of "[0..<?nr]"]) (simp, simp add: walk_list_def, simp)
  have has: "rc = 0 \<longleftrightarrow> \<not> has"
    using q(2) rq_tables(6) [OF brepl_range, of "bmi_repls b"] unfolding assms(7) list_ex_iff by auto
  show thesis
  proof (cases has)
    case False
    then have "addrq_bmap cfg iosidx sys_prio usr_prio n f s = Some (taken (taken f ?b) (bmap_wake_locked b), s, 0)"
      using has b(4) by (simp add: addrq_bmap_def addrq_one_def get_cached [OF assms(2)] q(1) op_done_cached)
    then show thesis using that [of _ s] False assms(1) b(5) by simp
  next
    case True
    let ?fl = "walk_cb (Some (\<lambda>_. addrq_flags)) (bmi_repls ?b) iosidx 0"
    obtain repls orepls where w: "mds_repl_bmap_walk ?nr ?b (Some addrq_tract) None 0 iosidx slm_repl_addrq_cb 0 =
        Some (?b\<lparr>bmi_repls := repls, bmi_orepls := orepls\<rparr>, walk_rc None (bmi_repls ?b) iosidx 0, ?fl)"
      "walked addrq_tract iosidx (bmi_repls ?b) repls" "walked addrq_tract (butlast iosidx) (bmi_repls ?b) orepls"
      unfolding slm_repl_addrq_cb_def
      by (rule walk_translate [where g = "Some (\<lambda>_. addrq_flags)" and c = "0 :: u32" and flags = 0,
            OF b(2) ret_ok_len(2) rq_tables(1) _ b(3) assms(4) lt64 fcmh_nr [OF assms(1)], of iosidx])
        (simp_all add: walk_list_def assms(5))
    let ?c = "?b\<lparr>bmi_repls := repls, bmi_orepls := orepls, bmi_sys_prio := sys_prio, bmi_usr_prio := usr_prio\<rparr>"
    have c: "bmap_ok ?c" "fcmh_ok (taken f ?b)" "repls_ok (bmi_repls ?c)" "repls_ok (bmi_orepls ?c)"
      using b(1) w(2,3) assms(1) by (simp_all add: bmap_ok_def walked_def)
    have st: "brepl repls k = (if k \<in> set iosidx then requested (brepl (bmi_repls b) k) else brepl (bmi_repls b) k)"
      if "k < SL_MAX_REPLICAS" for k
      using w(2) that rq_tables(4) [OF brepl_range] by (simp add: walked_def)
    define E where "E = (if ?fl AND FLAG_REPLICA_STATE_DIRTY \<noteq> 0 then do {
        (b, f, s, _) \<leftarrow> mds_bmap_write_logrepls ?c (taken f ?b) s;
        Some (b, f, s)
      } else if sys_prio \<noteq> -1 \<or> usr_prio \<noteq> -1 then do {
        (bo, f, s) \<leftarrow> slm_repl_upd_write cfg ?c False (taken f ?b) s;
        b \<leftarrow> bo;
        Some (b, f, s)
      } else Some (?c, taken f ?b, s))"
    obtain d g s1 where E: "E = Some (d, g, s1)" "1 < bcm_opcnt d" "bmi_repls d = repls" "bcm_bmapno d = n" "fcmh_ok g"
      "fcmh_inoh g = fcmh_inoh f" "fcmh_bmaptree g = fcmh_bmaptree (taken f ?b)" "slm_opstate s1 = slm_opstate s"
    proof (cases "?fl AND FLAG_REPLICA_STATE_DIRTY = 0")
      case False
      then show thesis using that [of "wr_mark True ?c" "wr_file ?c (taken f ?b)" "wr_queue True ?c (taken f ?b) s"]
          write_eq [OF c(2,1), of True s] assms(3) b(4,5) c(2)
        by (simp add: E_def wr_mark_def wr_queue_def)
    next
      case True
      obtain s2 where u: "slm_repl_upd_write cfg ?c False (taken f ?b) s =
          Some (Some (?c\<lparr>bmi_sys_prio := -1, bmi_usr_prio := -1\<rparr>), taken f ?b, s2)" "slm_opstate s2 = slm_opstate s"
        by (rule upd_write_keeps [OF c(2-4)]) blast
      show thesis
      proof (cases "sys_prio \<noteq> -1 \<or> usr_prio \<noteq> -1")
        case prio: True
        have "E = Some (?c\<lparr>bmi_sys_prio := -1, bmi_usr_prio := -1\<rparr>, taken f ?b, s2)"
          unfolding E_def using True prio u(1) by simp
        then show thesis by (rule that) (use b(4,5) c(2) u(2) in simp_all)
      next
        case False
        then have "E = Some (?c, taken f ?b, s)" unfolding E_def using True by simp
        then show thesis by (rule that) (use b(4,5) c(2) in simp_all)
      qed
    qed
    have inv: "?fl AND FLAG_REPLICA_STATE_INVALID = 0 \<longleftrightarrow>
        \<not> list_ex (\<lambda>k. brepl (bmi_repls b) k \<in> {BREPLST_TRUNC_QUEUED, BREPLST_TRUNC_SCHED}) iosidx"
      using addrq_flags_walk [of "bmi_repls b" iosidx 0] by (simp add: list_ex_iff)
    have "addrq_one cfg iosidx sys_prio usr_prio ?b (taken f ?b) s = do {
        (b, f, s) \<leftarrow> E;
        Some (b, f, s, if ?fl AND FLAG_REPLICA_STATE_INVALID \<noteq> 0 then - SLERR_REPLICA_STATE_INVALID else 0)
      }"
      using has True by (simp add: addrq_one_def q(1) w(1) E_def)
    then have "addrq_bmap cfg iosidx sys_prio usr_prio n f s =
        Some (taken g (bmap_wake_locked (d\<lparr>bcm_opcnt := bcm_opcnt d - 1\<rparr>)), s1,
          if has \<and> list_ex (\<lambda>k. brepl (bmi_repls b) k \<in> {BREPLST_TRUNC_QUEUED, BREPLST_TRUNC_SCHED}) iosidx
          then - SLERR_REPLICA_STATE_INVALID else 0)"
      using True inv by (simp add: addrq_bmap_def get_cached [OF assms(2)] E(1) op_done_cached [OF E(2)])
    then show thesis using that [of _ s1] E True st b(5) by simp
  qed
qed

subsection \<open>Properties\<close>

text \<open>
  C12. After a write through one I/O system, \<^verbatim>\<open>mds_repl_inv_except\<close> leaves no other replica of the file valid: each
  valid one is queued for a new copy or for reclamation, by the policy of the bmap, scheduled
  copies go back to the queue, and everything else keeps its state. The replica written becomes
  valid if it was invalid or garbage; if it was queued or scheduled for a copy or a truncation, it stays so.
  The generation is raised exactly when another replica changed, and the metafile holds the result.
\<close>

theorem inv_except:
  assumes "fcmh_ok f" "cached f n b" "slm_opstate s = SLM_OPSTATE_NORMAL" "iosidx < fcmh_2_nrepls f"
  shows "\<exists>b' f' s'. mds_repl_inv_except iosidx b f s = Some (b', f', s', 0) \<and> bmap_stored b' (fcmh_mf f') \<and>
    (\<forall>k < SL_MAX_REPLICAS. brepl (bmi_repls b') k =
       (if k = iosidx then activated (brepl (bmi_repls b) k)
        else if k < fcmh_2_nrepls f then outdated (bes_replpol b) (brepl (bmi_repls b) k) else brepl (bmi_repls b) k)) \<and>
    bes_gen b' = bes_gen b + of_bool (outdates (fcmh_2_nrepls f) iosidx (bmi_repls b))"
proof -
  have b: "bmap_ok b" "bcm_flags b AND BMAPF_REPLMODWR = 0" using assms(2) by (simp_all add: cached_def)
  obtain repls orepls where eq: "mds_repl_inv_except iosidx b f s =
       (let ch = outdates (fcmh_2_nrepls f) iosidx (bmi_repls b);
            c = b\<lparr>bmi_repls := repls, bmi_orepls := orepls, bes_gen := if ch then bes_gen b + 1 else bes_gen b\<rparr>;
            (b', s') = (if bes_replpol b = BRPOL_PERSIST then upsch_enqueue (wr_mark ch c) f (wr_queue ch c f s)
                        else (wr_mark ch c, wr_queue ch c f s))
        in Some (b', wr_file c f, s', 0))"
    and ok: "repls_ok repls" and st: "\<And>k. k < SL_MAX_REPLICAS \<Longrightarrow> brepl repls k =
       (if k = iosidx then activated (brepl (bmi_repls b) k)
        else if k < fcmh_2_nrepls f then outdated (bes_replpol b) (brepl (bmi_repls b) k) else brepl (bmi_repls b) k)"
    by (rule inv_except_eq [OF assms(1) b assms(3,4)]) blast
  let ?ch = "outdates (fcmh_2_nrepls f) iosidx (bmi_repls b)"
  let ?c = "b\<lparr>bmi_repls := repls, bmi_orepls := orepls, bes_gen := if ?ch then bes_gen b + 1 else bes_gen b\<rparr>"
  define e where "e = (if bes_replpol b = BRPOL_PERSIST then upsch_enqueue (wr_mark ?ch ?c) f (wr_queue ?ch ?c f s)
    else (wr_mark ?ch ?c, wr_queue ?ch ?c f s))"
  have e: "bod_bytes (fst e) = bod_bytes ?c" "bcm_bmapno (fst e) = bcm_bmapno ?c" "bmi_repls (fst e) = repls"
    "bes_gen (fst e) = (if ?ch then bes_gen b + 1 else bes_gen b)"
    by (simp_all add: e_def upsch_enqueue_def bod_bytes_def wr_mark_def)
  have c: "bmap_ok ?c" using b(1) ok by (simp add: bmap_ok_def)
  have "mds_repl_inv_except iosidx b f s = Some (fst e, wr_file ?c f, snd e, 0)"
    unfolding eq by (simp add: Let_def e_def split_def cong: if_cong)
  moreover have "bmap_stored (fst e) (fcmh_mf (wr_file ?c f))"
    using wr_file_stored [OF c, of f] stored_cong [OF e(1,2)] by blast
  ultimately show ?thesis using st e(3,4) by (intro exI [of _ "fst e"] exI [of _ "wr_file ?c f"] exI [of _ "snd e"]) auto
qed

text \<open>
  C8. A request to remove replicas (\<^verbatim>\<open>mds_repl_delrq\<close>) on a file whose bmaps are cached returns, and never
  takes away the last copy of the data: a bmap that had a valid replica on a known I/O system has
  one afterwards, whatever bmaps the request covered and whatever it returned.
\<close>

theorem delrq_keeps_valid:
  assumes "fcmh_ok f" "slm_opstate s = SLM_OPSTATE_NORMAL" "\<not> fcmh_isdir f" "fcmh_nvalidbmaps f < 2 ^ 32"
    and "\<forall>n. unat n < fcmh_nvalidbmaps f \<longrightarrow> (\<exists>b. cached f n b)"
  shows "\<exists>f' s' rc np. mds_repl_delrq cfg get_rc bmapno nbmaps iosv f s = Some (f', s', rc, np) \<and>
    (\<forall>n b. unat n < fcmh_nvalidbmaps f \<and> cached f n b \<and> known_valid cfg f (bmi_repls b) [] \<longrightarrow>
       (\<exists>b'. fcmh_bmaptree f' n = Some b' \<and> known_valid cfg f' (bmi_repls b') []))"
proof -
  have ih: "inoh_ok (fcmh_inoh f)" using assms(1) by (simp add: fcmh_ok_def)
  obtain rc idx where l: "mds_repl_iosv_lookup cfg (slm_crc_check s) (fcmh_fid f) IOSV_LOOKUPF_LOOKUP iosv (fcmh_inoh f) (fcmh_mf f) =
      Some (fcmh_inoh f, fcmh_mf f, rc, idx)"
    "rc = 0 \<Longrightarrow> distinct idx" "rc = 0 \<Longrightarrow> length idx = length iosv" "rc = 0 \<Longrightarrow> \<forall>k \<in> set idx. k < fcmh_2_nrepls f"
    by (rule iosv_lookup_only [OF ih]) blast
  have same: "f\<lparr>fcmh_inoh := fcmh_inoh f, fcmh_mf := fcmh_mf f\<rparr> = f" by simp
  have ex: "\<exists>f' s' rc np. mds_repl_delrq cfg get_rc bmapno nbmaps iosv f s = Some (f', s', rc, np) \<and>
      (\<forall>m. safe_bmap cfg f m \<longrightarrow> safe_bmap cfg f' m)"
  proof (cases "length iosv < 1 \<or> SL_MAX_REPLICAS < length iosv \<or> nbmaps = 0 \<or> get_rc \<noteq> 0 \<or> rc \<noteq> 0")
    case True
    then show ?thesis using l(1) assms(3) by (auto simp: mds_repl_delrq_def same)
  next
    case False
    then have idx: "idx \<noteq> []" using l(3) by auto
    then show ?thesis
      using delrq_loop_safe [OF assms(1,2) l(2) idx l(4) assms(4), of bmapno cfg "unat nbmaps" 0
          "if nbmaps \<noteq> -1 then - SLERR_BMAP_INVALID else 0"] assms(5) False l(1) assms(3)
      by (simp add: mds_repl_delrq_def same)
  qed
  then show ?thesis by (elim exE conjE) (auto simp: safe_bmap_def cached_def)
qed

text \<open>
  C32. One bmap of a request to replicate: if the bmap has a valid replica, each I/O system asked for
  whose replica is invalid or garbage is queued, all other states stay, and the request is
  stopped with an error exactly when one of the replicas asked for is being truncated. A bmap
  without a valid replica is left alone.
\<close>

theorem addrq_bmap_spec:
  assumes "fcmh_ok f" "cached f n b" "slm_opstate s = SLM_OPSTATE_NORMAL" "distinct iosidx" "iosidx \<noteq> []"
    and "\<forall>k \<in> set iosidx. k < fcmh_2_nrepls f"
  shows "\<exists>f' s' rc b'. addrq_bmap cfg iosidx sys_prio usr_prio n f s = Some (f', s', rc) \<and> fcmh_bmaptree f' n = Some b' \<and>
    (\<forall>m. m \<noteq> n \<longrightarrow> fcmh_bmaptree f' m = fcmh_bmaptree f m) \<and>
    (if list_ex (\<lambda>k. brepl (bmi_repls b) k = BREPLST_VALID) [0..<fcmh_2_nrepls f]
     then (\<forall>k < SL_MAX_REPLICAS. brepl (bmi_repls b') k =
         (if k \<in> set iosidx then requested (brepl (bmi_repls b) k) else brepl (bmi_repls b) k)) \<and>
       rc = (if list_ex (\<lambda>k. brepl (bmi_repls b) k \<in> {BREPLST_TRUNC_QUEUED, BREPLST_TRUNC_SCHED}) iosidx
         then - SLERR_REPLICA_STATE_INVALID else 0)
     else rc = 0 \<and> (\<forall>k < SL_MAX_REPLICAS. brepl (bmi_repls b') k = brepl (bmi_repls b) k))"
proof -
  let ?has = "list_ex (\<lambda>k. brepl (bmi_repls b) k = BREPLST_VALID) [0..<fcmh_2_nrepls f]"
  obtain f' s' b' where r: "addrq_bmap cfg iosidx sys_prio usr_prio n f s =
       Some (f', s', if ?has \<and> list_ex (\<lambda>k. brepl (bmi_repls b) k \<in> {BREPLST_TRUNC_QUEUED, BREPLST_TRUNC_SCHED}) iosidx
         then - SLERR_REPLICA_STATE_INVALID else 0)" "fcmh_bmaptree f' n = Some b'"
    "\<And>m. m \<noteq> n \<Longrightarrow> fcmh_bmaptree f' m = fcmh_bmaptree f m"
    "\<And>k. k < SL_MAX_REPLICAS \<Longrightarrow> brepl (bmi_repls b') k =
       (if ?has \<and> k \<in> set iosidx then requested (brepl (bmi_repls b) k) else brepl (bmi_repls b) k)"
    by (rule addrq_bmap_eq [OF assms refl]) blast
  then show ?thesis by (intro exI [of _ f'] exI [of _ s'] exI [of _ b'] exI conjI) (rule r(1), simp_all)
qed

text \<open>
  C33. A request to remove the replica of an I/O system that the file does not use, on a file with more
  than four replicas, removes the replica at index 0 instead: the lookup reports index 0 for it.
\<close>

theorem delrq_wrong_replica:
  assumes "fcmh_ok f" "cached f 0 b" "slm_opstate s = SLM_OPSTATE_NORMAL" "\<not> fcmh_isdir f" "0 < fcmh_nvalidbmaps f"
    and "SL_DEF_REPLICAS < fcmh_2_nrepls f" "ios \<notin> set (ios_table (fcmh_inoh f))" "cfg ios = Some r" "RES_ISFS r"
    and "brepl (bmi_repls b) 0 = BREPLST_VALID" "known_valid cfg f (bmi_repls b) [0]"
  shows "\<exists>f' s' b'. mds_repl_delrq cfg 0 0 1 [ios] f s = Some (f', s', 0, 1) \<and> fcmh_bmaptree f' 0 = Some b' \<and>
    brepl (bmi_repls b') 0 = BREPLST_GARBAGE_QUEUED"
proof -
  have ih: "inoh_ok (fcmh_inoh f)" using assms(1) by (simp add: fcmh_ok_def)
  have "mds_repl_ios_lookup cfg (slm_crc_check s) (fcmh_fid f) ios IOSV_LOOKUPF_LOOKUP (fcmh_inoh f) (fcmh_mf f) =
      Some (fcmh_inoh f, fcmh_mf f, 0)"
    using lookup_eq [of "fcmh_inoh f" cfg ios, OF ih assms(8,9)] assms(6,7) by simp
  then have l: "mds_repl_iosv_lookup cfg (slm_crc_check s) (fcmh_fid f) IOSV_LOOKUPF_LOOKUP [ios] (fcmh_inoh f) (fcmh_mf f) =
      Some (fcmh_inoh f, fcmh_mf f, 0, [0])"
    by (simp add: mds_repl_iosv_lookup_def)
  have p: "distinct [0 :: nat]" "[0 :: nat] \<noteq> []" "\<forall>k \<in> set [0]. k < fcmh_2_nrepls f"
    using assms(6) by simp_all
  obtain f' s' b' where d: "delrq_bmap cfg [0] 0 f s =
      Some (f', s', if known_valid cfg f (bmi_repls b) [0] then 0 else - SLERR_LASTREPL)" "fcmh_bmaptree f' 0 = Some b'"
    "\<And>k. k < SL_MAX_REPLICAS \<Longrightarrow> brepl (bmi_repls b') k =
       (if known_valid cfg f (bmi_repls b) [0] \<and> k \<in> set [0] then dropped (brepl (bmi_repls b) k) else brepl (bmi_repls b) k)"
    by (rule delrq_bmap_eq [OF assms(1-3) p]) blast
  have same: "f\<lparr>fcmh_inoh := fcmh_inoh f, fcmh_mf := fcmh_mf f\<rparr> = f" by simp
  have one: "unat (1 :: u32) = Suc 0" by simp
  have "mds_repl_delrq cfg 0 0 1 [ios] f s = Some (f', s', 0, 1)"
    using assms(4,5,11) d(1) by (simp add: mds_repl_delrq_def l same one SL_MAX_REPLICAS_def SLM_REPLRQ_NBMAPS_MAX_def)
  moreover have "brepl (bmi_repls b') 0 = BREPLST_GARBAGE_QUEUED"
    using d(3) [of 0] assms(10,11) by (simp add: SL_MAX_REPLICAS_def dropped_def brepl_simps)
  ultimately show ?thesis using d(2) by blast
qed

text \<open>
  C34. Bandwidth is reserved within the limit of the source and given back in full: an accepted
  reservation leaves the source with at most the configured number of units pending, and the
  release of the same amount restores what was pending at both ends. A refused one changes
  nothing.
\<close>

theorem bw_reserve_release:
  assumes "0 < amt" "src \<noteq> dst" "0 < slm_upsch_bandwidth s"
    and "0 \<le> si_repl_egress_pending (iosinfo s src)" "0 \<le> si_repl_ingress_pending (iosinfo s dst)"
  shows "\<exists>s1 ret. resmpair_bw_adj src dst amt 0 s = Some (s1, ret) \<and>
    (if ret = 0 then s1 = s
     else si_repl_ingress_pending (iosinfo s1 src) + si_repl_egress_pending (iosinfo s1 src) \<le> slm_upsch_bandwidth s * BW_UNITSZ \<and>
       (\<exists>s2. resmpair_bw_adj src dst (- amt) rc s1 = Some (s2, 1) \<and>
         (\<forall>r. si_repl_ingress_pending (iosinfo s2 r) = si_repl_ingress_pending (iosinfo s r) \<and>
              si_repl_egress_pending (iosinfo s2 r) = si_repl_egress_pending (iosinfo s r))))"
proof (cases "si_repl_ingress_pending (iosinfo s src) + si_repl_egress_pending (iosinfo s src) + amt > slm_upsch_bandwidth s * BW_UNITSZ")
  case True
  then show ?thesis using assms(1,3) by (simp add: resmpair_bw_adj_def psc_assert_def Let_def)
next
  case False
  then show ?thesis using assms by (simp add: resmpair_bw_adj_def psc_assert_def Let_def)
qed

text \<open>
  The limit of the destination is not looked at: both sums of \<^verbatim>\<open>resmpair_bw_adj\<close> are those of the
  source, so a reservation is accepted for a destination that already has more than the limit
  pending.
\<close>

theorem bw_destination_ignored:
  assumes "0 < amt" "src \<noteq> dst"
    and "si_repl_ingress_pending (iosinfo s src) + si_repl_egress_pending (iosinfo s src) + amt \<le> slm_upsch_bandwidth s * BW_UNITSZ"
  shows "\<exists>s1. resmpair_bw_adj src dst amt 0 s = Some (s1, 1) \<and>
    si_repl_ingress_pending (iosinfo s1 dst) = si_repl_ingress_pending (iosinfo s dst) + amt"
  using assms by (simp add: resmpair_bw_adj_def psc_assert_def Let_def)

text \<open>
  C30. The copy of the old states is refreshed at every step of the walk over the other replicas, so
  when the last of them is not changed the worker sees no difference: the replicas that became
  garbage get no row in the table and are never reclaimed.
\<close>

theorem inv_except_drops_work:
  assumes "fcmh_ok f" "cached f n b" "slm_opstate s = SLM_OPSTATE_NORMAL" "iosidx < fcmh_2_nrepls f"
    and "1 < fcmh_2_nrepls f" "bes_replpol b \<noteq> BRPOL_PERSIST" "outdates (fcmh_2_nrepls f) iosidx (bmi_repls b)"
    and "brepl (bmi_repls b) (last_other (fcmh_2_nrepls f) iosidx) \<notin> {BREPLST_VALID, BREPLST_REPL_SCHED}"
  shows "\<exists>b' f' s' f'' s'' c. mds_repl_inv_except iosidx b f s = Some (b', f', s', 0) \<and>
    slm_wkcb_wr_brepl cfg n (f'\<lparr>fcmh_bmaptree := (fcmh_bmaptree f')(n \<mapsto> b')\<rparr>) s' = Some (f'', s'') \<and>
    upsch s'' = upsch s \<and> fcmh_bmaptree f'' n = Some c \<and> bcm_flags c AND BMAPF_REPLMODWR = 0 \<and>
    (\<forall>k. k < fcmh_2_nrepls f \<and> k \<noteq> iosidx \<and> brepl (bmi_repls b) k = BREPLST_VALID \<longrightarrow>
       brepl (bmi_repls c) k = BREPLST_GARBAGE_QUEUED)"
proof -
  let ?nr = "fcmh_2_nrepls f" and ?l = "last_other (fcmh_2_nrepls f) iosidx"
  have b: "bmap_ok b" "bcm_flags b AND BMAPF_REPLMODWR = 0" "0 < bcm_opcnt b" "bcm_bmapno b = n"
    using assms(2) by (simp_all add: cached_def)
  obtain repls orepls where eq: "mds_repl_inv_except iosidx b f s =
       (let ch = outdates ?nr iosidx (bmi_repls b);
            c = b\<lparr>bmi_repls := repls, bmi_orepls := orepls, bes_gen := if ch then bes_gen b + 1 else bes_gen b\<rparr>;
            (b', s') = (if bes_replpol b = BRPOL_PERSIST then upsch_enqueue (wr_mark ch c) f (wr_queue ch c f s)
                        else (wr_mark ch c, wr_queue ch c f s))
        in Some (b', wr_file c f, s', 0))"
    and ok: "repls_ok repls" "repls_ok orepls"
    and st: "\<And>k. k < SL_MAX_REPLICAS \<Longrightarrow> brepl repls k =
       (if k = iosidx then activated (brepl (bmi_repls b) k)
        else if k < ?nr then outdated (bes_replpol b) (brepl (bmi_repls b) k) else brepl (bmi_repls b) k)"
    and old: "\<And>k. 1 < ?nr \<Longrightarrow> k < SL_MAX_REPLICAS \<Longrightarrow> brepl orepls k =
       (if k = ?l then brepl (bmi_repls b) k else brepl repls k)"
    by (rule inv_except_eq [OF assms(1) b(1,2) assms(3,4)]) blast
  let ?c = "b\<lparr>bmi_repls := repls, bmi_orepls := orepls, bes_gen := bes_gen b + 1\<rparr>"
  let ?b = "wr_mark True ?c" and ?f = "wr_file ?c f" and ?s = "wr_queue True ?c f s"
  let ?g = "?f\<lparr>fcmh_bmaptree := (fcmh_bmaptree ?f)(n \<mapsto> ?b)\<rparr>"
  have "mds_repl_inv_except iosidx b f s = Some (?b, ?f, ?s, 0)" using eq assms(6,7) by (simp add: Let_def)
  moreover have "brepl orepls k = brepl repls k" if "k < ?nr" for k
    using that old [OF assms(5), of k] st [of k] last_other [OF assms(5), of iosidx] assms(8) fcmh_nr [OF assms(1)]
    by (auto simp: outdated_def)
  then have "slm_wkcb_wr_brepl cfg n ?g ?s = Some (?g\<lparr>fcmh_bmaptree := (fcmh_bmaptree ?g)(n \<mapsto> released ?b)\<rparr>, ?s)"
    using assms(1) ok b(3,4) by (intro worker_unchanged) (simp_all add: wr_mark_def fcmh_ok_def wr_file_def)
  moreover have "upsch ?s = upsch s" by (simp add: wr_queue_def)
  moreover have "bcm_flags (released ?b) AND BMAPF_REPLMODWR = 0"
    unfolding released_def BMAPF_REPLMODWR_def flag_bit by (simp add: bit_and_iff bit_not_iff flag_bits)
  moreover have "brepl (bmi_repls (released ?b)) k = BREPLST_GARBAGE_QUEUED"
    if "k < ?nr" "k \<noteq> iosidx" "brepl (bmi_repls b) k = BREPLST_VALID" for k
    using that st [of k] assms(6) fcmh_nr [OF assms(1)] by (simp add: released_def outdated_def wr_mark_def)
  ultimately show ?thesis
    by (intro exI [of _ ?b] exI [of _ ?f] exI [of _ ?s] exI [of _ "released ?b"]
        exI [of _ "?g\<lparr>fcmh_bmaptree := (fcmh_bmaptree ?g)(n \<mapsto> released ?b)\<rparr>"]) simp
qed

lemma sample_file_ok:
  assumes "length t \<le> SL_MAX_REPLICAS" "length r \<le> SL_REPLICA_NBYTES"
  shows "fcmh_ok (sample_file t r)" "fcmh_2_nrepls (sample_file t r) = length t" "cached (sample_file t r) 0 (sample_cached r)"
    "ios_table (fcmh_inoh (sample_file t r)) = t"
proof -
  show "fcmh_ok (sample_file t r)" "fcmh_2_nrepls (sample_file t r) = length t"
    using sample_fcmh_ok [OF assms(1)] by (simp_all add: sample_file_def fcmh_ok_def)
  have "bmap_ok (sample_cached r)" using sample_bmap_ok(1) [OF assms(2), of 5] by (simp add: sample_cached_def bmap_ok_def)
  then show "cached (sample_file t r) 0 (sample_cached r)"
    by (simp add: cached_def sample_file_def sample_cached_def sample_bmap_ok flag_vals)
      (simp add: sample_bmap_def fresh_bmap_def mds_bmap_init_def bmap_zero_def repls_ok_def)
  show "ios_table (fcmh_inoh (sample_file t r)) = t"
    using sample_ok(2) [OF assms(1)] by (simp add: sample_file_def sample_fcmh_def)
qed

lemma sample_repls:
  "length r \<le> SL_REPLICA_NBYTES \<Longrightarrow> bmi_repls (sample_cached r) = r @ replicate (SL_REPLICA_NBYTES - length r) 0"
  "bes_replpol (sample_cached r) = 0"
  by (simp_all add: sample_cached_def sample_bmap_def fresh_bmap_def mds_bmap_init_def bmap_zero_def)

text \<open>Three replicas: the first two valid, the third invalid.\<close>

lemma sample_states: "brepl (bmi_repls (sample_cached [27])) 0 = BREPLST_VALID"
  "brepl (bmi_repls (sample_cached [27])) 1 = BREPLST_VALID" "brepl (bmi_repls (sample_cached [27])) 2 = BREPLST_INVALID"
  by (simp_all add: sample_repls bod_sizes brepl_def buf_bit_def breplst_defs)

lemma sample3: "fcmh_ok (sample_file [10, 20, 30] [27])" "fcmh_2_nrepls (sample_file [10, 20, 30] [27]) = 3"
  "cached (sample_file [10, 20, 30] [27]) 0 (sample_cached [27])" "ios_table (fcmh_inoh (sample_file [10, 20, 30] [27])) = [10, 20, 30]"
  "outdates (fcmh_2_nrepls (sample_file [10, 20, 30] [27])) 0 (bmi_repls (sample_cached [27]))"
proof -
  show n: "fcmh_2_nrepls (sample_file [10, 20, 30] [27]) = 3"
    using sample_file_ok(2) [of "[10, 20, 30]" "[27]"] by (simp add: bod_sizes)
  show "outdates (fcmh_2_nrepls (sample_file [10, 20, 30] [27])) 0 (bmi_repls (sample_cached [27]))"
    using sample_states(2) unfolding n outdates_def by (simp add: upt_rec)
qed (rule sample_file_ok; simp add: bod_sizes)+

theorem bmap_walk_refines_witness:
  "\<exists>b' rc. mds_repl_bmap_walk 3 (sample_cached [27]) (Some (inv_others_tract 0)) (Some inv_others_retifset) REPL_WALKF_MODOTH [0, 2]
      (no_cb :: unit walkcb option) () = Some (b', rc, ()) \<and>
    brepl (bmi_repls b') 0 = BREPLST_VALID \<and> brepl (bmi_repls b') 1 = BREPLST_GARBAGE_QUEUED \<and> rc \<noteq> 0"
proof -
  let ?b = "sample_cached [27]"
  have p: "repls_ok (bmi_repls ?b)" "bcm_flags ?b AND BMAPF_REPLMODWR = 0"
    using sample3(3) by (simp_all add: cached_def bmap_ok_def)
  have q: "length inv_others_retifset = NBREPLST" "3 \<le> SL_MAX_REPLICAS" "sorted [0, 2 :: nat]" "distinct [0, 2 :: nat]"
    "\<forall>k \<in> set [0, 2]. k < SL_MAX_REPLICAS" "REPL_WALKF_MODOTH AND REPL_WALKF_SCIRCUIT = 0"
    using inv_tables(4) by (simp_all add: ret_ok_def SL_MAX_REPLICAS_def REPL_WALKF_MODOTH_def REPL_WALKF_SCIRCUIT_def)
  have v: "walk_visits 3 REPL_WALKF_MODOTH [0, 2] = [1]" by (simp add: walk_visits_def REPL_WALKF_MODOTH_def upt_rec)
  obtain b' rc where r: "mds_repl_bmap_walk 3 ?b (Some (inv_others_tract 0)) (Some inv_others_retifset) REPL_WALKF_MODOTH [0, 2]
      (no_cb :: unit walkcb option) () = Some (b', rc, ())"
    "map (brepl (bmi_repls b')) [0..<SL_MAX_REPLICAS] = map (\<lambda>k. if k \<in> set [1] then tr (inv_others_tract 0) (brepl (bmi_repls ?b) k)
       else brepl (bmi_repls ?b) k) [0..<SL_MAX_REPLICAS]"
    "rc \<noteq> 0 \<longleftrightarrow> list_ex (\<lambda>k. inv_others_retifset ! nat (brepl (bmi_repls ?b) k) \<noteq> 0) [1]"
    using bmap_walk_refines [OF p(1) inv_tables(3) q(1-5) p(2) q(6), of 0, unfolded v] by (elim exE conjE) (rule that)
  have k: "0 < SL_MAX_REPLICAS" "1 < SL_MAX_REPLICAS" by (simp_all add: SL_MAX_REPLICAS_def)
  have "brepl (bmi_repls b') 0 = brepl (bmi_repls ?b) 0" "brepl (bmi_repls b') 1 = tr (inv_others_tract 0) (brepl (bmi_repls ?b) 1)"
    using arg_cong [OF r(2), of "\<lambda>xs. xs ! 0"] arg_cong [OF r(2), of "\<lambda>xs. xs ! 1"] k by simp_all
  moreover have "rc \<noteq> 0" using r(3) sample_states(2) by (simp add: inv_others_retifset_def brepl_simps)
  ultimately show ?thesis using r(1) sample_states
    by (intro exI [of _ b'] exI [of _ rc]) (simp add: inv_others_tract_def tr_def brepl_simps BRPOL_PERSIST_def)
qed

theorem inv_except_witness:
  "\<exists>b' f' s'. mds_repl_inv_except 0 (sample_cached [27]) (sample_file [10, 20, 30] [27]) sample_slm = Some (b', f', s', 0) \<and>
     brepl (bmi_repls b') 0 = BREPLST_VALID \<and> brepl (bmi_repls b') 1 = BREPLST_GARBAGE_QUEUED \<and> bes_gen b' = 6"
proof -
  let ?b = "sample_cached [27]" and ?f = "sample_file [10, 20, 30] [27]"
  note f = sample3
  have i: "0 < fcmh_2_nrepls ?f" using f(2) by simp
  obtain b' f' s' where r: "mds_repl_inv_except 0 ?b ?f sample_slm = Some (b', f', s', 0)"
    "\<forall>k < SL_MAX_REPLICAS. brepl (bmi_repls b') k =
       (if k = 0 then activated (brepl (bmi_repls ?b) k)
        else if k < fcmh_2_nrepls ?f then outdated (bes_replpol ?b) (brepl (bmi_repls ?b) k) else brepl (bmi_repls ?b) k)"
    "bes_gen b' = bes_gen ?b + of_bool (outdates (fcmh_2_nrepls ?f) 0 (bmi_repls ?b))"
    using inv_except [OF f(1,3) sample_slm_fields(2) i] by (elim exE conjE) (rule that)
  have "bes_gen ?b = 5" by (simp add: sample_cached_def sample_bmap_ok)
  then have "bes_gen b' = 6" using r(3) f(5) by simp
  moreover have "brepl (bmi_repls b') 0 = BREPLST_VALID" "brepl (bmi_repls b') 1 = BREPLST_GARBAGE_QUEUED"
    using r(2) [rule_format, of 0] r(2) [rule_format, of 1] sample_states f(2)
    by (simp_all add: SL_MAX_REPLICAS_def activated_def outdated_def sample_repls BRPOL_PERSIST_def brepl_simps)
  ultimately show ?thesis using r(1) by blast
qed

theorem inv_except_drops_work_witness:
  "\<exists>b' f' s' f'' s'' c.
     mds_repl_inv_except 0 (sample_cached [27]) (sample_file [10, 20, 30] [27]) sample_slm = Some (b', f', s', 0) \<and>
     slm_wkcb_wr_brepl all_fs 0 (f'\<lparr>fcmh_bmaptree := (fcmh_bmaptree f')(0 \<mapsto> b')\<rparr>) s' = Some (f'', s'') \<and>
     upsch s'' = [] \<and> fcmh_bmaptree f'' 0 = Some c \<and> brepl (bmi_repls c) 1 = BREPLST_GARBAGE_QUEUED"
proof -
  let ?b = "sample_cached [27]" and ?f = "sample_file [10, 20, 30] [27]"
  note f = sample3
  have p: "0 < fcmh_2_nrepls ?f" "1 < fcmh_2_nrepls ?f" "bes_replpol ?b \<noteq> BRPOL_PERSIST"
    using f(2) by (simp_all add: sample_repls BRPOL_PERSIST_def)
  have "last_other (fcmh_2_nrepls ?f) 0 = 2" using f(2) by (simp add: last_other_def upt_rec)
  then have l: "brepl (bmi_repls ?b) (last_other (fcmh_2_nrepls ?f) 0) \<notin> {BREPLST_VALID, BREPLST_REPL_SCHED}"
    using sample_states(3) by (simp add: brepl_simps)
  obtain b' f' s' f'' s'' c where r: "mds_repl_inv_except 0 ?b ?f sample_slm = Some (b', f', s', 0)"
    "slm_wkcb_wr_brepl all_fs 0 (f'\<lparr>fcmh_bmaptree := (fcmh_bmaptree f')(0 \<mapsto> b')\<rparr>) s' = Some (f'', s'')"
    "upsch s'' = upsch sample_slm" "fcmh_bmaptree f'' 0 = Some c"
    "\<forall>k. k < fcmh_2_nrepls ?f \<and> k \<noteq> 0 \<and> brepl (bmi_repls ?b) k = BREPLST_VALID \<longrightarrow>
       brepl (bmi_repls c) k = BREPLST_GARBAGE_QUEUED"
    using inv_except_drops_work [OF f(1,3) sample_slm_fields(2) p f(5) l, of all_fs] by (elim exE conjE) (rule that)
  have "brepl (bmi_repls c) 1 = BREPLST_GARBAGE_QUEUED" using r(5) [rule_format, of 1] sample_states(2) f(2) by simp
  then show ?thesis using r(1-4) sample_slm_fields(5) by auto
qed

lemma sample_nvalid: "fcmh_nvalidbmaps (sample_file t r) = 1" "\<not> fcmh_isdir (sample_file t r)"
  by (simp_all add: fcmh_nvalidbmaps_def sample_file_def sample_fcmh_def SLASH_BMAP_SIZE_def)

theorem delrq_keeps_valid_witness:
  "\<exists>f' s' rc np b'. mds_repl_delrq all_fs 0 0 1 [20] (sample_file [10, 20, 30] [27]) sample_slm = Some (f', s', rc, np) \<and>
    fcmh_bmaptree f' 0 = Some b' \<and> known_valid all_fs f' (bmi_repls b') []"
proof -
  let ?f = "sample_file [10, 20, 30] [27]" and ?b = "sample_cached [27]"
  have kv: "known_valid all_fs ?f (bmi_repls ?b) []"
    using sample_states(1) by (simp add: known_valid_def sample3 upt_rec all_fs_def)
  have c: "\<forall>n. unat n < fcmh_nvalidbmaps ?f \<longrightarrow> (\<exists>b. cached ?f n b)"
    using sample3(3) by (auto simp: sample_nvalid unat_eq_0)
  have v: "fcmh_nvalidbmaps ?f < 2 ^ 32" by (simp add: sample_nvalid)
  obtain f' s' rc np where r: "mds_repl_delrq all_fs 0 0 1 [20] ?f sample_slm = Some (f', s', rc, np)"
    "\<forall>n b. unat n < fcmh_nvalidbmaps ?f \<and> cached ?f n b \<and> known_valid all_fs ?f (bmi_repls b) [] \<longrightarrow>
       (\<exists>b'. fcmh_bmaptree f' n = Some b' \<and> known_valid all_fs f' (bmi_repls b') [])"
    using delrq_keeps_valid [OF sample3(1) sample_slm_fields(2) sample_nvalid(2) v c, of all_fs 0 0 1 "[20]"]
    by (elim exE conjE) (rule that)
  have "unat (0 :: u32) < fcmh_nvalidbmaps ?f" by (simp add: sample_nvalid)
  then obtain b' where "fcmh_bmaptree f' 0 = Some b'" "known_valid all_fs f' (bmi_repls b') []"
    using r(2) sample3(3) kv by blast
  then show ?thesis using r(1) by blast
qed

theorem addrq_bmap_spec_witness:
  "\<exists>f' s' rc b'. addrq_bmap all_fs [2] (-1) (-1) 0 (sample_file [10, 20, 30] [27]) sample_slm = Some (f', s', rc) \<and>
    fcmh_bmaptree f' 0 = Some b' \<and> brepl (bmi_repls b') 2 = BREPLST_REPL_QUEUED"
proof -
  let ?f = "sample_file [10, 20, 30] [27]" and ?b = "sample_cached [27]"
  have p: "distinct [2 :: nat]" "[2 :: nat] \<noteq> []" "\<forall>k \<in> set [2]. k < fcmh_2_nrepls ?f" by (simp_all add: sample3)
  have has: "list_ex (\<lambda>k. brepl (bmi_repls ?b) k = BREPLST_VALID) [0..<fcmh_2_nrepls ?f]"
    using sample_states(1) by (simp add: sample3 upt_rec)
  obtain f' s' rc b' where r: "addrq_bmap all_fs [2] (-1) (-1) 0 ?f sample_slm = Some (f', s', rc)"
    "fcmh_bmaptree f' 0 = Some b'"
    "\<forall>k < SL_MAX_REPLICAS. brepl (bmi_repls b') k =
       (if k \<in> set [2] then requested (brepl (bmi_repls ?b) k) else brepl (bmi_repls ?b) k)"
    using addrq_bmap_spec [OF sample3(1,3) sample_slm_fields(2) p, of all_fs "-1" "-1", unfolded if_P [OF has]]
    by (elim exE conjE) (rule that)
  have "brepl (bmi_repls b') 2 = BREPLST_REPL_QUEUED"
    using r(3) [rule_format, of 2] sample_states(3) by (simp add: SL_MAX_REPLICAS_def requested_def)
  then show ?thesis using r(1,2) by blast
qed

theorem delrq_wrong_replica_witness:
  "\<exists>f' s' b'. mds_repl_delrq all_fs 0 0 1 [60] (sample_file [10, 20, 30, 40, 50] [27]) sample_slm = Some (f', s', 0, 1) \<and>
    fcmh_bmaptree f' 0 = Some b' \<and> brepl (bmi_repls b') 0 = BREPLST_GARBAGE_QUEUED"
proof -
  let ?t = "[10, 20, 30, 40, 50] :: u32 list"
  let ?f = "sample_file ?t [27]" and ?b = "sample_cached [27]"
  have l: "length ?t \<le> SL_MAX_REPLICAS" "length [27 :: u8] \<le> SL_REPLICA_NBYTES" by (simp_all add: bod_sizes)
  note f = sample_file_ok [OF l]
  have n: "SL_DEF_REPLICAS < fcmh_2_nrepls ?f" "60 \<notin> set (ios_table (fcmh_inoh ?f))" "0 < fcmh_nvalidbmaps ?f"
    by (simp_all add: f(2,4) SL_DEF_REPLICAS_def sample_nvalid)
  have r: "all_fs 60 = Some \<lparr>res_id = 60, res_type = SLREST_STANDALONE_FS\<rparr>" "RES_ISFS \<lparr>res_id = 60, res_type = SLREST_STANDALONE_FS\<rparr>"
    by (simp_all add: all_fs_def RES_ISFS_def)
  have "known_valid all_fs ?f (bmi_repls ?b) [0]"
    unfolding known_valid_def f(2,4) using sample_states(2) by (simp add: upt_rec all_fs_def)
  then show ?thesis
    by (rule delrq_wrong_replica [where cfg = all_fs, OF f(1,3) sample_slm_fields(2) sample_nvalid(2) n(3,1,2) r sample_states(1)])
qed

theorem bw_reserve_release_witness:
  "\<exists>s1 s2. resmpair_bw_adj 10 20 1000 0 (sample_slm\<lparr>slm_upsch_bandwidth := 1\<rparr>) = Some (s1, 1) \<and>
    si_repl_egress_pending (iosinfo s1 10) = 1000 \<and> resmpair_bw_adj 10 20 (- 1000) 0 s1 = Some (s2, 1) \<and>
    si_repl_egress_pending (iosinfo s2 10) = 0"
proof -
  let ?s = "sample_slm\<lparr>slm_upsch_bandwidth := 1\<rparr>"
  obtain s1 ret where r: "resmpair_bw_adj 10 20 1000 0 ?s = Some (s1, ret)"
    "if ret = 0 then s1 = ?s
     else si_repl_ingress_pending (iosinfo s1 10) + si_repl_egress_pending (iosinfo s1 10) \<le> slm_upsch_bandwidth ?s * BW_UNITSZ \<and>
       (\<exists>s2. resmpair_bw_adj 10 20 (- 1000) 0 s1 = Some (s2, 1) \<and>
         (\<forall>r. si_repl_ingress_pending (iosinfo s2 r) = si_repl_ingress_pending (iosinfo ?s r) \<and>
              si_repl_egress_pending (iosinfo s2 r) = si_repl_egress_pending (iosinfo ?s r)))"
    using bw_reserve_release [of 1000 10 20 ?s 0] by (simp add: sample_slm_def) blast
  have "ret = 1" "si_repl_egress_pending (iosinfo s1 10) = 1000"
    using r(1) by (auto simp: resmpair_bw_adj_def psc_assert_def sample_slm_def BW_UNITSZ_def Let_def)
  then show ?thesis using r by (auto simp: sample_slm_def)
qed

theorem bw_destination_ignored_witness:
  "\<exists>s1. resmpair_bw_adj 10 20 1000 0 (sample_slm\<lparr>slm_upsch_bandwidth := 1,
      iosinfo := (iosinfo sample_slm)(20 := (iosinfo sample_slm 20)\<lparr>si_repl_ingress_pending := 5000000\<rparr>)\<rparr>) = Some (s1, 1) \<and>
    si_repl_ingress_pending (iosinfo s1 20) = 5001000"
  using bw_destination_ignored [of 1000 10 20 "sample_slm\<lparr>slm_upsch_bandwidth := 1,
      iosinfo := (iosinfo sample_slm)(20 := (iosinfo sample_slm 20)\<lparr>si_repl_ingress_pending := 5000000\<rparr>)\<rparr>"]
  by (simp add: sample_slm_def BW_UNITSZ_def)

end
