(* ===== verification/Resm_Select.thy ===== *)
theory Resm_Select
  imports Repl "HOL-Library.Multiset"
begin

text \<open>
  The choice of an I/O server for a write lease (\<^verbatim>\<open>slashd/mds.c\<close>): the test whether a server can take a lease,
  the list of candidates and the selection. A member of a resource is named by the identifier of its own
  resource, \<^verbatim>\<open>resm_res_id\<close>.

  The record \<open>lenv\<close> holds what the routines ask the configuration, the network and the clock. Random numbers are
  drawn from a list that is passed on; an exhausted list yields zeros.
\<close>

subsection \<open>The environment\<close>

record lenv =
  l_members :: "u32 \<Rightarrow> u32 list"
  l_site :: "u32 list"
  l_online :: "u32 \<Rightarrow> bool"
  l_lastcomm :: "u32 \<Rightarrow> int \<times> int"
  l_clock :: "int \<times> int"
  l_max_ios :: int
  l_time :: u64
  l_cli_online :: "nat \<Rightarrow> bool"
  l_cli_newreq_rc :: int
  l_cli_nbset_rc :: int
  l_lease_timeout :: u64
  l_force_dio :: bool

definition SLERR_ION_OFFLINE :: int where "SLERR_ION_OFFLINE = 1000 + 10"
definition SLERR_ION_READONLY :: int where "SLERR_ION_READONLY = 1000 + 28"
definition IOS_ID_ANY :: u32 where "IOS_ID_ANY = -1"
definition CSVC_PING_INTV :: int where "CSVC_PING_INTV = 30"
definition INOF_IOS_AFFINITY :: u32 where "INOF_IOS_AFFINITY = push_bit 0 1"

definition RES_ISCLUSTER :: "sl_resource \<Rightarrow> bool" where
  "RES_ISCLUSTER r \<longleftrightarrow> res_type r \<in> {SLREST_CLUSTER_NOSHARE_LFS, SLREST_PARALLEL_LFS}"

text \<open>Values of the generator below the remainder are drawn again, so that every result is equally likely.\<close>

fun psc_random32u :: "nat \<Rightarrow> u32 list \<Rightarrow> nat \<times> u32 list" where
  "psc_random32u n [] = (0, [])"
| "psc_random32u n (r # rs) =
     (if n < 2 then (0, r # rs)
      else if unat r < 2 ^ 32 mod n then psc_random32u n rs
      else (unat r mod n, rs))"

subsection \<open>Candidates\<close>

definition mds_sliod_alive :: "lenv \<Rightarrow> u32 \<Rightarrow> bool" where
  "mds_sliod_alive env ios =
     (let (sec, nsec) = l_lastcomm env ios; (asec, ansec) = l_clock env; bsec = sec + CSVC_PING_INTV * 2
      in sec \<noteq> 0 \<and> (asec < bsec \<or> asec = bsec \<and> ansec < nsec))"

definition slm_try_sliodresm :: "lenv \<Rightarrow> slm \<Rightarrow> u32 \<Rightarrow> nat \<Rightarrow> int" where
  "slm_try_sliodresm env s resm repls =
     (if si_flags (iosinfo s resm) AND SIF_DISABLE_LEASE \<noteq> 0 then - SLERR_ION_READONLY
      else if repls = 0 \<and> si_flags (iosinfo s resm) AND SIF_DISABLE_ADVLEASE \<noteq> 0 then - SLERR_ION_READONLY
      else if \<not> l_online env resm then - SLERR_ION_OFFLINE
      else if \<not> mds_sliod_alive env resm then - SLERR_ION_OFFLINE
      else 0)"

definition swap_at :: "'a list \<Rightarrow> nat \<Rightarrow> nat \<Rightarrow> 'a list" where
  "swap_at a i j = a[i := a ! j, j := a ! i]"

fun shuffle_loop :: "nat \<Rightarrow> nat list \<Rightarrow> u32 list \<Rightarrow> u32 list \<Rightarrow> u32 list \<times> u32 list" where
  "shuffle_loop begin [] a rs = (a, rs)"
| "shuffle_loop begin (i # is) a rs =
     (let (r, rs) = psc_random32u (i + 1) rs
      in shuffle_loop begin is (swap_at a (begin + i) (begin + r)) rs)"

definition slm_res_shuffle :: "nat \<Rightarrow> u32 list \<Rightarrow> u32 list \<Rightarrow> u32 list \<times> u32 list" where
  "slm_res_shuffle begin a rs = shuffle_loop begin [1..<length a - begin] a rs"

definition slm_res_fillmembers :: "lenv \<Rightarrow> u32 \<Rightarrow> bool \<Rightarrow> u32 list \<Rightarrow> u32 list \<Rightarrow> u32 list \<times> u32 list" where
  "slm_res_fillmembers env r shuffle a rs =
     (let begin = length a;
          a = foldl (\<lambda>a m. if m \<in> set a then a else a @ [m]) a (l_members env r)
      in if shuffle then slm_res_shuffle begin a rs else (a, rs))"

fun fill_site :: "lenv \<Rightarrow> sl_config \<Rightarrow> u32 \<Rightarrow> u32 list \<Rightarrow> u32 list \<Rightarrow> u32 list" where
  "fill_site env cfg pios [] a = a"
| "fill_site env cfg pios (r # rs) a =
     (case cfg r of
        None \<Rightarrow> fill_site env cfg pios rs a
      | Some res \<Rightarrow>
          if \<not> RES_ISFS res \<or> r = pios \<or> res_type res = SLREST_ARCHIVAL_FS then fill_site env cfg pios rs a
          else fill_site env cfg pios rs (fst (slm_res_fillmembers env r False a [])))"

fun fill_repls :: "lenv \<Rightarrow> sl_config \<Rightarrow> slm_inoh \<Rightarrow> nat list \<Rightarrow> u32 list \<Rightarrow> u32 list option" where
  "fill_repls env cfg ih [] a = Some a"
| "fill_repls env cfg ih (i # is) a =
     do {
       id \<leftarrow> fcmh_getrepl ih i;
       fill_repls env cfg ih is (if cfg id \<noteq> None then fst (slm_res_fillmembers env id False a []) else a)
     }"

text \<open>The affinity flag is looked up in the flags of the handle, as in the code.\<close>

definition slm_get_ioslist :: "lenv \<Rightarrow> sl_config \<Rightarrow> fcmh \<Rightarrow> u32 \<Rightarrow> u32 list \<Rightarrow> u32 list \<Rightarrow> (u32 list \<times> u32 list) option" where
  "slm_get_ioslist env cfg f piosid a rs =
     (case cfg piosid of
        None \<Rightarrow> Some (a, rs)
      | Some pios \<Rightarrow>
          if \<not> RES_ISFS pios \<and> \<not> RES_ISCLUSTER pios then Some (a, rs)
          else do {
            let max_ios = nat (if l_max_ios env < 1 then 1
              else if l_max_ios env > int SL_MAX_REPLICAS then int SL_MAX_REPLICAS else l_max_ios env);
            (a, begin, rs) \<leftarrow>
              (if fcmh_2_nrepls f < max_ios then do {
                 (a, rs) \<leftarrow> (if inoh_flags (fcmh_inoh f) AND INOF_IOS_AFFINITY \<noteq> 0 then do {
                     id \<leftarrow> fcmh_getrepl (fcmh_inoh f) 0;
                     Some (if cfg id \<noteq> None then slm_res_fillmembers env id True a rs else (a, rs))
                   } else Some (a, rs));
                 let (a, rs) = slm_res_fillmembers env piosid True a rs;
                 Some (fill_site env cfg piosid (l_site env) a, length a, rs)
               } else do {
                 let begin = length a;
                 a \<leftarrow> fill_repls env cfg (fcmh_inoh f) [0..<max_ios] a;
                 Some (a, begin, rs)
               });
            Some (slm_res_shuffle begin a rs)
          })"

subsection \<open>Selection\<close>

definition libsl_try_ios2resm :: "lenv \<Rightarrow> sl_config \<Rightarrow> u32 \<Rightarrow> u32 option option" where
  "libsl_try_ios2resm env cfg ios =
     (case cfg ios of
        None \<Rightarrow> Some None
      | Some r \<Rightarrow> do { psc_assert (RES_ISFS r); m \<leftarrow> rd (l_members env ios) 0; Some (Some m) })"

text \<open>The valid replicas: their number, and the servers that are known, the preferred one in front.\<close>

fun valid_loop :: "lenv \<Rightarrow> sl_config \<Rightarrow> u32 \<Rightarrow> bmap \<Rightarrow> slm_inoh \<Rightarrow> nat list \<Rightarrow> nat \<Rightarrow> u32 list \<Rightarrow> (nat \<times> u32 list) option" where
  "valid_loop env cfg pios b ih [] repls a = Some (repls, a)"
| "valid_loop env cfg pios b ih (i # is) repls a =
     do {
       val \<leftarrow> SL_REPL_GET_BMAP_IOS_STAT (bmi_repls b) (i * SL_BITS_PER_REPLICA);
       if val \<noteq> BREPLST_VALID then valid_loop env cfg pios b ih is repls a
       else do {
         ios \<leftarrow> fcmh_getrepl ih i;
         mo \<leftarrow> libsl_try_ios2resm env cfg ios;
         case mo of
           None \<Rightarrow> valid_loop env cfg pios b ih is (repls + 1) a
         | Some m \<Rightarrow>
             let a = a @ [m];
                 a = (if pios = ios \<and> length a > 2 then swap_at a 0 (length a - 1) else a)
             in valid_loop env cfg pios b ih is (repls + 1) a
       }
     }"

fun select_loop :: "lenv \<Rightarrow> slm \<Rightarrow> nat \<Rightarrow> u32 list \<Rightarrow> u32 list \<Rightarrow> int \<Rightarrow> int \<times> u32 option" where
  "select_loop env s repls to_skip [] rc = (rc, None)"
| "select_loop env s repls to_skip (m # ms) rc =
     (if m \<in> set to_skip then select_loop env s repls to_skip ms rc
      else let rc = slm_try_sliodresm env s m repls
           in if rc = 0 then (0, Some m) else select_loop env s repls to_skip ms rc)"

text \<open>The return code and the server; no server is the pointer that was not set.\<close>

definition slm_resm_select ::
  "lenv \<Rightarrow> sl_config \<Rightarrow> bmap \<Rightarrow> u32 \<Rightarrow> u32 list \<Rightarrow> u32 list \<Rightarrow> fcmh \<Rightarrow> slm \<Rightarrow> (fcmh \<times> int \<times> u32 option) option" where
  "slm_resm_select env cfg b pios to_skip rs f s =
     do {
       let nr = fcmh_2_nrepls f;
       (f, rc, load_err) \<leftarrow>
         (if nr > SL_DEF_REPLICAS then do {
            (ih, mf, rc) \<leftarrow> mds_inox_ensure_loaded (slm_crc_check s) (fcmh_fid f) (fcmh_inoh f) (fcmh_mf f);
            Some (f\<lparr>fcmh_inoh := ih, fcmh_mf := mf\<rparr>, rc, rc \<noteq> 0)
          } else Some (f, - SLERR_ION_OFFLINE, False));
       if load_err then Some (f, rc, None)
       else do {
         (repls, a) \<leftarrow> valid_loop env cfg pios b (fcmh_inoh f) [0..<nr] 0 [];
         if to_skip \<noteq> [] \<and> repls \<noteq> 1 then Some (f, rc, None)
         else do {
           bad \<leftarrow> (if to_skip = [] then Some False
                   else do { m \<leftarrow> rd a 0; Some (m \<notin> set to_skip \<or> m = IOS_ID_ANY) });
           if bad then Some (f, rc, None)
           else do {
             (a, rs) \<leftarrow> (if repls = 0 then slm_get_ioslist env cfg f pios a rs else Some (a, rs));
             let (rc, m) = select_loop env s repls to_skip a rc;
             Some (f, rc, m)
           }
         }
       }
     }"

subsection \<open>The abstract choice\<close>

text \<open>The replicas of the block that hold valid data, and the servers of those that the configuration knows.\<close>

definition valid_idx :: "bmap \<Rightarrow> nat list \<Rightarrow> nat list" where
  "valid_idx b is = filter (\<lambda>i. brepl (bmi_repls b) i = BREPLST_VALID) is"

definition servers :: "lenv \<Rightarrow> sl_config \<Rightarrow> slm_inoh \<Rightarrow> nat list \<Rightarrow> u32 list" where
  "servers env cfg ih is =
     map (\<lambda>i. hd (l_members env (ios_table ih ! i))) (filter (\<lambda>i. cfg (ios_table ih ! i) \<noteq> None) is)"

definition valid_servers :: "lenv \<Rightarrow> sl_config \<Rightarrow> bmap \<Rightarrow> fcmh \<Rightarrow> u32 list" where
  "valid_servers env cfg b f = servers env cfg (fcmh_inoh f) (valid_idx b [0..<fcmh_2_nrepls f])"

text \<open>Every replica the configuration knows is an I/O system with a member.\<close>

definition table_fs :: "lenv \<Rightarrow> sl_config \<Rightarrow> slm_inoh \<Rightarrow> bool" where
  "table_fs env cfg ih \<longleftrightarrow>
     (\<forall>ios \<in> set (ios_table ih). case cfg ios of None \<Rightarrow> True | Some r \<Rightarrow> RES_ISFS r \<and> l_members env ios \<noteq> [])"

text \<open>The return code before the candidates are tried.\<close>

definition select_rc0 :: "fcmh \<Rightarrow> int" where
  "select_rc0 f = (if fcmh_2_nrepls f > SL_DEF_REPLICAS then 0 else - SLERR_ION_OFFLINE)"

definition sample_lenv :: lenv where
  "sample_lenv = \<lparr>l_members = (\<lambda>ios. [ios]), l_site = [10, 20], l_online = (\<lambda>_. True), l_lastcomm = (\<lambda>_. (5, 0)),
     l_clock = (6, 0), l_max_ios = 64, l_time = 100, l_cli_online = (\<lambda>_. True), l_cli_newreq_rc = 0,
     l_cli_nbset_rc = 0, l_lease_timeout = 240, l_force_dio = False\<rparr>"

lemma mset_swap_at [simp]: "i < length a \<Longrightarrow> j < length a \<Longrightarrow> mset (swap_at a i j) = mset a"
  unfolding swap_at_def by (rule mset_swap)

lemma try_ios2resm:
  assumes "table_fs env cfg ih" "inoh_ok ih" "i < nrepls ih"
  shows "libsl_try_ios2resm env cfg (ios_table ih ! i) =
    Some (if cfg (ios_table ih ! i) = None then None else Some (hd (l_members env (ios_table ih ! i))))"
proof -
  have "ios_table ih ! i \<in> set (ios_table ih)" using assms(2,3) length_ios_table [OF assms(2)] by simp
  then show ?thesis using assms(1)
    by (auto simp: table_fs_def libsl_try_ios2resm_def rd_def hd_conv_nth split: option.splits)
qed

lemma valid_loop_spec:
  assumes "table_fs env cfg ih" "inoh_ok ih" "repls_ok (bmi_repls b)" "nrepls ih \<le> SL_MAX_REPLICAS"
    "\<And>i. i \<in> set is \<Longrightarrow> i < nrepls ih"
  shows "\<exists>a'. valid_loop env cfg pios b ih is repls a = Some (repls + length (valid_idx b is), a') \<and>
    mset a' = mset a + mset (servers env cfg ih (valid_idx b is))"
  using assms(5)
proof (induction "is" arbitrary: repls a)
  case Nil
  then show ?case by (simp add: valid_idx_def servers_def)
next
  case (Cons i "is")
  have i: "i < nrepls ih" "i < SL_MAX_REPLICAS" using Cons.prems [of i] assms(4) by simp_all
  have IH: "\<exists>a'. valid_loop env cfg pios b ih is r c = Some (r + length (valid_idx b is), a') \<and>
    mset a' = mset c + mset (servers env cfg ih (valid_idx b is))" for r c
    using Cons.IH Cons.prems by simp
  note step = rt.get_state [OF assms(3) i(2)] getrepl_table [OF assms(2) i(1)] try_ios2resm [OF assms(1,2) i(1)]
  let ?m = "hd (l_members env (ios_table ih ! i))"
  let ?c = "if pios = ios_table ih ! i \<and> length (a @ [?m]) > 2 then swap_at (a @ [?m]) 0 (length (a @ [?m]) - 1) else a @ [?m]"
  have c: "mset ?c = add_mset ?m (mset a)" by simp
  show ?case
  proof (cases "brepl (bmi_repls b) i = BREPLST_VALID")
    case True
    then show ?thesis using IH [of "repls + 1" a] IH [of "repls + 1" ?c] c
      by (cases "cfg (ios_table ih ! i)") (simp_all add: step Let_def valid_idx_def servers_def del: mset_append)
  next
    case False
    then show ?thesis using IH [of repls a] by (simp add: step valid_idx_def servers_def)
  qed
qed

lemma select_loop_spec:
  "select_loop env s repls sk ms rc = (rc', mo) \<Longrightarrow>
     (case mo of
        Some m \<Rightarrow> rc' = 0 \<and> m \<in> set ms \<and> m \<notin> set sk \<and> slm_try_sliodresm env s m repls = 0
      | None \<Rightarrow> \<forall>m \<in> set ms. m \<in> set sk \<or> slm_try_sliodresm env s m repls \<noteq> 0)"
  by (induction env s repls sk ms rc rule: select_loop.induct) (auto simp: Let_def split: if_splits option.splits)

lemma select_loop_skip: "set ms \<subseteq> set sk \<Longrightarrow> select_loop env s repls sk ms rc = (rc, None)"
  by (induction ms) simp_all

lemma ensure_loaded_ok:
  assumes "fcmh_ok f" "fcmh_2_nrepls f > SL_DEF_REPLICAS"
  shows "mds_inox_ensure_loaded chk fid (fcmh_inoh f) mf = Some (fcmh_inoh f, mf, 0)"
  using assms by (auto simp: fcmh_ok_def inoh_ok_def mds_inox_ensure_loaded_def split: option.splits)

lemma select_unfold:
  assumes "fcmh_ok f" "bmap_ok b" "table_fs env cfg (fcmh_inoh f)"
  obtains a where "mset a = mset (valid_servers env cfg b f)"
    "slm_resm_select env cfg b pios sk rs f s =
       (let n = length (valid_idx b [0..<fcmh_2_nrepls f]) in
        if sk \<noteq> [] \<and> n \<noteq> 1 then Some (f, select_rc0 f, None)
        else do {
          bad \<leftarrow> (if sk = [] then Some False else do { m \<leftarrow> rd a 0; Some (m \<notin> set sk \<or> m = IOS_ID_ANY) });
          if bad then Some (f, select_rc0 f, None)
          else do {
            (a, rs) \<leftarrow> (if n = 0 then slm_get_ioslist env cfg f pios a rs else Some (a, rs));
            let (rc, m) = select_loop env s n sk a (select_rc0 f);
            Some (f, rc, m)
          }
        })"
proof -
  have ih: "inoh_ok (fcmh_inoh f)" "repls_ok (bmi_repls b)" using assms(1,2) by (simp_all add: fcmh_ok_def bmap_ok_def)
  obtain a where a: "valid_loop env cfg pios b (fcmh_inoh f) [0..<fcmh_2_nrepls f] 0 [] =
      Some (length (valid_idx b [0..<fcmh_2_nrepls f]), a)" "mset a = mset (valid_servers env cfg b f)"
    using valid_loop_spec [OF assms(3) ih fcmh_nr [OF assms(1)], of "[0..<fcmh_2_nrepls f]" pios 0 "[]"]
    by (auto simp: valid_servers_def)
  have ld: "(if SL_DEF_REPLICAS < fcmh_2_nrepls f then
      mds_inox_ensure_loaded (slm_crc_check s) (fcmh_fid f) (fcmh_inoh f) (fcmh_mf f) \<bind>
        (\<lambda>(ih, mf, rc). Some (f\<lparr>fcmh_inoh := ih, fcmh_mf := mf\<rparr>, rc, rc \<noteq> 0))
    else Some (f, - SLERR_ION_OFFLINE, False)) = Some (f, select_rc0 f, False)"
    using ensure_loaded_ok [OF assms(1)] by (simp add: select_rc0_def)
  show thesis
    by (rule that [OF a(2)])
      (simp only: slm_resm_select_def Let_def ld a(1) Option.bind.bind_lunit prod.case if_False simp_thms)
qed

lemma valid_servers_le: "length (valid_servers env cfg b f) \<le> length (valid_idx b [0..<fcmh_2_nrepls f])"
  by (simp add: valid_servers_def servers_def)

text \<open>
  C7. When a block has valid copies, the choice for a new lease ends, and the server it returns is one of
  those that hold a valid copy and that can take a lease now; it returns none only when no such server can.
\<close>

theorem resm_select_valid:
  assumes "fcmh_ok f" "bmap_ok b" "table_fs env cfg (fcmh_inoh f)" "valid_idx b [0..<fcmh_2_nrepls f] \<noteq> []"
  shows "\<exists>rc mo. slm_resm_select env cfg b pios [] rs f s = Some (f, rc, mo) \<and>
    (case mo of
       Some m \<Rightarrow> rc = 0 \<and> m \<in> set (valid_servers env cfg b f) \<and> slm_try_sliodresm env s m 1 = 0
     | None \<Rightarrow> \<forall>m \<in> set (valid_servers env cfg b f). slm_try_sliodresm env s m 1 \<noteq> 0)"
proof -
  let ?n = "length (valid_idx b [0..<fcmh_2_nrepls f])"
  obtain a where a: "mset a = mset (valid_servers env cfg b f)"
    and sel: "slm_resm_select env cfg b pios [] rs f s =
      (let (rc, m) = select_loop env s ?n [] a (select_rc0 f) in Some (f, rc, m))"
    by (rule select_unfold [OF assms(1-3), where pios = pios and sk = "[]" and rs = rs and s = s])
      (use assms(4) in \<open>simp add: Let_def\<close>)
  obtain rc mo where l: "select_loop env s ?n [] a (select_rc0 f) = (rc, mo)" by (cases "select_loop env s ?n [] a (select_rc0 f)")
  have try1: "slm_try_sliodresm env s m ?n = slm_try_sliodresm env s m 1" for m
    using assms(4) by (simp add: slm_try_sliodresm_def)
  show ?thesis using select_loop_spec [OF l] sel l mset_eq_setD [OF a]
    by (intro exI [of _ rc] exI [of _ mo]) (simp add: try1 split: option.splits)
qed

text \<open>
  C39. A choice that is to avoid the servers a client has tried never yields a server: the only copy has to be
  on a server of the list, and the servers of the list are then left out. So no lease is ever reassigned. With more
  replicas than the inode holds the return code is nevertheless 0, and the caller goes on with a pointer not set.
\<close>

theorem resm_select_reassign:
  assumes "fcmh_ok f" "bmap_ok b" "table_fs env cfg (fcmh_inoh f)" "sk \<noteq> []"
    "slm_resm_select env cfg b pios sk rs f s = Some (f', rc, mo)"
  shows "mo = None \<and> rc = (if fcmh_2_nrepls f > SL_DEF_REPLICAS then 0 else - SLERR_ION_OFFLINE)"
proof -
  let ?n = "length (valid_idx b [0..<fcmh_2_nrepls f])"
  obtain a where a: "mset a = mset (valid_servers env cfg b f)"
    and sel: "slm_resm_select env cfg b pios sk rs f s =
      (if ?n \<noteq> 1 then Some (f, select_rc0 f, None)
       else do {
         bad \<leftarrow> do { m \<leftarrow> rd a 0; Some (m \<notin> set sk \<or> m = IOS_ID_ANY) };
         if bad then Some (f, select_rc0 f, None)
         else do { let (rc, m) = select_loop env s ?n sk a (select_rc0 f); Some (f, rc, m) } })"
    by (rule select_unfold [OF assms(1-3), where pios = pios and sk = sk and rs = rs and s = s])
      (use assms(4) in \<open>simp add: Let_def cong: if_cong\<close>)
  have "length a \<le> ?n" using valid_servers_le mset_eq_length [OF a] by metis
  then have "set a \<subseteq> set sk" if "?n = 1" "rd a 0 = Some m" "m \<in> set sk" for m
    using that by (cases a) (auto simp: rd_def)
  then have "select_loop env s ?n sk a (select_rc0 f) = (select_rc0 f, None)"
    if "?n = 1" "rd a 0 = Some m" "m \<in> set sk" for m using that by (metis select_loop_skip)
  then show ?thesis using assms(5) unfolding sel select_rc0_def [symmetric]
    by (auto simp: Option.bind_eq_Some_conv Let_def split: if_splits)
qed

subsection \<open>Examples\<close>

lemma sample_table_fs: "table_fs sample_lenv all_fs ih"
  by (simp add: table_fs_def all_fs_def sample_lenv_def RES_ISFS_def)

lemma sample_valid: "valid_idx (sample_bmap [3] 5) [0, 1] = [0]" "valid_idx (sample_bmap [3] 5) [0, 1, 2, 3, 4] = [0]"
  by (simp_all add: valid_idx_def sample_bmap_def brepl_def buf_bit_def breplst_defs bod_sizes)

theorem resm_select_valid_witness:
  "slm_resm_select sample_lenv all_fs (sample_bmap [3] 5) 20 [] [] (sample_fcmh [10, 20]) sample_slm =
     Some (sample_fcmh [10, 20], 0, Some 10)"
proof -
  let ?f = "sample_fcmh [10, 20]"
  have f: "fcmh_ok ?f" "fcmh_2_nrepls ?f = 2" using sample_fcmh_ok [of "[10, 20]"] by (simp_all add: SL_MAX_REPLICAS_def)
  have b: "bmap_ok (sample_bmap [3] 5)" by (rule sample_bmap_ok) (simp add: bod_sizes)
  have v: "valid_idx (sample_bmap [3] 5) [0..<fcmh_2_nrepls ?f] = [0]"
    using sample_valid(1) by (simp add: f(2) upt_rec)
  have "ios_table (fcmh_inoh ?f) ! 0 = 10" using sample_ok(2) [of "[10, 20]"] by (simp add: sample_fcmh_def SL_MAX_REPLICAS_def)
  then have s: "valid_servers sample_lenv all_fs (sample_bmap [3] 5) ?f = [10]"
    unfolding valid_servers_def v by (simp add: servers_def all_fs_def sample_lenv_def)
  have "slm_try_sliodresm sample_lenv sample_slm 10 1 = 0"
    by (simp add: slm_try_sliodresm_def mds_sliod_alive_def sample_lenv_def sample_slm_def CSVC_PING_INTV_def)
  then show ?thesis
    using resm_select_valid [OF f(1) b sample_table_fs, of 20 "[]" sample_slm] v
    by (auto simp: s split: option.splits)
qed

theorem resm_select_reassign_witness:
  "\<exists>f'. slm_resm_select sample_lenv all_fs (sample_bmap [3] 5) 20 [10] [] (sample_fcmh [10, 20, 30, 40, 50]) sample_slm =
     Some (f', 0, None)"
proof -
  let ?f = "sample_fcmh [10, 20, 30, 40, 50]"
  have f: "fcmh_ok ?f" "fcmh_2_nrepls ?f = 5"
    using sample_fcmh_ok [of "[10, 20, 30, 40, 50]"] by (simp_all add: SL_MAX_REPLICAS_def)
  have b: "bmap_ok (sample_bmap [3] 5)" by (rule sample_bmap_ok) (simp add: bod_sizes)
  have v: "valid_idx (sample_bmap [3] 5) [0..<fcmh_2_nrepls ?f] = [0]"
    using sample_valid(2) by (simp add: f(2) upt_rec numeral_nat)
  have "ios_table (fcmh_inoh ?f) ! 0 = 10"
    using sample_ok(2) [of "[10, 20, 30, 40, 50]"] by (simp add: sample_fcmh_def SL_MAX_REPLICAS_def)
  then have m: "mset (valid_servers sample_lenv all_fs (sample_bmap [3] 5) ?f) = {#10#}"
    unfolding valid_servers_def v by (simp add: servers_def all_fs_def sample_lenv_def)
  have "slm_resm_select sample_lenv all_fs (sample_bmap [3] 5) 20 [10] [] ?f sample_slm \<noteq> None"
    by (rule select_unfold [OF f(1) b sample_table_fs, where pios = 20 and sk = "[10]" and rs = "[]" and s = sample_slm])
      (auto simp: v m Let_def rd_def split: prod.splits)
  then obtain f' rc mo where
    s: "slm_resm_select sample_lenv all_fs (sample_bmap [3] 5) 20 [10] [] ?f sample_slm = Some (f', rc, mo)" by auto
  show ?thesis using resm_select_reassign [OF f(1) b sample_table_fs _ s] s by (simp add: f(2) SL_DEF_REPLICAS_def)
qed

end
