(* ===== verification/Bmap_Timeo.thy ===== *)
theory Bmap_Timeo
  imports Resm_Select Odtable
begin

text \<open>
  Leases and their timeout table (\<^verbatim>\<open>slashd/mds_bmap_timeo.c\<close>, \<^verbatim>\<open>bmap_mds.h\<close>). A lease is an object in a
  store, named by a number, and refers to its bmap by the file and the number of the bmap; the record \<open>lsrv\<close> is the state of the metadata server that concerns leases. The
  journal appears as the list of entries added to it, newest last.
\<close>

subsection \<open>Leases\<close>

type_synonym cli = "u64 \<times> u32"

record bml =
  bml_seq :: u64
  bml_refcnt :: int
  bml_ios :: u32
  bml_cli_nidpid :: cli
  bml_flags :: u32
  bml_start :: u64
  bml_expire :: u64
  bml_bmi :: "u64 \<times> u32"
  bml_exp :: bool
  bml_chain :: "nat option"

definition BML_READ :: u32 where "BML_READ = push_bit 0 1"
definition BML_WRITE :: u32 where "BML_WRITE = push_bit 1 1"
definition BML_DIO :: u32 where "BML_DIO = push_bit 2 1"
definition BML_DIOCB :: u32 where "BML_DIOCB = push_bit 3 1"
definition BML_TIMEOQ :: u32 where "BML_TIMEOQ = push_bit 4 1"
definition BML_BMI :: u32 where "BML_BMI = push_bit 5 1"
definition BML_RECOVER :: u32 where "BML_RECOVER = push_bit 6 1"
definition BML_CHAIN :: u32 where "BML_CHAIN = push_bit 7 1"
definition BML_FREEING :: u32 where "BML_FREEING = push_bit 8 1"

lemmas bml_flag_defs = BML_READ_def BML_WRITE_def BML_DIO_def BML_DIOCB_def BML_TIMEOQ_def BML_BMI_def
  BML_RECOVER_def BML_CHAIN_def BML_FREEING_def

record bmap_ios_assign =
  bia_lastcli :: cli
  bia_ios :: u32
  bia_fid :: u64
  bia_seq :: u64
  bia_bmapno :: u32
  bia_flags :: u32
  bia_start :: u64

record slmds_jent_ino_repls =
  sjir_fid :: u64
  sjir_nrepls :: u32
  sjir_replpol :: u32
  sjir_repls :: "u32 list"

record slmds_jent_bmap_repls =
  sjbr_fid :: u64
  sjbr_bmapno :: u32
  sjbr_bgen :: u32
  sjbr_nrepls :: u32
  sjbr_replpol :: u32
  sjbr_repls :: "u8 list"

record slmds_jent_assign_rep =
  sjar_flags :: u32
  sjar_item :: nat
  sjar_ino :: "slmds_jent_ino_repls option"
  sjar_rep :: "slmds_jent_bmap_repls option"
  sjar_bmap :: "bmap_ios_assign option"

text \<open>The entries: the high and the low watermark, or an assignment.\<close>

datatype mds_jent = MDS_LOG_BMAP_SEQ u64 u64 | MDS_LOG_BMAP_ASSIGN slmds_jent_assign_rep

record lsrv =
  bml_pool :: "nat \<Rightarrow> bml option"
  bml_next :: nat
  btt_maxseq :: u64
  btt_minseq :: u64
  btt_leases :: "nat list"
  btt_log :: nat
  slm_bia_odt :: pfl_odt
  slm_jlog :: "mds_jent list"
  rmmi_refcnt :: "u32 \<Rightarrow> int"

definition BMAPSEQ_ANY :: u64 where "BMAPSEQ_ANY = -1"
definition BMAP_SEQLOG_FACTOR :: nat where "BMAP_SEQLOG_FACTOR = 10000"
definition BMAP_TIMEO_MAX :: int where "BMAP_TIMEO_MAX = 240"

datatype bte = BTE_ADD | BTE_DEL | BTE_REATTACH

definition get_bml :: "nat \<Rightarrow> lsrv \<Rightarrow> bml option" where
  "get_bml p l = bml_pool l p"

definition put_bml :: "nat \<Rightarrow> bml \<Rightarrow> lsrv \<Rightarrow> lsrv" where
  "put_bml p x l = l\<lparr>bml_pool := (bml_pool l)(p \<mapsto> x)\<rparr>"

subsection \<open>Sequence numbers\<close>

definition mds_bmap_journal_bmapseq :: "u64 \<Rightarrow> u64 \<Rightarrow> lsrv \<Rightarrow> lsrv" where
  "mds_bmap_journal_bmapseq high low l = l\<lparr>slm_jlog := slm_jlog l @ [MDS_LOG_BMAP_SEQ high low]\<rparr>"

definition mds_bmap_setcurseq :: "u64 \<Rightarrow> u64 \<Rightarrow> lsrv \<Rightarrow> lsrv" where
  "mds_bmap_setcurseq maxseq minseq l = l\<lparr>btt_maxseq := maxseq, btt_minseq := minseq\<rparr>"

definition mds_bmap_getcurseq :: "lsrv \<Rightarrow> u64 \<times> u64" where
  "mds_bmap_getcurseq l = (btt_maxseq l, btt_minseq l)"

definition mds_replay_bmap_seq :: "u64 \<Rightarrow> u64 \<Rightarrow> lsrv \<Rightarrow> lsrv" where
  "mds_replay_bmap_seq high low l =
     (let l = (if btt_maxseq l < high then l\<lparr>btt_maxseq := high\<rparr> else l)
      in if btt_minseq l < low then l\<lparr>btt_minseq := low\<rparr> else l)"

definition mds_bmap_timeotbl_journal_seqno :: "lsrv \<Rightarrow> lsrv" where
  "mds_bmap_timeotbl_journal_seqno l =
     (let l = l\<lparr>btt_log := btt_log l + 1\<rparr>
      in if btt_log l mod BMAP_SEQLOG_FACTOR \<noteq> 0 then l
         else mds_bmap_journal_bmapseq (btt_maxseq l) (btt_minseq l) l)"

definition mds_bmap_timeotbl_getnextseq :: "lsrv \<Rightarrow> lsrv \<times> u64" where
  "mds_bmap_timeotbl_getnextseq l =
     (let s = btt_maxseq l + 1;
          s = (if s = BMAPSEQ_ANY then 1 else if s = 0 then 1 else s)
      in (mds_bmap_timeotbl_journal_seqno (l\<lparr>btt_maxseq := s\<rparr>), s))"

definition mds_bmap_timeotbl_remove :: "nat \<Rightarrow> lsrv \<Rightarrow> lsrv option" where
  "mds_bmap_timeotbl_remove p l =
     do {
       psc_assert (p \<in> set (btt_leases l));
       let update = (hd (btt_leases l) = p);
       let l = l\<lparr>btt_leases := remove1 p (btt_leases l)\<rparr>;
       if \<not> update then Some l
       else case btt_leases l of
         [] \<Rightarrow> Some (mds_bmap_timeotbl_journal_seqno (l\<lparr>btt_minseq := btt_maxseq l\<rparr>))
       | q # _ \<Rightarrow> do {
           x \<leftarrow> get_bml q l;
           Some (if bml_seq x \<noteq> BMAPSEQ_ANY
                 then mds_bmap_timeotbl_journal_seqno (l\<lparr>btt_minseq := bml_seq x\<rparr>) else l)
         }
     }"

definition mds_bmap_timeotbl_mdsi :: "nat \<Rightarrow> bte \<Rightarrow> lsrv \<Rightarrow> (lsrv \<times> u64) option" where
  "mds_bmap_timeotbl_mdsi p op l =
     do {
       x \<leftarrow> get_bml p l;
       case op of
         BTE_DEL \<Rightarrow> do {
           l \<leftarrow> mds_bmap_timeotbl_remove p (put_bml p (x\<lparr>bml_flags := bml_flags x AND NOT BML_TIMEOQ\<rparr>) l);
           Some (l, BMAPSEQ_ANY)
         }
       | _ \<Rightarrow> do {
           let (l, seq) =
             (if op = BTE_REATTACH then
                if btt_maxseq l < bml_seq x then (l\<lparr>btt_maxseq := bml_seq x\<rparr>, bml_seq x)
                else if btt_minseq l > bml_seq x then (l, BMAPSEQ_ANY)
                else (l, bml_seq x)
              else
                let (l, seq) = mds_bmap_timeotbl_getnextseq l
                in (put_bml p (x\<lparr>bml_seq := seq\<rparr>) l, seq));
           x \<leftarrow> get_bml p l;
           l \<leftarrow> (if bml_flags x AND BML_TIMEOQ \<noteq> 0 then mds_bmap_timeotbl_remove p l
                 else Some (put_bml p (x\<lparr>bml_flags := bml_flags x OR BML_TIMEOQ\<rparr>) l));
           Some (l\<lparr>btt_leases := btt_leases l @ [p]\<rparr>, seq)
         }
     }"

text \<open>
  A turn of the timeout thread up to the release of the lease: the seconds to sleep, or the lease that is to be
  released, marked and referenced. \<open>lock\<close> tells whether the lock of its bmap was free.
\<close>

definition slmbmaptimeothr_pick :: "bool \<Rightarrow> u64 \<Rightarrow> lsrv \<Rightarrow> (lsrv \<times> (int + nat)) option" where
  "slmbmaptimeothr_pick lock now l =
     (case btt_leases l of
        [] \<Rightarrow> Some (l, Inl BMAP_TIMEO_MAX)
      | p # _ \<Rightarrow>
          if \<not> lock then Some (l, Inl 1)
          else do {
            x \<leftarrow> get_bml p l;
            if bml_refcnt x \<noteq> 0 then Some (l, Inl 1)
            else if bml_flags x AND BML_FREEING \<noteq> 0 then Some (l, Inl 1)
            else let nsecs = sint (ucast (bml_expire x - now) :: u32) in
              if nsecs > 0 then Some (l, Inl nsecs)
              else Some (put_bml p (x\<lparr>bml_refcnt := bml_refcnt x + 1, bml_flags := bml_flags x OR BML_FREEING\<rparr>) l, Inr p)
          })"

subsection \<open>The I/O server\<close>

text \<open>
  The I/O server keeps the low watermark it last asked the metadata server for (\<^verbatim>\<open>sliod/bmap_iod.c\<close>) and refuses
  writes under older leases (\<^verbatim>\<open>sliod/ric.c\<close>). While it waits for the answer, readers of the watermark wait.
\<close>

record bmap_iod_minseq =
  bim_minseq :: u64
  bim_flags :: u32

definition BIM_RETRIEVE_SEQ :: u32 where "BIM_RETRIEVE_SEQ = 1"
definition PFLERR_KEYEXPIRED :: int where "PFLERR_KEYEXPIRED = 500 + 1"

definition bim_init :: bmap_iod_minseq where
  "bim_init = \<lparr>bim_minseq = 0, bim_flags = 0\<rparr>"

definition bim_updateseq :: "u64 \<Rightarrow> bmap_iod_minseq \<Rightarrow> bmap_iod_minseq \<times> int" where
  "bim_updateseq seq bim =
     (if seq = BMAPSEQ_ANY then (bim, 1)
      else if seq \<ge> bim_minseq bim \<or> bim_minseq bim = BMAPSEQ_ANY then (bim\<lparr>bim_minseq := seq\<rparr>, 0)
      else if seq \<ge> bim_minseq bim - of_nat BMAP_SEQLOG_FACTOR then (bim\<lparr>bim_minseq := seq\<rparr>, 0)
      else (bim\<lparr>bim_minseq := seq\<rparr>, 0))"

definition bim_getcurseq :: "bmap_iod_minseq \<Rightarrow> u64 option" where
  "bim_getcurseq bim =
     do { psc_assert (bim_flags bim AND BIM_RETRIEVE_SEQ = 0); Some (bim_minseq bim) }"

definition slm_rmi_handle_bmap_getminseq :: "lsrv \<Rightarrow> u64" where
  "slm_rmi_handle_bmap_getminseq l = snd (mds_bmap_getcurseq l)"

text \<open>One round of the thread that asks for the watermark, the request being answered.\<close>

definition sliseqnothr_round :: "lsrv \<Rightarrow> bmap_iod_minseq \<Rightarrow> bmap_iod_minseq \<times> int" where
  "sliseqnothr_round l bim =
     (let (bim, rc) = bim_updateseq (slm_rmi_handle_bmap_getminseq l) (bim\<lparr>bim_flags := bim_flags bim OR BIM_RETRIEVE_SEQ\<rparr>)
      in if rc \<noteq> 0 then (bim, rc) else (bim\<lparr>bim_flags := bim_flags bim AND NOT BIM_RETRIEVE_SEQ\<rparr>, rc))"

definition sli_ric_key_check :: "rw \<Rightarrow> u64 \<Rightarrow> bmap_iod_minseq \<Rightarrow> int option" where
  "sli_ric_key_check rw sbd_seq bim =
     do {
       seqno \<leftarrow> bim_getcurseq bim;
       Some (if rw = SL_WRITE \<and> sbd_seq < seqno then - PFLERR_KEYEXPIRED else 0)
     }"

subsection \<open>The invariant\<close>

text \<open>A sequence of additions and removals; a lease is removed only if it is marked as queued.\<close>

fun tq_run :: "(nat \<times> bte) list \<Rightarrow> lsrv \<Rightarrow> lsrv option" where
  "tq_run [] l = Some l"
| "tq_run ((p, op) # ops) l =
     do {
       x \<leftarrow> get_bml p l;
       l \<leftarrow> (if op = BTE_DEL \<and> bml_flags x AND BML_TIMEOQ = 0 then Some l
             else map_option fst (mds_bmap_timeotbl_mdsi p op l));
       tq_run ops l
     }"

text \<open>
  The invariant: the queue holds exactly the marked leases, in the order of their numbers, which lie between the
  two watermarks.
\<close>

definition seq_of :: "lsrv \<Rightarrow> nat \<Rightarrow> u64" where
  "seq_of l p = bml_seq (the (bml_pool l p))"

definition tq_sorted :: "lsrv \<Rightarrow> nat list \<Rightarrow> bool" where
  "tq_sorted l ps \<longleftrightarrow> sorted_wrt (\<lambda>p q. seq_of l p < seq_of l q) ps \<and> btt_minseq l \<le> btt_maxseq l \<and>
     (\<forall>p \<in> set ps. bml_pool l p \<noteq> None \<and> btt_minseq l \<le> seq_of l p \<and> seq_of l p \<le> btt_maxseq l)"

definition tq_ok :: "lsrv \<Rightarrow> bool" where
  "tq_ok l \<longleftrightarrow> distinct (btt_leases l) \<and> tq_sorted l (btt_leases l) \<and> btt_maxseq l < BMAPSEQ_ANY \<and>
     (\<forall>p x. bml_pool l p = Some x \<longrightarrow> (bml_flags x AND BML_TIMEOQ \<noteq> 0 \<longleftrightarrow> p \<in> set (btt_leases l)))"

definition sample_lease :: "u64 \<Rightarrow> bml" where
  "sample_lease n = \<lparr>bml_seq = n, bml_refcnt = 0, bml_ios = 10, bml_cli_nidpid = (1, 1), bml_flags = BML_WRITE,
     bml_start = 0, bml_expire = 240, bml_bmi = (7, 0), bml_exp = True, bml_chain = None\<rparr>"

definition sample_lsrv :: "u64 list \<Rightarrow> lsrv" where
  "sample_lsrv ns = \<lparr>bml_pool = (\<lambda>p. if p < length ns then Some (sample_lease (ns ! p)) else None), bml_next = length ns,
     btt_maxseq = 0, btt_minseq = 0, btt_leases = [], btt_log = 0,
     slm_bia_odt = \<lparr>odt_bitmap = \<lparr>vb_isnull = False, vb_buf = [1], vb_end = 0, vb_pos = 0, vb_lastsize = 4, vb_flags = 0\<rparr>,
       odt_hdr = \<lparr>odth_nitems = 4, odth_itemsz = 112, odth_slotsz = 128, odth_options = 1, odth_start = 0x1000, odth_crc = 0\<rparr>,
       odt_file = [], odt_stats = odt_stats0\<rparr>,
     slm_jlog = [], rmmi_refcnt = (\<lambda>_. 0)\<rparr>"

lemma journal_same [simp]:
  "bml_pool (mds_bmap_timeotbl_journal_seqno l) = bml_pool l" "btt_leases (mds_bmap_timeotbl_journal_seqno l) = btt_leases l"
  "btt_maxseq (mds_bmap_timeotbl_journal_seqno l) = btt_maxseq l" "btt_minseq (mds_bmap_timeotbl_journal_seqno l) = btt_minseq l"
  by (simp_all add: mds_bmap_timeotbl_journal_seqno_def mds_bmap_journal_bmapseq_def Let_def)

lemma put_bml_same [simp]:
  "bml_pool (put_bml p x l) = (bml_pool l)(p \<mapsto> x)" "btt_leases (put_bml p x l) = btt_leases l"
  "btt_maxseq (put_bml p x l) = btt_maxseq l" "btt_minseq (put_bml p x l) = btt_minseq l"
  by (simp_all add: put_bml_def)

lemma remove_seq:
  assumes "p \<in> set (btt_leases l)" "distinct (btt_leases l)" "tq_sorted l (remove1 p (btt_leases l))"
    "btt_maxseq l < BMAPSEQ_ANY"
  obtains l' where "mds_bmap_timeotbl_remove p l = Some l'" "btt_leases l' = remove1 p (btt_leases l)"
    "bml_pool l' = bml_pool l" "btt_maxseq l' = btt_maxseq l" "btt_minseq l \<le> btt_minseq l'"
    "tq_sorted l' (remove1 p (btt_leases l))"
proof (cases "hd (btt_leases l) = p")
  case False
  then show ?thesis using assms
    by (intro that [of "l\<lparr>btt_leases := remove1 p (btt_leases l)\<rparr>"])
      (simp_all add: mds_bmap_timeotbl_remove_def Let_def tq_sorted_def seq_of_def)
next
  case True
  show ?thesis
  proof (cases "remove1 p (btt_leases l)")
    case Nil
    then show ?thesis using assms True
      by (intro that [of "mds_bmap_timeotbl_journal_seqno (l\<lparr>btt_leases := [], btt_minseq := btt_maxseq l\<rparr>)"])
        (simp_all add: mds_bmap_timeotbl_remove_def Let_def tq_sorted_def)
  next
    case (Cons q ps)
    then obtain x where x: "bml_pool l q = Some x" "btt_minseq l \<le> bml_seq x" "bml_seq x \<le> btt_maxseq l"
      using assms(3) by (auto simp: tq_sorted_def seq_of_def)
    then have ne: "bml_seq x \<noteq> BMAPSEQ_ANY" using assms(4) by auto
    let ?l = "l\<lparr>btt_leases := q # ps, btt_minseq := bml_seq x\<rparr>"
    have "mds_bmap_timeotbl_remove p l = Some (mds_bmap_timeotbl_journal_seqno ?l)"
      using assms(1) True Cons x(1) ne by (simp add: mds_bmap_timeotbl_remove_def Let_def get_bml_def)
    moreover have "tq_sorted (mds_bmap_timeotbl_journal_seqno ?l) (q # ps)"
      using assms(3) x unfolding Cons by (simp add: tq_sorted_def seq_of_def order_less_imp_le)
    ultimately show ?thesis using Cons x(2) by (intro that [of "mds_bmap_timeotbl_journal_seqno ?l"]) simp_all
  qed
qed

lemma sorted_wrt_remove1: "sorted_wrt P xs \<Longrightarrow> sorted_wrt P (remove1 p xs)"
  by (induction xs) (auto dest: notin_set_remove1)

lemma tq_sorted_subset: "tq_sorted l ps \<Longrightarrow> tq_sorted l (remove1 p ps)"
  unfolding tq_sorted_def using set_remove1_subset [of p ps] by (auto intro: sorted_wrt_remove1)

lemma next_seq:
  assumes "btt_maxseq l < BMAPSEQ_ANY - 1"
  shows "btt_maxseq l < btt_maxseq l + 1" "btt_maxseq l + 1 < BMAPSEQ_ANY"
proof -
  have "btt_maxseq l + 1 \<le> BMAPSEQ_ANY - 1" using assms by (rule inc_le)
  moreover have "BMAPSEQ_ANY - 1 < BMAPSEQ_ANY" by (simp add: BMAPSEQ_ANY_def)
  ultimately show "btt_maxseq l + 1 < BMAPSEQ_ANY" by (rule order_le_less_trans)
  have "btt_maxseq l \<noteq> - 1" using assms by (auto simp: BMAPSEQ_ANY_def word_order.extremum_strict)
  then show "btt_maxseq l < btt_maxseq l + 1" using inc_less_eq_self_iff_eq [of "btt_maxseq l"] by (simp add: not_le)
qed

lemma tq_del:
  assumes "tq_ok l" "bml_pool l p = Some x" "bml_flags x AND BML_TIMEOQ \<noteq> 0"
  shows "\<exists>l'. mds_bmap_timeotbl_mdsi p BTE_DEL l = Some (l', BMAPSEQ_ANY) \<and> tq_ok l' \<and> btt_maxseq l' = btt_maxseq l \<and>
    btt_minseq l \<le> btt_minseq l' \<and> dom (bml_pool l') = dom (bml_pool l)"
proof -
  let ?x = "x\<lparr>bml_flags := bml_flags x AND NOT BML_TIMEOQ\<rparr>" and ?l = "put_bml p (x\<lparr>bml_flags := bml_flags x AND NOT BML_TIMEOQ\<rparr>) l"
  have p: "p \<in> set (btt_leases l)" "distinct (btt_leases l)" "btt_maxseq l < BMAPSEQ_ANY" "tq_sorted l (btt_leases l)"
    using assms by (auto simp: tq_ok_def)
  have s: "seq_of ?l = seq_of l" using assms(2) by (auto simp: seq_of_def)
  have "tq_sorted ?l (remove1 p (btt_leases ?l))"
    using tq_sorted_subset [OF p(4), of p] unfolding tq_sorted_def s by simp
  note srt = this [unfolded put_bml_same]
  obtain l' where r: "mds_bmap_timeotbl_remove p ?l = Some l'" "btt_leases l' = remove1 p (btt_leases l)"
    "bml_pool l' = bml_pool ?l" "btt_maxseq l' = btt_maxseq l" "btt_minseq l \<le> btt_minseq l'"
    "tq_sorted l' (remove1 p (btt_leases l))"
    by (rule remove_seq [of p ?l, unfolded put_bml_same, OF p(1,2) srt p(3)]) simp
  have off: "bml_flags ?x AND BML_TIMEOQ = 0" unfolding BML_TIMEOQ_def flag_bit by (simp add: flag_bits bit_push_bit_iff)
  have st: "set (btt_leases l') = set (btt_leases l) - {p}" using p(2) r(2) by simp
  have m: "bml_flags y AND BML_TIMEOQ \<noteq> 0 \<longleftrightarrow> q \<in> set (btt_leases l')" if "bml_pool l' q = Some y" for q y
  proof (cases "q = p")
    case True
    then show ?thesis using that r(3) off st by simp
  next
    case False
    then show ?thesis using that r(3) assms(1) st by (simp add: tq_ok_def)
  qed
  have "tq_ok l'" unfolding tq_ok_def using r(2,4,6) p(2,3) m by simp
  moreover have "mds_bmap_timeotbl_mdsi p BTE_DEL l = Some (l', BMAPSEQ_ANY)"
    using r(1) assms(2) by (simp add: mds_bmap_timeotbl_mdsi_def get_bml_def)
  moreover have "dom (bml_pool l') = dom (bml_pool l)" using r(3) assms(2) by (simp add: domI insert_absorb)
  ultimately show ?thesis using r(4,5) by blast
qed

lemma tq_append:
  assumes "tq_sorted l ps" "p \<notin> set ps" "bml_pool l p \<noteq> None" "\<forall>q \<in> set ps. seq_of l q < seq_of l p"
    "seq_of l p = btt_maxseq l"
  shows "tq_sorted l (ps @ [p])"
  using assms by (auto simp: tq_sorted_def sorted_wrt_append)

lemma getnextseq_step:
  assumes "btt_maxseq l < BMAPSEQ_ANY - 1"
  shows "mds_bmap_timeotbl_getnextseq l =
    (mds_bmap_timeotbl_journal_seqno (l\<lparr>btt_maxseq := btt_maxseq l + 1\<rparr>), btt_maxseq l + 1)"
proof -
  have "btt_maxseq l + 1 \<noteq> BMAPSEQ_ANY" "btt_maxseq l + 1 \<noteq> 0" using next_seq [OF assms] by auto
  then show ?thesis by (simp add: mds_bmap_timeotbl_getnextseq_def Let_def)
qed

text \<open>The table once the lease has its new number, before it moves to the end of the queue.\<close>

lemma tq_numbered:
  assumes "tq_sorted l ps" "p \<notin> set ps" "btt_maxseq l < BMAPSEQ_ANY - 1" "bml_seq y = btt_maxseq l + 1"
    "bml_pool k = (bml_pool l)(p \<mapsto> y)" "btt_minseq k = btt_minseq l" "btt_maxseq k = btt_maxseq l + 1"
  shows "tq_sorted k ps" "\<forall>q \<in> set ps. seq_of k q < seq_of k p" "seq_of k p = btt_maxseq k"
proof -
  note n = next_seq(1) [OF assms(3)]
  have s: "seq_of k q = seq_of l q" if "q \<in> set ps" for q using that assms(2,5) by (auto simp: seq_of_def)
  have w: "sorted_wrt (\<lambda>p q. seq_of k p < seq_of k q) ps"
    using assms(1) s sorted_wrt_mono_rel [of ps "\<lambda>p q. seq_of l p < seq_of l q" "\<lambda>p q. seq_of k p < seq_of k q"]
    by (simp add: tq_sorted_def)
  have b: "btt_minseq l \<le> seq_of l q" "seq_of l q \<le> btt_maxseq l" "bml_pool l q \<noteq> None" if "q \<in> set ps" for q
    using that assms(1) by (simp_all add: tq_sorted_def)
  show p: "seq_of k p = btt_maxseq k" using assms(4,5,7) by (simp add: seq_of_def)
  show "\<forall>q \<in> set ps. seq_of k q < seq_of k p" using s b(2) n assms(7) p by (auto intro: order_le_less_trans)
  have "btt_minseq l \<le> btt_maxseq l" using assms(1) by (simp add: tq_sorted_def)
  then show "tq_sorted k ps" unfolding tq_sorted_def using w s b order_less_imp_le [OF n] assms(5-7)
    by (auto intro: order_trans)
qed

lemma tq_move:
  assumes "tq_ok l" "bml_pool l p = Some x" "btt_maxseq l < BMAPSEQ_ANY - 1"
  shows "\<exists>k y. mds_bmap_timeotbl_mdsi p BTE_ADD l = Some (k\<lparr>btt_leases := (remove1 p (btt_leases l)) @ [p]\<rparr>, (btt_maxseq l + 1)) \<and>
      bml_pool k = (bml_pool l)(p \<mapsto> y) \<and> bml_seq y = (btt_maxseq l + 1) \<and> bml_flags y AND BML_TIMEOQ \<noteq> 0 \<and>
      btt_maxseq k = (btt_maxseq l + 1) \<and> btt_minseq l \<le> btt_minseq k \<and> tq_sorted k (remove1 p (btt_leases l))"
proof -
  let ?s = "btt_maxseq l + 1" and ?ps = "remove1 p (btt_leases l)"
  let ?j = "mds_bmap_timeotbl_journal_seqno (l\<lparr>btt_maxseq := btt_maxseq l + 1\<rparr>)"
  let ?k = "put_bml p (x\<lparr>bml_seq := ?s\<rparr>) ?j"
  have d: "distinct (btt_leases l)" "tq_sorted l (btt_leases l)"
    "\<And>q y. bml_pool l q = Some y \<Longrightarrow> bml_flags y AND BML_TIMEOQ \<noteq> 0 \<longleftrightarrow> q \<in> set (btt_leases l)"
    using assms(1) by (simp_all add: tq_ok_def)
  note n = next_seq(2) [OF assms(3)]
  have ps: "p \<notin> set ?ps" "set ?ps = set (btt_leases l) - {p}" using d(1) by simp_all
  have on: "(bml_flags x OR BML_TIMEOQ) AND BML_TIMEOQ \<noteq> 0"
    unfolding BML_TIMEOQ_def flag_bit by (simp add: bit_or_iff bit_push_bit_iff)
  show ?thesis
  proof (cases "bml_flags x AND BML_TIMEOQ = 0")
    case False
    then have p: "p \<in> set (btt_leases l)" using d(3) assms(2) by blast
    have srt: "tq_sorted ?k ?ps"
      by (rule tq_numbered(1) [OF tq_sorted_subset [OF d(2)] ps(1) assms(3), of "x\<lparr>bml_seq := ?s\<rparr>"]) simp_all
    obtain k where r: "mds_bmap_timeotbl_remove p ?k = Some k" "btt_leases k = ?ps" "bml_pool k = bml_pool ?k"
      "btt_maxseq k = ?s" "btt_minseq l \<le> btt_minseq k" "tq_sorted k ?ps"
      by (rule remove_seq [of p ?k]) (use p d(1) srt n in simp_all)
    then show ?thesis using False assms(2)
      by (intro exI [of _ k] exI [of _ "x\<lparr>bml_seq := ?s\<rparr>"])
        (simp add: mds_bmap_timeotbl_mdsi_def get_bml_def getnextseq_step [OF assms(3)])
  next
    case True
    let ?y = "x\<lparr>bml_seq := ?s, bml_flags := bml_flags x OR BML_TIMEOQ\<rparr>"
    have p: "?ps = btt_leases l" using True d(3) [OF assms(2)] by (simp add: remove1_idem)
    have "tq_sorted (put_bml p ?y ?k) ?ps"
      by (rule tq_numbered(1) [OF tq_sorted_subset [OF d(2)] ps(1) assms(3), of ?y]) simp_all
    then show ?thesis using True assms(2) on
      by (intro exI [of _ "put_bml p ?y ?k"] exI [of _ ?y])
        (simp add: mds_bmap_timeotbl_mdsi_def get_bml_def getnextseq_step [OF assms(3)] p)
  qed
qed

lemma tq_add:
  assumes "tq_ok l" "bml_pool l p = Some x" "btt_maxseq l < BMAPSEQ_ANY - 1"
  shows "\<exists>l'. mds_bmap_timeotbl_mdsi p BTE_ADD l = Some (l', btt_maxseq l + 1) \<and> tq_ok l' \<and>
    btt_maxseq l' = btt_maxseq l + 1 \<and> btt_minseq l \<le> btt_minseq l' \<and> dom (bml_pool l') = dom (bml_pool l) \<and>
    (\<exists>y. bml_pool l' = (bml_pool l)(p \<mapsto> y) \<and> bml_seq y = btt_maxseq l + 1)"
proof -
  let ?s = "btt_maxseq l + 1" and ?ps = "remove1 p (btt_leases l)"
  have d: "distinct (btt_leases l)" "tq_sorted l (btt_leases l)"
    "\<And>q y. bml_pool l q = Some y \<Longrightarrow> bml_flags y AND BML_TIMEOQ \<noteq> 0 \<longleftrightarrow> q \<in> set (btt_leases l)"
    using assms(1) by (simp_all add: tq_ok_def)
  note n = next_seq(2) [OF assms(3)]
  have ps: "p \<notin> set ?ps" "set ?ps = set (btt_leases l) - {p}" using d(1) by simp_all
  obtain k y where k: "mds_bmap_timeotbl_mdsi p BTE_ADD l = Some (k\<lparr>btt_leases := ?ps @ [p]\<rparr>, ?s)"
    "bml_pool k = (bml_pool l)(p \<mapsto> y)" "bml_seq y = ?s" "bml_flags y AND BML_TIMEOQ \<noteq> 0"
    "btt_maxseq k = ?s" "btt_minseq l \<le> btt_minseq k" "tq_sorted k ?ps"
    using tq_move [OF assms] by (elim exE conjE) (rule that)
  have lt: "\<forall>q \<in> set ?ps. seq_of k q < seq_of k p" "seq_of k p = btt_maxseq k"
    using tq_numbered(2,3) [OF tq_sorted_subset [OF d(2)] ps(1) assms(3) k(3), of "k\<lparr>btt_minseq := btt_minseq l\<rparr>"] k(2,5)
    by (simp_all add: seq_of_def)
  have "tq_sorted k (?ps @ [p])" by (rule tq_append [OF k(7) ps(1) _ lt]) (simp add: k(2))
  then have "tq_sorted (k\<lparr>btt_leases := ?ps @ [p]\<rparr>) (?ps @ [p])" by (simp add: tq_sorted_def seq_of_def)
  moreover have "bml_flags z AND BML_TIMEOQ \<noteq> 0 \<longleftrightarrow> q \<in> set (?ps @ [p])" if "bml_pool k q = Some z" for q z
    using that k(2,4) d(3) [of q z] ps(2) by (cases "q = p") simp_all
  ultimately have "tq_ok (k\<lparr>btt_leases := ?ps @ [p]\<rparr>)" using d(1) ps k(5) n by (simp add: tq_ok_def)
  then show ?thesis using k(1-3,5,6) assms(2)
    by (intro exI [of _ "k\<lparr>btt_leases := ?ps @ [p]\<rparr>"]) (auto simp: insert_absorb)
qed

lemma tq_run_ok:
  assumes "tq_ok l" "fst ` set ops \<subseteq> dom (bml_pool l)" "BTE_REATTACH \<notin> snd ` set ops"
    "unat (btt_maxseq l) + length ops < unat BMAPSEQ_ANY"
  shows "\<exists>l'. tq_run ops l = Some l' \<and> tq_ok l' \<and> btt_minseq l \<le> btt_minseq l' \<and> btt_maxseq l \<le> btt_maxseq l'"
  using assms
proof (induction ops arbitrary: l)
  case (Cons a ops)
  obtain p op where o: "a = (p, op)" by (cases a)
  obtain x where x: "bml_pool l p = Some x" using Cons.prems(2) o by auto
  have go: ?case if "get_bml p l \<bind> (\<lambda>x. if op = BTE_DEL \<and> bml_flags x AND BML_TIMEOQ = 0 then Some l
      else map_option fst (mds_bmap_timeotbl_mdsi p op l)) = Some k" "tq_ok k" "btt_minseq l \<le> btt_minseq k"
    "btt_maxseq l \<le> btt_maxseq k" "dom (bml_pool k) = dom (bml_pool l)" "unat (btt_maxseq k) \<le> unat (btt_maxseq l) + 1" for k
  proof -
    have "\<exists>l'. tq_run ops k = Some l' \<and> tq_ok l' \<and> btt_minseq k \<le> btt_minseq l' \<and> btt_maxseq k \<le> btt_maxseq l'"
      by (rule Cons.IH) (use Cons.prems that(2,5,6) in auto)
    then show ?thesis using that(1,3,4) x o
      by (auto simp: get_bml_def intro: order_trans split: if_splits)
  qed
  show ?case
  proof (cases op)
    case BTE_ADD
    have m: "unat (btt_maxseq l) + 1 < unat BMAPSEQ_ANY" using Cons.prems(4) by simp
    then have m2: "btt_maxseq l < BMAPSEQ_ANY - 1" using unat_sub [of 1 BMAPSEQ_ANY] by (simp add: word_less_nat_alt BMAPSEQ_ANY_def)
    obtain k where k: "mds_bmap_timeotbl_mdsi p BTE_ADD l = Some (k, btt_maxseq l + 1)" "tq_ok k"
      "btt_maxseq k = btt_maxseq l + 1" "btt_minseq l \<le> btt_minseq k" "dom (bml_pool k) = dom (bml_pool l)"
      using tq_add [OF Cons.prems(1) x m2] by blast
    have u: "unat (btt_maxseq l + 1) \<le> unat (btt_maxseq l) + 1"
      by (simp add: unat_word_ariths(1) mod_less_eq_dividend del: Suc_eq_plus1)
    show ?thesis by (rule go [of k]) (use k x BTE_ADD u order_less_imp_le [OF next_seq(1) [OF m2]] in \<open>simp_all add: get_bml_def\<close>)
  next
    case BTE_DEL
    show ?thesis
    proof (cases "bml_flags x AND BML_TIMEOQ = 0")
      case True
      then show ?thesis by (intro go [of l]) (use x BTE_DEL Cons.prems(1) in \<open>simp_all add: get_bml_def\<close>)
    next
      case False
      obtain k where k: "mds_bmap_timeotbl_mdsi p BTE_DEL l = Some (k, BMAPSEQ_ANY)" "tq_ok k"
        "btt_maxseq k = btt_maxseq l" "btt_minseq l \<le> btt_minseq k" "dom (bml_pool k) = dom (bml_pool l)"
        using tq_del [OF Cons.prems(1) x False] by blast
      show ?thesis by (rule go [of k]) (use k x BTE_DEL False in \<open>simp_all add: get_bml_def\<close>)
    qed
  qed (use Cons.prems(3) o in auto)
qed simp

lemma round_minseq:
  assumes "tq_ok l"
  shows "sliseqnothr_round l bim =
    (\<lparr>bim_minseq = btt_minseq l, bim_flags = (bim_flags bim OR BIM_RETRIEVE_SEQ) AND NOT BIM_RETRIEVE_SEQ\<rparr>, 0)"
proof -
  have "btt_minseq l \<noteq> BMAPSEQ_ANY" using assms by (auto simp: tq_ok_def tq_sorted_def)
  then show ?thesis
    by (cases bim) (simp add: sliseqnothr_round_def slm_rmi_handle_bmap_getminseq_def mds_bmap_getcurseq_def bim_updateseq_def)
qed

lemma key_after_round:
  "sli_ric_key_check rw seq \<lparr>bim_minseq = m, bim_flags = (w OR BIM_RETRIEVE_SEQ) AND NOT BIM_RETRIEVE_SEQ\<rparr> =
     Some (if rw = SL_WRITE \<and> seq < m then - PFLERR_KEYEXPIRED else 0)"
proof -
  have "((w OR BIM_RETRIEVE_SEQ) AND NOT BIM_RETRIEVE_SEQ) AND BIM_RETRIEVE_SEQ = 0"
    by (rule bit_eqI) (simp add: bit_and_iff bit_or_iff bit_not_iff)
  then show ?thesis by (simp add: sli_ric_key_check_def bim_getcurseq_def)
qed

lemma reattach_step:
  assumes "bml_pool l p = Some x" "bml_flags x AND BML_TIMEOQ = 0"
  shows "\<exists>k s. mds_bmap_timeotbl_mdsi p BTE_REATTACH l = Some (k, s) \<and> btt_leases k = btt_leases l @ [p] \<and>
    bml_pool k = (bml_pool l)(p \<mapsto> x\<lparr>bml_flags := bml_flags x OR BML_TIMEOQ\<rparr>)"
  using assms by (simp add: mds_bmap_timeotbl_mdsi_def get_bml_def Let_def)

text \<open>
  C6. No write under a lease in force is refused for its age: whatever leases are issued, renewed or removed after an I/O
  server has asked for the low watermark, the operations are defined, the queue stays in the order of the numbers and
  between the watermarks, and the server accepts the number of every lease still in the queue.
\<close>

theorem lease_not_rejected:
  assumes "tq_ok l" "fst ` set ops \<subseteq> dom (bml_pool l)" "BTE_REATTACH \<notin> snd ` set ops"
    "unat (btt_maxseq l) + length ops < unat BMAPSEQ_ANY"
  shows "\<exists>l'. tq_run ops l = Some l' \<and> tq_ok l' \<and>
    (\<forall>p x. p \<in> set (btt_leases l') \<and> bml_pool l' p = Some x \<longrightarrow>
       sli_ric_key_check rw (bml_seq x) (fst (sliseqnothr_round l bim)) = Some 0)"
proof -
  obtain l' where l': "tq_run ops l = Some l'" "tq_ok l'" "btt_minseq l \<le> btt_minseq l'"
    using tq_run_ok [OF assms] by blast
  have "\<not> bml_seq x < btt_minseq l" if "p \<in> set (btt_leases l')" "bml_pool l' p = Some x" for p x
  proof -
    have "btt_minseq l' \<le> bml_seq x" using that l'(2) by (auto simp: tq_ok_def tq_sorted_def seq_of_def)
    then show ?thesis using l'(3) by (simp add: not_less order_trans)
  qed
  then show ?thesis using l'(1,2) by (intro exI [of _ l']) (auto simp: key_after_round round_minseq [OF assms(1)])
qed

text \<open>
  C40. After a restart leases come back in the order of the on-disk table, not of their numbers. When the oldest of three
  is first and the youngest second, the release of the oldest lifts the low watermark over the third one,
  and an I/O server that then asks for the watermark refuses writes under that lease, which is still in force.
\<close>

theorem reattached_lease_rejected:
  assumes "btt_leases l = []" "bml_pool l p = Some x" "bml_pool l q = Some y" "bml_pool l r = Some z" "distinct [p, q, r]"
    "bml_flags x AND BML_TIMEOQ = 0" "bml_flags y AND BML_TIMEOQ = 0" "bml_flags z AND BML_TIMEOQ = 0"
    "bml_seq z < bml_seq y" "bml_seq y < BMAPSEQ_ANY"
  shows "\<exists>l' w. tq_run [(p, BTE_REATTACH), (q, BTE_REATTACH), (r, BTE_REATTACH), (p, BTE_DEL)] l = Some l' \<and>
    r \<in> set (btt_leases l') \<and> bml_pool l' r = Some w \<and>
    sli_ric_key_check SL_WRITE (bml_seq w) (fst (sliseqnothr_round l' bim)) = Some (- PFLERR_KEYEXPIRED)"
proof -
  let ?on = "\<lambda>x. x\<lparr>bml_flags := bml_flags x OR BML_TIMEOQ\<rparr>"
  have on: "(w OR BML_TIMEOQ) AND BML_TIMEOQ \<noteq> 0" for w :: u32
    unfolding BML_TIMEOQ_def flag_bit by (simp add: bit_or_iff bit_push_bit_iff)
  obtain l1 s1 where l1: "mds_bmap_timeotbl_mdsi p BTE_REATTACH l = Some (l1, s1)" "btt_leases l1 = [p]"
    "bml_pool l1 = (bml_pool l)(p \<mapsto> ?on x)" using reattach_step [OF assms(2,6)] assms(1) by auto
  obtain l2 s2 where l2: "mds_bmap_timeotbl_mdsi q BTE_REATTACH l1 = Some (l2, s2)" "btt_leases l2 = [p, q]"
    "bml_pool l2 = (bml_pool l1)(q \<mapsto> ?on y)" using reattach_step [of l1 q y] assms(3,5,7) l1(2,3) by auto
  obtain l3 s3 where l3: "mds_bmap_timeotbl_mdsi r BTE_REATTACH l2 = Some (l3, s3)" "btt_leases l3 = [p, q, r]"
    "bml_pool l3 = (bml_pool l2)(r \<mapsto> ?on z)" using reattach_step [of l2 r z] assms(4,5,8) l1(3) l2(2,3) by auto
  have pool: "bml_pool l3 p = Some (?on x)" "bml_pool l3 q = Some (?on y)" "bml_pool l3 r = Some (?on z)"
    using assms(5) l1(3) l2(3) l3(3) by auto
  have ne: "bml_seq y \<noteq> BMAPSEQ_ANY" using assms(10) by auto
  obtain l4 s4 where l4: "mds_bmap_timeotbl_mdsi p BTE_DEL l3 = Some (l4, s4)" "btt_leases l4 = [q, r]"
    "bml_pool l4 r = Some (?on z)" "btt_minseq l4 = bml_seq y"
    using pool assms(5) l3(2) ne by (auto simp: mds_bmap_timeotbl_mdsi_def mds_bmap_timeotbl_remove_def get_bml_def Let_def)
  have rd: "fst (sliseqnothr_round l4 bim) =
    \<lparr>bim_minseq = bml_seq y, bim_flags = (bim_flags bim OR BIM_RETRIEVE_SEQ) AND NOT BIM_RETRIEVE_SEQ\<rparr>"
    using l4(4) ne
    by (cases bim) (simp add: sliseqnothr_round_def slm_rmi_handle_bmap_getminseq_def mds_bmap_getcurseq_def bim_updateseq_def)
  have "tq_run [(p, BTE_REATTACH), (q, BTE_REATTACH), (r, BTE_REATTACH), (p, BTE_DEL)] l = Some l4"
    using l1(1,3) l2(1,3) l3(1) l4(1) assms(2-5) pool on by (simp add: get_bml_def)
  then show ?thesis using l4(2,3) assms(9)
    by (intro exI [of _ l4] exI [of _ "?on z"]) (simp add: rd key_after_round)
qed

subsection \<open>Examples\<close>

lemma sample_lsrv_ok: "tq_ok (sample_lsrv ns)"
  by (simp add: tq_ok_def tq_sorted_def sample_lsrv_def sample_lease_def BMAPSEQ_ANY_def bml_flag_defs word_gt_0)

theorem lease_not_rejected_witness:
  "\<exists>l'. tq_run [(0, BTE_ADD), (1, BTE_ADD), (0, BTE_DEL)] (sample_lsrv [0, 0]) = Some l' \<and> tq_ok l'"
proof -
  have "unat BMAPSEQ_ANY = 2 ^ 64 - 1" by (simp add: BMAPSEQ_ANY_def unsigned_minus_1_eq_mask mask_eq_exp_minus_1)
  moreover have "fst ` set [(0, BTE_ADD), (1, BTE_ADD), (0, BTE_DEL)] \<subseteq> dom (bml_pool (sample_lsrv [0, 0]))"
    by (auto simp: sample_lsrv_def)
  ultimately show ?thesis
    using lease_not_rejected [OF sample_lsrv_ok, of "[(0, BTE_ADD), (1, BTE_ADD), (0, BTE_DEL)]" "[0, 0]" SL_WRITE bim_init]
    by (auto simp: sample_lsrv_def)
qed

theorem reattached_lease_rejected_witness:
  "\<exists>l' w. tq_run [(0, BTE_REATTACH), (1, BTE_REATTACH), (2, BTE_REATTACH), (0, BTE_DEL)] (sample_lsrv [5, 9, 6]) = Some l' \<and>
    2 \<in> set (btt_leases l') \<and> bml_pool l' 2 = Some w \<and>
    sli_ric_key_check SL_WRITE (bml_seq w) (fst (sliseqnothr_round l' bim_init)) = Some (- PFLERR_KEYEXPIRED)"
  by (rule reattached_lease_rejected [where x = "sample_lease 5" and y = "sample_lease 9" and z = "sample_lease 6"])
    (simp_all add: sample_lsrv_def sample_lease_def bml_flag_defs BMAPSEQ_ANY_def)

end
