(* ===== verification/Lease.thy ===== *)
theory Lease
  imports Bmap_Timeo
begin

text \<open>
  Leases of clients on bmaps (\<^verbatim>\<open>slashd/mds.c\<close>, \<^verbatim>\<open>coh.c\<close>, \<^verbatim>\<open>rmc.c\<close>): direct I/O between clients that conflict,
  assignment of a bmap to an I/O server, granting, upgrading, renewing, reassigning and releasing a lease.

  The first lease of a client is on the list of the bmap, its further leases are chained off it in a ring. An
  operation on a bmap gets the bmap \<open>b\<close>, which it holds a reference to, apart from the file \<open>f\<close>, and returns both. An
  uninitialised pointer that is used, a failed assertion and a wait for another thread have no result.
\<close>

subsection \<open>Data\<close>

definition BMAPF_DIO :: u32 where "BMAPF_DIO = push_bit 4 1"
definition BMAPF_IOSASSIGNED :: u32 where "BMAPF_IOSASSIGNED = push_bit 12 1"
definition BIAF_DIO :: u32 where "BIAF_DIO = push_bit 0 1"
definition BMAP_SLVR_DATA :: u8 where "BMAP_SLVR_DATA = push_bit 0 1"
definition SRM_LEASEBMAPF_DIO :: u32 where "SRM_LEASEBMAPF_DIO = push_bit 0 1"
definition SRM_LEASEBMAPF_DATA :: u32 where "SRM_LEASEBMAPF_DATA = push_bit 2 1"
definition SLJ_ASSIGN_REP_INO :: u32 where "SLJ_ASSIGN_REP_INO = 0x01"
definition SLJ_ASSIGN_REP_REP :: u32 where "SLJ_ASSIGN_REP_REP = 0x02"
definition SLJ_ASSIGN_REP_BMAP :: u32 where "SLJ_ASSIGN_REP_BMAP = 0x04"
definition SLJ_ASSIGN_REP_FREE :: u32 where "SLJ_ASSIGN_REP_FREE = 0x08"
definition SLERR_BMAP_DIOWAIT :: int where "SLERR_BMAP_DIOWAIT = 1000 + 5"
definition SLERR_BMAP_IN_PTRUNC :: int where "SLERR_BMAP_IN_PTRUNC = 1000 + 23"
definition PFLERR_NOTCONN :: int where "PFLERR_NOTCONN = 500 + 2"
definition PFLERR_ALREADY :: int where "PFLERR_ALREADY = 500 + 3"
definition ENOMEM :: int where "ENOMEM = 12"
definition EAGAIN :: int where "EAGAIN = 11"
definition LNET_NID_ANY :: u64 where "LNET_NID_ANY = -1"
definition LNET_PID_ANY :: u32 where "LNET_PID_ANY = -1"
definition MAX_BMAP_RELEASE :: nat where "MAX_BMAP_RELEASE = 5"

record srt_bmapdesc =
  sbd_fid :: u64
  sbd_seq :: u64
  sbd_key :: u64
  sbd_nid :: u64
  sbd_pid :: u32
  sbd_ios :: u32
  sbd_bmapno :: u32
  sbd_flags :: u32

text \<open>An assignment as the bytes of an item of the on-disk table, with the padding of the structure.\<close>

definition bia_bytes :: "nat \<Rightarrow> bmap_ios_assign \<Rightarrow> u8 list" where
  "bia_bytes itemsz a =
     (let bs = le64 (fst (bia_lastcli a)) @ le32 (snd (bia_lastcli a)) @ le32 0 @ le32 (bia_ios a) @ le32 0 @
               le64 (bia_fid a) @ le64 (bia_seq a) @ le32 (bia_bmapno a) @ le32 (bia_flags a) @ le64 (bia_start a)
      in bs @ replicate (itemsz - length bs) 0)"

definition bia_of_bytes :: "u8 list \<Rightarrow> bmap_ios_assign" where
  "bia_of_bytes bs =
     \<lparr>bia_lastcli = (un_le64 bs, un_le32 (drop 8 bs)), bia_ios = un_le32 (drop 16 bs), bia_fid = un_le64 (drop 24 bs),
      bia_seq = un_le64 (drop 32 bs), bia_bmapno = un_le32 (drop 40 bs), bia_flags = un_le32 (drop 44 bs),
      bia_start = un_le64 (drop 48 bs)\<rparr>"

definition bia_item :: "bmap_ios_assign \<Rightarrow> lsrv \<Rightarrow> u8 list" where
  "bia_item a l = bia_bytes (unat (odth_itemsz (odt_hdr (slm_bia_odt l)))) a"

definition pfl_odt_getitem :: "nat \<Rightarrow> lsrv \<Rightarrow> (bmap_ios_assign \<times> lsrv) option" where
  "pfl_odt_getitem item l =
     do {
       (t, p, _) \<leftarrow> pfl_odt_getslot (slm_bia_odt l) item;
       Some (bia_of_bytes p, l\<lparr>slm_bia_odt := t\<rparr>)
     }"

definition upd_bml :: "nat \<Rightarrow> (bml \<Rightarrow> bml) \<Rightarrow> lsrv \<Rightarrow> lsrv option" where
  "upd_bml p g l = do { x \<leftarrow> get_bml p l; Some (put_bml p (g x) l) }"

definition set_bml_flags :: "nat \<Rightarrow> u32 \<Rightarrow> lsrv \<Rightarrow> lsrv option" where
  "set_bml_flags p w l = upd_bml p (\<lambda>x. x\<lparr>bml_flags := bml_flags x OR w\<rparr>) l"

definition clr_bml_flags :: "nat \<Rightarrow> u32 \<Rightarrow> lsrv \<Rightarrow> lsrv option" where
  "clr_bml_flags p w l = upd_bml p (\<lambda>x. x\<lparr>bml_flags := bml_flags x AND NOT w\<rparr>) l"

definition set_bcm_flags :: "u32 \<Rightarrow> bmap \<Rightarrow> bmap" where
  "set_bcm_flags w b = b\<lparr>bcm_flags := bcm_flags b OR w\<rparr>"

definition clr_bcm_flags :: "u32 \<Rightarrow> bmap \<Rightarrow> bmap" where
  "clr_bcm_flags w b = b\<lparr>bcm_flags := bcm_flags b AND NOT w\<rparr>"

text \<open>The leases of a ring, from \<open>p\<close> up to the one before \<open>h\<close>. A ring that does not close has no value.\<close>

partial_function (option) chain_walk :: "lsrv \<Rightarrow> nat \<Rightarrow> nat \<Rightarrow> nat list option" where
  "chain_walk l h p =
     do {
       x \<leftarrow> get_bml p l;
       n \<leftarrow> bml_chain x;
       if n = h then Some [p] else do { ps \<leftarrow> chain_walk l h n; Some (p # ps) }
     }"

declare chain_walk.simps [code]

subsection \<open>Direct I/O\<close>

definition mdscoh_req :: "lenv \<Rightarrow> nat \<Rightarrow> bmap \<Rightarrow> lsrv \<Rightarrow> (bmap \<times> lsrv \<times> int) option" where
  "mdscoh_req env p b l =
     do {
       x \<leftarrow> get_bml p l;
       if bml_flags x AND BML_RECOVER \<noteq> 0 then do {
         psc_assert (\<not> bml_exp x);
         Some (b, l, - PFLERR_NOTCONN)
       } else do {
         psc_assert (bml_exp x);
         if \<not> l_cli_online env p then Some (b, l, - PFLERR_NOTCONN)
         else if l_cli_newreq_rc env \<noteq> 0 then Some (b, l, l_cli_newreq_rc env)
         else do {
           let b = b\<lparr>bmi_diocb := bmi_diocb b + 1\<rparr>;
           let x = x\<lparr>bml_refcnt := bml_refcnt x + 1, bml_flags := bml_flags x OR BML_DIOCB\<rparr>;
           if l_cli_nbset_rc env = 0 then Some (b, put_bml p x l, 0)
           else Some (b\<lparr>bmi_diocb := bmi_diocb b - 1\<rparr>, put_bml p (x\<lparr>bml_flags := bml_flags x AND NOT BML_DIOCB\<rparr>) l,
                      l_cli_nbset_rc env)
         }
       }
     }"

fun dio_chain :: "lenv \<Rightarrow> cli \<Rightarrow> nat list \<Rightarrow> bool \<Rightarrow> int \<Rightarrow> bmap \<Rightarrow> lsrv \<Rightarrow> (bool \<times> int \<times> bmap \<times> lsrv) option" where
  "dio_chain env np [] force rc b l = Some (force, rc, b, l)"
| "dio_chain env np (p # ps) force rc b l =
     do {
       x \<leftarrow> get_bml p l;
       if bml_cli_nidpid x = np then dio_chain env np ps force rc b l
       else if bml_flags x AND BML_DIO \<noteq> 0 then dio_chain env np ps True rc b l
       else if bml_flags x AND BML_DIOCB \<noteq> 0 then dio_chain env np ps True (- SLERR_BMAP_DIOWAIT) b l
       else do {
         (b, l, _) \<leftarrow> mdscoh_req env p b l;
         dio_chain env np ps True (- SLERR_BMAP_DIOWAIT) b l
       }
     }"

fun dio_leases :: "lenv \<Rightarrow> cli \<Rightarrow> nat list \<Rightarrow> bool \<Rightarrow> int \<Rightarrow> bmap \<Rightarrow> lsrv \<Rightarrow> (bool \<times> int \<times> bmap \<times> lsrv) option" where
  "dio_leases env np [] force rc b l = Some (force, rc, b, l)"
| "dio_leases env np (h # hs) force rc b l =
     do {
       ps \<leftarrow> chain_walk l h h;
       (force, rc, b, l) \<leftarrow> dio_chain env np ps force rc b l;
       dio_leases env np hs force rc b l
     }"

definition mds_bmap_directio ::
  "lenv \<Rightarrow> rw \<Rightarrow> bool \<Rightarrow> cli \<Rightarrow> bmap \<Rightarrow> fcmh \<Rightarrow> lsrv \<Rightarrow> (bmap \<times> lsrv \<times> int) option" where
  "mds_bmap_directio env rw want_dio np b f l =
     do {
       let b = clr_bcm_flags BMAPF_DIO b;
       let want_dio = (want_dio \<or> bmi_diocb b \<noteq> 0);
       (force, rc, b, l) \<leftarrow>
         (if want_dio \<or> bmi_writers b \<noteq> 0 \<or> rw = SL_WRITE \<and> bmi_readers b \<noteq> 0
          then dio_leases env np (bmi_leases b) False 0 b l else Some (False, 0, b, l));
       let b = (if rc = 0 \<and> (want_dio \<or> force) then set_bcm_flags BMAPF_DIO b else b);
       let b = (if fmi_cb_count f > 1 \<and> bcm_flags b AND BMAPF_DIO = 0 then set_bcm_flags BMAPF_DIO b else b);
       Some (b, l, rc)
     }"

subsection \<open>The assignment of a bmap\<close>

definition mdslogfill_ino_repls :: "fcmh \<Rightarrow> slmds_jent_ino_repls option" where
  "mdslogfill_ino_repls f =
     do {
       let ino = inoh_ino (fcmh_inoh f);
       psc_assert (fcmh_isdir f \<or> fcmh_2_nrepls f \<noteq> 0);
       ext \<leftarrow> (if fcmh_2_nrepls f > SL_DEF_REPLICAS then map_option inox_repls (inoh_extras (fcmh_inoh f)) else Some []);
       Some \<lparr>sjir_fid = fcmh_fid f, sjir_nrepls = ino_nrepls ino, sjir_replpol = ino_replpol ino,
             sjir_repls = ino_repls ino @ ext\<rparr>
     }"

definition mdslogfill_bmap_repls :: "bmap \<Rightarrow> fcmh \<Rightarrow> slmds_jent_bmap_repls" where
  "mdslogfill_bmap_repls b f =
     \<lparr>sjbr_fid = fcmh_fid f, sjbr_bmapno = bcm_bmapno b, sjbr_bgen = bes_gen b,
      sjbr_nrepls = ino_nrepls (inoh_ino (fcmh_inoh f)), sjbr_replpol = ino_replpol (inoh_ino (fcmh_inoh f)),
      sjbr_repls = bmi_repls b\<rparr>"

definition add_jent :: "slmds_jent_assign_rep \<Rightarrow> lsrv \<Rightarrow> lsrv" where
  "add_jent e l = l\<lparr>slm_jlog := slm_jlog l @ [MDS_LOG_BMAP_ASSIGN e]\<rparr>"

definition mds_bmap_add_repl ::
  "sl_config \<Rightarrow> bmap_ios_assign \<Rightarrow> bmap \<Rightarrow> fcmh \<Rightarrow> slm \<Rightarrow> lsrv \<Rightarrow> (bmap \<times> fcmh \<times> slm \<times> lsrv \<times> int) option" where
  "mds_bmap_add_repl cfg bia b f s l =
     do {
       let nr = ino_nrepls (inoh_ino (fcmh_inoh f));
       psc_assert (bcm_flags b AND BMAPF_IOSASSIGNED \<noteq> 0);
       (ih, mf, iosidx) \<leftarrow> mds_repl_ios_lookup cfg (slm_crc_check s) (fcmh_fid f) (bia_ios bia) IOSV_LOOKUPF_ADD
         (fcmh_inoh f) (fcmh_mf f);
       let f = f\<lparr>fcmh_inoh := ih, fcmh_mf := mf\<rparr>;
       if iosidx < 0 then Some (b, f, s, l, iosidx)
       else do {
         (b, f, s, rc) \<leftarrow> mds_repl_inv_except (nat iosidx) b f s;
         if rc \<noteq> 0 then Some (b, f, s, l, rc)
         else do {
           ino \<leftarrow> (if nr \<noteq> ino_nrepls (inoh_ino (fcmh_inoh f)) then map_option Some (mdslogfill_ino_repls f) else Some None);
           let e = \<lparr>sjar_flags = (if ino = None then 0 else SLJ_ASSIGN_REP_INO) OR SLJ_ASSIGN_REP_REP OR SLJ_ASSIGN_REP_BMAP,
                    sjar_item = bmi_assign b, sjar_ino = ino, sjar_rep = Some (mdslogfill_bmap_repls b f),
                    sjar_bmap = Some bia\<rparr>;
           Some (b, f, s, add_jent e l, 0)
         }
       }
     }"

definition mds_bmap_ios_assign ::
  "lenv \<Rightarrow> sl_config \<Rightarrow> u32 list \<Rightarrow> nat \<Rightarrow> u32 \<Rightarrow> bmap \<Rightarrow> fcmh \<Rightarrow> slm \<Rightarrow> lsrv \<Rightarrow>
     (bmap \<times> fcmh \<times> slm \<times> lsrv \<times> int) option" where
  "mds_bmap_ios_assign env cfg rs p iosid b f s l =
     do {
       psc_assert (bmi_wr_ion b = None);
       psc_assert (bmi_assign b = 0);
       psc_assert (bcm_opcnt b > 0);
       (f, rc, mo) \<leftarrow> slm_resm_select env cfg b iosid [] rs f s;
       if rc \<noteq> 0 then Some (b, f, s, l, rc)
       else do {
         m \<leftarrow> mo;
         let b = b\<lparr>bmi_wr_ion := Some m\<rparr>;
         let l = l\<lparr>rmmi_refcnt := (rmmi_refcnt l)(m := rmmi_refcnt l m + 1)\<rparr>;
         (t, io) \<leftarrow> pfl_odt_allocslot slm_odt_resize (slm_bia_odt l);
         let l = l\<lparr>slm_bia_odt := t\<rparr>;
         case io of
           None \<Rightarrow> Some (b, f, s, l, - ENOMEM)
         | Some item \<Rightarrow> do {
             l \<leftarrow> upd_bml p (\<lambda>x. x\<lparr>bml_ios := m\<rparr>) l;
             x \<leftarrow> get_bml p l;
             (l, seq) \<leftarrow> mds_bmap_timeotbl_mdsi p BTE_ADD l;
             let bia = \<lparr>bia_lastcli = bml_cli_nidpid x, bia_ios = m, bia_fid = fcmh_fid f, bia_seq = seq,
                        bia_bmapno = bcm_bmapno b,
                        bia_flags = (if bcm_flags b AND BMAPF_DIO \<noteq> 0 then BIAF_DIO else 0), bia_start = l_time env\<rparr>;
             let b = b\<lparr>bmi_seq := seq, bmi_assign := item\<rparr>;
             t \<leftarrow> pfl_odt_putitem (slm_bia_odt l) item (Some (bia_item bia l)) True;
             (b, f, s, l, rc) \<leftarrow> mds_bmap_add_repl cfg bia b f s (l\<lparr>slm_bia_odt := t\<rparr>);
             if rc \<noteq> 0 then do {
               t \<leftarrow> pfl_odt_freeitem (slm_bia_odt l) item;
               Some (b, f, s, l\<lparr>slm_bia_odt := t\<rparr>, rc)
             } else do {
               l \<leftarrow> upd_bml p (\<lambda>x. x\<lparr>bml_seq := seq\<rparr>) l;
               Some (b, f, s, l, 0)
             }
           }
       }
     }"

definition mds_bmap_ios_update ::
  "lenv \<Rightarrow> sl_config \<Rightarrow> nat \<Rightarrow> bmap \<Rightarrow> fcmh \<Rightarrow> slm \<Rightarrow> lsrv \<Rightarrow> (bmap \<times> fcmh \<times> slm \<times> lsrv \<times> int) option" where
  "mds_bmap_ios_update env cfg p b f s l =
     do {
       psc_assert (bcm_flags b AND BMAPF_IOSASSIGNED \<noteq> 0);
       let dio = (bcm_flags b AND BMAPF_DIO \<noteq> 0);
       (bia, l) \<leftarrow> pfl_odt_getitem (bmi_assign b) l;
       if bia_fid bia \<noteq> fcmh_fid f then Some (b, f, s, l, - 1)
       else do {
         psc_assert (bia_seq bia = bmi_seq b);
         x \<leftarrow> get_bml p l;
         (l, seq) \<leftarrow> mds_bmap_timeotbl_mdsi p BTE_ADD l;
         let b = b\<lparr>bmi_seq := seq\<rparr>;
         let bia = bia\<lparr>bia_start := l_time env, bia_seq := seq, bia_lastcli := bml_cli_nidpid x,
                       bia_flags := (if dio then BIAF_DIO else 0)\<rparr>;
         t \<leftarrow> pfl_odt_replaceitem (slm_bia_odt l) (bmi_assign b) (bia_item bia l);
         l \<leftarrow> upd_bml p (\<lambda>x. x\<lparr>bml_ios := bia_ios bia\<rparr>) (l\<lparr>slm_bia_odt := t\<rparr>);
         mds_bmap_add_repl cfg bia b f s l
       }
     }"

definition libsl_ios2resm :: "lenv \<Rightarrow> sl_config \<Rightarrow> u32 \<Rightarrow> u32 option" where
  "libsl_ios2resm env cfg ios = do { mo \<leftarrow> libsl_try_ios2resm env cfg ios; mo }"

definition mds_bmap_ios_restart :: "lenv \<Rightarrow> sl_config \<Rightarrow> nat \<Rightarrow> bmap \<Rightarrow> lsrv \<Rightarrow> (bmap \<times> lsrv) option" where
  "mds_bmap_ios_restart env cfg p b l =
     do {
       x \<leftarrow> get_bml p l;
       m \<leftarrow> libsl_ios2resm env cfg (bml_ios x);
       psc_assert (bmi_assign b \<noteq> 0);
       psc_assert (bmi_wr_ion b \<in> {None, Some m});
       let l = (if bmi_wr_ion b = None then l\<lparr>rmmi_refcnt := (rmmi_refcnt l)(m := rmmi_refcnt l m + 1)\<rparr> else l);
       let b = b\<lparr>bmi_wr_ion := Some m\<rparr>;
       (l, _) \<leftarrow> mds_bmap_timeotbl_mdsi p BTE_REATTACH l;
       x \<leftarrow> get_bml p l;
       Some (if bml_seq x > bmi_seq b then b\<lparr>bmi_seq := bml_seq x\<rparr> else b, l)
     }"

subsection \<open>The leases of a bmap\<close>

text \<open>The lease of a client on the list, and the numbers of its write and read leases. Two on the list abort.\<close>

definition mds_bmap_dupls_find :: "cli \<Rightarrow> bmap \<Rightarrow> lsrv \<Rightarrow> (nat option \<times> nat \<times> nat) option" where
  "mds_bmap_dupls_find cnp b l =
     do {
       psc_assert (list_all (\<lambda>p. get_bml p l \<noteq> None) (bmi_leases b));
       case filter (\<lambda>p. map_option bml_cli_nidpid (get_bml p l) = Some cnp) (bmi_leases b) of
         [] \<Rightarrow> Some (None, 0, 0)
       | [h] \<Rightarrow> do {
           ps \<leftarrow> chain_walk l h h;
           let rd = filter (\<lambda>p. bml_flags (the (get_bml p l)) AND BML_READ \<noteq> 0) ps;
           Some (Some h, length ps - length rd, length rd)
         }
       | _ \<Rightarrow> None
     }"

fun getbml_chain :: "u64 \<Rightarrow> nat list \<Rightarrow> lsrv \<Rightarrow> nat option option" where
  "getbml_chain seq [] l = Some None"
| "getbml_chain seq (p # ps) l =
     do { x \<leftarrow> get_bml p l; if bml_seq x = seq then Some (Some p) else getbml_chain seq ps l }"

fun getbml_leases :: "u64 \<Rightarrow> cli \<Rightarrow> nat list \<Rightarrow> lsrv \<Rightarrow> nat option option" where
  "getbml_leases seq cnp [] l = Some None"
| "getbml_leases seq cnp (h # hs) l =
     do {
       x \<leftarrow> get_bml h l;
       if bml_cli_nidpid x \<noteq> cnp then getbml_leases seq cnp hs l
       else do {
         ps \<leftarrow> chain_walk l h h;
         po \<leftarrow> getbml_chain seq ps l;
         case po of None \<Rightarrow> getbml_leases seq cnp hs l | Some p \<Rightarrow> Some (Some p)
       }
     }"

definition mds_bmap_getbml :: "u64 \<Rightarrow> cli \<Rightarrow> bmap \<Rightarrow> lsrv \<Rightarrow> (nat option \<times> lsrv) option" where
  "mds_bmap_getbml seq cnp b l =
     do {
       po \<leftarrow> getbml_leases seq cnp (bmi_leases b) l;
       case po of
         None \<Rightarrow> Some (None, l)
       | Some p \<Rightarrow> do {
           x \<leftarrow> get_bml p l;
           if bml_flags x AND BML_FREEING \<noteq> 0 then Some (None, l)
           else Some (Some p, put_bml p (x\<lparr>bml_refcnt := bml_refcnt x + 1\<rparr>) l)
         }
     }"

definition mds_bml_new :: "lenv \<Rightarrow> u64 \<times> u32 \<Rightarrow> bool \<Rightarrow> u32 \<Rightarrow> cli \<Rightarrow> lsrv \<Rightarrow> nat \<times> lsrv" where
  "mds_bml_new env bmi e flags cnp l =
     (bml_next l,
      put_bml (bml_next l)
        \<lparr>bml_seq = 0, bml_refcnt = 1, bml_ios = 0, bml_cli_nidpid = cnp, bml_flags = flags, bml_start = l_time env,
         bml_expire = l_time env + l_lease_timeout env, bml_bmi = bmi, bml_exp = e, bml_chain = None\<rparr>
        (l\<lparr>bml_next := bml_next l + 1\<rparr>))"

text \<open>Linking a lease: at the end of the ring of its client, or as the only one of a new ring on the list.\<close>

definition bml_link :: "nat \<Rightarrow> nat option \<Rightarrow> bmap \<Rightarrow> lsrv \<Rightarrow> (bmap \<times> lsrv) option" where
  "bml_link p obml b l =
     (case obml of
        Some h \<Rightarrow> do {
          ps \<leftarrow> chain_walk l h h;
          l \<leftarrow> upd_bml (last ps) (\<lambda>x. x\<lparr>bml_chain := Some p\<rparr>) l;
          l \<leftarrow> upd_bml p (\<lambda>x. x\<lparr>bml_flags := bml_flags x OR BML_CHAIN, bml_chain := Some h\<rparr>) l;
          psc_assert (p \<notin> set (bmi_leases b));
          Some (b, l)
        }
      | None \<Rightarrow> do {
          l \<leftarrow> upd_bml p (\<lambda>x. x\<lparr>bml_chain := Some p\<rparr>) l;
          Some (b\<lparr>bmi_leases := bmi_leases b @ [p]\<rparr>, l)
        })"

text \<open>Counting a client once, as a writer if it has a write lease; \<open>w\<close> and \<open>r\<close> are the numbers of its other leases.\<close>

definition count_rd :: "nat \<Rightarrow> nat \<Rightarrow> bmap \<Rightarrow> bmap" where
  "count_rd w r b = (if w = 0 \<and> r = 0 then b\<lparr>bmi_readers := bmi_readers b + 1\<rparr> else b)"

definition count_wr :: "nat \<Rightarrow> nat \<Rightarrow> bmap \<Rightarrow> bmap" where
  "count_wr w r b =
     (if w = 0 then b\<lparr>bmi_writers := bmi_writers b + 1, bmi_readers := (if r \<noteq> 0 then bmi_readers b - 1 else bmi_readers b)\<rparr>
      else b)"

text \<open>The assignment for a write lease: taken over at a restart, made for the first writer, or renewed.\<close>

definition bml_bind ::
  "lenv \<Rightarrow> sl_config \<Rightarrow> u32 list \<Rightarrow> nat \<Rightarrow> bml \<Rightarrow> nat \<Rightarrow> u32 \<Rightarrow> bmap \<Rightarrow> fcmh \<Rightarrow> slm \<Rightarrow> lsrv \<Rightarrow>
     (bmap \<times> fcmh \<times> slm \<times> lsrv \<times> int) option" where
  "bml_bind env cfg rs p x wlease prefios b f s l =
     (if bml_flags x AND BML_RECOVER \<noteq> 0 then do {
        psc_assert (bmi_writers b = 1);
        psc_assert (bmi_readers b = 0);
        psc_assert (bml_ios x \<noteq> 0 \<and> bml_ios x \<noteq> IOS_ID_ANY);
        (b, l) \<leftarrow> mds_bmap_ios_restart env cfg p b l;
        Some (b, f, s, l, 0)
      } else if wlease = 0 \<and> bmi_writers b = 1 then do {
        psc_assert (bmi_wr_ion b = None);
        mds_bmap_ios_assign env cfg rs p prefios b f s l
      } else do {
        psc_assert (bmi_wr_ion b \<noteq> None);
        mds_bmap_ios_update env cfg p b f s l
      })"

definition mds_bmap_bml_add ::
  "lenv \<Rightarrow> sl_config \<Rightarrow> u32 list \<Rightarrow> nat \<Rightarrow> rw \<Rightarrow> u32 \<Rightarrow> bmap \<Rightarrow> fcmh \<Rightarrow> slm \<Rightarrow> lsrv \<Rightarrow>
     (bmap \<times> fcmh \<times> slm \<times> lsrv \<times> int) option" where
  "mds_bmap_bml_add env cfg rs p rw prefios b f s l =
     do {
       x \<leftarrow> get_bml p l;
       let (nid, pid) = bml_cli_nidpid x;
       psc_assert (nid \<noteq> 0 \<and> pid \<noteq> 0 \<and> nid \<noteq> LNET_NID_ANY \<and> pid \<noteq> LNET_PID_ANY);
       psc_assert (bcm_flags b AND BMAPF_IOSASSIGNED = 0);
       let b = b\<lparr>bcm_opcnt := bcm_opcnt b + 1\<rparr>;
       (b, l, rc) \<leftarrow> mds_bmap_directio env rw (bml_flags x AND BML_DIO \<noteq> 0) (bml_cli_nidpid x) b f l;
       if rc \<noteq> 0 \<and> bml_flags x AND BML_RECOVER = 0 then Some (b, f, s, l, rc)
       else do {
         (obml, wlease, rlease) \<leftarrow> mds_bmap_dupls_find (bml_cli_nidpid x) b l;
         (b, l) \<leftarrow> bml_link p obml b l;
         l \<leftarrow> set_bml_flags p BML_BMI l;
         if rw = SL_READ then do {
           let b = count_rd wlease rlease b;
           (l, _) \<leftarrow> mds_bmap_timeotbl_mdsi p BTE_ADD l;
           Some (b, f, s, l, 0)
         } else do {
           let b = set_bcm_flags BMAPF_IOSASSIGNED b;
           let b = count_wr wlease rlease b;
           (b, f, s, l, rc) \<leftarrow> bml_bind env cfg rs p x wlease prefios b f s l;
           Some (clr_bcm_flags BMAPF_IOSASSIGNED b, f, s, l, rc)
         }
       }
     }"

text \<open>The lease before \<open>p\<close> in the ring from \<open>h\<close>; the search does not end if \<open>p\<close> is not in the ring.\<close>

definition chain_pred :: "nat \<Rightarrow> nat \<Rightarrow> lsrv \<Rightarrow> nat option" where
  "chain_pred h p l =
     do { ps \<leftarrow> chain_walk l h h; find (\<lambda>q. map_option bml_chain (get_bml q l) = Some (Some p)) ps }"

text \<open>Taking \<open>p\<close>, which is \<open>x\<close>, out of the ring of \<open>n\<close> leases from \<open>h\<close>; \<open>tail\<close> is the lease before it.\<close>

definition bml_unlink :: "nat \<Rightarrow> bml \<Rightarrow> nat \<Rightarrow> nat \<Rightarrow> nat \<Rightarrow> bmap \<Rightarrow> lsrv \<Rightarrow> (bmap \<times> lsrv) option" where
  "bml_unlink p x h tail nl b l =
     (if bml_flags x AND BML_CHAIN \<noteq> 0 then do {
        psc_assert (p \<notin> set (bmi_leases b));
        psc_assert (nl > 1);
        l \<leftarrow> upd_bml tail (\<lambda>y. y\<lparr>bml_chain := bml_chain x\<rparr>) l;
        Some (b, l)
      } else do {
        psc_assert (h = p);
        let b = b\<lparr>bmi_leases := remove1 p (bmi_leases b)\<rparr>;
        n \<leftarrow> bml_chain x;
        if nl > 1 then do {
          z \<leftarrow> get_bml n l;
          psc_assert (bml_flags z AND BML_CHAIN \<noteq> 0);
          psc_assert (n \<notin> set (bmi_leases b));
          l \<leftarrow> clr_bml_flags n BML_CHAIN l;
          let b = b\<lparr>bmi_leases := bmi_leases b @ [n]\<rparr>;
          l \<leftarrow> upd_bml tail (\<lambda>y. y\<lparr>bml_chain := Some n\<rparr>) l;
          Some (b, l)
        } else do {
          psc_assert (n = p);
          Some (b, l)
        }
      })"

definition bml_uncount :: "bml \<Rightarrow> nat \<Rightarrow> nat \<Rightarrow> bmap \<Rightarrow> bmap option" where
  "bml_uncount x wlease rlease b =
     (if bml_flags x AND BML_WRITE \<noteq> 0 then
        if wlease = 1 then do {
          psc_assert (bmi_writers b > 0);
          Some (b\<lparr>bmi_writers := bmi_writers b - 1,
                  bmi_readers := (if rlease \<noteq> 0 then bmi_readers b + 1 else bmi_readers b)\<rparr>)
        } else Some b
      else do {
        psc_assert (bml_flags x AND BML_READ \<noteq> 0);
        if wlease = 0 \<and> rlease = 1 then do {
          psc_assert (bmi_readers b > 0);
          Some (b\<lparr>bmi_readers := bmi_readers b - 1\<rparr>)
        } else Some b
      })"

definition mds_bmap_bml_del_locked :: "nat \<Rightarrow> bmap \<Rightarrow> lsrv \<Rightarrow> (bmap \<times> lsrv) option" where
  "mds_bmap_bml_del_locked p b l =
     do {
       x \<leftarrow> get_bml p l;
       (obml, wlease, rlease) \<leftarrow> mds_bmap_dupls_find (bml_cli_nidpid x) b l;
       h \<leftarrow> obml;
       psc_assert (wlease + rlease > 0);
       y \<leftarrow> get_bml h l;
       psc_assert (bml_flags y AND BML_CHAIN = 0);
       tail \<leftarrow> chain_pred h p l;
       (b, l) \<leftarrow> bml_unlink p x h tail (wlease + rlease) b l;
       b \<leftarrow> bml_uncount x wlease rlease b;
       Some (b, l)
     }"

subsection \<open>Release\<close>

text \<open>The end of the assignment when the last writer is gone; the item that is to be freed, if any.\<close>

definition release_assign :: "bmap \<Rightarrow> lsrv \<Rightarrow> (bmap \<times> lsrv \<times> nat) option" where
  "release_assign b l =
     do {
       (b, l, item) \<leftarrow>
         (if bmi_assign b \<noteq> 0 then do {
            (bia, l) \<leftarrow> pfl_odt_getitem (bmi_assign b) l;
            psc_assert (bia_bmapno bia = bcm_bmapno b);
            Some (b\<lparr>bmi_assign := 0\<rparr>, l, bmi_assign b)
          } else Some (b, l, 0));
       case bmi_wr_ion b of
         None \<Rightarrow> Some (b, l, item)
       | Some m \<Rightarrow>
           Some (b\<lparr>bmi_wr_ion := None\<rparr>, l\<lparr>rmmi_refcnt := (rmmi_refcnt l)(m := rmmi_refcnt l m - 1)\<rparr>, item)
     }"

text \<open>
  The bmap after the release is the one the file has then; it is gone when the lease held the last reference. The
  return code of the routine is always 0.
\<close>

definition mds_bmap_bml_release :: "nat \<Rightarrow> bmap \<Rightarrow> fcmh \<Rightarrow> lsrv \<Rightarrow> (bmap option \<times> fcmh \<times> lsrv) option" where
  "mds_bmap_bml_release p b f l =
     do {
       psc_assert (bcm_opcnt b > 0);
       psc_assert (bcm_flags b AND BMAPF_IOSASSIGNED = 0);
       let b = set_bcm_flags BMAPF_IOSASSIGNED b;
       l \<leftarrow> upd_bml p (\<lambda>x. x\<lparr>bml_refcnt := bml_refcnt x - 1\<rparr>) l;
       x \<leftarrow> get_bml p l;
       psc_assert (bml_refcnt x \<ge> 0);
       if bml_refcnt x > 0 \<or> bml_flags x AND BML_FREEING = 0 then
         Some (Some (bmap_wake_locked (clr_bcm_flags BMAPF_IOSASSIGNED b)), f, l)
       else do {
         l \<leftarrow> (if bml_flags x AND BML_TIMEOQ \<noteq> 0 then map_option fst (mds_bmap_timeotbl_mdsi p BTE_DEL l) else Some l);
         (b, l, item) \<leftarrow>
           (if bml_flags x AND BML_BMI = 0 then Some (b, l, 0)
            else do {
              (b, l) \<leftarrow> mds_bmap_bml_del_locked p b l;
              l \<leftarrow> clr_bml_flags p BML_BMI l;
              let b = (if bcm_flags b AND BMAPF_DIO \<noteq> 0 \<and>
                          (bmi_writers b = 0 \<or> bmi_writers b = 1 \<and> bmi_readers b = 0)
                       then clr_bcm_flags BMAPF_DIO b else b);
              if bml_flags x AND BML_WRITE \<noteq> 0 \<and> bmi_writers b = 0 then release_assign b l else Some (b, l, 0)
            });
         let n = bcm_bmapno b;
         f \<leftarrow> bmap_op_done (bmap_wake_locked (clr_bcm_flags BMAPF_IOSASSIGNED b)) f;
         let l = l\<lparr>bml_pool := (bml_pool l)(p := None)\<rparr>;
         l \<leftarrow> (if item = 0 then Some l
               else do {
                 let l = add_jent \<lparr>sjar_flags = SLJ_ASSIGN_REP_FREE, sjar_item = item, sjar_ino = None,
                                   sjar_rep = None, sjar_bmap = None\<rparr> l;
                 t \<leftarrow> pfl_odt_freeitem (slm_bia_odt l) item;
                 Some (l\<lparr>slm_bia_odt := t\<rparr>)
               });
         Some (fcmh_bmaptree f n, f, l)
       }
     }"

definition bmap_put :: "bmap option \<Rightarrow> fcmh \<Rightarrow> fcmh" where
  "bmap_put bo f =
     (case bo of None \<Rightarrow> f | Some b \<Rightarrow> f\<lparr>fcmh_bmaptree := (fcmh_bmaptree f)(bcm_bmapno b \<mapsto> b)\<rparr>)"

definition slm_coh_bml_release :: "nat \<Rightarrow> fcmh \<Rightarrow> lsrv \<Rightarrow> (fcmh \<times> lsrv) option" where
  "slm_coh_bml_release p f l =
     do {
       x \<leftarrow> get_bml p l;
       b \<leftarrow> fcmh_bmaptree f (snd (bml_bmi x));
       let b = b\<lparr>bmi_diocb := bmi_diocb b - 1\<rparr>;
       l \<leftarrow> clr_bml_flags p BML_DIOCB l;
       (bo, f, l) \<leftarrow> mds_bmap_bml_release p b f l;
       Some (bmap_put bo f, l)
     }"

text \<open>The answer of a client to the request for direct I/O; \<open>rc\<close> is the status of the answer.\<close>

definition slm_rcm_bmapdio_cb :: "int \<Rightarrow> nat \<Rightarrow> fcmh \<Rightarrow> lsrv \<Rightarrow> (fcmh \<times> lsrv) option" where
  "slm_rcm_bmapdio_cb rc p f l =
     do {
       l \<leftarrow> (if rc \<noteq> 0 \<and> rc \<noteq> - ENOENT then Some l else set_bml_flags p BML_DIO l);
       slm_coh_bml_release p f l
     }"

text \<open>A turn of the timeout thread, with the seconds it sleeps afterwards.\<close>

definition slmbmaptimeothr_turn :: "bool \<Rightarrow> u64 \<Rightarrow> (u64 \<Rightarrow> fcmh option) \<Rightarrow> lsrv \<Rightarrow>
    ((u64 \<Rightarrow> fcmh option) \<times> lsrv \<times> int) option" where
  "slmbmaptimeothr_turn lock now fs l =
     do {
       (l, r) \<leftarrow> slmbmaptimeothr_pick lock now l;
       case r of
         Inl nsecs \<Rightarrow> Some (fs, l, nsecs)
       | Inr p \<Rightarrow> do {
           x \<leftarrow> get_bml p l;
           f \<leftarrow> fs (fst (bml_bmi x));
           b \<leftarrow> fcmh_bmaptree f (snd (bml_bmi x));
           (bo, f, l) \<leftarrow> mds_bmap_bml_release p b f l;
           Some (fs(fst (bml_bmi x) \<mapsto> bmap_put bo f), l, 0)
         }
     }"

subsection \<open>Requests of clients\<close>

definition slm_fill_bmapdesc :: "lenv \<Rightarrow> bmap \<Rightarrow> fcmh \<Rightarrow> srt_bmapdesc \<Rightarrow> srt_bmapdesc" where
  "slm_fill_bmapdesc env b f sbd =
     (let w = sbd_flags sbd;
          w = (if bcm_flags b AND BMAPF_DIO \<noteq> 0 \<or> l_force_dio env then w OR SRM_LEASEBMAPF_DIO else w);
          w = (if list_ex (\<lambda>c. c AND BMAP_SLVR_DATA \<noteq> 0) (bmi_crcstates b) then w OR SRM_LEASEBMAPF_DATA else w)
      in sbd\<lparr>sbd_fid := fcmh_fid f, sbd_bmapno := bcm_bmapno b, sbd_flags := w\<rparr>)"

text \<open>The end of a request that granted the lease \<open>p\<close> or failed to: the references of the request are dropped.\<close>

definition lease_done :: "nat \<Rightarrow> bmap \<Rightarrow> fcmh \<Rightarrow> lsrv \<Rightarrow> (fcmh \<times> lsrv) option" where
  "lease_done p b f l =
     do {
       (bo, f, l) \<leftarrow> mds_bmap_bml_release p b f l;
       b \<leftarrow> bo;
       f \<leftarrow> bmap_op_done b f;
       Some (f, l)
     }"

text \<open>
  A request for a lease on a file that is found. Its last step on success, the copy of the replica states into the reply
  (\<^verbatim>\<open>repls\<close>), is left out.
\<close>

definition mds_bmap_load_cli ::
  "lenv \<Rightarrow> sl_config \<Rightarrow> u32 list \<Rightarrow> u32 \<Rightarrow> u32 \<Rightarrow> rw \<Rightarrow> u32 \<Rightarrow> srt_bmapdesc \<Rightarrow> cli \<Rightarrow> bool \<Rightarrow> fcmh \<Rightarrow> slm \<Rightarrow> lsrv \<Rightarrow>
     (fcmh \<times> slm \<times> lsrv \<times> srt_bmapdesc \<times> int) option" where
  "mds_bmap_load_cli env cfg rs bmapno lflags rw prefios sbd cnp new f s l =
     (if fcmh_in_ptrunc f \<and> unat bmapno \<ge> fcmh_2_fsz f div SLASH_BMAP_SIZE then Some (f, s, l, sbd, - SLERR_BMAP_IN_PTRUNC)
      else do {
        (f, s, rc, bo) \<leftarrow> bmap_getf f bmapno (Some SL_WRITE)
          (if new then BMAPGETF_CREATE OR BMAPGETF_NODISKREAD else BMAPGETF_CREATE) s;
        if rc \<noteq> 0 then Some (f, s, l, sbd, rc)
        else do {
          b \<leftarrow> bo;
          let (p, l) = mds_bml_new env (fcmh_fid f, bmapno) True
            ((if rw = SL_WRITE then BML_WRITE else BML_READ) OR (if lflags AND SRM_LEASEBMAPF_DIO \<noteq> 0 then BML_DIO else 0)) cnp l;
          (b, f, s, l, rc) \<leftarrow> mds_bmap_bml_add env cfg rs p rw prefios b f s l;
          if rc \<noteq> 0 then do {
            l \<leftarrow> set_bml_flags p BML_FREEING l;
            (f, l) \<leftarrow> lease_done p b f l;
            Some (f, s, l, sbd, rc)
          } else do {
            l \<leftarrow> (if bcm_flags b AND BMAPF_DIO \<noteq> 0 then set_bml_flags p BML_DIO l else Some l);
            x \<leftarrow> get_bml p l;
            ios \<leftarrow> (if rw = SL_WRITE then bmi_wr_ion b else Some IOS_ID_ANY);
            let sbd = (slm_fill_bmapdesc env b f sbd)\<lparr>sbd_seq := bml_seq x, sbd_key := BMAPSEQ_ANY,
                        sbd_nid := fst cnp, sbd_pid := snd cnp, sbd_ios := ios\<rparr>;
            (f, l) \<leftarrow> lease_done p b f l;
            Some (f, s, l, sbd, 0)
          }
        }
      })"

text \<open>The number of the client's leases is taken again after the assignment, with the lease still a read lease.\<close>

definition mds_bmap_bml_chwrmode ::
  "lenv \<Rightarrow> sl_config \<Rightarrow> u32 list \<Rightarrow> nat \<Rightarrow> u32 \<Rightarrow> bmap \<Rightarrow> fcmh \<Rightarrow> slm \<Rightarrow> lsrv \<Rightarrow>
     (bmap \<times> fcmh \<times> slm \<times> lsrv \<times> int) option" where
  "mds_bmap_bml_chwrmode env cfg rs p prefios b f s l =
     do {
       psc_assert (bcm_flags b AND BMAPF_IOSASSIGNED = 0);
       let b = set_bcm_flags BMAPF_IOSASSIGNED b;
       x \<leftarrow> get_bml p l;
       (b, f, s, l, rc) \<leftarrow>
         (if bml_flags x AND BML_WRITE \<noteq> 0 then Some (b, f, s, l, - PFLERR_ALREADY)
          else do {
            (b, l, rc) \<leftarrow> mds_bmap_directio env SL_WRITE False (bml_cli_nidpid x) b f l;
            if rc \<noteq> 0 then Some (b, f, s, l, rc)
            else do {
              (b, f, s, l, rc) \<leftarrow>
                (if bmi_wr_ion b \<noteq> None then mds_bmap_ios_update env cfg p b f s l
                 else mds_bmap_ios_assign env cfg rs p prefios b f s l);
              if rc \<noteq> 0 then do {
                l \<leftarrow> set_bml_flags p BML_FREEING l;
                Some (b, f, s, l, rc)
              } else do {
                psc_assert (bmi_wr_ion b \<noteq> None);
                (_, wlease, rlease) \<leftarrow> mds_bmap_dupls_find (bml_cli_nidpid x) b l;
                psc_assert (rlease \<noteq> 0);
                let b = (if wlease = 0 then b\<lparr>bmi_writers := bmi_writers b + 1, bmi_readers := bmi_readers b - 1\<rparr> else b);
                l \<leftarrow> upd_bml p (\<lambda>x. x\<lparr>bml_flags := (bml_flags x AND NOT BML_READ) OR BML_WRITE\<rparr>) l;
                Some (b, f, s, l, 0)
              }
            }
          });
       Some (bmap_wake_locked (clr_bcm_flags BMAPF_IOSASSIGNED b), f, s, l, rc)
     }"

definition bmap_lookup :: "fcmh \<Rightarrow> u32 \<Rightarrow> slm \<Rightarrow> (fcmh \<times> slm \<times> int \<times> bmap option) option" where
  "bmap_lookup f n s = bmap_getf f n None 0 s"

text \<open>The request for an upgrade on a file that is found: the reply is the request's descriptor with three fields set.\<close>

definition slm_rmc_handle_bmap_chwrmode ::
  "lenv \<Rightarrow> sl_config \<Rightarrow> u32 list \<Rightarrow> srt_bmapdesc \<Rightarrow> u32 \<Rightarrow> fcmh \<Rightarrow> slm \<Rightarrow> lsrv \<Rightarrow>
     (fcmh \<times> slm \<times> lsrv \<times> srt_bmapdesc option \<times> int) option" where
  "slm_rmc_handle_bmap_chwrmode env cfg rs sbd prefios f s l =
     do {
       (f, s, rc, bo) \<leftarrow> bmap_lookup f (sbd_bmapno sbd) s;
       if rc \<noteq> 0 then Some (f, s, l, None, - rc)
       else do {
         b \<leftarrow> bo;
         (po, l) \<leftarrow> mds_bmap_getbml (sbd_seq sbd) (sbd_nid sbd, sbd_pid sbd) b l;
         case po of
           None \<Rightarrow> do { f \<leftarrow> bmap_op_done b f; Some (f, s, l, None, - ENOENT) }
         | Some p \<Rightarrow> do {
             (b, f, s, l, rc) \<leftarrow> mds_bmap_bml_chwrmode env cfg rs p prefios b f s l;
             if rc \<noteq> 0 \<and> rc \<noteq> - PFLERR_ALREADY then do {
               (f, l) \<leftarrow> lease_done p b f l;
               Some (f, s, l, None, rc)
             } else do {
               x \<leftarrow> get_bml p l;
               m \<leftarrow> bmi_wr_ion b;
               (f, l) \<leftarrow> lease_done p b f l;
               Some (f, s, l, Some (sbd\<lparr>sbd_seq := bml_seq x, sbd_key := BMAPSEQ_ANY, sbd_ios := m\<rparr>), 0)
             }
           }
       }
     }"

definition rls_bmap_one :: "srt_bmapdesc \<Rightarrow> fcmh \<Rightarrow> slm \<Rightarrow> lsrv \<Rightarrow> (fcmh \<times> slm \<times> lsrv) option" where
  "rls_bmap_one sbd f s l =
     do {
       (f, s, rc, bo) \<leftarrow> bmap_lookup f (sbd_bmapno sbd) s;
       if rc \<noteq> 0 then Some (f, s, l)
       else do {
         b \<leftarrow> bo;
         (po, l) \<leftarrow> mds_bmap_getbml (sbd_seq sbd) (sbd_nid sbd, sbd_pid sbd) b l;
         (f, l) \<leftarrow>
           (case po of
              None \<Rightarrow> do { f \<leftarrow> bmap_op_done b f; Some (f, l) }
            | Some p \<Rightarrow> do { l \<leftarrow> set_bml_flags p BML_FREEING l; lease_done p b f l });
         Some (f, s, l)
       }
     }"

fun rls_bmap_loop :: "srt_bmapdesc list \<Rightarrow> (u64 \<Rightarrow> fcmh option) \<Rightarrow> slm \<Rightarrow> lsrv \<Rightarrow>
    ((u64 \<Rightarrow> fcmh option) \<times> slm \<times> lsrv) option" where
  "rls_bmap_loop [] fs s l = Some (fs, s, l)"
| "rls_bmap_loop (sbd # sbds) fs s l =
     (case fs (sbd_fid sbd) of
        None \<Rightarrow> rls_bmap_loop sbds fs s l
      | Some f \<Rightarrow> do {
          (f, s, l) \<leftarrow> rls_bmap_one sbd f s l;
          rls_bmap_loop sbds (fs(sbd_fid sbd \<mapsto> f)) s l
        })"

definition mds_handle_rls_bmap :: "srt_bmapdesc list \<Rightarrow> (u64 \<Rightarrow> fcmh option) \<Rightarrow> slm \<Rightarrow> lsrv \<Rightarrow>
    ((u64 \<Rightarrow> fcmh option) \<times> slm \<times> lsrv \<times> int) option" where
  "mds_handle_rls_bmap sbds fs s l =
     (if length sbds > MAX_BMAP_RELEASE then Some (fs, s, l, - Inode.EINVAL)
      else do { (fs, s, l) \<leftarrow> rls_bmap_loop sbds fs s l; Some (fs, s, l, 0) })"

text \<open>
  A renewal. \<open>cb_rc\<close> is the result of the callback registration on the file, which is not modelled. When it
  or the lookup of the bmap fails, the code goes on to release a lease whose pointer was never set.
\<close>

definition mds_lease_renew ::
  "lenv \<Rightarrow> sl_config \<Rightarrow> u32 list \<Rightarrow> int \<Rightarrow> srt_bmapdesc \<Rightarrow> cli \<Rightarrow> srt_bmapdesc \<Rightarrow> fcmh \<Rightarrow> slm \<Rightarrow> lsrv \<Rightarrow>
     (fcmh \<times> slm \<times> lsrv \<times> srt_bmapdesc \<times> int) option" where
  "mds_lease_renew env cfg rs cb_rc sbd_in cnp sbd_out f s l =
     do {
       (f, s, rc, bo) \<leftarrow> bmap_get f (sbd_bmapno sbd_in) SL_WRITE s;
       psc_assert (rc = 0 \<and> cb_rc = 0);
       b \<leftarrow> bo;
       (obml, l) \<leftarrow> mds_bmap_getbml (sbd_seq sbd_in) (sbd_nid sbd_in, sbd_pid sbd_in) b l;
       let wr = (sbd_ios sbd_in \<noteq> IOS_ID_ANY);
       let (p, l) = mds_bml_new env (fcmh_fid f, sbd_bmapno sbd_in) True (if wr then BML_WRITE else BML_READ) cnp l;
       (b, f, s, l, rc) \<leftarrow> mds_bmap_bml_add env cfg rs p (if wr then SL_WRITE else SL_READ) (sbd_ios sbd_in) b f s l;
       (l, sbd_out) \<leftarrow>
         (if rc \<noteq> 0 then do { l \<leftarrow> set_bml_flags p BML_FREEING l; Some (l, sbd_out) }
          else do {
            l \<leftarrow> (if bcm_flags b AND BMAPF_DIO \<noteq> 0 then set_bml_flags p BML_DIO l else Some l);
            x \<leftarrow> get_bml p l;
            ios \<leftarrow> (if wr then bmi_wr_ion b else Some IOS_ID_ANY);
            l \<leftarrow> (case obml of None \<Rightarrow> Some l | Some q \<Rightarrow> set_bml_flags q BML_FREEING l);
            Some (l, (slm_fill_bmapdesc env b f sbd_out)\<lparr>sbd_seq := bml_seq x, sbd_nid := fst cnp, sbd_pid := snd cnp,
              sbd_key := BMAPSEQ_ANY, sbd_ios := ios\<rparr>)
          });
       (bo, f, l) \<leftarrow> mds_bmap_bml_release p b f l;
       b \<leftarrow> bo;
       (b, f, l) \<leftarrow>
         (case obml of
            None \<Rightarrow> Some (b, f, l)
          | Some q \<Rightarrow> do { (bo, f, l) \<leftarrow> mds_bmap_bml_release q b f l; b \<leftarrow> bo; Some (b, f, l) });
       f \<leftarrow> bmap_op_done b f;
       Some (f, s, l, sbd_out, rc)
     }"

text \<open>A reassignment. The table entry is rewritten, but the server of the bmap itself, \<open>bmi_wr_ion\<close>, stays.\<close>

definition lease_reassign_bmap ::
  "lenv \<Rightarrow> sl_config \<Rightarrow> u32 list \<Rightarrow> nat \<Rightarrow> u32 \<Rightarrow> u32 list \<Rightarrow> cli \<Rightarrow> srt_bmapdesc \<Rightarrow> bmap \<Rightarrow> fcmh \<Rightarrow> slm \<Rightarrow> lsrv \<Rightarrow>
     (bmap \<times> fcmh \<times> slm \<times> lsrv \<times> srt_bmapdesc \<times> int) option" where
  "lease_reassign_bmap env cfg rs p pios prev_ios cnp sbd b f s l =
     (if bmi_writers b > 1 \<or> bmi_readers b \<noteq> 0 then Some (b, f, s, l, sbd, - EAGAIN)
      else do {
        psc_assert (bmi_wr_ion b \<noteq> None);
        psc_assert (bcm_flags b AND BMAPF_DIO = 0);
        (bia, l) \<leftarrow> pfl_odt_getitem (bmi_assign b) l;
        psc_assert (bia_seq bia = bmi_seq b);
        (f, rc, mo) \<leftarrow> slm_resm_select env cfg b pios prev_ios rs f s;
        if rc \<noteq> 0 then Some (b, f, s, l, sbd, rc)
        else do {
          (l, seq) \<leftarrow> mds_bmap_timeotbl_mdsi p BTE_ADD l;
          x \<leftarrow> get_bml p l;
          m \<leftarrow> mo;
          let bia = bia\<lparr>bia_seq := seq, bia_lastcli := bml_cli_nidpid x, bia_ios := m, bia_start := l_time env\<rparr>;
          (b, f, s, l, rc) \<leftarrow> mds_bmap_add_repl cfg bia b f s l;
          if rc \<noteq> 0 then Some (b, f, s, l, sbd, rc)
          else do {
            let b = b\<lparr>bmi_seq := seq\<rparr>;
            l \<leftarrow> upd_bml p (\<lambda>x. x\<lparr>bml_seq := seq, bml_ios := m\<rparr>) l;
            t \<leftarrow> pfl_odt_replaceitem (slm_bia_odt l) (bmi_assign b) (bia_item bia l);
            Some (b, f, s, l\<lparr>slm_bia_odt := t\<rparr>,
                  (slm_fill_bmapdesc env b f sbd)\<lparr>sbd_seq := seq, sbd_nid := fst cnp, sbd_pid := snd cnp,
                    sbd_key := BMAPSEQ_ANY, sbd_ios := m\<rparr>, 0)
          }
        }
      })"

definition mds_lease_reassign ::
  "lenv \<Rightarrow> sl_config \<Rightarrow> u32 list \<Rightarrow> srt_bmapdesc \<Rightarrow> u32 \<Rightarrow> u32 list \<Rightarrow> cli \<Rightarrow> srt_bmapdesc \<Rightarrow> fcmh \<Rightarrow> slm \<Rightarrow> lsrv \<Rightarrow>
     (fcmh \<times> slm \<times> lsrv \<times> srt_bmapdesc \<times> int) option" where
  "mds_lease_reassign env cfg rs sbd_in pios prev_ios cnp sbd_out f s l =
     do {
       (f, s, rc, bo) \<leftarrow> bmap_get f (sbd_bmapno sbd_in) SL_WRITE s;
       if rc \<noteq> 0 then Some (f, s, l, sbd_out, rc)
       else do {
         b \<leftarrow> bo;
         (obml, l) \<leftarrow> mds_bmap_getbml (sbd_seq sbd_in) (sbd_nid sbd_in, sbd_pid sbd_in) b l;
         case obml of
           None \<Rightarrow> do { f \<leftarrow> bmap_op_done b f; Some (f, s, l, sbd_out, - ENOENT) }
         | Some p \<Rightarrow> do {
             x \<leftarrow> get_bml p l;
             if bml_flags x AND BML_WRITE = 0 then do {
               (f, l) \<leftarrow> lease_done p b f l;
               Some (f, s, l, sbd_out, - Inode.EINVAL)
             } else do {
               psc_assert (bcm_flags b AND BMAPF_IOSASSIGNED = 0);
               (b, f, s, l, sbd_out, rc) \<leftarrow>
                 lease_reassign_bmap env cfg rs p pios prev_ios cnp sbd_out (set_bcm_flags BMAPF_IOSASSIGNED b) f s l;
               psc_assert (bcm_flags b AND BMAPF_IOSASSIGNED \<noteq> 0);
               (f, l) \<leftarrow> lease_done p (bmap_wake_locked (clr_bcm_flags BMAPF_IOSASSIGNED b)) f l;
               Some (f, s, l, sbd_out, rc)
             }
           }
       }
     }"

text \<open>The callback for an item of the on-disk table at start-up; \<open>get_rc\<close> is the result of the lookup of the file.\<close>

definition bia_startup_lease ::
  "lenv \<Rightarrow> sl_config \<Rightarrow> bmap_ios_assign \<Rightarrow> nat \<Rightarrow> bmap \<Rightarrow> fcmh \<Rightarrow> slm \<Rightarrow> lsrv \<Rightarrow> (bmap \<times> fcmh \<times> slm \<times> lsrv) option" where
  "bia_startup_lease env cfg bia item b f s l =
     do {
       let (p, l) = mds_bml_new env (fcmh_fid f, bia_bmapno bia) False (BML_WRITE OR BML_RECOVER) (bia_lastcli bia) l;
       l \<leftarrow> upd_bml p (\<lambda>x. x\<lparr>bml_seq := bia_seq bia, bml_ios := bia_ios bia, bml_start := bia_start bia,
                             bml_expire := bia_start bia + l_lease_timeout env\<rparr>) l;
       let b = (if bia_flags bia AND BIAF_DIO \<noteq> 0 then set_bcm_flags BMAPF_DIO b else b);
       (b, f, s, l, rc) \<leftarrow> mds_bmap_bml_add env cfg [] p SL_WRITE IOS_ID_ANY (b\<lparr>bmi_assign := item\<rparr>) f s l;
       psc_assert (rc = 0);
       (bo, f, l) \<leftarrow> mds_bmap_bml_release p b f l;
       b \<leftarrow> bo;
       Some (b, f, s, l)
     }"

definition mds_bia_odtable_startup_cb ::
  "lenv \<Rightarrow> sl_config \<Rightarrow> bmap_ios_assign \<Rightarrow> nat \<Rightarrow> int \<Rightarrow> fcmh \<Rightarrow> slm \<Rightarrow> lsrv \<Rightarrow> (fcmh \<times> slm \<times> lsrv) option" where
  "mds_bia_odtable_startup_cb env cfg bia item get_rc f s l =
     (if item = 0 then Some (f, s, l)
      else do {
        (f, s, l, rc) \<leftarrow>
          (if bia_fid bia = 0 then Some (f, s, l, - Inode.EINVAL)
           else if get_rc \<noteq> 0 then Some (f, s, l, get_rc)
           else do {
             (f, s, rc, bo) \<leftarrow> bmap_get f (bia_bmapno bia) SL_WRITE s;
             if rc \<noteq> 0 then Some (f, s, l, rc)
             else do {
               b \<leftarrow> bo;
               (b, f, s, l) \<leftarrow> bia_startup_lease env cfg bia item b f s l;
               f \<leftarrow> bmap_op_done b f;
               Some (f, s, l, 0)
             }
           });
        if rc \<noteq> 0 \<and> slm_opstate s = SLM_OPSTATE_NORMAL then do {
          t \<leftarrow> pfl_odt_freeitem (slm_bia_odt l) item;
          Some (f, s, l\<lparr>slm_bia_odt := t\<rparr>)
        } else Some (f, s, l)
      })"

definition mds_replay_bmap_assign_odt :: "slmds_jent_assign_rep \<Rightarrow> lsrv \<Rightarrow> lsrv option" where
  "mds_replay_bmap_assign_odt e l =
     do {
       let zero = \<lparr>bia_lastcli = (0, 0), bia_ios = 0, bia_fid = 0, bia_seq = 0, bia_bmapno = 0, bia_flags = 0, bia_start = 0\<rparr>;
       bia \<leftarrow> (if sjar_flags e AND SLJ_ASSIGN_REP_BMAP \<noteq> 0 then sjar_bmap e else Some zero);
       t \<leftarrow> pfl_odt_putitem (slm_bia_odt l) (sjar_item e) (Some (bia_item bia l)) (sjar_flags e AND SLJ_ASSIGN_REP_FREE = 0);
       Some (l\<lparr>slm_bia_odt := t\<rparr>)
     }"

end
