(* ===== verification/Upsch.thy ===== *)
theory Upsch
  imports Repl "HOL-Library.Multiset"
begin

text \<open>
  The update scheduler (\<^verbatim>\<open>slashd/up_sched_res.c\<close>): paging work in from the database, processing one
  bmap (arranging a copy to an I/O system, a partial truncation or a reclamation), and the
  handlers that run when an I/O system has answered. What the handlers need of the network is
  the record \<open>upenv\<close>: which I/O systems have a connection, the error of a missing one, the result
  of adding a request to a batch and of the steps of a truncation request, and the start of each
  random iteration. Requests that were sent are returned as values.
\<close>

subsection \<open>Requests and their environment\<close>

record replwk =
  q_bno :: u32
  q_bgen :: u32
  q_src_resid :: u32
  q_len :: nat
  bsr_off :: nat
  bsr_amt :: int
  bsr_res :: u32

datatype upreq = Req_repl replwk | Req_ptrunc u32 nat | Req_preclaim u32 u32

record upenv =
  e_online :: "u32 \<Rightarrow> bool"
  e_csvc_err :: int
  e_batch_rc :: "u32 \<Rightarrow> int"
  e_newreq_rc :: int
  e_nbset_rc :: int
  e_rnd :: "nat \<Rightarrow> nat"

definition ENODATA :: int where "ENODATA = 61"
definition ENODEV :: int where "ENODEV = 19"
definition ECONNRESET :: int where "ECONNRESET = 104"
definition PFLERR_ALREADY :: int where "PFLERR_ALREADY = 500 + 3"
definition SLERR_ION_OFFLINE :: int where "SLERR_ION_OFFLINE = 1000 + 10"
definition SLERR_GEN_OLD :: int where "SLERR_GEN_OLD = 1000 + 20"
definition UPSCH_PAGEIN_BATCH :: nat where "UPSCH_PAGEIN_BATCH = 128"
definition BMAPNO_ANY :: u32 where "BMAPNO_ANY = -1"

text \<open>The order in which \<^verbatim>\<open>FOREACH_RND\<close> visits \<open>n\<close> indexes, from a random one on.\<close>

definition FOREACH_RND :: "(nat \<Rightarrow> nat) \<Rightarrow> nat \<Rightarrow> nat list" where
  "FOREACH_RND rnd n = map (\<lambda>i. (rnd n + i) mod n) [0..<n]"

abbreviation bmap_apply :: "bmap \<Rightarrow> int list \<Rightarrow> int list option \<Rightarrow> nat \<Rightarrow> (bmap \<times> int \<times> bool option \<times> unit) option" where
  "bmap_apply b tract retifset off \<equiv> mds_repl_bmap_apply b (Some tract) retifset 0 off None no_cb ()"

definition one_tract :: "int \<Rightarrow> int \<Rightarrow> int list" where
  "one_tract v w = (brepls_init (-1))[nat v := w]"

definition one_retifset :: "int \<Rightarrow> int \<Rightarrow> int list" where
  "one_retifset v r = (brepls_init 0)[nat v := r]"

subsection \<open>Replication\<close>

definition slm_bmap_calc_repltraffic :: "bmap \<Rightarrow> fcmh \<Rightarrow> int" where
  "slm_bmap_calc_repltraffic b f =
     (let lastbno = (word_of_nat (fcmh_nvalidbmaps f) :: u32);
          lastbno = (if lastbno \<noteq> 0 then lastbno - 1 else lastbno);
          amt = (if bcm_bmapno b = lastbno
                 then let amt = fcmh_2_fsz f mod SLASH_BMAP_SIZE in if amt = 0 then SLASH_BMAP_SIZE else amt
                 else SLASH_BMAP_SIZE)
      in int amt)"

text \<open>The way out of \<^verbatim>\<open>slm_upsch_tryrepl\<close> after an error: the state is put back if it was touched.\<close>

definition tryrepl_out ::
  "bool \<Rightarrow> int \<Rightarrow> int \<Rightarrow> bmap \<Rightarrow> nat \<Rightarrow> u32 \<Rightarrow> u32 \<Rightarrow> fcmh \<Rightarrow> slm \<Rightarrow> (bmap \<times> fcmh \<times> slm \<times> int) option" where
  "tryrepl_out chg amt rc b off src dst f s =
     do {
       b \<leftarrow> (if chg then do {
               (b, _) \<leftarrow> bmap_apply b (one_tract BREPLST_REPL_SCHED BREPLST_REPL_QUEUED) None off;
               Some b
             } else Some b);
       (s, _) \<leftarrow> resmpair_bw_adj src dst (- amt) rc s;
       Some (b, f, s, 0)
     }"

text \<open>
  The length to copy; \<^const>\<open>None\<close> stands for the error that there is no data. \<^verbatim>\<open>SLASH_BMAP_SIZE\<close> is an
  \<^verbatim>\<open>off_t\<close>, so the products are of 64 bits and do not wrap.
\<close>

definition tryrepl_len :: "bmap \<Rightarrow> fcmh \<Rightarrow> nat option" where
  "tryrepl_len b f =
     (let lastbno = (word_of_nat (fcmh_nvalidbmaps f) :: u32);
          lastbno = (if lastbno > 0 then lastbno - 1 else lastbno)
      in if bcm_bmapno b = lastbno then
           let sz = fcmh_2_fsz f;
               sz = (if sz > unat (bcm_bmapno b) * SLASH_BMAP_SIZE then sz - unat (bcm_bmapno b) * SLASH_BMAP_SIZE else sz)
           in if sz = 0 then None else Some (min sz SLASH_BMAP_SIZE)
         else Some SLASH_BMAP_SIZE)"

definition slm_upsch_tryrepl ::
  "upenv \<Rightarrow> bmap \<Rightarrow> nat \<Rightarrow> u32 \<Rightarrow> u32 \<Rightarrow> fcmh \<Rightarrow> slm \<Rightarrow> ((bmap \<times> fcmh \<times> slm \<times> int) \<times> upreq list) option" where
  "slm_upsch_tryrepl env b off src dst f s =
     (let amt = slm_bmap_calc_repltraffic b f
      in if amt = 0 then do {
           (b, _) \<leftarrow> bmap_apply b (one_tract BREPLST_REPL_QUEUED BREPLST_VALID) None off;
           (b, f, s, _) \<leftarrow> mds_bmap_write_logrepls b f s;
           Some ((b, f, s, 1), [])
         } else do {
           (s, ok) \<leftarrow> resmpair_bw_adj src dst amt 0 s;
           if ok = 0 then Some ((b, f, s, 0), [])
           else if \<not> e_online env dst then do {
             r \<leftarrow> tryrepl_out False amt (e_csvc_err env) b off src dst f s;
             Some (r, [])
           } else case tryrepl_len b f of
               None \<Rightarrow> do { r \<leftarrow> tryrepl_out False amt (- ENODATA) b off src dst f s; Some (r, []) }
             | Some len \<Rightarrow> do {
                 let q = \<lparr>q_bno = bcm_bmapno b, q_bgen = bes_gen b, q_src_resid = src, q_len = len,
                   bsr_off = off, bsr_amt = amt, bsr_res = dst\<rparr>;
                 (b, rc, _) \<leftarrow> bmap_apply b (one_tract BREPLST_REPL_QUEUED BREPLST_REPL_SCHED) (Some brepls_init_idx) off;
                 if rc = BREPLST_REPL_SCHED then Some ((b, f, s, 1), [])
                 else do {
                   psc_assert (rc \<noteq> BREPLST_VALID);
                   if rc \<noteq> BREPLST_REPL_QUEUED then do {
                     r \<leftarrow> tryrepl_out True amt (- ENODEV) b off src dst f s;
                     Some (r, [])
                   } else if e_batch_rc env dst \<noteq> 0 then do {
                     r \<leftarrow> tryrepl_out True amt (e_batch_rc env dst) b off src dst f s;
                     Some (r, [])
                   } else do {
                     (b, f, s, rc) \<leftarrow> mds_bmap_write False b f s;
                     if rc \<noteq> 0 then do {
                       r \<leftarrow> tryrepl_out True amt rc b off src dst f s;
                       Some (r, [Req_repl q])
                     } else Some ((b, f, s, 1), [Req_repl q])
                   }
                 }
               }
         })"

text \<open>
  The answer to a replication request: the state change on the bmap, then the whole handler. \<open>pp\<close> is
  the return code of the reply, if there is one.
\<close>

definition repl_done_tract :: "int option \<Rightarrow> int \<Rightarrow> int list" where
  "repl_done_tract pp rc = one_tract BREPLST_REPL_SCHED
     (if rc = 0 then BREPLST_VALID
      else if pp = None \<or> rc = PFLERR_ALREADY \<or> rc = SLERR_ION_OFFLINE \<or> rc = ECONNRESET then BREPLST_REPL_QUEUED
      else BREPLST_GARBAGE_QUEUED)"

definition batch_repl_one :: "replwk \<Rightarrow> int option \<Rightarrow> int \<Rightarrow> bmap \<Rightarrow> fcmh \<Rightarrow> slm \<Rightarrow> (bmap \<times> fcmh \<times> slm \<times> int) option" where
  "batch_repl_one q pp rc b f s =
     do {
       let rc = (if rc = 0 \<and> q_bgen q \<noteq> bes_gen b then SLERR_GEN_OLD else rc);
       (b, ret, _) \<leftarrow> bmap_apply b (repl_done_tract pp rc) (Some (one_retifset BREPLST_REPL_SCHED 1)) (bsr_off q);
       (b, f, s) \<leftarrow> (if ret \<noteq> 0 then do { (b, f, s, _) \<leftarrow> mds_bmap_write_logrepls b f s; Some (b, f, s) }
                    else Some (b, f, s));
       Some (b, f, s, rc)
     }"

definition slm_batch_repl_cb :: "replwk \<Rightarrow> int option \<Rightarrow> int \<Rightarrow> int \<Rightarrow> fcmh \<Rightarrow> slm \<Rightarrow> (fcmh \<times> slm) option" where
  "slm_batch_repl_cb q pp rc get_rc f s =
     do {
       let rc = (if rc = 0 then case pp of None \<Rightarrow> 0 | Some r \<Rightarrow> r else rc);
       (f, s, rc) \<leftarrow>
         (if get_rc \<noteq> 0 then Some (f, s, rc)
          else do {
            (f, s, _, bo) \<leftarrow> bmap_get f (q_bno q) SL_WRITE s;
            case bo of
              None \<Rightarrow> Some (f, s, rc)
            | Some b \<Rightarrow> do {
                (b, f, s, rc) \<leftarrow> batch_repl_one q pp rc b f s;
                f \<leftarrow> bmap_op_done b f;
                Some (f, s, rc)
              }
          });
       (s, _) \<leftarrow> resmpair_bw_adj (q_src_resid q) (bsr_res q) (- bsr_amt q) rc s;
       Some (f, s)
     }"

subsection \<open>Partial truncation\<close>

definition slm_upsch_finish_ptrunc :: "bmap \<Rightarrow> int \<Rightarrow> nat \<Rightarrow> fcmh \<Rightarrow> slm \<Rightarrow> (fcmh \<times> slm) option" where
  "slm_upsch_finish_ptrunc b rc off f s =
     do {
       let f = f\<lparr>fmi_ptrunc_nios := fmi_ptrunc_nios f - 1\<rparr>;
       let f = (if fmi_ptrunc_nios f = 0 then f\<lparr>fcmh_in_ptrunc := False\<rparr> else f);
       (b, _) \<leftarrow> bmap_apply b (one_tract BREPLST_TRUNC_SCHED (if rc \<noteq> 0 then BREPLST_TRUNC_QUEUED else BREPLST_VALID))
         (Some brepls_init_idx) off;
       (b, f, s, _) \<leftarrow> mds_bmap_write_logrepls b f s;
       f \<leftarrow> bmap_op_done b f;
       Some (f, s)
     }"

definition slm_upsch_tryptrunc_cb :: "u32 \<Rightarrow> nat \<Rightarrow> int \<Rightarrow> fcmh \<Rightarrow> slm \<Rightarrow> (fcmh \<times> slm) option" where
  "slm_upsch_tryptrunc_cb bno off rc f s =
     do {
       b \<leftarrow> fcmh_bmaptree f bno;
       slm_upsch_finish_ptrunc b rc off f s
     }"

text \<open>After an error the bmap is the one that \<^verbatim>\<open>slm_upsch_finish_ptrunc\<close> leaves in the cache.\<close>

definition slm_upsch_tryptrunc ::
  "upenv \<Rightarrow> bmap \<Rightarrow> nat \<Rightarrow> u32 \<Rightarrow> fcmh \<Rightarrow> slm \<Rightarrow> ((bmap \<times> fcmh \<times> slm \<times> int) \<times> upreq list) option" where
  "slm_upsch_tryptrunc env b off dst f s =
     do {
       let b = b\<lparr>bcm_opcnt := bcm_opcnt b + 1\<rparr>;
       (b, rc, sent) \<leftarrow>
         (if \<not> e_online env dst then Some (b, e_csvc_err env, False)
          else if e_newreq_rc env \<noteq> 0 then Some (b, e_newreq_rc env, False)
          else do {
            (b, rc, _) \<leftarrow> bmap_apply b (one_tract BREPLST_TRUNC_QUEUED BREPLST_TRUNC_SCHED)
              (Some (one_retifset BREPLST_TRUNC_QUEUED BREPLST_TRUNC_QUEUED)) off;
            if rc \<noteq> BREPLST_TRUNC_QUEUED then Some (b, EINVAL, False)
            else Some (b, e_nbset_rc env, e_nbset_rc env = 0)
          });
       if sent then Some ((b, f, s, 0), [Req_ptrunc (bcm_bmapno b) off])
       else do {
         (f, s) \<leftarrow> slm_upsch_finish_ptrunc b rc off f s;
         b \<leftarrow> fcmh_bmaptree f (bcm_bmapno b);
         Some ((b, f, s, rc), [])
       }
     }"

subsection \<open>Reclamation\<close>

text \<open>
  The lookup negates a failure, so \<^verbatim>\<open>rc >= 0\<close> holds also then, and the index is the negative error
  code: the walk reads before the start of the table, which is \<^const>\<open>None\<close>.
\<close>

definition preclaim_one :: "sl_config \<Rightarrow> u32 \<Rightarrow> int \<Rightarrow> bmap \<Rightarrow> fcmh \<Rightarrow> slm \<Rightarrow> (bmap \<times> fcmh \<times> slm) option" where
  "preclaim_one cfg res error b f s =
     do {
       (ih, mf, rc, idx) \<leftarrow> mds_repl_iosv_lookup cfg (slm_crc_check s) (fcmh_fid f) IOSV_LOOKUPF_LOOKUP [res]
         (fcmh_inoh f) (fcmh_mf f);
       let f = f\<lparr>fcmh_inoh := ih, fcmh_mf := mf\<rparr>;
       if rc \<ge> 0 then do {
         psc_assert (idx \<noteq> []);
         (b, _, _) \<leftarrow> mds_repl_bmap_walk (fcmh_2_nrepls f) b
           (Some (one_tract BREPLST_GARBAGE_SCHED (if error \<noteq> 0 then BREPLST_GARBAGE_QUEUED else BREPLST_INVALID)))
           None 0 idx no_cb ();
         (b, f, s, _) \<leftarrow> mds_bmap_write_logrepls b f s;
         Some (b, f, s)
       } else Some (b, f, s)
     }"

definition slm_batch_preclaim_cb :: "sl_config \<Rightarrow> u32 \<Rightarrow> u32 \<Rightarrow> int option \<Rightarrow> int \<Rightarrow> int \<Rightarrow> fcmh \<Rightarrow> slm \<Rightarrow> (fcmh \<times> slm) option" where
  "slm_batch_preclaim_cb cfg res bno pp error get_rc f s =
     do {
       let error = (if error = 0 then case pp of None \<Rightarrow> 0 | Some r \<Rightarrow> - r else error);
       let (error, s) = (if error = - PFLERR_NOTSUP then
           (0, s\<lparr>iosinfo := (iosinfo s)(res := (iosinfo s res)\<lparr>si_flags := si_flags (iosinfo s res) OR SIF_PRECLAIM_NOTSUP\<rparr>)\<rparr>)
         else (error, s));
       if get_rc \<noteq> 0 then Some (f, s)
       else do {
         (f, s, rc, bo) \<leftarrow> bmap_get f bno SL_WRITE s;
         case bo of
           None \<Rightarrow> Some (f, s)
         | Some b \<Rightarrow> do {
             (b, f, s) \<leftarrow> preclaim_one cfg res error b f s;
             f \<leftarrow> bmap_op_done b f;
             Some (f, s)
           }
       }
     }"

definition slm_upsch_trypreclaim ::
  "upenv \<Rightarrow> u32 \<Rightarrow> bmap \<Rightarrow> nat \<Rightarrow> fcmh \<Rightarrow> slm \<Rightarrow> ((bmap \<times> fcmh \<times> slm \<times> int) \<times> upreq list) option" where
  "slm_upsch_trypreclaim env r b off f s =
     (if \<not> slm_preclaim_enabled s then Some ((b, f, s, 0), [])
      else if si_flags (iosinfo s r) AND SIF_PRECLAIM_NOTSUP \<noteq> 0 then Some ((b, f, s, 0), [])
      else if \<not> e_online env r then Some ((b, f, s, 0), [])
      else do {
        (b, rc, _) \<leftarrow> bmap_apply b (one_tract BREPLST_GARBAGE_QUEUED BREPLST_GARBAGE_SCHED) (Some brepls_init_idx) off;
        if rc \<noteq> BREPLST_GARBAGE_QUEUED then Some ((b, f, s, 0), [])
        else if e_batch_rc env r \<noteq> 0 then Some ((b, f, s, 0), [])
        else do {
          (b, f, s, _) \<leftarrow> mds_bmap_write_logrepls b f s;
          Some ((b, f, s, 1), [Req_preclaim (bcm_bmapno b) r])
        }
      })"

subsection \<open>Processing a bmap\<close>

text \<open>
  The search for a source. The result has the requests sent, whether a valid replica was seen,
  and whether a copy was arranged.
\<close>

fun sched_repl_loop ::
  "upenv \<Rightarrow> sl_config \<Rightarrow> nat \<Rightarrow> u32 \<Rightarrow> nat list \<Rightarrow> bool \<Rightarrow> bmap \<Rightarrow> fcmh \<Rightarrow> slm \<Rightarrow>
     ((bmap \<times> fcmh \<times> slm) \<times> bool \<times> bool \<times> upreq list) option" where
  "sched_repl_loop env cfg dst_idx dst [] valid b f s = Some ((b, f, s), valid, False, [])"
| "sched_repl_loop env cfg dst_idx dst (k # ks) valid b f s =
     (if k = dst_idx then sched_repl_loop env cfg dst_idx dst ks valid b f s
      else do {
        id \<leftarrow> fcmh_getrepl (fcmh_inoh f) k;
        v \<leftarrow> (if cfg id = None then Some BREPLST_INVALID
             else SL_REPL_GET_BMAP_IOS_STAT (bmi_repls b) (SL_BITS_PER_REPLICA * k));
        if cfg id = None \<or> v \<noteq> BREPLST_VALID then sched_repl_loop env cfg dst_idx dst ks valid b f s
        else if si_flags (iosinfo s dst) AND (SIF_DISABLE_LEASE OR SIF_DISABLE_ADVLEASE) \<noteq> 0
          then sched_repl_loop env cfg dst_idx dst ks True b f s
        else if \<not> e_online env id then sched_repl_loop env cfg dst_idx dst ks True b f s
        else do {
          ((b, f, s, ret), rq) \<leftarrow> slm_upsch_tryrepl env b (SL_BITS_PER_REPLICA * dst_idx) id dst f s;
          if ret \<noteq> 0 then Some ((b, f, s), True, True, rq)
          else do {
            (r, valid, ok, rq') \<leftarrow> sched_repl_loop env cfg dst_idx dst ks True b f s;
            Some (r, valid, ok, rq @ rq')
          }
        }
      })"

definition slm_upsch_sched_repl ::
  "upenv \<Rightarrow> sl_config \<Rightarrow> bmap \<Rightarrow> nat \<Rightarrow> fcmh \<Rightarrow> slm \<Rightarrow> ((bmap \<times> fcmh \<times> slm \<times> int) \<times> upreq list) option" where
  "slm_upsch_sched_repl env cfg b dst_idx f s =
     do {
       (iosid, f) \<leftarrow> fcmh_2_repl dst_idx f s;
       ((b, f, s), valid, ok, rq) \<leftarrow>
         sched_repl_loop env cfg dst_idx iosid (FOREACH_RND (e_rnd env) (fcmh_2_nrepls f)) False b f s;
       if ok then Some ((b, f, s, 1), rq)
       else if valid then Some ((b, f, s, 0), rq)
       else do {
         (b, rc, _) \<leftarrow> bmap_apply b (one_tract BREPLST_REPL_QUEUED BREPLST_GARBAGE_QUEUED)
           (Some (one_retifset BREPLST_REPL_QUEUED 1)) (SL_BITS_PER_REPLICA * dst_idx);
         if rc \<noteq> 0 then do {
           (b, f, s, _) \<leftarrow> mds_bmap_write_logrepls b f s;
           Some ((b, f, s, 1), rq)
         } else Some ((b, f, s, 0), rq)
       }
     }"

fun proc_bmap_loop ::
  "upenv \<Rightarrow> sl_config \<Rightarrow> nat list \<Rightarrow> bmap \<Rightarrow> fcmh \<Rightarrow> slm \<Rightarrow> ((bmap \<times> fcmh \<times> slm) \<times> upreq list) option" where
  "proc_bmap_loop env cfg [] b f s = Some ((b, f, s), [])"
| "proc_bmap_loop env cfg (k # ks) b f s =
     do {
       (iosid, f) \<leftarrow> fcmh_2_repl k f s;
       if cfg iosid = None then proc_bmap_loop env cfg ks b f s
       else do {
         let off = SL_BITS_PER_REPLICA * k;
         val \<leftarrow> SL_REPL_GET_BMAP_IOS_STAT (bmi_repls b) off;
         ((b, f, s, stop), rq) \<leftarrow>
           (if val = BREPLST_REPL_QUEUED then
              if bmi_wr_ion b \<noteq> None then Some ((b, f, s, 0), [])
              else slm_upsch_sched_repl env cfg b k f s
            else if val = BREPLST_TRUNC_QUEUED then do {
              ((b, f, s, _), rq) \<leftarrow> slm_upsch_tryptrunc env b off iosid f s;
              Some ((b, f, s, 0), rq)
            }
            else if val = BREPLST_GARBAGE_QUEUED then slm_upsch_trypreclaim env iosid b off f s
            else Some ((b, f, s, 0), []));
         if stop \<noteq> 0 then Some ((b, f, s), rq)
         else do {
           (r, rq') \<leftarrow> proc_bmap_loop env cfg ks b f s;
           Some (r, rq @ rq')
         }
       }
     }"

definition upd_proc_bmap ::
  "upenv \<Rightarrow> sl_config \<Rightarrow> bmap \<Rightarrow> fcmh \<Rightarrow> slm \<Rightarrow> ((bmap \<times> fcmh \<times> slm) \<times> upreq list) option" where
  "upd_proc_bmap env cfg b f s =
     do {
       (ih, mf, rc) \<leftarrow> mds_inox_ensure_loaded (slm_crc_check s) (fcmh_fid f) (fcmh_inoh f) (fcmh_mf f);
       let f = f\<lparr>fcmh_inoh := ih, fcmh_mf := mf\<rparr>;
       if rc \<noteq> 0 then Some ((b, f, s), [])
       else proc_bmap_loop env cfg (FOREACH_RND (e_rnd env) (fcmh_2_nrepls f)) b f s
     }"

text \<open>One turn of \<^verbatim>\<open>slmupschthr_main\<close> on a bmap of the file, which is the first one queued.\<close>

definition upsch_turn :: "upenv \<Rightarrow> sl_config \<Rightarrow> fcmh \<Rightarrow> slm \<Rightarrow> (fcmh \<times> slm \<times> upreq list) option" where
  "upsch_turn env cfg f s =
     (case slm_upsch_queue s of
        [] \<Rightarrow> None
      | (fid, bno) # queue \<Rightarrow> do {
          psc_assert (fid = fcmh_fid f);
          b \<leftarrow> fcmh_bmaptree f bno;
          let b = b\<lparr>upd_flags := upd_flags b AND NOT UPDF_LIST\<rparr>;
          ((b, f, s), rq) \<leftarrow> upd_proc_bmap env cfg b f (s\<lparr>slm_upsch_queue := queue\<rparr>);
          f \<leftarrow> bmap_op_done b f;
          Some (f, s, rq)
        })"

subsection \<open>Paging work in\<close>

text \<open>
  The table is searched page by page until a page is empty; the result is the work to be put on the
  queue. \<^const>\<open>None\<close> would be a search that never ends. Each page is a statement of its own, without an order, and other
  threads change the table between two of them, so what a statement sees is a parameter: \<open>db n\<close> are the rows
  of the table at the time of statement \<open>n\<close>, in the order in which the database goes through them.
\<close>

definition row_work :: "upsch_row \<Rightarrow> slm_wk" where
  "row_work r = WK_upd_pagein (up_fid r) (up_bno r)"

definition select_page :: "u32 \<Rightarrow> upsch_row list \<Rightarrow> nat \<Rightarrow> slm_wk list" where
  "select_page resid rows offset = map row_work (take UPSCH_PAGEIN_BATCH (drop offset [r \<leftarrow> rows. up_resid r = resid]))"

partial_function (option) page_work_loop :: "u32 \<Rightarrow> (nat \<Rightarrow> upsch_row list) \<Rightarrow> nat \<Rightarrow> nat \<Rightarrow> slm_wk list \<Rightarrow> slm_wk list option" where
  "page_work_loop resid db n offset wq =
     (let da = select_page resid (db n) offset;
          wq = wq @ da
      in if length da \<noteq> 0 then page_work_loop resid db (Suc n) (offset + length da) wq else Some wq)"

definition slm_page_work :: "u32 \<Rightarrow> (nat \<Rightarrow> upsch_row list) \<Rightarrow> slm \<Rightarrow> slm option" where
  "slm_page_work resid db s =
     do {
       wq \<leftarrow> page_work_loop resid db 0 0 (slm_workq s);
       Some (s\<lparr>slm_workq := wq\<rparr>)
     }"

fun any_known :: "sl_config \<Rightarrow> nat list \<Rightarrow> fcmh \<Rightarrow> slm \<Rightarrow> (bool \<times> fcmh) option" where
  "any_known cfg [] f s = Some (False, f)"
| "any_known cfg (i # ns) f s =
     do {
       (iosid, f) \<leftarrow> fcmh_2_repl i f s;
       if cfg iosid \<noteq> None then Some (True, f) else any_known cfg ns f s
     }"

definition pagein_retifset :: "bool \<Rightarrow> int list" where
  "pagein_retifset preclaim =
     (let r = (brepls_init 0)[nat BREPLST_REPL_QUEUED := 1, nat BREPLST_TRUNC_QUEUED := 1]
      in if preclaim then r[nat BREPLST_GARBAGE_QUEUED := 1, nat BREPLST_GARBAGE_SCHED := 1] else r)"

definition upd_pagein_wk :: "sl_config \<Rightarrow> u64 \<Rightarrow> u32 \<Rightarrow> int \<Rightarrow> fcmh \<Rightarrow> slm \<Rightarrow> (fcmh \<times> slm) option" where
  "upd_pagein_wk cfg fid bno get_rc f s =
     (let purge = (\<lambda>n s. s\<lparr>slm_db_hipri_workq := slm_db_hipri_workq s @ [WK_upsch_purge fid n]\<rparr>)
      in if get_rc \<noteq> 0 then Some (f, purge BMAPNO_ANY s)
         else do {
           (f, s, rc, bo) \<leftarrow> bmap_get f bno SL_WRITE s;
           case bo of
             None \<Rightarrow> Some (f, purge BMAPNO_ANY s)
           | Some b \<Rightarrow> do {
               f \<leftarrow> (if fcmh_2_nrepls f > SL_DEF_REPLICAS then do {
                       (ih, mf, _) \<leftarrow> mds_inox_ensure_loaded (slm_crc_check s) (fcmh_fid f) (fcmh_inoh f) (fcmh_mf f);
                       Some (f\<lparr>fcmh_inoh := ih, fcmh_mf := mf\<rparr>)
                     } else Some f);
               (valid, f) \<leftarrow> any_known cfg [0..<fcmh_2_nrepls f] f s;
               (rc, b) \<leftarrow> (if valid then do {
                       (b, rc, _) \<leftarrow> mds_repl_bmap_walk (fcmh_2_nrepls f) b None (Some (pagein_retifset (slm_preclaim_enabled s)))
                         REPL_WALKF_SCIRCUIT [] no_cb ();
                       Some (rc, b)
                     } else Some (0, b));
               let (b, s) = (if rc \<noteq> 0 then upsch_enqueue b f s else (b, purge (bcm_bmapno b) s));
               f \<leftarrow> bmap_op_done b f;
               Some (f, s)
             }
         })"

definition slm_wk_upsch_purge :: "u64 \<Rightarrow> u32 \<Rightarrow> slm \<Rightarrow> slm" where
  "slm_wk_upsch_purge fid bno s =
     (if bno = BMAPNO_ANY then slm.upsch_update (\<lambda>rows. [r \<leftarrow> rows. up_fid r \<noteq> fid]) s
      else slm.upsch_update (\<lambda>rows. [r \<leftarrow> rows. \<not> (up_fid r = fid \<and> up_bno r = bno)]) s)"

definition slm_upsch_requeue_cb :: "u32 \<Rightarrow> int \<Rightarrow> fcmh \<Rightarrow> slm \<Rightarrow> (fcmh \<times> slm) option" where
  "slm_upsch_requeue_cb bno get_rc f s =
     (if get_rc \<noteq> 0 then Some (f, s)
      else do {
        (f, s, rc, bo) \<leftarrow> bmap_get f bno SL_WRITE s;
        case bo of
          None \<Rightarrow> Some (f, s)
        | Some b \<Rightarrow> do {
            (b, rc, _) \<leftarrow> mds_repl_bmap_walk (fcmh_2_nrepls f) b (Some requeue_tract) (Some requeue_retifset) 0 [] no_cb ();
            (b, f, s) \<leftarrow> (if rc \<noteq> 0 then do { (b, f, s, _) \<leftarrow> mds_bmap_write False b f s; Some (b, f, s) } else Some (b, f, s));
            f \<leftarrow> bmap_op_done b f;
            Some (f, s)
          }
      })"

text \<open>
  The states of a replica that has the data, and the bmaps a change may lead to: well-formed, still
  referenced, with every replica that had the data still having it.
\<close>

definition live :: "int \<Rightarrow> bool" where
  "live v \<longleftrightarrow> v = BREPLST_VALID \<or> v = BREPLST_TRUNC_QUEUED \<or> v = BREPLST_TRUNC_SCHED"

definition keeps :: "bmap \<Rightarrow> bmap \<Rightarrow> bool" where
  "keeps b b' \<longleftrightarrow> bmap_ok b' \<and> bcm_opcnt b \<le> bcm_opcnt b' \<and> bcm_bmapno b' = bcm_bmapno b \<and>
     (\<forall>j < SL_MAX_REPLICAS. live (brepl (bmi_repls b) j) \<longrightarrow> live (brepl (bmi_repls b') j))"

definition safe_tract :: "int list \<Rightarrow> bool" where
  "safe_tract t \<longleftrightarrow> tract_ok t \<and> (\<forall>v. 0 \<le> v \<and> v < 8 \<and> live v \<longrightarrow> live (tr t v))"

definition post :: "('a \<Rightarrow> bool) \<Rightarrow> 'a option \<Rightarrow> bool" where
  "post Q m \<longleftrightarrow> (\<forall>x. m = Some x \<longrightarrow> Q x)"

text \<open>
  What an operation on a bmap does to the file: the metafile is as before, or the last record written is one of a
  bmap that keeps the data.
\<close>

definition kept :: "bmap \<Rightarrow> fcmh \<Rightarrow> fcmh \<Rightarrow> bool" where
  "kept a f0 f \<longleftrightarrow> fcmh_2_nrepls f = fcmh_2_nrepls f0 \<and>
     (mf_data (fcmh_mf f) = mf_data (fcmh_mf f0) \<or> (\<exists>c. keeps a c \<and> bmap_stored c (fcmh_mf f)))"

abbreviation keeps_post :: "bmap \<Rightarrow> fcmh \<Rightarrow> bmap \<times> fcmh \<times> 'a \<Rightarrow> bool" where
  "keeps_post a f0 \<equiv> \<lambda>r. keeps a (fst r) \<and> kept a f0 (fst (snd r))"

text \<open>What a request to an I/O system has to look like, and the result of an operation that sends requests.\<close>

fun req_ok :: "u32 \<Rightarrow> upreq \<Rightarrow> bool" where
  "req_ok n (Req_repl q) \<longleftrightarrow> q_bno q = n \<and> 0 < q_len q \<and> q_len q \<le> SLASH_BMAP_SIZE \<and>
     0 < bsr_amt q \<and> bsr_amt q \<le> int SLASH_BMAP_SIZE \<and>
     bsr_off q mod SL_BITS_PER_REPLICA = 0 \<and> bsr_off q < SL_BITS_PER_REPLICA * SL_MAX_REPLICAS"
| "req_ok n (Req_ptrunc m off) \<longleftrightarrow> m = n \<and>
     off mod SL_BITS_PER_REPLICA = 0 \<and> off < SL_BITS_PER_REPLICA * SL_MAX_REPLICAS"
| "req_ok n (Req_preclaim m r) \<longleftrightarrow> m = n"

definition sent_ok :: "bmap \<Rightarrow> fcmh \<Rightarrow> (bmap \<times> fcmh \<times> 'a) \<times> upreq list \<Rightarrow> bool" where
  "sent_ok a f0 r \<longleftrightarrow> keeps a (fst (fst r)) \<and> kept a f0 (fst (snd (fst r))) \<and> list_all (req_ok (bcm_bmapno a)) (snd r)"

definition reserved :: "u32 \<Rightarrow> u32 \<Rightarrow> int \<Rightarrow> slm \<Rightarrow> slm" where
  "reserved src dst amt s =
     (let info = (iosinfo s)(src := (iosinfo s src)\<lparr>si_repl_egress_pending := si_repl_egress_pending (iosinfo s src) + amt\<rparr>)
      in s\<lparr>iosinfo := info(dst := (info dst)\<lparr>si_repl_ingress_pending := si_repl_ingress_pending (info dst) + amt\<rparr>)\<rparr>)"

text \<open>There is room for a reservation: no limit is configured, or the source stays within it.\<close>

definition bw_room :: "u32 \<Rightarrow> int \<Rightarrow> slm \<Rightarrow> bool" where
  "bw_room src amt s \<longleftrightarrow> slm_upsch_bandwidth s = 0 \<or>
     si_repl_ingress_pending (iosinfo s src) + si_repl_egress_pending (iosinfo s src) + amt \<le> slm_upsch_bandwidth s * BW_UNITSZ"

text \<open>A network in which everything works, for the examples.\<close>

definition sample_env :: upenv where
  "sample_env = \<lparr>e_online = (\<lambda>_. True), e_csvc_err = 0, e_batch_rc = (\<lambda>_. 0), e_newreq_rc = 0, e_nbset_rc = 0, e_rnd = (\<lambda>_. 1)\<rparr>"

definition sample_row :: "u32 \<Rightarrow> u32 \<Rightarrow> upsch_row" where
  "sample_row resid bno = \<lparr>up_resid = resid, up_fid = 7, up_bno = bno, up_uid = 0, up_gid = 0, up_status = Status_Q,
     up_sys_prio = -1, up_usr_prio = -1, up_nonce = 5\<rparr>"

definition sample_cfg :: sl_config where
  "sample_cfg r = Some \<lparr>res_id = r, res_type = SLREST_STANDALONE_FS\<rparr>"





subsection \<open>What a change keeps\<close>

lemma keeps_refl: "bmap_ok b \<Longrightarrow> keeps b b"
  by (simp add: keeps_def)

lemma keeps_trans: "keeps a b \<Longrightarrow> keeps b c \<Longrightarrow> keeps a c"
  by (auto simp: keeps_def)

lemma keeps_ok: "keeps a b \<Longrightarrow> bmap_ok b"
  by (simp add: keeps_def)

lemma get_stat_bounds:
  assumes "repls_ok bs" "SL_REPL_GET_BMAP_IOS_STAT bs (k * SL_BITS_PER_REPLICA) = Some v"
  shows "k < SL_MAX_REPLICAS"
proof (rule ccontr)
  assume "\<not> k < SL_MAX_REPLICAS"
  then have "\<not> k * SL_BITS_PER_REPLICA div NBBY < length bs"
    using assms(1) by (simp add: repls_ok_def SL_REPLICA_NBYTES_def SL_MAX_REPLICAS_def SL_BITS_PER_REPLICA_def NBBY_def)
  then show False using assms(2) by (simp add: SL_REPL_GET_BMAP_IOS_STAT_def rd_def)
qed

lemma apply_bounds:
  assumes "mds_repl_bmap_apply b (Some t) r fl (k * SL_BITS_PER_REPLICA) sc cb c = Some x" "repls_ok (bmi_repls b)"
  shows "k < SL_MAX_REPLICAS"
proof -
  obtain v where "SL_REPL_GET_BMAP_IOS_STAT (bmi_repls b) (k * SL_BITS_PER_REPLICA) = Some v"
    using assms(1) by (auto simp: mds_repl_bmap_apply_def bind_eq_Some_conv Let_def split: if_splits)
  then show ?thesis by (rule get_stat_bounds [OF assms(2)])
qed

lemma apply_inv:
  assumes "mds_repl_bmap_apply b (Some t) r fl (k * SL_BITS_PER_REPLICA) sc cb c = Some (b', rc, sc', c')"
    and "repls_ok (bmi_repls b)" "tract_ok t"
  obtains bs where "repls_ok bs"
    "b' = b\<lparr>bmi_orepls := bmi_repls b, bmi_repls := bs\<rparr> \<or> b' = b\<lparr>bmi_orepls := bmi_repls b\<rparr>"
    "\<And>j. j < SL_MAX_REPLICAS \<Longrightarrow>
       brepl bs j = (if j = k then tr t (brepl (bmi_repls b) k) else brepl (bmi_repls b) j)"
proof -
  let ?bs = "bmi_repls b"
  have k: "k < SL_MAX_REPLICAS" by (rule apply_bounds [OF assms(1,2)])
  obtain bs where bs: "rt.retable t k ?bs = Some bs" "repls_ok bs"
    "\<And>j. j < SL_MAX_REPLICAS \<Longrightarrow> brepl bs j = (if j = k then tr t (brepl ?bs k) else brepl ?bs j)"
    by (rule rt.retable_state [OF assms(2) k assms(3)]) blast
  have b': "b' = b\<lparr>bmi_orepls := ?bs, bmi_repls := bs\<rparr> \<or> b' = b\<lparr>bmi_orepls := ?bs\<rparr>"
    using assms(1) bs(1)
    by (auto simp: mds_repl_bmap_apply_def rt.retable_def rt.get_state [OF assms(2) k] bind_eq_Some_conv Let_def split: if_splits)
  show thesis by (rule that [OF bs(2) b' bs(3)])
qed

lemma apply_keeps:
  assumes "mds_repl_bmap_apply b (Some t) r fl (k * SL_BITS_PER_REPLICA) sc cb c = Some (b', rc, sc', c')"
    and "bmap_ok b" "safe_tract t"
  shows "keeps b b'"
proof -
  have ok: "repls_ok (bmi_repls b)" "tract_ok t" using assms(2,3) by (simp_all add: bmap_ok_def safe_tract_def)
  obtain bs where bs: "repls_ok bs"
    "b' = b\<lparr>bmi_orepls := bmi_repls b, bmi_repls := bs\<rparr> \<or> b' = b\<lparr>bmi_orepls := bmi_repls b\<rparr>"
    "\<And>j. j < SL_MAX_REPLICAS \<Longrightarrow> brepl bs j = (if j = k then tr t (brepl (bmi_repls b) k) else brepl (bmi_repls b) j)"
    by (rule apply_inv [OF assms(1) ok]) (rule that)
  have "live (brepl bs j)" if "j < SL_MAX_REPLICAS" "live (brepl (bmi_repls b) j)" for j
    using that bs(3) assms(3) brepl_range [of "bmi_repls b" k] by (auto simp: safe_tract_def)
  then show ?thesis using bs(1,2) assms(2) by (auto simp: keeps_def bmap_ok_def)
qed

lemma apply_query_same:
  "mds_repl_bmap_apply b None r fl off sc cb c = Some (b', rc, sc', c') \<Longrightarrow> b' = b"
  by (auto simp: mds_repl_bmap_apply_def bind_eq_Some_conv Let_def split: if_splits)

lemma walk_loop_keeps:
  assumes "bmap_walk_loop (Some t) r fl cb ks b rc c = Some (b', rc', c')" "bmap_ok b" "safe_tract t"
  shows "keeps b b'"
  using assms(1,2)
proof (induction ks arbitrary: b rc c)
  case Nil
  then show ?case by (simp add: keeps_refl)
next
  case (Cons k ks)
  obtain d trc sc e where d: "mds_repl_bmap_apply b (Some t) r fl (k * SL_BITS_PER_REPLICA) (Some False) cb c = Some (d, trc, sc, e)"
    using Cons.prems(1) by (auto simp: bind_eq_Some_conv)
  have kd: "keeps b d" by (rule apply_keeps [OF d Cons.prems(2) assms(3)])
  show ?case
  proof (cases "sc = Some True")
    case True
    then show ?thesis using Cons.prems(1) d kd by (simp add: Let_def)
  next
    case False
    then have "keeps d b'" using Cons.prems(1) d Cons.IH [OF _ keeps_ok [OF kd]] by (simp add: Let_def)
    then show ?thesis by (rule keeps_trans [OF kd])
  qed
qed

lemma walk_keeps:
  "mds_repl_bmap_walk nr b (Some t) r fl idx cb c = Some (b', rc, c') \<Longrightarrow> bmap_ok b \<Longrightarrow> safe_tract t \<Longrightarrow> keeps b b'"
  unfolding walk_eq by (rule walk_loop_keeps)

lemma walk_loop_query_same:
  "bmap_walk_loop None r fl cb ks b rc c = Some (b', rc', c') \<Longrightarrow> b' = b"
proof (induction ks arbitrary: b rc c)
  case (Cons k ks)
  then show ?case by (auto simp: bind_eq_Some_conv Let_def dest!: apply_query_same split: if_splits)
qed simp

lemma walk_query_same:
  "mds_repl_bmap_walk nr b None r fl idx cb c = Some (b', rc, c') \<Longrightarrow> b' = b"
  unfolding walk_eq by (rule walk_loop_query_same)

lemma write_keeps:
  "mds_bmap_write lr b f s = Some (b', f', s', rc) \<Longrightarrow> bmap_ok b \<Longrightarrow> keeps b b'"
  by (auto simp: mds_bmap_write_def keeps_def bmap_ok_def bind_eq_Some_conv Let_def split: prod.splits if_splits)

text \<open>A write leaves the metafile as it was, or stores the bmap written; nothing else changes the metafile.\<close>

lemma kept_refl [simp]: "kept a f f"
  by (simp add: kept_def)

lemma kept_same:
  "kept a f0 f \<Longrightarrow> fcmh_2_nrepls g = fcmh_2_nrepls f \<Longrightarrow> mf_data (fcmh_mf g) = mf_data (fcmh_mf f) \<Longrightarrow> kept a f0 g"
  by (auto simp: kept_def bmap_stored_def)

lemma kept_fields [simp]:
  "kept a f0 (f\<lparr>fmi_ptrunc_nios := x\<rparr>) = kept a f0 f" "kept a f0 (f\<lparr>fcmh_in_ptrunc := y\<rparr>) = kept a f0 f"
  "kept a f0 (f\<lparr>fcmh_bmaptree := z\<rparr>) = kept a f0 f"
  by (simp_all add: kept_def)

lemma kept_if: "kept a f0 f \<Longrightarrow> kept a f0 g \<Longrightarrow> kept a f0 (if c then f else g)"
  by simp

lemma write_kept:
  assumes "mds_bmap_write lr b f s = Some (b', f', s', rc)" "keeps a b" "kept a f0 f"
  shows "kept a f0 f'"
proof -
  have f': "f' = f\<lparr>fcmh_mf := fst (mdsio_pwritev (fcmh_mf f) (bmap_rec b) (bmap_foff_od b))\<rparr>"
    using assms(1) by (auto simp: mds_bmap_write_def bmap_rec_def bind_eq_Some_conv Let_def split: prod.splits if_splits)
  have "mf_data (fcmh_mf f') = mf_data (fcmh_mf f) \<or> mf_data (fcmh_mf f') = mf_data (fcmh_mf (wr_file b f))"
    by (auto simp: f' mdsio_pwritev_def mdsio_rc_def wr_file_def split: list.splits)
  moreover have "bmap_stored b (fcmh_mf (wr_file b f))" by (rule wr_file_stored [OF keeps_ok [OF assms(2)]])
  ultimately show ?thesis using assms(2,3) f' by (auto simp: kept_def bmap_stored_def)
qed

lemma loaded_same:
  "mds_inox_ensure_loaded chk fid ih mf = Some (ih', mf', rc) \<Longrightarrow> nrepls ih' = nrepls ih \<and> mf_data mf' = mf_data mf"
  by (auto simp: mds_inox_ensure_loaded_def mds_inox_load_locked_def mdsio_preadv_def mdsio_rc_def nrepls_def Let_def
      split: if_splits prod.splits list.splits)

lemma repl_same:
  "fcmh_2_repl k f s = Some (r, f') \<Longrightarrow> fcmh_2_nrepls f' = fcmh_2_nrepls f \<and> mf_data (fcmh_mf f') = mf_data (fcmh_mf f)"
  by (auto simp: fcmh_2_repl_def bind_eq_Some_conv dest: loaded_same split: if_splits)

lemma lookup_loop_same:
  "ios_lookup_loop chk fid ios ks ih mf rc = Some (ih', mf', x) \<Longrightarrow> nrepls ih' = nrepls ih \<and> mf_data mf' = mf_data mf"
proof (induction ks arbitrary: ih mf rc)
  case (Cons k ks)
  obtain jh m r where l: "(if k = SL_DEF_REPLICAS then mds_inox_ensure_loaded chk fid ih mf else Some (ih, mf, rc)) = Some (jh, m, r)"
    "(if k = SL_DEF_REPLICAS \<and> r \<noteq> 0 then Some (jh, m, r, None, True) else fcmh_getrepl jh k \<bind>
       (\<lambda>id. if id = ios then Some (jh, m, r, Some k, False) else ios_lookup_loop chk fid ios ks jh m r)) = Some (ih', mf', x)"
    using Cons.prems by (auto simp: bind_eq_Some_conv)
  have "nrepls jh = nrepls ih \<and> mf_data m = mf_data mf" using l(1) loaded_same by (auto split: if_splits)
  then show ?case using l(2) Cons.IH [of jh m r] by (auto simp: bind_eq_Some_conv split: if_splits)
qed simp

lemma ios_lookup_same:
  assumes "mds_repl_ios_lookup cfg chk fid ios IOSV_LOOKUPF_LOOKUP ih mf = Some (ih', mf', k)"
  shows "nrepls ih' = nrepls ih \<and> mf_data mf' = mf_data mf"
  using assms unfolding mds_repl_ios_lookup_def Let_def
  by (auto simp: bind_eq_Some_conv dest: lookup_loop_same split: option.splits if_splits)

lemma iosv_lookup_same:
  assumes "mds_repl_iosv_lookup cfg chk fid IOSV_LOOKUPF_LOOKUP [ios] ih mf = Some (ih', mf', x)"
  shows "nrepls ih' = nrepls ih \<and> mf_data mf' = mf_data mf"
  using assms by (auto simp: mds_repl_iosv_lookup_def bind_eq_Some_conv Let_def dest: ios_lookup_same split: if_splits)

lemma op_done_kept: "bmap_op_done b f = Some f' \<Longrightarrow> kept a f0 f \<Longrightarrow> kept a f0 f'"
  by (auto simp: bmap_op_done_def bmap_remove_def bind_eq_Some_conv Let_def split: if_splits)


subsection \<open>The operations\<close>

lemma live_vals: "live v \<longleftrightarrow> v \<in> {BREPLST_VALID, BREPLST_TRUNC_QUEUED, BREPLST_TRUNC_SCHED}"
  by (simp add: live_def)

lemma safe_one_tract:
  assumes "0 \<le> v" "v < 8" "0 \<le> w" "w < 8" "live v \<Longrightarrow> live w"
  shows "safe_tract (one_tract v w)"
  using assms by (auto simp: safe_tract_def one_tract_def tr_def brepl_simps)

lemma safe_tables [simp]:
  "safe_tract (one_tract BREPLST_REPL_QUEUED BREPLST_VALID)" "safe_tract (one_tract BREPLST_REPL_QUEUED BREPLST_REPL_SCHED)"
  "safe_tract (one_tract BREPLST_REPL_SCHED BREPLST_REPL_QUEUED)" "safe_tract (one_tract BREPLST_REPL_QUEUED BREPLST_GARBAGE_QUEUED)"
  "safe_tract (one_tract BREPLST_TRUNC_QUEUED BREPLST_TRUNC_SCHED)"
  "safe_tract (one_tract BREPLST_TRUNC_SCHED (if c then BREPLST_TRUNC_QUEUED else BREPLST_VALID))"
  "safe_tract (one_tract BREPLST_GARBAGE_QUEUED BREPLST_GARBAGE_SCHED)"
  "safe_tract (one_tract BREPLST_GARBAGE_SCHED (if c then BREPLST_GARBAGE_QUEUED else BREPLST_INVALID))"
  "safe_tract (repl_done_tract pp rc)"
  by (rule safe_one_tract; simp add: live_def brepl_simps)+
    (simp add: repl_done_tract_def; intro conjI impI; rule safe_one_tract; simp add: live_def brepl_simps)

lemma safe_req_tables [simp]: "safe_tract requeue_tract" "safe_tract addrq_tract"
  using requeue_tables rq_tables
  by (auto simp: safe_tract_def live_def requeued_def requested_def brepl_simps)

lemma bmap_apply_keeps:
  "bmap_apply b t r (SL_BITS_PER_REPLICA * k) = Some (b', x) \<Longrightarrow> bmap_ok b \<Longrightarrow> safe_tract t \<Longrightarrow> keeps b b'"
  by (cases x) (auto simp: mult.commute [of SL_BITS_PER_REPLICA] intro: apply_keeps)

text \<open>
  Operations are read from the outside in: a goal \<open>post Q m\<close> is reduced along the structure of \<open>m\<close>, with
  \<^const>\<open>keeps\<close> carried from one change of the bmap to the next.
\<close>

lemma postD: "post Q m \<Longrightarrow> m = Some x \<Longrightarrow> Q x"
  by (simp add: post_def)

lemma post_some: "Q x \<Longrightarrow> post Q (Some x)"
  by (simp add: post_def)

lemma post_none: "post Q None"
  by (simp add: post_def)

lemma post_bind: "post P m \<Longrightarrow> (\<And>x. P x \<Longrightarrow> post Q (g x)) \<Longrightarrow> post Q (m \<bind> g)"
  by (auto simp: post_def bind_eq_Some_conv)

lemma post_any: "(\<And>x. post Q (g x)) \<Longrightarrow> post Q (m \<bind> g)"
  by (auto simp: post_def bind_eq_Some_conv)

lemma post_if: "(c \<Longrightarrow> post Q m) \<Longrightarrow> (\<not> c \<Longrightarrow> post Q n) \<Longrightarrow> post Q (if c then m else n)"
  by simp

lemma post_opt: "(x = None \<Longrightarrow> post Q m) \<Longrightarrow> (\<And>y. x = Some y \<Longrightarrow> post Q (g y)) \<Longrightarrow> post Q (case x of None \<Rightarrow> m | Some y \<Rightarrow> g y)"
  by (cases x) auto

lemma post_pair: "(\<And>a b. x = (a, b) \<Longrightarrow> post Q (g a b)) \<Longrightarrow> post Q (case x of (a, b) \<Rightarrow> g a b)"
  by (cases x) auto

lemma post_apply:
  assumes "keeps a b" "safe_tract t" "\<And>c x. keeps a c \<Longrightarrow> k < SL_MAX_REPLICAS \<Longrightarrow> post Q (g (c, x))"
  shows "post Q (bmap_apply b t r (SL_BITS_PER_REPLICA * k) \<bind> g)"
proof (rule post_bind [where P = "\<lambda>(c, x). keeps a c \<and> k < SL_MAX_REPLICAS"])
  have ok: "repls_ok (bmi_repls b)" using keeps_ok [OF assms(1)] by (simp add: bmap_ok_def)
  have "k < SL_MAX_REPLICAS" if "bmap_apply b t r (SL_BITS_PER_REPLICA * k) = Some x" for x
    using apply_bounds [OF _ ok] that by (simp add: mult.commute [of SL_BITS_PER_REPLICA])
  then show "post (\<lambda>(c, x). keeps a c \<and> k < SL_MAX_REPLICAS) (bmap_apply b t r (SL_BITS_PER_REPLICA * k))"
    unfolding post_def using bmap_apply_keeps [OF _ keeps_ok [OF assms(1)] assms(2)] keeps_trans [OF assms(1)] by blast
qed (use assms(3) in auto)

lemma post_write:
  assumes "keeps a b" "kept a f0 f" "\<And>c g x. keeps a c \<Longrightarrow> kept a f0 g \<Longrightarrow> post Q (h (c, g, x))"
  shows "post Q (mds_bmap_write lr b f s \<bind> h)"
proof (rule post_bind [where P = "keeps_post a f0"])
  show "post (keeps_post a f0) (mds_bmap_write lr b f s)"
    unfolding post_def using write_keeps [OF _ keeps_ok [OF assms(1)]] keeps_trans [OF assms(1)] write_kept [OF _ assms(1,2)] by auto
qed (use assms(3) in auto)

text \<open>Loading the extension block of the inode and looking up I/O systems only read the metafile.\<close>

lemma post_load:
  assumes "kept a f0 f" "\<And>ih mf x. kept a f0 (f\<lparr>fcmh_inoh := ih, fcmh_mf := mf\<rparr>) \<Longrightarrow> post Q (h (ih, mf, x))"
  shows "post Q (mds_inox_ensure_loaded chk fid (fcmh_inoh f) (fcmh_mf f) \<bind> h)"
  by (rule post_bind [where P = "\<lambda>(ih, mf, x). kept a f0 (f\<lparr>fcmh_inoh := ih, fcmh_mf := mf\<rparr>)"])
    (auto simp: post_def [of _ "mds_inox_ensure_loaded _ _ _ _"] dest!: loaded_same intro!: kept_same [OF assms(1)] intro: assms(2))

lemma post_iosv:
  assumes "kept a f0 f" "\<And>ih mf x. kept a f0 (f\<lparr>fcmh_inoh := ih, fcmh_mf := mf\<rparr>) \<Longrightarrow> post Q (h (ih, mf, x))"
  shows "post Q (mds_repl_iosv_lookup cfg chk fid IOSV_LOOKUPF_LOOKUP [ios] (fcmh_inoh f) (fcmh_mf f) \<bind> h)"
  by (rule post_bind [where P = "\<lambda>(ih, mf, x). kept a f0 (f\<lparr>fcmh_inoh := ih, fcmh_mf := mf\<rparr>)"])
    (auto simp: post_def [of _ "mds_repl_iosv_lookup _ _ _ _ _ _ _"] dest!: iosv_lookup_same intro!: kept_same [OF assms(1)] intro: assms(2))

lemma post_repl:
  assumes "kept a f0 f" "\<And>id g. kept a f0 g \<Longrightarrow> post Q (h (id, g))"
  shows "post Q (fcmh_2_repl k f s \<bind> h)"
  by (rule post_bind [where P = "\<lambda>(id, g). kept a f0 g"])
    (auto simp: post_def [of _ "fcmh_2_repl _ _ _"] dest!: repl_same intro!: kept_same [OF assms(1)] intro: assms(2))

lemma post_done:
  assumes "kept a f0 f" "\<And>g. kept a f0 g \<Longrightarrow> post Q (h g)"
  shows "post Q (bmap_op_done b f \<bind> h)"
  by (rule post_bind [where P = "kept a f0"])
    (auto simp: post_def [of _ "bmap_op_done _ _"] intro: op_done_kept [OF _ assms(1)] assms(2))

lemma post_walk:
  assumes "keeps a b" "safe_tract t" "\<And>c x. keeps a c \<Longrightarrow> post Q (g (c, x))"
  shows "post Q (mds_repl_bmap_walk nr b (Some t) r fl idx cb e \<bind> g)"
proof (rule post_bind [where P = "\<lambda>(c, x). keeps a c"])
  show "post (\<lambda>(c, x). keeps a c) (mds_repl_bmap_walk nr b (Some t) r fl idx cb e)"
    unfolding post_def by (auto dest!: walk_keeps [OF _ keeps_ok [OF assms(1)] assms(2)] intro: keeps_trans [OF assms(1)])
qed (use assms(3) in auto)

lemma post_look:
  assumes "\<And>x. post Q (g (b, x))"
  shows "post Q (mds_repl_bmap_walk nr b None r fl idx cb e \<bind> g)"
  using walk_query_same [of nr b r fl idx cb e] assms by (auto simp: post_def bind_eq_Some_conv)

lemma repltraffic_bounds: "0 < slm_bmap_calc_repltraffic b f" "slm_bmap_calc_repltraffic b f \<le> int SLASH_BMAP_SIZE"
  by (simp_all add: slm_bmap_calc_repltraffic_def Let_def SLASH_BMAP_SIZE_def)

lemma tryrepl_len_bounds: "tryrepl_len b f = Some n \<Longrightarrow> 0 < n \<and> n \<le> SLASH_BMAP_SIZE"
  by (auto simp: tryrepl_len_def Let_def SLASH_BMAP_SIZE_def split: if_splits)

lemma tryrepl_len_cong: "fcmh_2_fsz f = fcmh_2_fsz g \<Longrightarrow> bcm_bmapno b = bcm_bmapno c \<Longrightarrow> tryrepl_len b f = tryrepl_len c g"
  by (simp only: tryrepl_len_def fcmh_nvalidbmaps_def)

lemma sent_ok_pair [simp]: "sent_ok a f0 ((c, f, x), rq) \<longleftrightarrow> keeps a c \<and> kept a f0 f \<and> list_all (req_ok (bcm_bmapno a)) rq"
  by (simp add: sent_ok_def)

lemma keeps_bno: "keeps a b \<Longrightarrow> bcm_bmapno b = bcm_bmapno a"
  by (simp add: keeps_def)

lemma bits_pos [simp]: "0 < SL_BITS_PER_REPLICA"
  by (simp add: SL_BITS_PER_REPLICA_def)

lemma tryrepl_out_keeps:
  assumes "keeps a b" "kept a f0 f"
  shows "post (keeps_post a f0) (tryrepl_out chg amt rc b (SL_BITS_PER_REPLICA * k) src dst f s)"
  unfolding tryrepl_out_def
  by (cases chg; simp add: Option.bind_assoc split_def;
      (rule post_apply [OF assms(1)] | rule post_any | rule post_some | simp add: assms)+)

lemma post_ret:
  "post (keeps_post a f0) m \<Longrightarrow> (\<And>c f x. keeps a c \<Longrightarrow> kept a f0 f \<Longrightarrow> post Q (g (c, f, x))) \<Longrightarrow> post Q (m \<bind> g)"
  by (rule post_bind [where P = "keeps_post a f0"]) auto

lemma post_ret2:
  "post (sent_ok a f0) m \<Longrightarrow> (\<And>c f s ret rq. keeps a c \<Longrightarrow> kept a f0 f \<Longrightarrow> list_all (req_ok (bcm_bmapno a)) rq \<Longrightarrow>
     post Q (g ((c, f, s, ret), rq))) \<Longrightarrow> post Q (m \<bind> g)"
  by (rule post_bind [where P = "sent_ok a f0"]) auto

text \<open>The rules for the steps of an operation, the ones that know what a step does first.\<close>

lemmas post_rules = post_if post_apply post_write post_walk post_look post_load post_iosv post_repl
  post_ret [OF tryrepl_out_keeps] post_opt post_pair post_some post_none safe_tables safe_req_tables

lemma tryrepl_keeps:
  assumes "keeps a b" "kept a f0 f"
  shows "post (sent_ok a f0) (slm_upsch_tryrepl env b (SL_BITS_PER_REPLICA * k) src dst f s)"
  unfolding slm_upsch_tryrepl_def Let_def
  by (assumption | rule assms | rule post_rules | rule post_any
      | simp add: assms keeps_bno [OF assms(1)] repltraffic_bounds tryrepl_len_bounds)+

lemma trypreclaim_keeps:
  assumes "keeps a b" "kept a f0 f"
  shows "post (sent_ok a f0) (slm_upsch_trypreclaim env res b (SL_BITS_PER_REPLICA * k) f s)"
  unfolding slm_upsch_trypreclaim_def Let_def
  by (assumption | rule assms | rule post_rules | rule post_any | simp add: assms keeps_bno [of a])+





lemma op_done_keeps:
  assumes "keeps a b" "1 < bcm_opcnt b"
  shows "post (\<lambda>f'. \<exists>c. fcmh_bmaptree f' (bcm_bmapno a) = Some c \<and> bmi_repls c = bmi_repls b \<and> bmap_ok c \<and>
    bcm_bmapno c = bcm_bmapno a \<and> bcm_opcnt c = bcm_opcnt b - 1) (bmap_op_done b f)"
  using assms by (auto simp: bmap_op_done_def post_def keeps_def bmap_ok_def bmap_wake_locked_def Let_def bind_eq_Some_conv split: if_splits)

lemma keeps_fields [simp]:
  "keeps a (b\<lparr>bmi_sys_prio := p, bmi_usr_prio := u\<rparr>) = keeps a b"
  "keeps a b \<Longrightarrow> keeps a (b\<lparr>bcm_opcnt := bcm_opcnt b + 1\<rparr>)"
  by (auto simp: keeps_def bmap_ok_def)

lemma finish_ptrunc_keeps:
  assumes "keeps a b" "kept a f0 f" "0 < bcm_opcnt a" "bcm_opcnt a < bcm_opcnt b"
  shows "post (\<lambda>r. kept a f0 (fst r) \<and> (\<exists>c. fcmh_bmaptree (fst r) (bcm_bmapno a) = Some c \<and> keeps a c))
    (slm_upsch_finish_ptrunc b rc (SL_BITS_PER_REPLICA * k) f s)"
proof -
  have last: "post (\<lambda>r. kept a f0 (fst r) \<and> (\<exists>c. fcmh_bmaptree (fst r) (bcm_bmapno a) = Some c \<and> keeps a c))
      (bmap_op_done d g \<bind> (\<lambda>f. Some (f, t)))"
    if d: "keeps a d" "bcm_opcnt b \<le> bcm_opcnt d" "kept a f0 g" for d g t
  proof -
    have n: "1 < bcm_opcnt d" using d(2) assms(3,4) by simp
    show ?thesis using op_done_keeps [OF d(1) n, of g] op_done_kept [of d g _ a f0] d assms(4)
      by (auto simp: post_def bind_eq_Some_conv keeps_def)
  qed
  have b: "keeps b b" by (rule keeps_refl [OF keeps_ok [OF assms(1)]])
  let ?g = "f\<lparr>fmi_ptrunc_nios := fmi_ptrunc_nios f - 1\<rparr>"
  let ?h = "if fmi_ptrunc_nios ?g = 0 then ?g\<lparr>fcmh_in_ptrunc := False\<rparr> else ?g"
  have h: "kept a f0 ?h" using assms(2) by simp
  show ?thesis unfolding slm_upsch_finish_ptrunc_def Let_def
  proof (rule post_apply [OF b safe_tables(6)], unfold split_conv)
    fix c and x :: "int \<times> bool option \<times> unit"
    assume c: "keeps b c"
    have w: "keeps a d \<and> bcm_opcnt b \<le> bcm_opcnt d \<and> kept a f0 g" if "mds_bmap_write_logrepls c ?h s = Some (d, g, x)" for d g x
    proof (cases x)
      case (Pair u rc)
      have d: "keeps c d" using that Pair write_keeps [OF _ keeps_ok [OF c]] by simp
      have "kept a f0 g" using that Pair write_kept [OF _ keeps_trans [OF assms(1) c] h] by blast
      then show ?thesis using keeps_trans [OF keeps_trans [OF assms(1) c] d] keeps_trans [OF c d] by (simp add: keeps_def)
    qed
    show "post (\<lambda>r. kept a f0 (fst r) \<and> (\<exists>c. fcmh_bmaptree (fst r) (bcm_bmapno a) = Some c \<and> keeps a c))
        (mds_bmap_write_logrepls c ?h s \<bind> (\<lambda>(b, f, s, _). bmap_op_done b f \<bind> (\<lambda>f. Some (f, s))))"
      by (rule post_bind [where P = "\<lambda>(d, g, x). keeps a d \<and> bcm_opcnt b \<le> bcm_opcnt d \<and> kept a f0 g"])
        (use w in \<open>auto simp: post_def [of _ "mds_bmap_write _ _ _ _"] last split del: if_split\<close>)
  qed
qed

lemma tryptrunc_keeps:
  assumes "keeps a b" "kept a f0 f" "0 < bcm_opcnt a"
  shows "post (sent_ok a f0) (slm_upsch_tryptrunc env b (SL_BITS_PER_REPLICA * k) dst f s)"
proof -
  let ?b = "b\<lparr>bcm_opcnt := bcm_opcnt b + 1\<rparr>"
  have b: "keeps ?b ?b" "keeps a ?b" using assms(1) by (auto intro: keeps_refl simp: bmap_ok_def keeps_def)
  have fin: "post (sent_ok a f0) (slm_upsch_finish_ptrunc c rc (SL_BITS_PER_REPLICA * k) f s \<bind>
      (\<lambda>(f, s). fcmh_bmaptree f (bcm_bmapno c) \<bind> (\<lambda>d. Some ((d, f, s, rc), []))))" if c: "keeps ?b c" for c rc
  proof (rule post_bind [OF finish_ptrunc_keeps [OF keeps_trans [OF b(2) c] assms(2,3)]])
    show "bcm_opcnt a < bcm_opcnt c" using c assms(1) by (simp add: keeps_def)
    have "bcm_bmapno c = bcm_bmapno a" using c assms(1) by (simp add: keeps_def)
    then show "post (sent_ok a f0)
        (case r of (f, s) \<Rightarrow> fcmh_bmaptree f (bcm_bmapno c) \<bind> (\<lambda>d. Some ((d, f, s, rc), [])))"
      if "kept a f0 (fst r) \<and> (\<exists>d. fcmh_bmaptree (fst r) (bcm_bmapno a) = Some d \<and> keeps a d)" for r
      using that by (cases r) (auto simp: post_def)
  qed
  have mid: "post (\<lambda>(c, _, sent). keeps ?b c \<and> (sent \<longrightarrow> k < SL_MAX_REPLICAS))
      (if \<not> e_online env dst then Some (?b, e_csvc_err env, False)
       else if e_newreq_rc env \<noteq> 0 then Some (?b, e_newreq_rc env, False)
       else bmap_apply ?b (one_tract BREPLST_TRUNC_QUEUED BREPLST_TRUNC_SCHED)
           (Some (one_retifset BREPLST_TRUNC_QUEUED BREPLST_TRUNC_QUEUED)) (SL_BITS_PER_REPLICA * k) \<bind>
         (\<lambda>(b, rc, _). if rc \<noteq> BREPLST_TRUNC_QUEUED then Some (b, EINVAL, False)
            else Some (b, e_nbset_rc env, e_nbset_rc env = 0)))"
    by (assumption | rule b(1) | rule post_rules | simp add: b(1))+
  have bno: "bcm_bmapno c = bcm_bmapno a" if "keeps ?b c" for c using that assms(1) by (simp add: keeps_def)
  show ?thesis unfolding slm_upsch_tryptrunc_def Let_def
    by (rule post_bind [OF mid]) (auto intro!: post_if post_some fin keeps_trans [OF b(2)] simp: bno assms(2))
qed

lemma sched_repl_loop_keeps:
  assumes "keeps a b" "kept a f0 f"
  shows "post (\<lambda>(r, _, _, rq). sent_ok a f0 (r, rq)) (sched_repl_loop env cfg i dst ks valid b f s)"
  using assms
proof (induction ks arbitrary: valid b f s)
  case (Cons k ks)
  note attempt = post_ret2 [OF tryrepl_keeps [OF Cons.prems]]
  have rest: "post (\<lambda>(r, _, _, rq). sent_ok a f0 (r, rq)) (sched_repl_loop env cfg i dst ks True c f s \<bind> (\<lambda>(r, v, ok, rq'). Some (r, v, ok, rq @ rq')))"
    if "keeps a c" "kept a f0 f" "list_all (req_ok (bcm_bmapno a)) rq" for c f s rq
    by (rule post_bind [OF Cons.IH [OF that(1,2)]]) (use that(3) in \<open>auto intro!: post_some\<close>)
  show ?case unfolding sched_repl_loop.simps
    by (assumption | rule Cons.prems | rule post_if | rule attempt | rule Cons.IH | rule rest
        | simp only: split_conv fst_conv | rule post_some | rule post_any | simp)+
qed (simp add: post_def)

lemma sched_repl_keeps:
  assumes "keeps a b" "kept a f0 f"
  shows "post (sent_ok a f0) (slm_upsch_sched_repl env cfg b i f s)"
proof -
  have loop: "post Q (sched_repl_loop env cfg i dst ks v b f s \<bind> g)" if "kept a f0 f"
    "\<And>c f s v ok rq. keeps a c \<Longrightarrow> kept a f0 f \<Longrightarrow> list_all (req_ok (bcm_bmapno a)) rq \<Longrightarrow> post Q (g ((c, f, s), v, ok, rq))" for dst ks v f Q g
    by (rule post_bind [OF sched_repl_loop_keeps [OF assms(1) that(1)]]) (use that(2) in auto)
  show ?thesis unfolding slm_upsch_sched_repl_def
    by (rule post_repl [OF assms(2)], rule post_pair)
      (assumption | rule loop | rule post_if post_apply post_write safe_tables | simp only: split_conv fst_conv
        | rule post_pair post_some | simp)+
qed

lemma proc_bmap_loop_keeps:
  assumes "keeps a b" "kept a f0 f" "0 < bcm_opcnt a"
  shows "post (sent_ok a f0) (proc_bmap_loop env cfg ks b f s)"
  using assms(1,2)
proof (induction ks arbitrary: b f s)
  case (Cons k ks)
  have rest: "post (sent_ok a f0) (proc_bmap_loop env cfg ks c f s \<bind> (\<lambda>(r, rq'). Some (r, rq @ rq')))"
    if "keeps a c" "kept a f0 f" "list_all (req_ok (bcm_bmapno a)) rq" for c f s rq
    by (rule post_bind [OF Cons.IH [OF that(1,2)]]) (use that(3) in \<open>auto intro!: post_some\<close>)
  have one: "post (sent_ok a f0)
      (if v = BREPLST_REPL_QUEUED then
         if bmi_wr_ion b \<noteq> None then Some ((b, f, s, 0), []) else slm_upsch_sched_repl env cfg b k f s
       else if v = BREPLST_TRUNC_QUEUED then
         slm_upsch_tryptrunc env b (SL_BITS_PER_REPLICA * k) iosid f s \<bind> (\<lambda>((b, f, s, _), rq). Some ((b, f, s, 0), rq))
       else if v = BREPLST_GARBAGE_QUEUED then slm_upsch_trypreclaim env iosid b (SL_BITS_PER_REPLICA * k) f s
       else Some ((b, f, s, 0), []))" if "kept a f0 f" for v iosid f s
    by (rule post_if sched_repl_keeps [OF Cons.prems(1) that] post_ret2 [OF tryptrunc_keeps [OF Cons.prems(1) that assms(3)]]
        trypreclaim_keeps [OF Cons.prems(1) that] | simp only: split_conv fst_conv | rule post_some | simp add: Cons.prems that)+
  show ?case unfolding proc_bmap_loop.simps Let_def
    by (rule post_repl [OF Cons.prems(2)])
      (assumption | rule Cons.prems | rule post_ret2 [OF one] | rule Cons.IH | rule rest | rule post_if
        | simp only: split_conv fst_conv | rule post_pair post_some | rule post_any | simp)+
qed (simp add: post_def)

lemma proc_bmap_keeps:
  assumes "keeps a b" "kept a f0 f" "0 < bcm_opcnt a"
  shows "post (sent_ok a f0) (upd_proc_bmap env cfg b f s)"
  unfolding upd_proc_bmap_def Let_def
  by (rule post_load [OF assms(2)], rule post_pair, rule post_pair, rule post_if)
    (simp_all add: post_def [of _ "Some _"] assms proc_bmap_loop_keeps)
















subsection \<open>Exact effects\<close>

lemma bmap_apply_eq:
  assumes "bmap_ok b" "k < SL_MAX_REPLICAS" "ret_ok r" "tract_ok t" "bcm_flags b AND BMAPF_REPLMODWR = 0"
  obtains repls where "bmap_apply b t r (SL_BITS_PER_REPLICA * k) =
      Some (b\<lparr>bmi_repls := repls, bmi_orepls := bmi_repls b\<rparr>, retv r (brepl (bmi_repls b) k), None, ())"
    "bmap_ok (b\<lparr>bmi_repls := repls, bmi_orepls := bmi_repls b\<rparr>)"
    "\<And>j. j < SL_MAX_REPLICAS \<Longrightarrow> brepl repls j = (if j = k then tr t (brepl (bmi_repls b) k) else brepl (bmi_repls b) j)"
proof -
  have ok: "repls_ok (bmi_repls b)" using assms(1) by (simp add: bmap_ok_def)
  obtain repls where r: "mds_repl_bmap_apply b (Some t) r 0 (k * SL_BITS_PER_REPLICA) None (pure_cb None) () =
      Some (b\<lparr>bmi_repls := repls, bmi_orepls := bmi_repls b\<rparr>, retv r (brepl (bmi_repls b) k), None, ())" "repls_ok repls"
    "\<And>j. j < SL_MAX_REPLICAS \<Longrightarrow> brepl repls j = (if j = k then tr t (brepl (bmi_repls b) k) else brepl (bmi_repls b) j)"
    by (rule apply_translate [where flags = 0 and sc = None and g = None and c = "()", OF ok assms(2-4) _ assms(5)])
      (simp, rule that, simp, assumption, blast)
  have "bmap_ok (b\<lparr>bmi_repls := repls, bmi_orepls := bmi_repls b\<rparr>)" using assms(1) r(2) by (simp add: bmap_ok_def)
  then show thesis by (rule that [OF _ _ r(3), rotated]) (use r(1) in \<open>simp_all add: mult.commute\<close>)
qed

lemma tr_one: "0 \<le> v \<Longrightarrow> v < 8 \<Longrightarrow> 0 \<le> w \<Longrightarrow> w < 8 \<Longrightarrow> 0 \<le> x \<Longrightarrow> x < 8 \<Longrightarrow> tr (one_tract v w) x = (if x = v then w else x)"
  by (auto simp: one_tract_def tr_def brepl_simps)

lemma tract_one: "0 \<le> v \<Longrightarrow> v < 8 \<Longrightarrow> 0 \<le> w \<Longrightarrow> w < 8 \<Longrightarrow> tract_ok (one_tract v w)"
  by (simp add: one_tract_def brepl_simps)

lemma retv_tables:
  "0 \<le> v \<Longrightarrow> v < 8 \<Longrightarrow> retv (Some brepls_init_idx) v = v" "ret_ok (Some brepls_init_idx)" "ret_ok None"
  "ret_ok (Some (one_retifset v r))" "0 \<le> v \<Longrightarrow> v < 8 \<Longrightarrow> retv (Some (one_retifset v r)) v = r"
  by (simp_all add: retv_def one_retifset_def brepl_simps)

text \<open>
  Paging: the offset grows with every page that is not empty, so the search ends when the number of rows is bounded;
  and when every statement sees the same rows in the same order, the pages are these rows.
\<close>

lemma page_len: "length (select_page resid rows n) = min UPSCH_PAGEIN_BATCH (length [r \<leftarrow> rows. up_resid r = resid] - n)"
  by (simp add: select_page_def)

lemma page_rows: "w \<in> set (select_page resid rows n) \<Longrightarrow> \<exists>r \<in> set rows. up_resid r = resid \<and> w = row_work r"
  unfolding select_page_def by (auto dest!: in_set_takeD in_set_dropD)

lemma page_work_loop_bounded:
  assumes "\<forall>i. length [r \<leftarrow> db i. up_resid r = resid] \<le> N"
  shows "\<exists>ws. page_work_loop resid db i n wq = Some (wq @ ws) \<and> length ws \<le> N - n \<and>
    (\<forall>w \<in> set ws. \<exists>j. \<exists>r \<in> set (db j). up_resid r = resid \<and> w = row_work r)"
proof (induction "N - n" arbitrary: i n wq rule: less_induct)
  case less
  let ?da = "select_page resid (db i) n"
  show ?case
  proof (cases "?da = []")
    case True
    then show ?thesis by (subst page_work_loop.simps) simp
  next
    case False
    have "length ?da \<le> length [r \<leftarrow> db i. up_resid r = resid] - n" by (simp add: page_len)
    also have "\<dots> \<le> N - n" using assms by (simp add: diff_le_mono)
    finally have len: "length ?da \<le> N - n" "0 < length ?da" using False by simp_all
    then have "N - (n + length ?da) < N - n" by linarith
    from less [OF this, of "Suc i" "wq @ ?da"] obtain ws where ws: "page_work_loop resid db (Suc i) (n + length ?da) (wq @ ?da) = Some ((wq @ ?da) @ ws)"
      "length ws \<le> N - (n + length ?da)" "\<forall>w \<in> set ws. \<exists>j. \<exists>r \<in> set (db j). up_resid r = resid \<and> w = row_work r"
      by blast
    have "page_work_loop resid db i n wq = Some (wq @ (?da @ ws))"
      using ws(1) len(2) by (subst page_work_loop.simps) (simp add: Let_def)
    moreover have "length (?da @ ws) \<le> N - n" using ws(2) len(1) by simp
    moreover have "\<forall>w \<in> set (?da @ ws). \<exists>j. \<exists>r \<in> set (db j). up_resid r = resid \<and> w = row_work r"
      using ws(3) page_rows [of _ resid "db i" n] unfolding set_append by blast
    ultimately show ?thesis by blast
  qed
qed

lemma page_work_loop_stable:
  assumes "\<And>i. db i = rows"
  shows "page_work_loop resid db i n wq = Some (wq @ map row_work (drop n [r \<leftarrow> rows. up_resid r = resid]))"
proof (induction "length [r \<leftarrow> rows. up_resid r = resid] - n" arbitrary: i n wq rule: less_induct)
  case less
  let ?rs = "[r \<leftarrow> rows. up_resid r = resid]"
  show ?case
  proof (cases "length ?rs \<le> n")
    case True
    then show ?thesis by (subst page_work_loop.simps) (simp add: select_page_def assms)
  next
    case False
    let ?m = "min UPSCH_PAGEIN_BATCH (length ?rs - n)"
    have m: "0 < ?m" "length ?rs - (n + ?m) < length ?rs - n" using False by (simp_all add: UPSCH_PAGEIN_BATCH_def)
    have "drop (n + ?m) ?rs = drop UPSCH_PAGEIN_BATCH (drop n ?rs)" by (simp add: min_def add.commute)
    then have "drop n ?rs = take UPSCH_PAGEIN_BATCH (drop n ?rs) @ drop (n + ?m) ?rs" by (metis append_take_drop_id)
    then have "map row_work (drop n ?rs) = select_page resid rows n @ map row_work (drop (n + ?m) ?rs)"
      by (metis map_append select_page_def)
    moreover have "select_page resid rows n \<noteq> []" using m(1) page_len [of resid rows n] by auto
    ultimately show ?thesis using less [OF m(2)]
      by (subst page_work_loop.simps) (simp add: Let_def page_len assms del: min_less_iff_conj)
  qed
qed

text \<open>A reservation for which there is room, and giving it back.\<close>

lemma reserve_eq:
  assumes "bw_room src amt s" "0 < amt"
  shows "resmpair_bw_adj src dst amt rc s = Some (reserved src dst amt s, 1)"
  using assms by (auto simp: resmpair_bw_adj_def reserved_def bw_room_def Let_def)

lemma release_eq:
  assumes "0 < amt" "0 \<le> si_repl_egress_pending (iosinfo s src)" "0 \<le> si_repl_ingress_pending (iosinfo s dst)"
    and "iosinfo t = iosinfo (reserved src dst amt s)"
  obtains u where "resmpair_bw_adj src dst (- amt) rc t = Some (u, 1)" "slm_workq u = slm_workq t"
    "\<And>r. si_repl_egress_pending (iosinfo u r) = si_repl_egress_pending (iosinfo s r)"
    "\<And>r. si_repl_ingress_pending (iosinfo u r) = si_repl_ingress_pending (iosinfo s r)"
  by (rule that [of "fst (the (resmpair_bw_adj src dst (- amt) rc t))"])
    (use assms in \<open>auto simp: resmpair_bw_adj_def reserved_def Let_def psc_assert_def\<close>)

lemma reserved_fields [simp]: "slm_opstate (reserved src dst amt s) = slm_opstate s" "slm_workq (reserved src dst amt s) = slm_workq s"
  by (simp_all add: reserved_def)

lemma tryrepl_eq:
  assumes "fcmh_ok f" "bmap_ok b" "bcm_flags b AND BMAPF_REPLMODWR = 0" "k < SL_MAX_REPLICAS"
    and "bw_room src (slm_bmap_calc_repltraffic b f) s" "e_online env dst" "e_batch_rc env dst = 0" "tryrepl_len b f = Some len"
    and "brepl (bmi_repls b) k \<in> {BREPLST_REPL_QUEUED, BREPLST_REPL_SCHED}"
  obtains c where "bmap_ok c" "bcm_flags c = bcm_flags b" "bes_gen c = bes_gen b" "bcm_bmapno c = bcm_bmapno b"
    "bcm_opcnt c = bcm_opcnt b" "repls_ok (bmi_orepls c)"
    "\<And>j. j < SL_MAX_REPLICAS \<Longrightarrow> brepl (bmi_repls c) j = (if j = k then BREPLST_REPL_SCHED else brepl (bmi_repls b) j)"
    "slm_upsch_tryrepl env b (SL_BITS_PER_REPLICA * k) src dst f s =
       (if brepl (bmi_repls b) k = BREPLST_REPL_QUEUED
        then Some ((c, wr_file c f, reserved src dst (slm_bmap_calc_repltraffic b f) s, 1),
          [Req_repl \<lparr>q_bno = bcm_bmapno b, q_bgen = bes_gen b, q_src_resid = src, q_len = len,
             bsr_off = SL_BITS_PER_REPLICA * k, bsr_amt = slm_bmap_calc_repltraffic b f, bsr_res = dst\<rparr>])
        else Some ((c, f, reserved src dst (slm_bmap_calc_repltraffic b f) s, 1), []))"
proof -
  let ?t = "one_tract BREPLST_REPL_QUEUED BREPLST_REPL_SCHED" and ?v = "brepl (bmi_repls b) k"
  have t: "tract_ok ?t" by (rule tract_one) (simp_all add: brepl_simps)
  obtain repls where a: "bmap_apply b ?t (Some brepls_init_idx) (SL_BITS_PER_REPLICA * k) =
      Some (b\<lparr>bmi_repls := repls, bmi_orepls := bmi_repls b\<rparr>, retv (Some brepls_init_idx) ?v, None, ())"
    "bmap_ok (b\<lparr>bmi_repls := repls, bmi_orepls := bmi_repls b\<rparr>)"
    "\<And>j. j < SL_MAX_REPLICAS \<Longrightarrow> brepl repls j = (if j = k then tr ?t ?v else brepl (bmi_repls b) j)"
    by (rule bmap_apply_eq [OF assms(2,4) retv_tables(2) t assms(3)]) (rule that)
  let ?c = "b\<lparr>bmi_repls := repls, bmi_orepls := bmi_repls b\<rparr>"
  have st: "tr ?t ?v = BREPLST_REPL_SCHED" using assms(9) by (auto simp: tr_one brepl_simps)
  have w: "mds_bmap_write False ?c f u = Some (?c, wr_file ?c f, u, 0)" for u
    using write_eq [OF assms(1) a(2), of False u] by (simp add: wr_mark_def wr_queue_def)
  have amt: "slm_bmap_calc_repltraffic b f \<noteq> 0" using repltraffic_bounds(1) [of b f] by simp
  have or: "repls_ok (bmi_orepls ?c)" using assms(2) by (simp add: bmap_ok_def)
  show thesis
    by (rule that [of ?c, OF a(2)])
      (use assms(9) a(3) st or in \<open>auto simp: slm_upsch_tryrepl_def Let_def amt reserve_eq [OF assms(5) repltraffic_bounds(1)]
        assms(6-8) a(1) w retv_tables(1) [OF brepl_range] brepl_simps\<close>)
qed

lemma repl_answer_eq:
  assumes "fcmh_ok f" "bmap_ok b" "bcm_flags b AND BMAPF_REPLMODWR = 0" "k < SL_MAX_REPLICAS" "slm_opstate s = SLM_OPSTATE_NORMAL"
    and "brepl (bmi_repls b) k = BREPLST_REPL_SCHED" "bsr_off q = SL_BITS_PER_REPLICA * k" "q_bgen q = bes_gen b"
  obtains c where "batch_repl_one q pp 0 b f s = Some (wr_mark True c, wr_file c f, wr_queue True c f s, 0)" "bmap_ok c"
    "bcm_opcnt c = bcm_opcnt b" "bcm_bmapno c = bcm_bmapno b"
    "\<And>j. j < SL_MAX_REPLICAS \<Longrightarrow> brepl (bmi_repls c) j = (if j = k then BREPLST_VALID else brepl (bmi_repls b) j)"
proof -
  let ?t = "one_tract BREPLST_REPL_SCHED BREPLST_VALID" and ?r = "Some (one_retifset BREPLST_REPL_SCHED 1)"
  have t: "tract_ok ?t" by (rule tract_one) (simp_all add: brepl_simps)
  obtain repls where a: "bmap_apply b ?t ?r (SL_BITS_PER_REPLICA * k) =
      Some (b\<lparr>bmi_repls := repls, bmi_orepls := bmi_repls b\<rparr>, retv ?r (brepl (bmi_repls b) k), None, ())"
    "bmap_ok (b\<lparr>bmi_repls := repls, bmi_orepls := bmi_repls b\<rparr>)"
    "\<And>j. j < SL_MAX_REPLICAS \<Longrightarrow> brepl repls j = (if j = k then tr ?t (brepl (bmi_repls b) k) else brepl (bmi_repls b) j)"
    by (rule bmap_apply_eq [OF assms(2,4) retv_tables(4) t assms(3)]) (rule that)
  have rc: "retv ?r (brepl (bmi_repls b) k) = 1" unfolding assms(6) by (rule retv_tables(5)) (simp_all add: brepl_simps)
  have st: "tr ?t (brepl (bmi_repls b) k) = BREPLST_VALID" unfolding assms(6) by (simp add: tr_one brepl_simps)
  let ?c = "b\<lparr>bmi_repls := repls, bmi_orepls := bmi_repls b\<rparr>"
  have "batch_repl_one q pp 0 b f s = Some (wr_mark True ?c, wr_file ?c f, wr_queue True ?c f s, 0)"
    using write_eq [OF assms(1) a(2), of True s] assms(5)
    by (simp add: batch_repl_one_def repl_done_tract_def assms(7,8) a(1) rc Let_def)
  then show thesis by (rule that [OF _ a(2)]) (use a(3) st in simp_all)
qed

text \<open>A cached bmap that is put back after a change of its replicas is cached.\<close>

lemma cached_put:
  assumes "cached f n b" "bmap_ok c" "repls_ok (bmi_orepls c)" "bcm_bmapno c = n" "bcm_flags c = bcm_flags b" "1 < bcm_opcnt c"
  shows "cached (taken g (bmap_wake_locked (c\<lparr>bcm_opcnt := bcm_opcnt c - 1\<rparr>))) n (bmap_wake_locked (c\<lparr>bcm_opcnt := bcm_opcnt c - 1\<rparr>))"
proof -
  let ?fl = "bcm_flags b AND NOT BMAPF_WAITERS"
  have "?fl AND BMAPF_LOADED \<noteq> 0" "?fl AND BMAPF_LOADING = 0" "?fl AND BMAPF_TOFREE = 0" "?fl AND BMAPF_DISCARD = 0"
    "?fl AND BMAPF_MODECHNG = 0" "?fl AND BMAPF_REPLMODWR = 0"
    using assms(1) unfolding cached_def BMAPF_LOADED_def BMAPF_LOADING_def BMAPF_TOFREE_def BMAPF_DISCARD_def BMAPF_MODECHNG_def
      BMAPF_REPLMODWR_def flag_bit by (auto simp: flag_bits BMAPF_WAITERS_def)
  then show ?thesis using assms(2-6) by (simp add: cached_def bmap_ok_def) (simp add: bmap_wake_locked_def)
qed

text \<open>The whole handler of a successful answer, on a cached bmap.\<close>

lemma repl_cb_eq:
  assumes "fcmh_ok f" "cached f n b" "k < SL_MAX_REPLICAS" "slm_opstate s = SLM_OPSTATE_NORMAL"
    and "brepl (bmi_repls b) k = BREPLST_REPL_SCHED" "q_bno q = n" "bsr_off q = SL_BITS_PER_REPLICA * k" "q_bgen q = bes_gen b"
    and "0 < bsr_amt q" "iosinfo s = iosinfo (reserved (q_src_resid q) (bsr_res q) (bsr_amt q) t)"
    and "0 \<le> si_repl_egress_pending (iosinfo t (q_src_resid q))" "0 \<le> si_repl_ingress_pending (iosinfo t (bsr_res q))"
  obtains c g u where "slm_batch_repl_cb q (Some 0) 0 0 f s = Some (g, u)" "fcmh_bmaptree g n = Some c" "bmap_stored c (fcmh_mf g)"
    "\<And>j. j < SL_MAX_REPLICAS \<Longrightarrow> brepl (bmi_repls c) j = (if j = k then BREPLST_VALID else brepl (bmi_repls b) j)"
    "slm_workq u = slm_workq s @ [WK_wr_brepl (fcmh_fid f) n]"
    "\<And>r. si_repl_egress_pending (iosinfo u r) = si_repl_egress_pending (iosinfo t r)"
    "\<And>r. si_repl_ingress_pending (iosinfo u r) = si_repl_ingress_pending (iosinfo t r)"
proof -
  let ?b = "b\<lparr>bcm_opcnt := bcm_opcnt b + 1\<rparr>" let ?f = "taken f ?b"
  have b: "bmap_ok ?b" "bcm_flags ?b AND BMAPF_REPLMODWR = 0" "bcm_bmapno b = n" "brepl (bmi_repls ?b) k = BREPLST_REPL_SCHED"
    "q_bgen q = bes_gen ?b" "fcmh_ok ?f" using assms(1,2,5,8) by (simp_all add: cached_def bmap_ok_def)
  obtain e where e: "batch_repl_one q (Some 0) 0 ?b ?f s = Some (wr_mark True e, wr_file e ?f, wr_queue True e ?f s, 0)" "bmap_ok e"
    "bcm_opcnt e = bcm_opcnt ?b" "bcm_bmapno e = bcm_bmapno ?b"
    "\<And>j. j < SL_MAX_REPLICAS \<Longrightarrow> brepl (bmi_repls e) j = (if j = k then BREPLST_VALID else brepl (bmi_repls ?b) j)"
    by (rule repl_answer_eq [OF b(6,1,2) assms(3,4) b(4) assms(7) b(5), of "Some 0"]) (rule that)
  let ?c = "bmap_wake_locked ((wr_mark True e)\<lparr>bcm_opcnt := bcm_opcnt (wr_mark True e) - 1\<rparr>)"
  have one: "1 < bcm_opcnt (wr_mark True e)" using e(3) assms(2) by (simp add: wr_mark_def cached_def)
  obtain u where u: "resmpair_bw_adj (q_src_resid q) (bsr_res q) (- bsr_amt q) 0 (wr_queue True e ?f s) = Some (u, 1)"
    "slm_workq u = slm_workq (wr_queue True e ?f s)"
    "\<And>r. si_repl_egress_pending (iosinfo u r) = si_repl_egress_pending (iosinfo t r)"
    "\<And>r. si_repl_ingress_pending (iosinfo u r) = si_repl_ingress_pending (iosinfo t r)"
    by (rule release_eq [OF assms(9,11,12), of "wr_queue True e ?f s" 0]) (simp add: wr_queue_def assms(10), rule that)
  have "slm_batch_repl_cb q (Some 0) 0 0 f s = Some (taken (wr_file e ?f) ?c, u)"
    by (simp add: slm_batch_repl_cb_def assms(6) get_cached [OF assms(2)] e(1) op_done_cached [OF one] u(1))
  moreover have "bmap_stored ?c (fcmh_mf (taken (wr_file e ?f) ?c))"
    using wr_file_stored [OF e(2), of ?f] stored_cong [of ?c e] by (simp add: bod_bytes_def bmap_wake_locked_def wr_mark_def)
  moreover have "fcmh_bmaptree (taken (wr_file e ?f) ?c) n = Some ?c" using e(4) b(3) by (simp add: wr_mark_def)
  ultimately show thesis by (intro that [of "taken (wr_file e ?f) ?c" u ?c]) (use e(4,5) b(3) u(2-4) in \<open>simp_all add: wr_queue_def\<close>)
qed

subsection \<open>Properties\<close>


text \<open>
  C17. Every request that a turn of the scheduler sends is well-formed: it names the bmap that was processed,
  its offset is the one of a replica in the table, and a replication request asks for between one byte and a
  whole bmap, with a bandwidth reservation in the same range.
\<close>

theorem upd_requests_ok:
  assumes "bmap_ok b" "0 < bcm_opcnt b" "upd_proc_bmap env cfg b f s = Some ((b', f', s'), rq)"
  shows "bmap_ok b' \<and> list_all (req_ok (bcm_bmapno b)) rq"
  using postD [OF proc_bmap_keeps [OF keeps_refl [OF assms(1)] kept_refl [of b f] assms(2)] assms(3)] by (auto dest: keeps_ok)

text \<open>
  C16. Paging work in ends, whatever the statements see, as long as the number of rows of the resource is bounded: it puts at
  most that many items on the queue, each the work of a row of the resource. When all statements see the rows of the table in one
  and the same order, whichever it is, the work of each row of the resource is put on the queue exactly once.
\<close>

theorem page_work_returns:
  assumes "\<forall>i. length [r \<leftarrow> db i. up_resid r = resid] \<le> N"
  shows "\<exists>ws. slm_page_work resid db s = Some (s\<lparr>slm_workq := slm_workq s @ ws\<rparr>) \<and> length ws \<le> N \<and>
    (\<forall>w \<in> set ws. \<exists>j. \<exists>r \<in> set (db j). up_resid r = resid \<and> w = row_work r) \<and>
    ((\<forall>i. db i = db 0) \<and> mset (db 0) = mset (upsch s) \<longrightarrow> mset ws = mset (map row_work [r \<leftarrow> upsch s. up_resid r = resid]))"
proof -
  obtain ws where ws: "page_work_loop resid db 0 0 (slm_workq s) = Some (slm_workq s @ ws)" "length ws \<le> N"
    "\<forall>w \<in> set ws. \<exists>j. \<exists>r \<in> set (db j). up_resid r = resid \<and> w = row_work r"
    using page_work_loop_bounded [OF assms, of 0 0 "slm_workq s"] by auto
  have "mset ws = mset (map row_work [r \<leftarrow> upsch s. up_resid r = resid])" if st: "\<forall>i. db i = db 0" "mset (db 0) = mset (upsch s)"
  proof -
    have "ws = map row_work [r \<leftarrow> db 0. up_resid r = resid]"
      using page_work_loop_stable [of db "db 0" resid 0 0 "slm_workq s"] st(1) ws(1) by simp
    then show ?thesis using st(2) by simp
  qed
  then show ?thesis using ws by (intro exI [of _ ws]) (simp add: slm_page_work_def)
qed

text \<open>
  C15. A copy from start to end. For a queued replica of a bmap that stays in the cache, whose I/O system is connected
  and for which the bandwidth limit of the source, if one is configured, leaves room, the scheduler marks the replica scheduled and
  sends one request. When it has dropped its reference, the handler of the successful answer makes exactly this replica
  valid, stores the bmap in the metafile, hands the change to the database worker, and leaves every I/O system with
  what it had pending before.
\<close>

theorem repl_roundtrip:
  assumes "fcmh_ok f" "cached f n b" "1 < bcm_opcnt b" "k < SL_MAX_REPLICAS"
    and "bw_room src (slm_bmap_calc_repltraffic b f) s" "e_online env dst" "e_batch_rc env dst = 0" "tryrepl_len b f = Some len"
    and "brepl (bmi_repls b) k = BREPLST_REPL_QUEUED" "slm_opstate s = SLM_OPSTATE_NORMAL"
    and "0 \<le> si_repl_egress_pending (iosinfo s src)" "0 \<le> si_repl_ingress_pending (iosinfo s dst)"
  shows "\<exists>b1 f1 s1 q f2 f3 s3 b3.
    slm_upsch_tryrepl env b (SL_BITS_PER_REPLICA * k) src dst f s = Some ((b1, f1, s1, 1), [Req_repl q]) \<and>
    brepl (bmi_repls b1) k = BREPLST_REPL_SCHED \<and> bmap_op_done b1 f1 = Some f2 \<and>
    slm_batch_repl_cb q (Some 0) 0 0 f2 s1 = Some (f3, s3) \<and> fcmh_bmaptree f3 n = Some b3 \<and>
    (\<forall>j. j < SL_MAX_REPLICAS \<longrightarrow> brepl (bmi_repls b3) j = (if j = k then BREPLST_VALID else brepl (bmi_repls b) j)) \<and>
    bmap_stored b3 (fcmh_mf f3) \<and> slm_workq s3 = slm_workq s @ [WK_wr_brepl (fcmh_fid f) n] \<and>
    (\<forall>r. si_repl_egress_pending (iosinfo s3 r) = si_repl_egress_pending (iosinfo s r) \<and>
         si_repl_ingress_pending (iosinfo s3 r) = si_repl_ingress_pending (iosinfo s r))"
proof -
  let ?amt = "slm_bmap_calc_repltraffic b f"
  let ?q = "\<lparr>q_bno = bcm_bmapno b, q_bgen = bes_gen b, q_src_resid = src, q_len = len,
    bsr_off = SL_BITS_PER_REPLICA * k, bsr_amt = ?amt, bsr_res = dst\<rparr>"
  have b: "bmap_ok b" "bcm_flags b AND BMAPF_REPLMODWR = 0" "bcm_bmapno b = n" using assms(2) by (simp_all add: cached_def)
  obtain c where c: "bmap_ok c" "bcm_flags c = bcm_flags b" "bes_gen c = bes_gen b" "bcm_bmapno c = bcm_bmapno b"
    "bcm_opcnt c = bcm_opcnt b" "repls_ok (bmi_orepls c)"
    "\<And>j. j < SL_MAX_REPLICAS \<Longrightarrow> brepl (bmi_repls c) j = (if j = k then BREPLST_REPL_SCHED else brepl (bmi_repls b) j)"
    "slm_upsch_tryrepl env b (SL_BITS_PER_REPLICA * k) src dst f s = Some ((c, wr_file c f, reserved src dst ?amt s, 1), [Req_repl ?q])"
    by (rule tryrepl_eq [OF assms(1) b(1,2) assms(4-8)]) (use assms(9) in \<open>simp_all add: that\<close>)
  let ?s = "reserved src dst ?amt s" and ?d = "bmap_wake_locked (c\<lparr>bcm_opcnt := bcm_opcnt c - 1\<rparr>)"
  let ?f = "taken (wr_file c f) ?d"
  have o: "1 < bcm_opcnt c" using assms(3) c(5) by simp
  have d: "cached ?f n ?d" by (rule cached_put [OF assms(2) c(1,6)]) (use b(3) c(2,4) o in simp_all)
  have h: "fcmh_ok ?f" "slm_opstate ?s = SLM_OPSTATE_NORMAL" "brepl (bmi_repls ?d) k = BREPLST_REPL_SCHED" "bes_gen ?d = bes_gen b"
    using assms(1,4,10) c(3,7) by (simp_all add: bmap_wake_locked_def)
  obtain e g u where e: "slm_batch_repl_cb ?q (Some 0) 0 0 ?f ?s = Some (g, u)" "fcmh_bmaptree g n = Some e" "bmap_stored e (fcmh_mf g)"
    "\<And>j. j < SL_MAX_REPLICAS \<Longrightarrow> brepl (bmi_repls e) j = (if j = k then BREPLST_VALID else brepl (bmi_repls ?d) j)"
    "slm_workq u = slm_workq ?s @ [WK_wr_brepl (fcmh_fid ?f) n]"
    "\<And>r. si_repl_egress_pending (iosinfo u r) = si_repl_egress_pending (iosinfo s r)"
    "\<And>r. si_repl_ingress_pending (iosinfo u r) = si_repl_ingress_pending (iosinfo s r)"
    by (rule repl_cb_eq [OF h(1) d assms(4) h(2,3), of ?q s]) (use b(3) h(4) repltraffic_bounds(1) [of b f] assms(11,12) that in simp_all)
  show ?thesis
    using c(7,8) op_done_cached [OF o] e assms(4)
    by (intro exI [of _ c] exI [of _ "wr_file c f"] exI [of _ ?s] exI [of _ ?q] exI [of _ ?f] exI [of _ g] exI [of _ u] exI [of _ e])
      (simp add: wr_file_def)
qed

text \<open>
  C36. A replica that is found scheduled already keeps its bandwidth reserved: the reservation is made, no
  request is sent, and the call returns success, so no answer will ever give the bandwidth back.
\<close>

theorem resched_leaks:
  assumes "fcmh_ok f" "bmap_ok b" "bcm_flags b AND BMAPF_REPLMODWR = 0" "k < SL_MAX_REPLICAS"
    and "slm_upsch_bandwidth s = 0" "e_online env dst" "e_batch_rc env dst = 0" "tryrepl_len b f = Some len"
    and "brepl (bmi_repls b) k = BREPLST_REPL_SCHED"
  shows "\<exists>b' s'. slm_upsch_tryrepl env b (SL_BITS_PER_REPLICA * k) src dst f s = Some ((b', f, s', 1), []) \<and>
    si_repl_egress_pending (iosinfo s src) < si_repl_egress_pending (iosinfo s' src)"
proof -
  have more: "si_repl_egress_pending (iosinfo s src) < si_repl_egress_pending (iosinfo (reserved src dst (slm_bmap_calc_repltraffic b f) s) src)"
    using repltraffic_bounds(1) [of b f] by (simp add: reserved_def Let_def)
  have room: "bw_room src (slm_bmap_calc_repltraffic b f) s" using assms(5) by (simp add: bw_room_def)
  show ?thesis
    by (rule tryrepl_eq [OF assms(1-4) room assms(6-8)]) (use assms(9) more in \<open>auto simp: brepl_simps\<close>)
qed

text \<open>
  C37. A reclamation whose request cannot be added to a batch leaves the replica marked as scheduled
  although no request was sent: the state is neither put back nor written.
\<close>

theorem preclaim_stuck:
  assumes "bmap_ok b" "bcm_flags b AND BMAPF_REPLMODWR = 0" "k < SL_MAX_REPLICAS" "slm_preclaim_enabled s"
    and "si_flags (iosinfo s r) AND SIF_PRECLAIM_NOTSUP = 0" "e_online env r" "e_batch_rc env r \<noteq> 0"
    and "brepl (bmi_repls b) k = BREPLST_GARBAGE_QUEUED"
  shows "\<exists>b'. slm_upsch_trypreclaim env r b (SL_BITS_PER_REPLICA * k) f s = Some ((b', f, s, 0), []) \<and>
    brepl (bmi_repls b') k = BREPLST_GARBAGE_SCHED"
proof -
  let ?t = "one_tract BREPLST_GARBAGE_QUEUED BREPLST_GARBAGE_SCHED"
  have t: "tract_ok ?t" by (rule tract_one) (simp_all add: brepl_simps)
  obtain repls where a: "bmap_apply b ?t (Some brepls_init_idx) (SL_BITS_PER_REPLICA * k) =
      Some (b\<lparr>bmi_repls := repls, bmi_orepls := bmi_repls b\<rparr>, retv (Some brepls_init_idx) (brepl (bmi_repls b) k), None, ())"
    "brepl repls k = tr ?t (brepl (bmi_repls b) k)"
    by (rule bmap_apply_eq [OF assms(1,3) retv_tables(2) t assms(2)]) (use assms(3) in \<open>simp add: that\<close>)
  have "brepl repls k = BREPLST_GARBAGE_SCHED" using a(2) unfolding assms(8) by (simp add: tr_one brepl_simps)
  then show ?thesis using assms(4-7) retv_tables(1) [OF brepl_range, of "bmi_repls b" k]
    by (simp add: slm_upsch_trypreclaim_def a(1) assms(8))
qed

text \<open>
  C38. A failed truncation counts as a finished one: when the I/O system of the last replica to be truncated
  has no connection, nothing is sent and the replica is still queued, yet the file is no longer marked as
  being truncated.
\<close>

theorem ptrunc_failure_finishes:
  assumes "fcmh_ok f" "bmap_ok b" "bcm_flags b AND BMAPF_REPLMODWR = 0" "k < SL_MAX_REPLICAS" "0 < bcm_opcnt b"
    and "slm_opstate s = SLM_OPSTATE_NORMAL" "\<not> e_online env dst" "brepl (bmi_repls b) k = BREPLST_TRUNC_QUEUED"
    and "fmi_ptrunc_nios f = 1"
  shows "\<exists>b' f' s'. slm_upsch_tryptrunc env b (SL_BITS_PER_REPLICA * k) dst f s = Some ((b', f', s', e_csvc_err env), []) \<and>
    brepl (bmi_repls b') k = BREPLST_TRUNC_QUEUED \<and> \<not> fcmh_in_ptrunc f'"
proof -
  let ?b = "b\<lparr>bcm_opcnt := bcm_opcnt b + 1\<rparr>" and ?g = "f\<lparr>fmi_ptrunc_nios := 0, fcmh_in_ptrunc := False\<rparr>"
  let ?t = "one_tract BREPLST_TRUNC_SCHED (if e_csvc_err env \<noteq> 0 then BREPLST_TRUNC_QUEUED else BREPLST_VALID)"
  have t: "tract_ok ?t" by (rule tract_one) (simp_all add: brepl_simps)
  have b: "bmap_ok ?b" "bcm_flags ?b AND BMAPF_REPLMODWR = 0" "fcmh_ok ?g" using assms(1-3) by (simp_all add: bmap_ok_def fcmh_ok_def)
  obtain repls where a: "bmap_apply ?b ?t (Some brepls_init_idx) (SL_BITS_PER_REPLICA * k) =
      Some (?b\<lparr>bmi_repls := repls, bmi_orepls := bmi_repls ?b\<rparr>, retv (Some brepls_init_idx) (brepl (bmi_repls ?b) k), None, ())"
    "bmap_ok (?b\<lparr>bmi_repls := repls, bmi_orepls := bmi_repls ?b\<rparr>)" "brepl repls k = tr ?t (brepl (bmi_repls ?b) k)"
    by (rule bmap_apply_eq [OF b(1) assms(4) retv_tables(2) t b(2)]) (use assms(4) in \<open>simp add: that\<close>)
  have st: "brepl repls k = BREPLST_TRUNC_QUEUED" using a(3) by (simp add: assms(8) tr_one brepl_simps)
  let ?c = "?b\<lparr>bmi_repls := repls, bmi_orepls := bmi_repls ?b\<rparr>"
  have w: "mds_bmap_write_logrepls ?c ?g s = Some (wr_mark True ?c, wr_file ?c ?g, wr_queue True ?c ?g s, 0)"
    by (rule write_eq [OF b(3) a(2)]) (simp add: assms(6))
  have o: "bmap_op_done (wr_mark True ?c) h = Some (taken h (bmap_wake_locked ((wr_mark True ?c)\<lparr>bcm_opcnt := bcm_opcnt b + 1\<rparr>)))" for h
    using assms(5) by (simp add: bmap_op_done_def wr_mark_def taken_def psc_assert_def Let_def bmap_wake_locked_def add.commute)
  show ?thesis using assms(7,9) st
    by (simp add: slm_upsch_tryptrunc_def slm_upsch_finish_ptrunc_def Let_def a(1)[simplified] w[simplified] o[simplified] wr_file_def, simp add: taken_def)
qed

subsection \<open>Examples\<close>

text \<open>Three replicas, the first one valid; the state of the second one is in the next three bits.\<close>

lemma sample_state1:
  "brepl (bmi_repls (sample_cached [19])) 1 = BREPLST_REPL_QUEUED" "brepl (bmi_repls (sample_cached [11])) 1 = BREPLST_REPL_SCHED"
  "brepl (bmi_repls (sample_cached [51])) 1 = BREPLST_GARBAGE_QUEUED" "brepl (bmi_repls (sample_cached [35])) 1 = BREPLST_TRUNC_QUEUED"
  "brepl (bmi_repls (sample_cached [11])) 0 = BREPLST_VALID" "brepl (bmi_repls (sample_cached [19])) 0 = BREPLST_VALID"
  "brepl (bmi_repls (sample_cached [19])) 2 = BREPLST_INVALID"
  by (simp_all add: sample_repls bod_sizes brepl_def buf_bit_def breplst_defs)

lemma sample_b:
  "fcmh_ok (sample_file [10, 20, 30] [n])" "bmap_ok (sample_cached [n])" "bcm_flags (sample_cached [n]) AND BMAPF_REPLMODWR = 0"
  "0 < bcm_opcnt (sample_cached [n])" "(1 :: nat) < SL_MAX_REPLICAS" "slm_upsch_bandwidth sample_slm = 0"
  "e_online sample_env r" "e_batch_rc sample_env r = 0" "0 \<le> si_repl_egress_pending (iosinfo sample_slm r)"
  "0 \<le> si_repl_ingress_pending (iosinfo sample_slm r)"
  using sample_file_ok [of "[10, 20, 30]" "[n]"]
  by (simp_all add: bod_sizes cached_def sample_slm_def sample_env_def SL_MAX_REPLICAS_def)

lemma sample_len: "tryrepl_len (sample_cached [n]) (sample_file [10, 20, 30] [n]) = Some SLASH_BMAP_SIZE"
  using sample_nvalid(1) [of "[10, 20, 30]" "[n]"] sample_file_ok(3) [of "[10, 20, 30]" "[n]"]
  by (simp add: tryrepl_len_def Let_def sample_file_def sample_fcmh_def cached_def bod_sizes SLASH_BMAP_SIZE_def)

text \<open>A bmap with a second reference, a limit of 128 megabytes, and a source that has nothing pending.\<close>

theorem repl_roundtrip_witness:
  "\<exists>b1 f1 s1 q f2 f3 s3 b3. slm_upsch_tryrepl sample_env ((sample_cached [19])\<lparr>bcm_opcnt := 2\<rparr>) (SL_BITS_PER_REPLICA * 1) 10 20
      (taken (sample_file [10, 20, 30] [19]) ((sample_cached [19])\<lparr>bcm_opcnt := 2\<rparr>)) (sample_slm\<lparr>slm_upsch_bandwidth := 128\<rparr>) =
      Some ((b1, f1, s1, 1), [Req_repl q]) \<and>
    bmap_op_done b1 f1 = Some f2 \<and> slm_batch_repl_cb q (Some 0) 0 0 f2 s1 = Some (f3, s3) \<and> fcmh_bmaptree f3 0 = Some b3 \<and>
    brepl (bmi_repls b3) 0 = BREPLST_VALID \<and> brepl (bmi_repls b3) 1 = BREPLST_VALID"
proof -
  let ?b = "(sample_cached [19])\<lparr>bcm_opcnt := 2\<rparr>" and ?s = "sample_slm\<lparr>slm_upsch_bandwidth := 128\<rparr>"
  let ?f = "taken (sample_file [10, 20, 30] [19]) ?b"
  have c: "cached ?f 0 ?b" using sample_file_ok(3) [of "[10, 20, 30]" "[19]"] by (simp add: bod_sizes cached_def bmap_ok_def)
  have f: "fcmh_ok ?f" "1 < bcm_opcnt ?b" using sample_b(1) [of 19] by simp_all
  have room: "bw_room 10 (slm_bmap_calc_repltraffic ?b ?f) ?s"
    using repltraffic_bounds(2) [of ?b ?f] by (simp add: bw_room_def sample_slm_def BW_UNITSZ_def SLASH_BMAP_SIZE_def)
  have len: "tryrepl_len ?b ?f = Some SLASH_BMAP_SIZE"
    using sample_len tryrepl_len_cong [of ?f "sample_file [10, 20, 30] [19]" ?b "sample_cached [19]"] by (simp add: taken_def)
  have s: "slm_opstate ?s = SLM_OPSTATE_NORMAL" "0 \<le> si_repl_egress_pending (iosinfo ?s 10)" "0 \<le> si_repl_ingress_pending (iosinfo ?s 20)"
    by (simp_all add: sample_slm_def)
  have st: "brepl (bmi_repls ?b) 1 = BREPLST_REPL_QUEUED" "brepl (bmi_repls ?b) 0 = BREPLST_VALID" using sample_state1(1,6) by simp_all
  show ?thesis
    using repl_roundtrip [OF f(1) c f(2) sample_b(5) room sample_b(7,8) len st(1) s] sample_b(5) st(2)
    by (elim exE conjE) (intro exI conjI, assumption, assumption, assumption, assumption, simp_all add: SL_MAX_REPLICAS_def)
qed

theorem resched_leaks_witness:
  "\<exists>b' s'. slm_upsch_tryrepl sample_env (sample_cached [11]) (SL_BITS_PER_REPLICA * 1) 10 20
      (sample_file [10, 20, 30] [11]) sample_slm = Some ((b', sample_file [10, 20, 30] [11], s', 1), []) \<and>
    si_repl_egress_pending (iosinfo sample_slm 10) < si_repl_egress_pending (iosinfo s' 10)"
  by (rule resched_leaks [OF sample_b(1-3,5-8) sample_len sample_state1(2)])

theorem preclaim_stuck_witness:
  "\<exists>b'. slm_upsch_trypreclaim (sample_env\<lparr>e_batch_rc := \<lambda>_. 5\<rparr>) 20 (sample_cached [51]) (SL_BITS_PER_REPLICA * 1)
      (sample_file [10, 20, 30] [51]) sample_slm = Some ((b', sample_file [10, 20, 30] [51], sample_slm, 0), []) \<and>
    brepl (bmi_repls b') 1 = BREPLST_GARBAGE_SCHED"
  by (rule preclaim_stuck [OF sample_b(2,3,5) _ _ _ _ sample_state1(3)]) (simp_all add: sample_slm_def sample_env_def)

theorem ptrunc_failure_finishes_witness:
  "\<exists>b' f' s'. slm_upsch_tryptrunc (sample_env\<lparr>e_online := \<lambda>_. False, e_csvc_err := 5\<rparr>) (sample_cached [35]) (SL_BITS_PER_REPLICA * 1) 20
      ((sample_file [10, 20, 30] [35])\<lparr>fmi_ptrunc_nios := 1, fcmh_in_ptrunc := True\<rparr>) sample_slm = Some ((b', f', s', 5), []) \<and>
    brepl (bmi_repls b') 1 = BREPLST_TRUNC_QUEUED \<and> \<not> fcmh_in_ptrunc f'"
  using ptrunc_failure_finishes [of "(sample_file [10, 20, 30] [35])\<lparr>fmi_ptrunc_nios := 1, fcmh_in_ptrunc := True\<rparr>",
      OF _ sample_b(2,3,5,4) sample_slm_fields(2) _ sample_state1(4), of "sample_env\<lparr>e_online := \<lambda>_. False, e_csvc_err := 5\<rparr>" 20]
    sample_b(1) [of 35] by (simp add: fcmh_ok_def)


text \<open>Three rows, two of them of the resource, which the database returns last one first.\<close>

theorem page_work_returns_witness:
  "\<exists>ws s'. slm_page_work 20 (\<lambda>_. [sample_row 20 2, sample_row 10 1, sample_row 20 0])
      (slm.upsch_update (\<lambda>_. [sample_row 20 0, sample_row 10 1, sample_row 20 2]) sample_slm) = Some s' \<and>
    slm_workq s' = ws \<and> mset ws = {#WK_upd_pagein 7 0, WK_upd_pagein 7 2#}"
proof -
  let ?s = "slm.upsch_update (\<lambda>_. [sample_row 20 0, sample_row 10 1, sample_row 20 2]) sample_slm"
  let ?db = "\<lambda>_ :: nat. [sample_row 20 2, sample_row 10 1, sample_row 20 0]"
  obtain ws where "slm_page_work 20 ?db ?s = Some (?s\<lparr>slm_workq := slm_workq ?s @ ws\<rparr>)"
    "(\<forall>i. ?db i = ?db 0) \<and> mset (?db 0) = mset (upsch ?s) \<longrightarrow> mset ws = mset (map row_work [r \<leftarrow> upsch ?s. up_resid r = 20])"
    using page_work_returns [of 20 ?db 2 ?s] by (simp add: sample_row_def) blast
  then show ?thesis by (simp add: sample_row_def row_work_def sample_slm_def add_mset_commute)
qed

text \<open>A turn that starts with the second replica, which is queued, and finds the first one as its source.\<close>

lemma sample_proc:
  obtains b f s q where "upd_proc_bmap sample_env sample_cfg (sample_cached [19]) (sample_file [10, 20, 30] [19]) sample_slm =
    Some ((b, f, s), [Req_repl q])"
proof -
  let ?b = "sample_cached [19]" and ?f = "sample_file [10, 20, 30] [19]"
  have t: "ios_table (fcmh_inoh ?f) = [10, 20, 30]" "fcmh_2_nrepls ?f = 3" "inoh_ok (fcmh_inoh ?f)" "repls_ok (bmi_repls ?b)"
    using sample_file_ok [of "[10, 20, 30]" "[19]"] by (simp_all add: bod_sizes fcmh_ok_def cached_def bmap_ok_def)
  have rnd: "FOREACH_RND (e_rnd sample_env) 3 = [1, 2, 0]" by (simp add: FOREACH_RND_def sample_env_def upt_rec)
  have get: "SL_REPL_GET_BMAP_IOS_STAT (bmi_repls ?b) (SL_BITS_PER_REPLICA * k) = Some (brepl (bmi_repls ?b) k)" if "k < 3" for k
    using rt.get_state [OF t(4), of k] that by (simp add: mult.commute SL_MAX_REPLICAS_def)
  have id: "fcmh_getrepl (fcmh_inoh ?f) k = Some ([10, 20, 30] ! k)" "fcmh_2_repl k ?f u = Some ([10, 20, 30] ! k, ?f)" if "k < 3" for k u
    using getrepl_table [OF t(3), of k] repl_lookup(1) [OF sample_b(1), of k] that t(1,2) by simp_all
  have load: "mds_inox_ensure_loaded chk fid (fcmh_inoh ?f) mf = Some (fcmh_inoh ?f, mf, 0)" for chk fid mf
    by (simp add: mds_inox_ensure_loaded_def sample_file_def sample_fcmh_def sample_inoh_def psc_assert_def)
  have same: "?f\<lparr>fcmh_inoh := fcmh_inoh ?f, fcmh_mf := fcmh_mf ?f\<rparr> = ?f" by simp
  have ion: "bmi_wr_ion ?b = None"
    by (simp add: sample_cached_def sample_bmap_def fresh_bmap_def mds_bmap_init_def bmap_zero_def)
  have room: "bw_room 10 amt sample_slm" for amt by (simp add: bw_room_def sample_b(6))
  obtain c g u q where r: "slm_upsch_tryrepl sample_env ?b (SL_BITS_PER_REPLICA * 1) 10 20 ?f sample_slm = Some ((c, g, u, 1), [Req_repl q])"
    by (rule tryrepl_eq [OF sample_b(1) [of 19] sample_b(2,3,5) room sample_b(7,8) sample_len]) (use sample_state1(1) that in simp_all)
  have loop: "sched_repl_loop sample_env sample_cfg 1 20 [1, 2, 0] False ?b ?f sample_slm = Some ((c, g, u), True, True, [Req_repl q])"
    using r id(1) [of 0] id(1) [of 2] get [of 0] get [of 2] sample_state1(6,7)
    by (simp add: sample_cfg_def sample_b(7) sample_slm_def brepl_simps numeral_2_eq_2)
  have "slm_upsch_sched_repl sample_env sample_cfg ?b 1 ?f sample_slm = Some ((c, g, u, 1), [Req_repl q])"
    using id(2) [of 1 sample_slm] loop by (simp add: slm_upsch_sched_repl_def t(2) rnd)
  then have "upd_proc_bmap sample_env sample_cfg ?b ?f sample_slm = Some ((c, g, u), [Req_repl q])"
    using id(2) [of 1 sample_slm] get [of 1] sample_state1(1) ion
    by (simp add: upd_proc_bmap_def load same t(2) rnd sample_cfg_def Let_def)
  then show thesis by (rule that)
qed

theorem upd_requests_ok_witness:
  "\<exists>b f s q. upd_proc_bmap sample_env sample_cfg (sample_cached [19]) (sample_file [10, 20, 30] [19]) sample_slm =
      Some ((b, f, s), [Req_repl q]) \<and> bmap_ok b \<and> req_ok (bcm_bmapno (sample_cached [19])) (Req_repl q)"
proof -
  obtain b f s q where r: "upd_proc_bmap sample_env sample_cfg (sample_cached [19]) (sample_file [10, 20, 30] [19]) sample_slm =
    Some ((b, f, s), [Req_repl q])" by (rule sample_proc)
  then show ?thesis using upd_requests_ok [OF sample_b(2,4) r] by (intro exI [of _ b] exI [of _ f] exI [of _ s] exI [of _ q]) simp
qed

end
