(* ===== verification/Lease_Inv.thy ===== *)
theory Lease_Inv
  imports Lease Upsch
begin

text \<open>
  The leases of a bmap. Each client has a ring of leases; the bmap lists the first lease of each ring, and counts
  the clients that have a write lease and those that only read. The operations on the assignment, on the timeout table and on
  the replicas change neither the rings nor the counts, which the frame lemmas show; adding and removing a lease
  then are operations on a list of rings.
\<close>

subsection \<open>The view of a lease\<close>

record lv =
  lv_cli :: cli
  lv_chain :: "nat option"
  lv_rd :: bool
  lv_wr :: bool
  lv_ch :: bool
  lv_dio :: bool
  lv_bmi :: bool
  lv_fr :: bool
  lv_own :: "u64 \<times> u32"

definition lv_of :: "bml \<Rightarrow> lv" where
  "lv_of x = \<lparr>lv_cli = bml_cli_nidpid x, lv_chain = bml_chain x, lv_rd = bit (bml_flags x) 0, lv_wr = bit (bml_flags x) 1,
     lv_ch = bit (bml_flags x) 7, lv_dio = bit (bml_flags x) 2, lv_bmi = bit (bml_flags x) 5,
     lv_fr = bit (bml_flags x) 8, lv_own = bml_bmi x\<rparr>"

definition lview :: "lsrv \<Rightarrow> nat \<Rightarrow> lv option" where
  "lview l p = map_option lv_of (bml_pool l p)"

definition bview :: "bmap \<Rightarrow> nat list \<times> int \<times> int" where
  "bview b = (bmi_leases b, bmi_writers b, bmi_readers b)"

fun seg :: "(nat \<Rightarrow> lv option) \<Rightarrow> nat \<Rightarrow> nat list \<Rightarrow> bool" where
  "seg v h [] = True"
| "seg v h (p # ps) = ((\<exists>x. v p = Some x \<and> lv_chain x = Some (hd (ps @ [h]))) \<and> seg v h ps)"

definition ring_ok :: "(nat \<Rightarrow> lv option) \<Rightarrow> nat list \<Rightarrow> bool" where
  "ring_ok v ps \<longleftrightarrow> ps \<noteq> [] \<and> distinct ps \<and> seg v (hd ps) ps \<and>
     (\<forall>p \<in> set ps. \<exists>x. v p = Some x \<and> lv_cli x = lv_cli (the (v (hd ps))) \<and> lv_rd x = (\<not> lv_wr x) \<and> lv_ch x = (p \<noteq> hd ps))"

definition has_wr :: "(nat \<Rightarrow> lv option) \<Rightarrow> nat list \<Rightarrow> bool" where
  "has_wr v ps \<longleftrightarrow> (\<exists>p \<in> set ps. lv_wr (the (v p)))"

definition ring_cli :: "(nat \<Rightarrow> lv option) \<Rightarrow> nat list \<Rightarrow> cli" where
  "ring_cli v ps = lv_cli (the (v (hd ps)))"

definition rings_ok :: "(nat \<Rightarrow> lv option) \<Rightarrow> nat list list \<Rightarrow> nat list \<times> int \<times> int \<Rightarrow> bool" where
  "rings_ok v rings bv \<longleftrightarrow> list_all (ring_ok v) rings \<and> distinct (concat rings) \<and> distinct (map (ring_cli v) rings) \<and>
     bv = (map hd rings, int (length (filter (has_wr v) rings)), int (length (filter (\<lambda>ps. \<not> has_wr v ps) rings)))"

definition leases_ok :: "bmap \<Rightarrow> lsrv \<Rightarrow> bool" where
  "leases_ok b l \<longleftrightarrow> (\<exists>rings. rings_ok (lview l) rings (bview b))"

definition frame :: "bmap \<Rightarrow> lsrv \<Rightarrow> bmap \<Rightarrow> lsrv \<Rightarrow> bool" where
  "frame b l b' l' \<longleftrightarrow> bview b' = bview b \<and> lview l' = lview l"

text \<open>The view with the mark for direct I/O, which most operations keep as well.\<close>

definition bview2 :: "bmap \<Rightarrow> (nat list \<times> int \<times> int) \<times> bool" where
  "bview2 b = (bview b, bit (bcm_flags b) 4)"

definition framed :: "bmap \<Rightarrow> lsrv \<Rightarrow> bmap \<Rightarrow> lsrv \<Rightarrow> bool" where
  "framed b l b' l' \<longleftrightarrow> bview2 b' = bview2 b \<and> lview l' = lview l"

abbreviation same5 :: "bmap \<Rightarrow> lsrv \<Rightarrow> bmap \<times> fcmh \<times> slm \<times> lsrv \<times> int \<Rightarrow> bool" where
  "same5 b l \<equiv> \<lambda>(b', f', s', l', rc). framed b l b' l'"

abbreviation same3 :: "bmap \<Rightarrow> lsrv \<Rightarrow> bmap \<times> lsrv \<times> int \<Rightarrow> bool" where
  "same3 b l \<equiv> \<lambda>(b', l', rc). frame b l b' l'"

subsection \<open>Frames\<close>

lemma lview_put: "bml_pool l p = Some x \<Longrightarrow> lv_of y = lv_of x \<Longrightarrow> lview (put_bml p y l) = lview l"
  by (auto simp: lview_def fun_eq_iff)

lemma lview_pool: "bml_pool l' = bml_pool l \<Longrightarrow> lview l' = lview l"
  by (simp add: lview_def fun_eq_iff)

lemma lview_fields [simp]:
  "lview (l\<lparr>btt_leases := a\<rparr>) = lview l" "lview (l\<lparr>btt_minseq := n\<rparr>) = lview l" "lview (l\<lparr>btt_maxseq := n\<rparr>) = lview l"
  "lview (l\<lparr>slm_bia_odt := t\<rparr>) = lview l" "lview (l\<lparr>rmmi_refcnt := r\<rparr>) = lview l" "lview (add_jent e l) = lview l"
  "lview (mds_bmap_timeotbl_journal_seqno l) = lview l" "lview (l\<lparr>bml_next := j\<rparr>) = lview l"
  by (rule lview_pool; simp add: add_jent_def)+

lemma lv_of_fields [simp]:
  "lv_of (x\<lparr>bml_seq := n\<rparr>) = lv_of x" "lv_of (x\<lparr>bml_refcnt := r\<rparr>) = lv_of x" "lv_of (x\<lparr>bml_ios := i\<rparr>) = lv_of x"
  "lv_of (x\<lparr>bml_flags := bml_flags x OR BML_TIMEOQ\<rparr>) = lv_of x" "lv_of (x\<lparr>bml_flags := bml_flags x AND NOT BML_TIMEOQ\<rparr>) = lv_of x"
  "lv_of (x\<lparr>bml_flags := bml_flags x AND NOT BML_DIOCB\<rparr>) = lv_of x"
  "lv_of (x\<lparr>bml_refcnt := r, bml_flags := bml_flags x OR BML_DIOCB\<rparr>) = lv_of x"
  "lv_of (x\<lparr>bml_refcnt := r, bml_flags := (bml_flags x OR BML_DIOCB) AND NOT BML_DIOCB\<rparr>) = lv_of x"
  by (simp_all add: lv_of_def bml_flag_defs bit_or_iff bit_and_iff bit_not_iff bit_push_bit_iff bit_1_iff)

lemma bview_fields [simp]:
  "bview (b\<lparr>bcm_flags := w\<rparr>) = bview b" "bview (b\<lparr>bcm_opcnt := n\<rparr>) = bview b" "bview (b\<lparr>bmi_repls := r\<rparr>) = bview b"
  "bview (b\<lparr>bmi_orepls := r\<rparr>) = bview b" "bview (b\<lparr>bes_gen := g\<rparr>) = bview b" "bview (b\<lparr>bmi_wr_ion := m\<rparr>) = bview b"
  "bview (b\<lparr>bmi_assign := i\<rparr>) = bview b" "bview (b\<lparr>bmi_seq := q\<rparr>) = bview b" "bview (b\<lparr>bmi_diocb := d\<rparr>) = bview b"
  "bview (b\<lparr>upd_flags := w\<rparr>) = bview b" "bview (set_bcm_flags w b) = bview b" "bview (clr_bcm_flags w b) = bview b"
  "bview (bmap_wake_locked b) = bview b"
  by (simp_all add: bview_def set_bcm_flags_def clr_bcm_flags_def bmap_wake_locked_def)

lemma remove_lview: "post (\<lambda>k. lview k = lview l) (mds_bmap_timeotbl_remove p l)"
  unfolding mds_bmap_timeotbl_remove_def Let_def
  by (auto simp: post_def bind_eq_Some_conv split: if_splits list.splits)

lemma post_conseq: "post P m \<Longrightarrow> (\<And>x. P x \<Longrightarrow> Q x) \<Longrightarrow> post Q m"
  by (simp add: post_def)

lemma remove_same: "mds_bmap_timeotbl_remove p k = Some k' \<Longrightarrow> lview k' = lview k"
  using remove_lview [of k p] by (simp add: post_def)

lemma getnextseq_pool: "bml_pool (fst (mds_bmap_timeotbl_getnextseq l)) = bml_pool l"
  by (simp add: mds_bmap_timeotbl_getnextseq_def Let_def)

lemma queue_tail_lview:
  "post (\<lambda>r. lview (fst r) = lview k) (get_bml p k \<bind> (\<lambda>x.
     (if bml_flags x AND BML_TIMEOQ \<noteq> 0 then mds_bmap_timeotbl_remove p k
      else Some (put_bml p (x\<lparr>bml_flags := bml_flags x OR BML_TIMEOQ\<rparr>) k)) \<bind>
     (\<lambda>l. Some (l\<lparr>btt_leases := btt_leases l @ [p]\<rparr>, seq))))"
  unfolding post_def by (auto simp: bind_eq_Some_conv get_bml_def lview_put dest: remove_same split: if_splits)

lemma mdsi_lview: "post (\<lambda>r. lview (fst r) = lview l) (mds_bmap_timeotbl_mdsi p op l)"
proof (cases "bml_pool l p")
  case None
  then show ?thesis by (simp add: mds_bmap_timeotbl_mdsi_def get_bml_def post_def)
next
  case (Some x)
  show ?thesis
  proof (cases op)
    case BTE_ADD
    obtain k seq where k: "mds_bmap_timeotbl_getnextseq l = (k, seq)" by (cases "mds_bmap_timeotbl_getnextseq l")
    have pool: "bml_pool k = bml_pool l" using getnextseq_pool [of l] k by simp
    then have "lview (put_bml p (x\<lparr>bml_seq := seq\<rparr>) k) = lview l"
      using lview_put [of k p x] Some lview_pool [OF pool] by simp
    then show ?thesis using queue_tail_lview [of "put_bml p (x\<lparr>bml_seq := seq\<rparr>) k" p seq] Some k BTE_ADD
      by (simp add: mds_bmap_timeotbl_mdsi_def get_bml_def)
  next
    case BTE_DEL
    have "post (\<lambda>r. lview (fst r) = lview l) (mds_bmap_timeotbl_remove p k \<bind> (\<lambda>l. Some (l, BMAPSEQ_ANY)))"
      if "lview k = lview l" for k unfolding post_def using that by (auto simp: bind_eq_Some_conv dest: remove_same)
    then show ?thesis using lview_put [OF Some] Some BTE_DEL by (simp add: mds_bmap_timeotbl_mdsi_def get_bml_def)
  next
    case BTE_REATTACH
    let ?n = "if btt_maxseq l < bml_seq x then (l\<lparr>btt_maxseq := bml_seq x\<rparr>, bml_seq x)
        else if bml_seq x < btt_minseq l then (l, BMAPSEQ_ANY) else (l, bml_seq x)"
    obtain k seq where ks: "?n = (k, seq)" by (cases ?n)
    have "lview k = lview l" using ks by (auto split: if_splits)
    note k = this ks
    show ?thesis using queue_tail_lview [of k p seq] Some BTE_REATTACH
      unfolding k(1) [symmetric] mds_bmap_timeotbl_mdsi_def get_bml_def Some by (simp add: k(2) get_bml_def)
  qed
qed

subsection \<open>Operations that leave the leases as they are\<close>

lemma upd_bml_lview: "(\<And>x. lv_of (g x) = lv_of x) \<Longrightarrow> post (\<lambda>k. lview k = lview l) (upd_bml p g l)"
  by (auto simp: post_def upd_bml_def bind_eq_Some_conv get_bml_def lview_put)

lemma bview2_fields [simp]:
  "bview2 (b\<lparr>bcm_opcnt := n\<rparr>) = bview2 b" "bview2 (b\<lparr>bmi_repls := r\<rparr>) = bview2 b"
  "bview2 (b\<lparr>bmi_orepls := r\<rparr>) = bview2 b" "bview2 (b\<lparr>bes_gen := g\<rparr>) = bview2 b" "bview2 (b\<lparr>bmi_wr_ion := m\<rparr>) = bview2 b"
  "bview2 (b\<lparr>bmi_assign := i\<rparr>) = bview2 b" "bview2 (b\<lparr>bmi_seq := q\<rparr>) = bview2 b" "bview2 (b\<lparr>bmi_diocb := d\<rparr>) = bview2 b"
  "bview2 (b\<lparr>upd_flags := w\<rparr>) = bview2 b" "bview2 (set_bcm_flags BMAPF_IOSASSIGNED b) = bview2 b"
  "bview2 (clr_bcm_flags BMAPF_IOSASSIGNED b) = bview2 b" "bview2 (bmap_wake_locked b) = bview2 b"
  "bview2 (b\<lparr>bcm_flags := bcm_flags b OR BMAPF_REPLMODWR\<rparr>) = bview2 b"
  by (simp_all add: bview2_def) (simp_all add: set_bcm_flags_def clr_bcm_flags_def bmap_wake_locked_def BMAPF_IOSASSIGNED_def
    BMAPF_WAITERS_def BMAPF_REPLMODWR_def bit_or_iff bit_and_iff bit_not_iff bit_push_bit_iff)

lemma apply_bview:
  "post (\<lambda>r. bview2 (fst r) = bview2 b) (mds_repl_bmap_apply b tract r fl off sc cbf cb)"
  unfolding mds_repl_bmap_apply_def Let_def
  by (rule post_bind [where P = "\<lambda>c. bview2 c = bview2 b"]; (rule post_opt post_any post_if post_some | assumption | simp only: fst_conv bview2_fields)+)

lemma walk_loop_bview:
  "post (\<lambda>r. bview2 (fst r) = bview2 b) (bmap_walk_loop tract r fl cbf ks b rc cb)"
proof (induction ks arbitrary: b rc cb)
  case (Cons k ks)
  show ?case unfolding bmap_walk_loop.simps
    by (rule post_bind [OF apply_bview], (rule post_pair)+, simp only: Let_def, rule post_if)
      (auto intro: post_some post_conseq [OF Cons.IH])
qed (simp add: post_some)

lemma write_bview: "post (\<lambda>r. bview2 (fst r) = bview2 b) (mds_bmap_write lr b f s)"
  unfolding mds_bmap_write_def Let_def by (rule post_any post_pair post_if post_some | simp)+

lemma enqueue_bview [simp]: "bview2 (fst (upsch_enqueue b f s)) = bview2 b"
  by (simp add: upsch_enqueue_def)

lemma inv_except_bview: "post (\<lambda>r. bview2 (fst r) = bview2 b) (mds_repl_inv_except i b f s)"
  unfolding mds_repl_inv_except_def mds_repl_bmap_walk_def
  apply (rule post_bind [OF walk_loop_bview], rule post_pair, rule post_pair, simp only: Let_def)
  apply (rule post_bind [OF walk_loop_bview], rule post_pair, rule post_pair)
  apply (rule post_bind [OF write_bview], rule post_pair, rule post_pair, rule post_pair, rule post_pair)
  apply (rule post_some)
  apply (auto simp: upsch_enqueue_def split: if_splits)
  done

lemma frame_refl [simp]: "frame b l b l"
  by (simp add: frame_def)

lemma frame_fields [simp]:
  "frame (set_bcm_flags w b) l = frame b l" "frame (clr_bcm_flags w b) l = frame b l"
  "frame b l (set_bcm_flags w c) k = frame b l c k" "frame b l (clr_bcm_flags w c) k = frame b l c k"
  "frame b l (bmap_wake_locked c) k = frame b l c k" "frame b l (c\<lparr>bmi_wr_ion := m\<rparr>) k = frame b l c k"
  "frame b l (c\<lparr>bcm_opcnt := n\<rparr>) k = frame b l c k" "frame b l (c\<lparr>bmi_seq := q\<rparr>) k = frame b l c k"
  "frame b l (c\<lparr>bmi_diocb := d\<rparr>) k = frame b l c k"
  by (simp_all add: frame_def fun_eq_iff)

lemma frame_trans: "frame a k b l \<Longrightarrow> frame b l c m \<Longrightarrow> frame a k c m"
  by (simp add: frame_def)

lemma frame_intro: "bview b' = bview b \<Longrightarrow> lview l' = lview l \<Longrightarrow> frame b l b' l'"
  by (simp add: frame_def)

lemma framed_trans: "framed a k b l \<Longrightarrow> framed b l c m \<Longrightarrow> framed a k c m"
  by (simp add: framed_def)

lemma framed_frame: "framed b l b' l' \<Longrightarrow> frame b l b' l'"
  by (simp add: framed_def bview2_def frame_def)

lemma framed_refl [simp]: "framed b l b l"
  by (simp add: framed_def)

lemma post_fst: "post (\<lambda>r. P (fst r)) m \<Longrightarrow> (\<And>b x. P b \<Longrightarrow> post Q (g (b, x))) \<Longrightarrow> post Q (m \<bind> g)"
  by (rule post_bind [where P = "\<lambda>r. P (fst r)"]) auto

lemma add_repl_frame: "post (same5 b l) (mds_bmap_add_repl cfg bia b f s l)"
  unfolding mds_bmap_add_repl_def Let_def
  apply (rule post_any, rule post_any, rule post_pair, rule post_pair, rule post_if)
   apply (simp add: post_some)
  apply (rule post_fst [OF inv_except_bview], simp only: prod.case, rule post_pair, rule post_pair, rule post_if)
   apply (simp add: post_some framed_def)
  apply (rule post_any, rule post_some)
  apply (simp add: framed_def)
  done

lemma post_frame5:
  "post (same5 b l) m \<Longrightarrow> framed a k b l \<Longrightarrow> (\<And>b' f' s' l' rc. framed a k b' l' \<Longrightarrow> post Q (g (b', f', s', l', rc))) \<Longrightarrow> post Q (m \<bind> g)"
  by (rule post_bind [where P = "same5 b l"]) (auto, blast intro: framed_trans)

lemma post_lview:
  "post (\<lambda>k. lview k = lview l) m \<Longrightarrow> (\<And>k. lview k = lview l \<Longrightarrow> post Q (g k)) \<Longrightarrow> post Q (m \<bind> g)"
  by (rule post_bind)

lemma assign_frame: "post (same5 b l) (mds_bmap_ios_assign env cfg rs p iosid b f s l)"
  unfolding mds_bmap_ios_assign_def Let_def
  apply (rule post_any, rule post_any, rule post_any, rule post_any, rule post_pair, rule post_pair, rule post_if)
   apply (simp add: post_some)
  apply (rule post_any, rule post_any, rule post_pair, rule post_opt)
   apply (simp add: post_some framed_def)
  apply (rule post_lview [OF upd_bml_lview], simp)
  apply (rule post_any, rule post_fst [OF mdsi_lview], simp only: prod.case)
  apply (rule post_any, rule post_frame5 [OF add_repl_frame, of b l], simp add: framed_def)
  apply (simp only: prod.case, rule post_if)
   apply (rule post_any, rule post_some, simp add: framed_def)
  apply (rule post_lview [OF upd_bml_lview], simp)
  apply (rule post_some, simp add: framed_def)
  done

lemma getitem_lview: "post (\<lambda>r. lview (snd r) = lview l) (pfl_odt_getitem i l)"
  unfolding pfl_odt_getitem_def by (rule post_any, rule post_pair, rule post_pair, rule post_some, simp)

lemma post_snd: "post (\<lambda>r. P (snd r)) m \<Longrightarrow> (\<And>b x. P x \<Longrightarrow> post Q (g (b, x))) \<Longrightarrow> post Q (m \<bind> g)"
  by (rule post_bind [where P = "\<lambda>r. P (snd r)"]) auto

lemma update_frame: "post (same5 b l) (mds_bmap_ios_update env cfg p b f s l)"
  unfolding mds_bmap_ios_update_def Let_def
  apply (rule post_any, rule post_snd [OF getitem_lview], simp only: prod.case, rule post_if)
   apply (simp add: post_some framed_def)
  apply (rule post_any, rule post_any, rule post_fst [OF mdsi_lview], simp only: prod.case)
  apply (rule post_any, rule post_lview [OF upd_bml_lview], simp)
  apply (rule post_conseq [OF add_repl_frame])
  apply (auto simp: framed_def)
  done

lemma restart_frame: "post (\<lambda>(b', l'). framed b l b' l') (mds_bmap_ios_restart env cfg p b l)"
  unfolding mds_bmap_ios_restart_def Let_def
  apply (rule post_any, rule post_any, rule post_any, rule post_any)
  apply (rule post_fst [OF mdsi_lview], simp only: prod.case)
  apply (rule post_any, rule post_some)
  apply (simp add: framed_def split: if_splits)
  done

lemma coh_req_frame: "post (same3 b l) (mdscoh_req env p b l)"
proof (cases "bml_pool l p")
  case (Some x)
  note put = lview_put [OF Some]
  show ?thesis unfolding mdscoh_req_def Let_def get_bml_def Some bind.bind_lunit
    by (rule post_if post_any post_some | simp add: frame_def put)+
qed (simp add: mdscoh_req_def get_bml_def post_none)

subsection \<open>Direct I/O between clients\<close>

text \<open>The leases of other clients than \<open>np\<close> among \<open>ps\<close>, and whether they all are for direct I/O.\<close>

abbreviation others :: "lsrv \<Rightarrow> cli \<Rightarrow> nat list \<Rightarrow> nat list" where
  "others l np ps \<equiv> filter (\<lambda>p. lv_cli (the (lview l p)) \<noteq> np) ps"

abbreviation all_dio :: "lsrv \<Rightarrow> nat list \<Rightarrow> bool" where
  "all_dio l ps \<equiv> list_all (\<lambda>p. lv_dio (the (lview l p))) ps"

definition dio_res :: "cli \<Rightarrow> nat list \<Rightarrow> bool \<Rightarrow> int \<Rightarrow> bmap \<Rightarrow> lsrv \<Rightarrow> bool \<times> int \<times> bmap \<times> lsrv \<Rightarrow> bool" where
  "dio_res np ps force rc b l = (\<lambda>(force', rc', b', l'). frame b l b' l' \<and>
     (rc' = 0 \<longrightarrow> rc = 0 \<and> all_dio l (others l np ps)) \<and> force' = (force \<or> others l np ps \<noteq> []))"

lemma flag_dio: "bml_flags x AND BML_DIO \<noteq> 0 \<longleftrightarrow> lv_dio (lv_of x)"
  unfolding BML_DIO_def flag_bit lv_of_def by simp

lemma dio_res_cons:
  assumes "post (dio_res np ps f1 rc1 b1 l1) m" "frame b l b1 l1" "lview l p = Some x"
    "lv_cli x = np \<and> f1 = force \<and> rc1 = rc \<or> lv_cli x \<noteq> np \<and> f1 \<and> (lv_dio x \<and> rc1 = rc \<or> rc1 \<noteq> 0)"
  shows "post (dio_res np (p # ps) force rc b l) m"
proof -
  have v: "lview l1 = lview l" using assms(2) by (simp add: frame_def)
  show ?thesis
    by (rule post_conseq [OF assms(1)]) (use assms(2-4) in \<open>auto simp: dio_res_def v intro: frame_trans\<close>)
qed

lemma dio_chain_spec: "post (dio_res np ps force rc b l) (dio_chain env np ps force rc b l)"
proof (induction ps arbitrary: force rc b l)
  case Nil
  then show ?case by (simp add: post_some dio_res_def)
next
  case (Cons p ps)
  show ?case
  proof (cases "bml_pool l p")
    case (Some x)
    then have v: "lview l p = Some (lv_of x)" by (simp add: lview_def)
    have c: "lv_cli (lv_of x) = bml_cli_nidpid x" by (simp add: lv_of_def)
    have neq: "- SLERR_BMAP_DIOWAIT \<noteq> 0" by (simp add: SLERR_BMAP_DIOWAIT_def)
    note step = dio_res_cons [OF _ _ v]
    show ?thesis unfolding dio_chain.simps get_bml_def Some bind.bind_lunit
    proof (intro post_if)
      assume "bml_cli_nidpid x = np"
      then show "post (dio_res np (p # ps) force rc b l) (dio_chain env np ps force rc b l)"
        by (intro step [OF Cons.IH]) (simp_all add: c)
    next
      assume "bml_cli_nidpid x \<noteq> np" "bml_flags x AND BML_DIO \<noteq> 0"
      then show "post (dio_res np (p # ps) force rc b l) (dio_chain env np ps True rc b l)"
        by (intro step [OF Cons.IH]) (simp_all add: c flag_dio)
    next
      assume "bml_cli_nidpid x \<noteq> np"
      then show "post (dio_res np (p # ps) force rc b l) (dio_chain env np ps True (- SLERR_BMAP_DIOWAIT) b l)"
        using neq by (intro step [OF Cons.IH]) (simp_all add: c)
    next
      assume "bml_cli_nidpid x \<noteq> np"
      then show "post (dio_res np (p # ps) force rc b l) (mdscoh_req env p b l \<bind>
          (\<lambda>(b, l, _). dio_chain env np ps True (- SLERR_BMAP_DIOWAIT) b l))"
        using neq by (intro post_bind [OF coh_req_frame]) (auto intro!: step [OF Cons.IH] simp: c)
    qed
  qed (simp add: get_bml_def post_none)
qed

lemma chain_walk_seg:
  "seg (lview l) h (p # ps) \<Longrightarrow> h \<notin> set ps \<Longrightarrow> chain_walk l h p = Some (p # ps)"
proof (induction ps arbitrary: p)
  case Nil
  then show ?case by (subst chain_walk.simps) (auto simp: get_bml_def lview_def lv_of_def)
next
  case (Cons q ps)
  then have "chain_walk l h q = Some (q # ps)" by auto
  then show ?case using Cons.prems by (subst chain_walk.simps) (auto simp: get_bml_def lview_def lv_of_def)
qed

lemma chain_walk_ring:
  assumes "ring_ok (lview l) ps"
  shows "chain_walk l (hd ps) (hd ps) = Some ps"
  using assms chain_walk_seg [of l "hd ps" "hd ps" "tl ps"] by (cases ps) (auto simp: ring_ok_def)

lemma dio_res_append:
  assumes "dio_res np ps force rc b l (force1, rc1, b1, l1)" "post (dio_res np qs force1 rc1 b1 l1) m"
  shows "post (dio_res np (ps @ qs) force rc b l) m"
proof -
  have v: "lview l1 = lview l" "frame b l b1 l1" using assms(1) by (simp_all add: dio_res_def frame_def)
  show ?thesis
    by (rule post_conseq [OF assms(2)]) (use assms(1) v in \<open>auto simp: dio_res_def intro: frame_trans\<close>)
qed

lemma dio_leases_spec:
  "list_all (ring_ok (lview l)) rings \<Longrightarrow>
     post (dio_res np (concat rings) force rc b l) (dio_leases env np (map hd rings) force rc b l)"
proof (induction rings arbitrary: force rc b l)
  case Nil
  then show ?case by (simp add: post_some dio_res_def)
next
  case (Cons ps rings)
  then have w: "chain_walk l (hd ps) (hd ps) = Some ps" by (simp add: chain_walk_ring)
  show ?case
    unfolding list.map dio_leases.simps w bind.bind_lunit concat.simps
  proof (rule post_bind [OF dio_chain_spec], (rule post_pair)+)
    fix x f1 y rc1 z b1 l1
    assume x: "dio_res np ps force rc b l x" and eq: "x = (f1, y)" "y = (rc1, z)" "z = (b1, l1)"
    have "lview l1 = lview l" using x eq by (simp add: dio_res_def frame_def)
    then have "post (dio_res np (concat rings) f1 rc1 b1 l1) (dio_leases env np (map hd rings) f1 rc1 b1 l1)"
      using Cons by simp
    then show "post (dio_res np (ps @ concat rings) force rc b l) (dio_leases env np (map hd rings) f1 rc1 b1 l1)"
      using x eq by (intro dio_res_append) simp_all
  qed
qed

text \<open>Whether the new lease of a client conflicts with what the bmap already has.\<close>

definition conflict :: "rw \<Rightarrow> bool \<Rightarrow> bmap \<Rightarrow> bool" where
  "conflict rw want b \<longleftrightarrow> want \<or> bmi_diocb b \<noteq> 0 \<or> bmi_writers b \<noteq> 0 \<or> rw = SL_WRITE \<and> bmi_readers b \<noteq> 0"

lemma directio_spec:
  assumes "rings_ok (lview l) rings (bview b)"
  shows "post (\<lambda>(b', l', rc). frame b l b' l' \<and>
    (rc = 0 \<and> conflict rw want b \<longrightarrow> all_dio l (others l np (concat rings)) \<and>
       (others l np (concat rings) \<noteq> [] \<longrightarrow> bcm_flags b' AND BMAPF_DIO \<noteq> 0)))
    (mds_bmap_directio env rw want np b f l)"
proof -
  let ?b = "clr_bcm_flags BMAPF_DIO b"
  have r: "list_all (ring_ok (lview l)) rings" "bmi_leases b = map hd rings"
    using assms by (simp_all add: rings_ok_def bview_def)
  have fields: "bmi_leases ?b = bmi_leases b" "bmi_diocb ?b = bmi_diocb b" "bmi_writers ?b = bmi_writers b" "bmi_readers ?b = bmi_readers b"
    by (simp_all add: clr_bcm_flags_def)
  have on: "bcm_flags (set_bcm_flags BMAPF_DIO c) AND BMAPF_DIO \<noteq> 0" for c
    unfolding BMAPF_DIO_def flag_bit set_bcm_flags_def by (simp add: bit_or_iff bit_push_bit_iff)
  show ?thesis
    unfolding mds_bmap_directio_def Let_def fields r(2)
  proof (rule post_bind [where P = "\<lambda>(force, rc, b', l'). frame b l b' l' \<and> (rc = 0 \<and> conflict rw want b \<longrightarrow>
      all_dio l (others l np (concat rings)) \<and> (others l np (concat rings) \<noteq> [] \<longrightarrow> force))"])
    show "post (\<lambda>(force, rc, b', l'). frame b l b' l' \<and> (rc = 0 \<and> conflict rw want b \<longrightarrow>
        all_dio l (others l np (concat rings)) \<and> (others l np (concat rings) \<noteq> [] \<longrightarrow> force)))
      (if (want \<or> bmi_diocb b \<noteq> 0) \<or> bmi_writers b \<noteq> 0 \<or> rw = SL_WRITE \<and> bmi_readers b \<noteq> 0
       then dio_leases env np (map hd rings) False 0 ?b l else Some (False, 0, ?b, l))"
      by (rule post_if, rule post_conseq [OF dio_leases_spec [OF r(1)]])
        (auto simp: dio_res_def conflict_def post_some)
  qed (auto simp: post_def on split: if_splits)
qed

subsection \<open>Rings\<close>

lemma hd_app: "hd ((xs @ ys) @ [h]) = hd (xs @ [hd (ys @ [h])])"
  by (cases xs) simp_all

lemma seg_append: "seg v h (xs @ ys) \<longleftrightarrow> seg v (hd (ys @ [h])) xs \<and> seg v h ys"
  by (induction xs) (auto simp: hd_app simp del: append_assoc)

lemma seg_cong: "(\<And>p. p \<in> set ps \<Longrightarrow> map_option lv_chain (w p) = map_option lv_chain (v p)) \<Longrightarrow> seg w h ps = seg v h ps"
proof (induction ps)
  case (Cons p ps)
  have "(\<exists>x. w p = Some x \<and> lv_chain x = c) = (\<exists>x. v p = Some x \<and> lv_chain x = c)" for c
    using Cons.prems [of p] by (cases "w p"; cases "v p") auto
  then show ?case using Cons by simp
qed simp

lemma ring_cong: "(\<And>p. p \<in> set ps \<Longrightarrow> w p = v p) \<Longrightarrow> ring_ok w ps = ring_ok v ps"
proof -
  assume a: "\<And>p. p \<in> set ps \<Longrightarrow> w p = v p"
  then have "seg w h ps = seg v h ps" for h by (intro seg_cong) simp
  then show ?thesis using a by (cases "ps = []") (simp_all add: ring_ok_def cong: ball_cong)
qed

lemma seg_relink:
  assumes "seg v h ps" "ps \<noteq> []" "distinct ps" "v (last ps) = Some x"
  shows "seg (v(last ps \<mapsto> x\<lparr>lv_chain := Some n\<rparr>)) n ps"
proof -
  let ?w = "v(last ps \<mapsto> x\<lparr>lv_chain := Some n\<rparr>)"
  obtain qs q where ps: "ps = qs @ [q]" using assms(2) by (metis append_butlast_last_id)
  have "seg v q qs" using assms(1) by (simp add: ps seg_append)
  moreover have "seg ?w q qs = seg v q qs" using assms(3) by (intro seg_cong) (auto simp: ps)
  ultimately show ?thesis using assms(4) by (auto simp: ps seg_append)
qed

lemma ring_view: "ring_ok v ps \<Longrightarrow> p \<in> set ps \<Longrightarrow> \<exists>x. v p = Some x \<and> lv_cli x = ring_cli v ps \<and> lv_rd x = (\<not> lv_wr x) \<and> lv_ch x = (p \<noteq> hd ps)"
  by (simp add: ring_ok_def ring_cli_def)

lemma ring_extend:
  assumes "ring_ok v ps" "p \<notin> set ps" "v p = Some x" "lv_cli x = ring_cli v ps" "lv_rd x = (\<not> lv_wr x)"
    "v (last ps) = Some y"
  shows "ring_ok (v(last ps \<mapsto> y\<lparr>lv_chain := Some p\<rparr>, p \<mapsto> x\<lparr>lv_ch := True, lv_chain := Some (hd ps)\<rparr>)) (ps @ [p])"
proof -
  let ?v = "v(last ps \<mapsto> y\<lparr>lv_chain := Some p\<rparr>)"
  let ?w = "?v(p \<mapsto> x\<lparr>lv_ch := True, lv_chain := Some (hd ps)\<rparr>)"
  have ps: "ps \<noteq> []" "distinct ps" "seg v (hd ps) ps" using assms(1) by (simp_all add: ring_ok_def)
  have "seg ?v p ps" by (rule seg_relink [OF ps(3,1,2) assms(6)])
  moreover have "seg ?w p ps = seg ?v p ps" using assms(2) by (intro seg_cong) auto
  ultimately have s: "seg ?w (hd ps) (ps @ [p])" using ps(1) by (simp add: seg_append)
  have q: "\<exists>z. ?w q = Some z \<and> lv_cli z = lv_cli (the (?w (hd ps))) \<and> lv_rd z = (\<not> lv_wr z) \<and> lv_ch z = (q \<noteq> hd ps)"
    if "q \<in> set (ps @ [p])" for q
  proof -
    have hd: "hd ps \<in> set ps" "last ps \<in> set ps" using ps(1) by simp_all
    obtain h where h: "v (hd ps) = Some h" "lv_cli h = ring_cli v ps" using ring_view [OF assms(1) hd(1)] by blast
    have "lv_cli (the (?w (hd ps))) = ring_cli v ps" using h assms(2,6) hd by auto
    then show ?thesis using that ring_view [OF assms(1), of q] assms(2-6) ring_view [OF assms(1) hd(2)] hd by auto
  qed
  show ?thesis unfolding ring_ok_def using s q ps assms(2) by (simp add: hd_append)
qed

text \<open>Taking a lease other than the first out of a ring, and taking the first one out.\<close>

lemma ring_drop:
  assumes "ring_ok v (xs @ p # ys)" "xs \<noteq> []" "v (last xs) = Some y" "v p = Some x"
  shows "lv_chain y = Some p" "ring_ok (v(last xs \<mapsto> y\<lparr>lv_chain := lv_chain x\<rparr>)) (xs @ ys)"
proof -
  let ?n = "hd (ys @ [hd xs])" and ?w = "v(last xs \<mapsto> y\<lparr>lv_chain := lv_chain x\<rparr>)"
  have d: "distinct (xs @ p # ys)" "seg v p xs" "seg v (hd xs) ys" "lv_chain x = Some ?n"
    using assms by (auto simp: ring_ok_def seg_append)
  obtain zs z where xs: "xs = zs @ [z]" using assms(2) by (metis append_butlast_last_id)
  show "lv_chain y = Some p" using d(2) assms(3) by (auto simp: xs seg_append)
  have "seg ?w ?n xs" using seg_relink [OF d(2) assms(2) _ assms(3)] d(1,4) by simp
  moreover have "seg ?w (hd xs) ys = seg v (hd xs) ys" using d(1) assms(2) by (intro seg_cong) (auto simp: xs)
  ultimately have s: "seg ?w (hd xs) (xs @ ys)" using d(3) by (simp add: seg_append)
  have "\<exists>z. ?w q = Some z \<and> lv_cli z = lv_cli (the (?w (hd xs))) \<and> lv_rd z = (\<not> lv_wr z) \<and> lv_ch z = (q \<noteq> hd xs)"
    if "q \<in> set (xs @ ys)" for q
  proof -
    have hd: "hd (xs @ p # ys) = hd xs" "hd xs \<in> set xs" "last xs \<in> set xs" using assms(2) by simp_all
    obtain h where h: "v (hd xs) = Some h" "lv_cli h = ring_cli v (xs @ p # ys)"
      using ring_view [OF assms(1), of "hd xs"] hd by auto
    have "lv_cli (the (?w (hd xs))) = ring_cli v (xs @ p # ys)" using h assms(3) by auto
    then show ?thesis using that ring_view [OF assms(1), of q] ring_view [OF assms(1), of "last xs"] hd assms(3) by auto
  qed
  then show "ring_ok ?w (xs @ ys)" unfolding ring_ok_def using s d(1) assms(2) by (simp add: hd_append)
qed

lemma ring_behead:
  assumes "ring_ok v (p # n # ys)" "v n = Some z" "(v(n \<mapsto> z\<lparr>lv_ch := False\<rparr>)) (last (n # ys)) = Some y"
  shows "lv_chain y = Some p"
    "ring_ok (v(n \<mapsto> z\<lparr>lv_ch := False\<rparr>, last (n # ys) \<mapsto> y\<lparr>lv_chain := Some n\<rparr>)) (n # ys)"
proof -
  let ?u = "v(n \<mapsto> z\<lparr>lv_ch := False\<rparr>)" and ?w = "v(n \<mapsto> z\<lparr>lv_ch := False\<rparr>, last (n # ys) \<mapsto> y\<lparr>lv_chain := Some n\<rparr>)"
  have d: "distinct (p # n # ys)" "seg v p (n # ys)" using assms(1) by (auto simp: ring_ok_def)
  have "seg ?u p (n # ys) = seg v p (n # ys)" using assms(2) by (intro seg_cong) auto
  then have u: "seg ?u p (n # ys)" using d(2) by simp
  obtain zs m where ns: "n # ys = zs @ [m]" by (metis append_butlast_last_id list.distinct(1))
  show "lv_chain y = Some p" using u assms(3) unfolding ns by (auto simp: seg_append)
  have s: "seg ?w n (n # ys)" by (rule seg_relink [OF u _ _ assms(3)]) (use d(1) in simp_all)
  have v: "\<exists>x. v q = Some x \<and> lv_cli x = ring_cli v (p # n # ys) \<and> lv_rd x = (\<not> lv_wr x) \<and> lv_ch x"
    if "q \<in> set (n # ys)" for q using ring_view [OF assms(1), of q] that d(1) by auto
  have "last (n # ys) \<in> set (n # ys)" by (rule last_in_set) simp
  then have y: "lv_cli y = ring_cli v (p # n # ys)" "lv_rd y = (\<not> lv_wr y)" "lv_ch y = (last (n # ys) \<noteq> n)"
    using v [of "last (n # ys)"] v [of n] assms(2,3) by (auto split: if_splits)
  have "\<exists>x. ?w q = Some x \<and> lv_cli x = lv_cli (the (?w n)) \<and> lv_rd x = (\<not> lv_wr x) \<and> lv_ch x = (q \<noteq> n)"
    if "q \<in> set (n # ys)" for q
  proof -
    have "lv_cli (the (?w n)) = ring_cli v (p # n # ys)" using y(1) v [of n] assms(2) by auto
    then show ?thesis using v [OF that] v [of n] y assms(2) by auto
  qed
  then show "ring_ok ?w (n # ys)" unfolding ring_ok_def using s d(1) by simp
qed

subsection \<open>The leases of a client\<close>

abbreviation nwr :: "(nat \<Rightarrow> lv option) \<Rightarrow> nat list \<Rightarrow> nat" where
  "nwr v ps \<equiv> length (filter (\<lambda>p. lv_wr (the (v p))) ps)"

abbreviation nrd :: "(nat \<Rightarrow> lv option) \<Rightarrow> nat list \<Rightarrow> nat" where
  "nrd v ps \<equiv> length (filter (\<lambda>p. lv_rd (the (v p))) ps)"

lemma flag_lv:
  "bml_flags x AND BML_READ \<noteq> 0 \<longleftrightarrow> lv_rd (lv_of x)" "bml_flags x AND BML_WRITE \<noteq> 0 \<longleftrightarrow> lv_wr (lv_of x)"
  "bml_flags x AND BML_CHAIN \<noteq> 0 \<longleftrightarrow> lv_ch (lv_of x)"
  unfolding bml_flag_defs flag_bit lv_of_def by simp_all

lemma lv_of_sel [simp]: "lv_cli (lv_of x) = bml_cli_nidpid x" "lv_chain (lv_of x) = bml_chain x"
  by (simp_all add: lv_of_def)

lemma lview_Some: "lview l p = Some y \<longleftrightarrow> (\<exists>x. bml_pool l p = Some x \<and> y = lv_of x)"
  by (auto simp: lview_def)

lemma nwr_nrd:
  assumes "ring_ok v ps"
  shows "length ps - nrd v ps = nwr v ps" "has_wr v ps \<longleftrightarrow> nwr v ps \<noteq> 0" "nwr v ps + nrd v ps = length ps"
proof -
  have "lv_rd (the (v p)) = (\<not> lv_wr (the (v p)))" if "p \<in> set ps" for p using ring_view [OF assms that] by auto
  then have "filter (\<lambda>p. lv_rd (the (v p))) ps = filter (\<lambda>p. \<not> lv_wr (the (v p))) ps" by (intro filter_cong) simp_all
  then show "nwr v ps + nrd v ps = length ps" using sum_length_filter_compl [of "\<lambda>p. lv_wr (the (v p))" ps] by simp
  then show "length ps - nrd v ps = nwr v ps" by simp
  show "has_wr v ps \<longleftrightarrow> nwr v ps \<noteq> 0" by (auto simp: has_wr_def filter_empty_conv)
qed

lemma ring_hd: "ring_ok v ps \<Longrightarrow> hd ps \<in> set ps \<and> (\<exists>x. v (hd ps) = Some x \<and> lv_cli x = ring_cli v ps)"
  using ring_view [of v ps "hd ps"] by (auto simp: ring_ok_def)

lemma heads_filter:
  assumes "list_all (ring_ok (lview l)) rings"
  shows "filter (\<lambda>p. map_option bml_cli_nidpid (get_bml p l) = Some c) (map hd rings) =
      map hd (filter (\<lambda>ps. ring_cli (lview l) ps = c) rings)" "list_all (\<lambda>p. get_bml p l \<noteq> None) (map hd rings)"
proof -
  have e: "map_option bml_cli_nidpid (get_bml (hd ps) l) = Some (ring_cli (lview l) ps)" if "ps \<in> set rings" for ps
    using assms that ring_hd [of "lview l" ps] by (auto simp: list_all_iff get_bml_def lview_Some)
  then have "get_bml (hd ps) l \<noteq> None" if "ps \<in> set rings" for ps using that by force
  then show "filter (\<lambda>p. map_option bml_cli_nidpid (get_bml p l) = Some c) (map hd rings) =
      map hd (filter (\<lambda>ps. ring_cli (lview l) ps = c) rings)" "list_all (\<lambda>p. get_bml p l \<noteq> None) (map hd rings)"
    by (simp_all only: filter_map o_def list_all_iff set_map ball_simps e option.inject cong: filter_cong) blast
qed

lemma dupls_find_none:
  assumes "rings_ok (lview l) rings (bview b)" "c \<notin> set (map (ring_cli (lview l)) rings)"
  shows "mds_bmap_dupls_find c b l = Some (None, 0, 0)"
proof -
  have r: "list_all (ring_ok (lview l)) rings" "bmi_leases b = map hd rings" using assms(1) by (simp_all add: rings_ok_def bview_def)
  have "filter (\<lambda>ps. ring_cli (lview l) ps = c) rings = []" using assms(2) by (auto simp: filter_empty_conv)
  then show ?thesis unfolding mds_bmap_dupls_find_def r(2) heads_filter(1) [OF r(1)] using heads_filter(2) [OF r(1)] by simp
qed

lemma dupls_find_ring:
  assumes "rings_ok (lview l) (A @ ps # B) (bview b)"
  shows "mds_bmap_dupls_find (ring_cli (lview l) ps) b l = Some (Some (hd ps), nwr (lview l) ps, nrd (lview l) ps)"
proof -
  let ?c = "ring_cli (lview l) ps"
  have r: "list_all (ring_ok (lview l)) (A @ ps # B)" "bmi_leases b = map hd (A @ ps # B)" "ring_ok (lview l) ps"
    using assms by (simp_all add: rings_ok_def bview_def)
  have "?c \<notin> ring_cli (lview l) ` set A" "?c \<notin> ring_cli (lview l) ` set B" using assms by (simp_all add: rings_ok_def)
  then have "filter (\<lambda>qs. ring_cli (lview l) qs = ?c) A = []" "filter (\<lambda>qs. ring_cli (lview l) qs = ?c) B = []"
    unfolding filter_empty_conv by (metis image_eqI)+
  then have "filter (\<lambda>qs. ring_cli (lview l) qs = ?c) (A @ ps # B) = [ps]" by simp
  then have f: "filter (\<lambda>p. map_option bml_cli_nidpid (get_bml p l) = Some ?c) (bmi_leases b) = [hd ps]"
    using heads_filter(1) [OF r(1), of ?c] r(2) by simp
  have "filter (\<lambda>p. bml_flags (the (get_bml p l)) AND BML_READ \<noteq> 0) ps = filter (\<lambda>p. lv_rd (the (lview l p))) ps"
  proof (rule filter_cong [OF refl])
    fix p assume "p \<in> set ps"
    then obtain x where "bml_pool l p = Some x" using ring_view [OF r(3)] by (fastforce simp: lview_Some)
    then show "(bml_flags (the (get_bml p l)) AND BML_READ \<noteq> 0) = lv_rd (the (lview l p))"
      by (simp add: get_bml_def lview_def flag_lv)
  qed
  then show ?thesis unfolding mds_bmap_dupls_find_def f
    using heads_filter(2) [OF r(1)] r(2) chain_walk_ring [OF r(3)] nwr_nrd(1) [OF r(3)] by (simp add: Let_def)
qed

subsection \<open>Adding a lease\<close>

definition rcount :: "(nat \<Rightarrow> lv option) \<Rightarrow> nat list list \<Rightarrow> int \<times> int" where
  "rcount v rings = (int (length (filter (has_wr v) rings)), int (length (filter (\<lambda>ps. \<not> has_wr v ps) rings)))"

definition rings_str :: "(nat \<Rightarrow> lv option) \<Rightarrow> nat list list \<Rightarrow> bool" where
  "rings_str v rings \<longleftrightarrow> list_all (ring_ok v) rings \<and> distinct (concat rings) \<and> distinct (map (ring_cli v) rings)"

lemma rings_ok_alt: "rings_ok v rings bv \<longleftrightarrow> rings_str v rings \<and> bv = (map hd rings, rcount v rings)"
  by (auto simp: rings_ok_def rings_str_def rcount_def)

text \<open>What adding and removing leases does not change of the others.\<close>

definition core :: "(nat \<Rightarrow> lv option) \<Rightarrow> nat \<Rightarrow> (cli \<times> bool \<times> bool \<times> bool \<times> bool \<times> bool \<times> u64 \<times> u32) option" where
  "core v p = map_option (\<lambda>x. (lv_cli x, lv_rd x, lv_wr x, lv_dio x, lv_bmi x, lv_fr x, lv_own x)) (v p)"

lemma core_the: "core w p = core v p \<Longrightarrow> v p = Some x \<Longrightarrow> \<exists>y. w p = Some y \<and> lv_cli y = lv_cli x \<and> lv_rd y = lv_rd x \<and> lv_wr y = lv_wr x \<and> lv_dio y = lv_dio x \<and> lv_bmi y = lv_bmi x \<and> lv_fr y = lv_fr x \<and> lv_own y = lv_own x"
  by (cases "w p") (auto simp: core_def)

lemma core_ring:
  assumes "core w = core v" "ring_ok v ps"
  shows "has_wr w ps = has_wr v ps" "ring_cli w ps = ring_cli v ps"
proof -
  have e: "lv_wr (the (w p)) = lv_wr (the (v p)) \<and> lv_cli (the (w p)) = lv_cli (the (v p))" if "p \<in> set ps" for p
    using ring_view [OF assms(2) that] core_the [of w p v] assms(1) by fastforce
  then show "has_wr w ps = has_wr v ps" by (simp add: has_wr_def)
  show "ring_cli w ps = ring_cli v ps" using e [of "hd ps"] ring_hd [OF assms(2)] by (simp add: ring_cli_def)
qed

lemma core_rings:
  assumes "core w = core v" "list_all (ring_ok v) rings"
  shows "map (ring_cli w) rings = map (ring_cli v) rings" "rcount w rings = rcount v rings"
proof -
  have "ring_cli w ps = ring_cli v ps" "has_wr w ps = has_wr v ps" if "ps \<in> set rings" for ps
    using core_ring [OF assms(1)] assms(2) that by (simp_all add: list_all_iff)
  then show "map (ring_cli w) rings = map (ring_cli v) rings" "rcount w rings = rcount v rings"
    by (simp_all add: rcount_def cong: filter_cong)
qed

lemma rcount_append: "rcount v (A @ B) = (fst (rcount v A) + fst (rcount v B), snd (rcount v A) + snd (rcount v B))"
  "rcount v [ps] = (if has_wr v ps then (1, 0) else (0, 1))" "rcount v [] = (0, 0)"
  by (simp_all add: rcount_def)

text \<open>The marks for direct I/O, for being linked and for being freed do not matter for the rings.\<close>

definition strip :: "lv \<Rightarrow> lv" where
  "strip x = x\<lparr>lv_dio := False, lv_bmi := False, lv_fr := False\<rparr>"

lemma strip_eq: "strip x = strip y \<longleftrightarrow> lv_cli x = lv_cli y \<and> lv_chain x = lv_chain y \<and> lv_rd x = lv_rd y \<and>
    lv_wr x = lv_wr y \<and> lv_ch x = lv_ch y \<and> lv_own x = lv_own y"
  by (cases x; cases y) (auto simp: strip_def)

lemma strip_ring:
  assumes "map_option strip \<circ> w = map_option strip \<circ> v"
  shows "ring_ok w ps = ring_ok v ps" "ring_ok v ps \<Longrightarrow> has_wr w ps = has_wr v ps" "ring_ok v ps \<Longrightarrow> ring_cli w ps = ring_cli v ps"
proof -
  have e: "map_option strip (w q) = map_option strip (v q)" for q using fun_cong [OF assms, of q] by simp
  have vw: "\<exists>y. b q = Some y \<and> strip y = strip x" if "a q = Some x" "map_option strip (a q) = map_option strip (b q)" for a b q x
    using that by (cases "b q") auto
  have s: "seg w h ps = seg v h ps" for h
  proof (rule seg_cong)
    fix q show "map_option lv_chain (w q) = map_option lv_chain (v q)"
      using e [of q] by (cases "w q"; cases "v q") (auto simp: strip_eq)
  qed
  have one: "ring_ok b ps" if r: "ring_ok a ps" "\<And>q. map_option strip (a q) = map_option strip (b q)" "\<And>h. seg b h ps = seg a h ps" for a b
  proof -
    obtain h where h: "a (hd ps) = Some h" "lv_cli h = ring_cli a ps" using ring_hd [OF r(1)] by blast
    obtain h' where h': "b (hd ps) = Some h'" "strip h' = strip h" using vw [of a "hd ps" h b, OF h(1) r(2)] by blast
    have "\<exists>x. b q = Some x \<and> lv_cli x = lv_cli (the (b (hd ps))) \<and> lv_rd x = (\<not> lv_wr x) \<and> lv_ch x = (q \<noteq> hd ps)"
      if q: "q \<in> set ps" for q
    proof -
      obtain x where x: "a q = Some x" "lv_cli x = ring_cli a ps" "lv_rd x = (\<not> lv_wr x)" "lv_ch x = (q \<noteq> hd ps)"
        using ring_view [OF r(1) q] by blast
      obtain y where "b q = Some y" "strip y = strip x" using vw [of a q x b, OF x(1) r(2)] by blast
      then show ?thesis using x h h' by (simp add: strip_eq)
    qed
    then show ?thesis using r(1,3) by (simp add: ring_ok_def)
  qed
  show "ring_ok w ps = ring_ok v ps" using one [of w v, OF _ e s [symmetric]] one [of v w, OF _ e [symmetric] s] by blast
  have f: "lv_wr (the (w q)) = lv_wr (the (v q))" "lv_cli (the (w q)) = lv_cli (the (v q))" if q: "ring_ok v ps" "q \<in> set ps" for q
  proof -
    obtain x where x: "v q = Some x" using ring_view [OF q] by blast
    then obtain y where "w q = Some y" "strip y = strip x" using vw [of v q x w] e [of q] by auto
    then show "lv_wr (the (w q)) = lv_wr (the (v q))" "lv_cli (the (w q)) = lv_cli (the (v q))" using x by (simp_all add: strip_eq)
  qed
  show "ring_ok v ps \<Longrightarrow> has_wr w ps = has_wr v ps" using f(1) by (simp add: has_wr_def)
  show "ring_ok v ps \<Longrightarrow> ring_cli w ps = ring_cli v ps" using f(2) ring_hd by (simp add: ring_cli_def)
qed

lemma strip_rings: "map_option strip \<circ> w = map_option strip \<circ> v \<Longrightarrow> rings_ok v rings bv \<Longrightarrow> rings_ok w rings bv"
proof -
  assume a: "map_option strip \<circ> w = map_option strip \<circ> v" "rings_ok v rings bv"
  have r: "ring_ok v ps" if "ps \<in> set rings" for ps using a(2) that by (simp add: rings_ok_def list_all_iff)
  then have "ring_ok w ps" "has_wr w ps = has_wr v ps" "ring_cli w ps = ring_cli v ps" if "ps \<in> set rings" for ps
    using strip_ring [OF a(1)] that by blast+
  note e = this
  have m: "map (ring_cli w) rings = map (ring_cli v) rings" using e(3) by simp
  show ?thesis using a(2) e(1,2) unfolding rings_ok_def m by (simp add: list_all_iff cong: filter_cong)
qed

lemma strip_upd: "v p = Some x \<Longrightarrow> strip y = strip x \<Longrightarrow> map_option strip \<circ> v(p \<mapsto> y) = map_option strip \<circ> v"
  by (auto simp: fun_eq_iff)

text \<open>Replacing one ring of the list, with the others as they were.\<close>

lemma rings_replace:
  assumes "rings_str v (A @ ps # B)" "\<And>q. q \<notin> set ps \<Longrightarrow> q \<noteq> p \<Longrightarrow> w q = v q"
    "p \<notin> set (concat (A @ B))"
  shows "list_all (ring_ok w) (A @ B)" "map (ring_cli w) (A @ B) = map (ring_cli v) (A @ B)" "rcount w (A @ B) = rcount v (A @ B)"
proof -
  have d: "set qs \<inter> set ps = {}" "p \<notin> set qs" "ring_ok v qs" if "qs \<in> set (A @ B)" for qs
    using that assms(1,3) by (auto simp: rings_str_def list_all_iff)
  have e: "w q = v q" if "qs \<in> set (A @ B)" "q \<in> set qs" for qs q using d [OF that(1)] that(2) assms(2) [of q] by blast
  then have r: "ring_ok w qs" "ring_cli w qs = ring_cli v qs" "has_wr w qs = has_wr v qs" if "qs \<in> set (A @ B)" for qs
    using that d(3) [OF that] ring_cong [of qs w v] ring_hd [OF d(3) [OF that]]
    by (auto simp: ring_cli_def has_wr_def)
  then show "list_all (ring_ok w) (A @ B)" "map (ring_cli w) (A @ B) = map (ring_cli v) (A @ B)" "rcount w (A @ B) = rcount v (A @ B)"
    by (simp_all only: list_all_iff rcount_def map_eq_conv cong: filter_cong) blast+
qed

definition bump :: "bool \<Rightarrow> int \<times> int \<Rightarrow> int \<times> int" where
  "bump c k = (if c then (fst k + 1, snd k) else (fst k, snd k + 1))"

lemma rcount_mid: "rcount v (A @ ps # B) = bump (has_wr v ps) (rcount v (A @ B))"
  by (simp add: rcount_def bump_def)

lemma rings_put:
  assumes "rings_str v (A @ ps # B)" "\<And>q. q \<notin> set ps \<Longrightarrow> q \<noteq> p \<Longrightarrow> w q = v q" "p \<notin> set (concat (A @ B))"
  shows "rings_str w (A @ B)" "rcount w (A @ B) = rcount v (A @ B)"
    "ring_ok w qs \<Longrightarrow> ring_cli w qs = ring_cli v ps \<Longrightarrow> set qs \<subseteq> insert p (set ps) \<Longrightarrow> rings_str w (A @ qs # B)"
    "ring_ok w qs \<Longrightarrow> ring_cli w qs = ring_cli v ps \<Longrightarrow> set qs \<subseteq> insert p (set ps) \<Longrightarrow> rings_str w ((A @ B) @ [qs])"
proof -
  have r: "list_all (ring_ok w) (A @ B)" "map (ring_cli w) (A @ B) = map (ring_cli v) (A @ B)" "rcount w (A @ B) = rcount v (A @ B)"
    using rings_replace [of v A ps B p w] assms by blast+
  have d: "distinct (concat (A @ B))" "distinct (map (ring_cli v) (A @ B))" "ring_cli v ps \<notin> set (map (ring_cli v) (A @ B))"
    "set ps \<inter> set (concat (A @ B)) = {}" using assms(1) by (auto simp: rings_str_def)
  show "rings_str w (A @ B)" unfolding rings_str_def r(2) using r(1) d(1,2) by blast
  show "rcount w (A @ B) = rcount v (A @ B)" by (rule r(3))
  assume q: "ring_ok w qs" "ring_cli w qs = ring_cli v ps" "set qs \<subseteq> insert p (set ps)"
  have dq: "distinct qs" using q(1) by (simp add: ring_ok_def)
  have dj: "set qs \<inter> set (concat (A @ B)) = {}" using q(3) d(4) assms(3) by blast
  have c: "distinct (map (ring_cli w) (A @ B))" "ring_cli w qs \<notin> set (map (ring_cli w) (A @ B))"
    unfolding r(2) using d(2,3) q(2) by simp_all
  show "rings_str w (A @ qs # B)" "rings_str w ((A @ B) @ [qs])"
    using r(1) q(1) dq dj c d(1) by (auto simp: rings_str_def)
qed

lemma lview_upd: "lview (put_bml p x l) = (lview l)(p \<mapsto> lv_of x)"
  by (auto simp: lview_def fun_eq_iff)

lemma upd_bml_Some: "bml_pool l p = Some x \<Longrightarrow> upd_bml p g l = Some (put_bml p (g x) l)"
  by (simp add: upd_bml_def get_bml_def)

lemma lv_of_link:
  "lv_of (x\<lparr>bml_chain := c\<rparr>) = (lv_of x)\<lparr>lv_chain := c\<rparr>"
  "lv_of (x\<lparr>bml_flags := bml_flags x OR BML_CHAIN\<rparr>) = (lv_of x)\<lparr>lv_ch := True\<rparr>"
  "lv_of (x\<lparr>bml_flags := bml_flags x AND NOT BML_CHAIN\<rparr>) = (lv_of x)\<lparr>lv_ch := False\<rparr>"
  by (simp_all add: lv_of_def BML_CHAIN_def bit_or_iff bit_and_iff bit_not_iff bit_push_bit_iff bit_1_iff)

text \<open>Leases outside the set \<open>S\<close> stay as they are.\<close>

definition only :: "nat set \<Rightarrow> lsrv \<Rightarrow> lsrv \<Rightarrow> bool" where
  "only S l l' \<longleftrightarrow> (\<forall>q. q \<notin> S \<longrightarrow> lview l' q = lview l q)"

definition added :: "bmap \<Rightarrow> lsrv \<Rightarrow> nat \<Rightarrow> nat list list \<Rightarrow> nat \<Rightarrow> nat \<Rightarrow> bmap \<Rightarrow> lsrv \<Rightarrow> bool" where
  "added b l p rings w r b' l' \<longleftrightarrow> (\<exists>rings'. rings_str (lview l') rings' \<and> core (lview l') = core (lview l) \<and>
     set (concat rings') = insert p (set (concat rings)) \<and> only (insert p (set (concat rings))) l l' \<and> bmi_leases b' = map hd rings' \<and>
     bmi_writers b' = bmi_writers b \<and> bmi_readers b' = bmi_readers b \<and> bcm_flags b' = bcm_flags b \<and>
     rcount (lview l') rings' =
       (if lv_wr (the (lview l p))
        then (bmi_writers b + (if w = 0 then 1 else 0), bmi_readers b - (if w = 0 \<and> r \<noteq> 0 then 1 else 0))
        else (bmi_writers b, bmi_readers b + (if w = 0 \<and> r = 0 then 1 else 0))))"

lemma heads_in: "rings_str v rings \<Longrightarrow> set (map hd rings) \<subseteq> set (concat rings)"
  using ring_hd by (fastforce simp: rings_str_def list_all_iff)

lemma link_new:
  assumes "rings_ok (lview l) rings (bview b)" "bml_pool l p = Some x" "p \<notin> set (concat rings)"
    "lv_rd (lv_of x) = (\<not> lv_wr (lv_of x))" "\<not> lv_ch (lv_of x)" "bml_cli_nidpid x \<notin> set (map (ring_cli (lview l)) rings)"
  shows "\<exists>b' l'. bml_link p None b l = Some (b', l') \<and> added b l p rings 0 0 b' l'"
proof -
  let ?l = "put_bml p (x\<lparr>bml_chain := Some p\<rparr>) l" and ?b = "b\<lparr>bmi_leases := bmi_leases b @ [p]\<rparr>"
  have v: "lview ?l = (lview l)(p \<mapsto> (lv_of x)\<lparr>lv_chain := Some p\<rparr>)" "lview l p = Some (lv_of x)"
    using assms(2) by (simp_all add: lview_upd lv_of_link lview_def)
  have st: "rings_str (lview l) rings" "bmi_leases b = map hd rings" "rcount (lview l) rings = (bmi_writers b, bmi_readers b)"
    using assms(1) by (simp_all add: rings_ok_alt bview_def)
  have c: "core (lview ?l) = core (lview l)" using v by (auto simp: core_def fun_eq_iff)
  have r: "list_all (ring_ok (lview l)) rings" using st(1) by (simp add: rings_str_def)
  have o: "ring_ok (lview ?l) qs = ring_ok (lview l) qs" if "qs \<in> set rings" for qs
    using assms(3) that by (intro ring_cong) (auto simp: v)
  have n: "ring_ok (lview ?l) [p]" "ring_cli (lview ?l) [p] = bml_cli_nidpid x" "has_wr (lview ?l) [p] = lv_wr (lv_of x)"
    using assms(4,5) by (simp_all add: v ring_ok_def ring_cli_def has_wr_def)
  have "list_all (ring_ok (lview ?l)) (rings @ [[p]])" using o r n(1) by (auto simp: list_all_iff)
  moreover have "distinct (map (ring_cli (lview ?l)) (rings @ [[p]]))"
    using st(1) assms(6) n(2) by (simp add: core_rings(1) [OF c r] rings_str_def)
  ultimately have "rings_str (lview ?l) (rings @ [[p]])" using st(1) assms(3) by (simp add: rings_str_def)
  moreover have "only (insert p (set (concat rings))) l ?l" by (simp add: only_def v)
  ultimately have "rings_str (lview ?l) (rings @ [[p]])" "only (insert p (set (concat rings))) l ?l" by blast+
  then have "added b l p rings 0 0 ?b ?l" unfolding added_def
    using c st n(3) core_rings(2) [OF c r] v(2) rcount_mid [of "lview ?l" rings "[p]" "[]"]
    by (intro exI [of _ "rings @ [[p]]"]) (simp add: bump_def)
  then show ?thesis by (simp add: bml_link_def upd_bml_Some [OF assms(2)])
qed

lemma concat_mid: "set (concat (A @ qs # B)) = set qs \<union> set (concat (A @ B))"
  by auto

lemma link_ring:
  assumes "rings_ok (lview l) (A @ ps # B) (bview b)" "bml_pool l p = Some x" "p \<notin> set (concat (A @ ps # B))"
    "lv_rd (lv_of x) = (\<not> lv_wr (lv_of x))" "bml_cli_nidpid x = ring_cli (lview l) ps"
  shows "\<exists>b' l'. bml_link p (Some (hd ps)) b l = Some (b', l') \<and> added b l p (A @ ps # B) (nwr (lview l) ps) (nrd (lview l) ps) b' l'"
proof -
  have st: "rings_str (lview l) (A @ ps # B)" "bmi_leases b = map hd (A @ ps # B)"
    "rcount (lview l) (A @ ps # B) = (bmi_writers b, bmi_readers b)" and ok: "ring_ok (lview l) ps"
    using assms(1) by (simp_all add: rings_ok_alt bview_def rings_str_def)
  have ne: "ps \<noteq> []" "last ps \<in> set ps" "p \<notin> set ps" "p \<noteq> last ps" using ok assms(3) by (auto simp: ring_ok_def)
  obtain y where y: "bml_pool l (last ps) = Some y" using ring_view [OF ok ne(2)] by (auto simp: lview_Some)
  let ?l = "put_bml p (x\<lparr>bml_flags := bml_flags x OR BML_CHAIN, bml_chain := Some (hd ps)\<rparr>) (put_bml (last ps) (y\<lparr>bml_chain := Some p\<rparr>) l)"
  have lv: "lview l p = Some (lv_of x)" "lview l (last ps) = Some (lv_of y)" using assms(2) y by (simp_all add: lview_def)
  have v: "lview ?l = (lview l)(last ps \<mapsto> (lv_of y)\<lparr>lv_chain := Some p\<rparr>, p \<mapsto> (lv_of x)\<lparr>lv_ch := True, lv_chain := Some (hd ps)\<rparr>)"
    by (simp add: lview_upd lv_of_link)
  have c: "core (lview ?l) = core (lview l)" using lv ne(4) by (auto simp: v core_def fun_eq_iff)
  have new: "ring_ok (lview ?l) (ps @ [p])" unfolding v using ring_extend [OF ok ne(3) lv(1) _ assms(4) lv(2)] assms(5) by simp
  have cli: "ring_cli (lview ?l) (ps @ [p]) = ring_cli (lview l) ps"
    using core_ring(2) [OF c ok] ne(1) by (simp add: ring_cli_def)
  have "lv_wr (the (lview ?l p)) = lv_wr (lv_of x)" by (simp add: v)
  then have wr: "has_wr (lview ?l) (ps @ [p]) = (has_wr (lview l) ps \<or> lv_wr (lv_of x))"
    using core_ring(1) [OF c ok] unfolding has_wr_def set_append by auto
  have agree: "lview ?l q = lview l q" if "q \<notin> set ps" "q \<noteq> p" for q using that ne(2) by (auto simp: v)
  note put = rings_put [of "lview l" A ps B p "lview ?l", OF st(1) agree]
  have "rings_str (lview ?l) (A @ (ps @ [p]) # B)" using put(3) new cli assms(3) by simp
  moreover have "rcount (lview ?l) (A @ (ps @ [p]) # B) = bump (has_wr (lview l) ps \<or> lv_wr (lv_of x)) (rcount (lview l) (A @ B))"
    unfolding rcount_mid wr using put(2) assms(3) by simp
  moreover have "(bmi_writers b, bmi_readers b) = bump (has_wr (lview l) ps) (rcount (lview l) (A @ B))"
    using st(3) by (simp add: rcount_mid)
  moreover have "only (insert p (set (concat (A @ ps # B)))) l ?l" unfolding only_def concat_mid using agree by blast
  ultimately have "added b l p (A @ ps # B) (nwr (lview l) ps) (nrd (lview l) ps) b ?l"
    unfolding added_def using c st(2) ne(1) lv(1) nwr_nrd(2,3) [OF ok]
    by (intro exI [of _ "A @ (ps @ [p]) # B"]) (auto simp: bump_def split: if_splits)
  moreover have "p \<notin> set (bmi_leases b)" using st(2) assms(3) heads_in [OF st(1)] by auto
  ultimately show ?thesis
    using chain_walk_ring [OF ok] upd_bml_Some [OF y] upd_bml_Some [of "put_bml (last ps) (y\<lparr>bml_chain := Some p\<rparr>) l" p x] assms(2) ne(4)
    by (auto simp: bml_link_def)
qed

lemma find_link:
  assumes "rings_ok (lview l) rings (bview b)" "bml_pool l p = Some x" "p \<notin> set (concat rings)"
    "lv_rd (lv_of x) = (\<not> lv_wr (lv_of x))" "\<not> lv_ch (lv_of x)"
  obtains obml w r b' l' where "mds_bmap_dupls_find (bml_cli_nidpid x) b l = Some (obml, w, r)"
    "bml_link p obml b l = Some (b', l')" "added b l p rings w r b' l'"
proof (cases "bml_cli_nidpid x \<in> set (map (ring_cli (lview l)) rings)")
  case False
  then show thesis using dupls_find_none [OF assms(1)] link_new [OF assms] that by blast
next
  case True
  then obtain ps where "ps \<in> set rings" and c: "ring_cli (lview l) ps = bml_cli_nidpid x" by auto
  then obtain A B where r: "rings = A @ ps # B" using split_list by metis
  show thesis using dupls_find_ring [of l A ps B b] link_ring [of l A ps B b p x] assms c that unfolding r by metis
qed

text \<open>The lease then gets the mark that it is linked to the bmap.\<close>

definition marked :: "(nat \<Rightarrow> lv option) \<Rightarrow> nat \<Rightarrow> nat \<Rightarrow> lv option" where
  "marked v p = v(p := map_option (\<lambda>x. x\<lparr>lv_bmi := True\<rparr>) (v p))"

lemma bmi_marked: "post (\<lambda>m. lview m = marked (lview k) p) (set_bml_flags p BML_BMI k)"
  by (auto simp: post_def set_bml_flags_def upd_bml_def bind_eq_Some_conv get_bml_def lview_upd marked_def fun_eq_iff lview_def
      lv_of_def bml_flag_defs bit_or_iff bit_push_bit_iff bit_1_iff)

lemma strip_marked: "map_option strip \<circ> marked v p = map_option strip \<circ> v"
  by (cases "v p") (auto simp: marked_def strip_def fun_eq_iff)

lemma core_marked: "core w = core v \<Longrightarrow> core (marked w p) = core (marked v p)"
proof
  fix q assume "core w = core v"
  then have "core w q = core v q" by simp
  then show "core (marked w p) q = core (marked v p) q"
    by (cases "w q"; cases "v q") (auto simp: marked_def core_def)
qed

definition added_ok :: "bmap \<Rightarrow> lsrv \<Rightarrow> nat \<Rightarrow> nat list list \<Rightarrow> bmap \<Rightarrow> lsrv \<Rightarrow> bool" where
  "added_ok b l p rings b' l' \<longleftrightarrow> (\<exists>rings'. rings_ok (lview l') rings' (bview b') \<and> core (lview l') = core (marked (lview l) p) \<and>
     set (concat rings') = insert p (set (concat rings)) \<and> only (insert p (set (concat rings))) l l')"

lemma added_ok_frame: "added_ok b l p rings c k \<Longrightarrow> frame c k c' k' \<Longrightarrow> added_ok b l p rings c' k'"
  by (simp add: added_ok_def frame_def only_def)

lemma added_okI:
  assumes "rings_ok (lview k) rings' (bview c)" "core (lview k) = core (lview l)" "set (concat rings') = insert p (set (concat rings))"
    "only (insert p (set (concat rings))) l k" "lview m = marked (lview k) p"
  shows "added_ok b l p rings c m"
proof -
  have "only (insert p (set (concat rings))) l m" using assms(4) by (simp add: only_def assms(5) marked_def)
  then show ?thesis unfolding added_ok_def assms(5)
    using strip_rings [OF strip_marked assms(1)] core_marked [OF assms(2)] assms(3) by blast
qed

lemma added_counts:
  assumes "added b l p rings w r c k" "\<not> lv_wr (the (lview l p))" "lview m = marked (lview k) p"
  shows "added_ok b l p rings (count_rd w r c) m"
proof -
  have "\<exists>rings'. rings_ok (lview k) rings' (bview (count_rd w r c)) \<and> core (lview k) = core (lview l) \<and>
     set (concat rings') = insert p (set (concat rings)) \<and> only (insert p (set (concat rings))) l k"
    using assms(1,2) unfolding count_rd_def added_def rings_ok_alt by (auto simp: bview_def)
  then show ?thesis using added_okI [OF _ _ _ _ assms(3)] by blast
qed

lemma added_counts_wr:
  assumes "added b l p rings w r c k" "lv_wr (the (lview l p))" "lview m = marked (lview k) p"
  shows "added_ok b l p rings (count_wr w r c) m"
proof -
  have "\<exists>rings'. rings_ok (lview k) rings' (bview (count_wr w r c)) \<and> core (lview k) = core (lview l) \<and>
     set (concat rings') = insert p (set (concat rings)) \<and> only (insert p (set (concat rings))) l k"
    using assms(1,2) unfolding count_wr_def added_def rings_ok_alt by (auto simp: bview_def)
  then show ?thesis using added_okI [OF _ _ _ _ assms(3)] by blast
qed

definition add_res :: "rw \<Rightarrow> bml \<Rightarrow> bmap \<Rightarrow> lsrv \<Rightarrow> nat \<Rightarrow> nat list list \<Rightarrow> bmap \<times> fcmh \<times> slm \<times> lsrv \<times> int \<Rightarrow> bool" where
  "add_res rw x b l p rings = (\<lambda>(b', f', s', l', rc).
     rc \<noteq> 0 \<and> frame b l b' l' \<or>
     added_ok b l p rings b' l' \<and>
     (bml_flags x AND BML_RECOVER = 0 \<and> conflict rw (lv_dio (lv_of x)) b \<longrightarrow>
        all_dio l (others l (bml_cli_nidpid x) (concat rings)) \<and>
        (others l (bml_cli_nidpid x) (concat rings) \<noteq> [] \<longrightarrow> bit (bcm_flags b') 4)))"

lemma add_resI:
  assumes "added_ok b l p rings c k" "bit (bcm_flags c) 4 = dio"
    "bml_flags x AND BML_RECOVER = 0 \<and> conflict rw (lv_dio (lv_of x)) b \<Longrightarrow>
       all_dio l (others l (bml_cli_nidpid x) (concat rings)) \<and> (others l (bml_cli_nidpid x) (concat rings) \<noteq> [] \<longrightarrow> dio)"
  shows "post (same5 c k) m \<Longrightarrow> post (add_res rw x b l p rings) m"
    "add_res rw x b l p rings (c, f, s, k, rc)"
  using assms added_ok_frame [OF assms(1)]
  by (auto simp: add_res_def framed_def bview2_def frame_def elim!: post_conseq)

lemma same5_clr: "post (same5 c k) m \<Longrightarrow> post (same5 c k) (m \<bind> (\<lambda>(b, f, s, l, rc). Some (clr_bcm_flags BMAPF_IOSASSIGNED b, f, s, l, rc)))"
  by (rule post_bind, assumption) (auto simp: post_some framed_def)

lemma bind_frame: "post (same5 b l) (bml_bind env cfg rs p x w prefios b f s l)"
  unfolding bml_bind_def
proof (intro post_if)
  show "post (same5 b l) (do { psc_assert (bmi_writers b = 1); psc_assert (bmi_readers b = 0);
    psc_assert (bml_ios x \<noteq> 0 \<and> bml_ios x \<noteq> IOS_ID_ANY); (b, l) \<leftarrow> mds_bmap_ios_restart env cfg p b l; Some (b, f, s, l, 0) })"
    by (rule post_any, rule post_any, rule post_any, rule post_bind [OF restart_frame]) (auto simp: post_some)
qed (rule post_any, rule assign_frame update_frame)+

lemma count_fields [simp]: "bcm_flags (count_rd w r b) = bcm_flags b" "bcm_flags (count_wr w r b) = bcm_flags b"
  "bview (count_wr w r (set_bcm_flags v b)) = bview (count_wr w r b)"
  by (simp_all add: count_rd_def count_wr_def bview_def set_bcm_flags_def)

lemma flag_bdio: "bcm_flags c AND BMAPF_DIO \<noteq> 0 \<longleftrightarrow> bit (bcm_flags c) 4"
  unfolding BMAPF_DIO_def flag_bit by simp

lemma bml_add_linked:
  assumes "rings_ok (lview l) rings (bview b)" "bml_pool l p = Some x" "p \<notin> set (concat rings)"
    "lv_rd (lv_of x) = (\<not> lv_wr (lv_of x))" "\<not> lv_ch (lv_of x)" "lv_wr (lv_of x) = (rw = SL_WRITE)"
    "frame b l c k" "bml_flags x AND BML_RECOVER = 0 \<and> conflict rw (lv_dio (lv_of x)) b \<Longrightarrow>
       all_dio l (others l (bml_cli_nidpid x) (concat rings)) \<and> (others l (bml_cli_nidpid x) (concat rings) \<noteq> [] \<longrightarrow> bit (bcm_flags c) 4)"
  shows "post (add_res rw x b l p rings) (do {
         (obml, w, r) \<leftarrow> mds_bmap_dupls_find (bml_cli_nidpid x) c k;
         (b, l) \<leftarrow> bml_link p obml c k;
         l \<leftarrow> set_bml_flags p BML_BMI l;
         if rw = SL_READ then do {
           (l, _) \<leftarrow> mds_bmap_timeotbl_mdsi p BTE_ADD l;
           Some (count_rd w r b, f, s, l, 0)
         } else do {
           (b, f, s, l, rc) \<leftarrow> bml_bind env cfg rs p x w prefios (count_wr w r (set_bcm_flags BMAPF_IOSASSIGNED b)) f s l;
           Some (clr_bcm_flags BMAPF_IOSASSIGNED b, f, s, l, rc)
         }
       })"
proof -
  have v: "lview k = lview l" "bview c = bview b" using assms(7) by (simp_all add: frame_def)
  have "lview k p = Some (lv_of x)" using assms(2) by (simp add: v lview_def)
  then obtain y where y: "bml_pool k p = Some y" "lv_of y = lv_of x" by (auto simp: lview_Some)
  have cy: "bml_cli_nidpid y = bml_cli_nidpid x" using y(2) lv_of_sel(1) by metis
  have wk: "lv_wr (the (lview k p)) = (rw = SL_WRITE)" using y assms(6) by (simp add: lview_def)
  obtain obml w r c' k' where f: "mds_bmap_dupls_find (bml_cli_nidpid x) c k = Some (obml, w, r)"
    "bml_link p obml c k = Some (c', k')" "added c k p rings w r c' k'"
    using find_link [of k rings c p y] assms(1,3-5) y(1) unfolding v y(2) cy by metis
  have fl: "bcm_flags c' = bcm_flags c" using f(3) by (auto simp: added_def)
  note res = add_resI(1) [OF _ _ assms(8)]
  show ?thesis unfolding f(1) bind.bind_lunit prod.case f(2)
  proof (rule post_bind [OF bmi_marked], rule post_if)
    fix m assume m: "lview m = marked (lview k') p" "rw = SL_READ"
    have ok: "added_ok b l p rings (count_rd w r c') m"
      using added_counts [OF f(3) _ m(1)] wk m(2) by (simp add: added_ok_def only_def v(1))
    have "post (same5 (count_rd w r c') m) (mds_bmap_timeotbl_mdsi p BTE_ADD m \<bind> (\<lambda>(l, _). Some (count_rd w r c', f, s, l, 0)))"
      by (rule post_fst [OF mdsi_lview]) (simp add: post_some framed_def)
    then show "post (add_res rw x b l p rings) (mds_bmap_timeotbl_mdsi p BTE_ADD m \<bind> (\<lambda>(l, _). Some (count_rd w r c', f, s, l, 0)))"
      by (intro res [OF ok]) (simp_all add: fl)
  next
    fix m assume m: "lview m = marked (lview k') p" "rw \<noteq> SL_READ"
    let ?c = "count_wr w r (set_bcm_flags BMAPF_IOSASSIGNED c')"
    have "rw = SL_WRITE" using m(2) by (cases rw) simp_all
    then have ok: "added_ok b l p rings ?c m" using added_counts_wr [OF f(3) _ m(1)] wk by (simp add: added_ok_def only_def v(1))
    have "bit (bcm_flags ?c) 4 = bit (bcm_flags c) 4"
      by (simp add: set_bcm_flags_def BMAPF_IOSASSIGNED_def bit_or_iff bit_push_bit_iff fl)
    then show "post (add_res rw x b l p rings) (bml_bind env cfg rs p x w prefios ?c f s m \<bind>
        (\<lambda>(b, f, s, l, rc). Some (clr_bcm_flags BMAPF_IOSASSIGNED b, f, s, l, rc)))"
      by (intro res [OF ok] same5_clr [OF bind_frame])
  qed
qed

lemma bml_add_spec:
  assumes "rings_ok (lview l) rings (bview b)" "bml_pool l p = Some x" "p \<notin> set (concat rings)"
    "lv_rd (lv_of x) = (\<not> lv_wr (lv_of x))" "\<not> lv_ch (lv_of x)" "lv_wr (lv_of x) = (rw = SL_WRITE)"
  shows "post (add_res rw x b l p rings) (mds_bmap_bml_add env cfg rs p rw prefios b f s l)"
  unfolding mds_bmap_bml_add_def get_bml_def assms(2) bind.bind_lunit Let_def
proof (rule post_pair, rule post_any, rule post_any)
  let ?b = "b\<lparr>bcm_opcnt := bcm_opcnt b + 1\<rparr>" and ?c = "bml_cli_nidpid x"
  have b: "rings_ok (lview l) rings (bview ?b)" "conflict rw d ?b = conflict rw d b" for d using assms(1) by (simp_all add: conflict_def)
  have di: "post (\<lambda>(b', l', rc). frame ?b l b' l' \<and> (rc = 0 \<and> conflict rw (lv_dio (lv_of x)) b \<longrightarrow>
        all_dio l (others l ?c (concat rings)) \<and> (others l ?c (concat rings) \<noteq> [] \<longrightarrow> bit (bcm_flags b') 4)))
      (mds_bmap_directio env rw (bml_flags x AND BML_DIO \<noteq> 0) ?c ?b f l)"
    using directio_spec [OF b(1), of rw "lv_dio (lv_of x)" ?c env f] unfolding flag_bdio flag_dio b(2) .
  show "post (add_res rw x b l p rings) (mds_bmap_directio env rw (bml_flags x AND BML_DIO \<noteq> 0) ?c ?b f l \<bind>
    (\<lambda>(b, l, rc). if rc \<noteq> 0 \<and> bml_flags x AND BML_RECOVER = 0 then Some (b, f, s, l, rc)
       else do {
         (obml, w, r) \<leftarrow> mds_bmap_dupls_find ?c b l;
         (b, l) \<leftarrow> bml_link p obml b l;
         l \<leftarrow> set_bml_flags p BML_BMI l;
         if rw = SL_READ then do {
           (l, _) \<leftarrow> mds_bmap_timeotbl_mdsi p BTE_ADD l;
           Some (count_rd w r b, f, s, l, 0)
         } else do {
           (b, f, s, l, rc) \<leftarrow> bml_bind env cfg rs p x w prefios (count_wr w r (set_bcm_flags BMAPF_IOSASSIGNED b)) f s l;
           Some (clr_bcm_flags BMAPF_IOSASSIGNED b, f, s, l, rc)
         }
       }))"
  proof (rule post_bind [OF di], rule post_pair, rule post_pair, rule post_if)
    fix r c k y and rc :: int
    assume "case r of (b', l', rc) \<Rightarrow> frame ?b l b' l' \<and> (rc = 0 \<and> conflict rw (lv_dio (lv_of x)) b \<longrightarrow>
        all_dio l (others l ?c (concat rings)) \<and> (others l ?c (concat rings) \<noteq> [] \<longrightarrow> bit (bcm_flags b') 4))"
      "r = (c, y)" "y = (k, rc)" "rc \<noteq> 0 \<and> bml_flags x AND BML_RECOVER = 0"
    then show "post (add_res rw x b l p rings) (Some (c, f, s, k, rc))" by (simp add: post_some add_res_def frame_def)
  next
    fix r c k y and rc :: int
    assume "case r of (b', l', rc) \<Rightarrow> frame ?b l b' l' \<and> (rc = 0 \<and> conflict rw (lv_dio (lv_of x)) b \<longrightarrow>
        all_dio l (others l ?c (concat rings)) \<and> (others l ?c (concat rings) \<noteq> [] \<longrightarrow> bit (bcm_flags b') 4))"
      "r = (c, y)" "y = (k, rc)" and rc: "\<not> (rc \<noteq> 0 \<and> bml_flags x AND BML_RECOVER = 0)"
    then have d: "frame b l c k" "rc = 0 \<and> conflict rw (lv_dio (lv_of x)) b \<Longrightarrow>
        all_dio l (others l ?c (concat rings)) \<and> (others l ?c (concat rings) \<noteq> [] \<longrightarrow> bit (bcm_flags c) 4)"
      by (simp_all add: frame_def)
    show "post (add_res rw x b l p rings) (do {
         (obml, w, r) \<leftarrow> mds_bmap_dupls_find ?c c k;
         (b, l) \<leftarrow> bml_link p obml c k;
         l \<leftarrow> set_bml_flags p BML_BMI l;
         if rw = SL_READ then do {
           (l, _) \<leftarrow> mds_bmap_timeotbl_mdsi p BTE_ADD l;
           Some (count_rd w r b, f, s, l, 0)
         } else do {
           (b, f, s, l, rc) \<leftarrow> bml_bind env cfg rs p x w prefios (count_wr w r (set_bcm_flags BMAPF_IOSASSIGNED b)) f s l;
           Some (clr_bcm_flags BMAPF_IOSASSIGNED b, f, s, l, rc)
         }
       })" using rc by (intro bml_add_linked [OF assms d(1)] d(2)) auto
  qed
qed

subsection \<open>Removing a lease\<close>

lemma seg_chains: "seg v h ps \<Longrightarrow> ps \<noteq> [] \<Longrightarrow> map (\<lambda>p. lv_chain (the (v p))) ps = map Some (tl ps @ [h])"
proof (induction ps)
  case (Cons p ps)
  then show ?case by (cases ps) auto
qed simp

lemma find_unique:
  assumes "z \<in> set xs" "P z" "\<And>y. y \<in> set xs \<Longrightarrow> P y \<Longrightarrow> y = z"
  shows "find P xs = Some z"
proof (cases "find P xs")
  case None
  then show ?thesis using assms(1,2) by (auto simp: find_None_iff)
next
  case (Some y)
  then have "y \<in> set xs" "P y" by (auto simp: find_Some_iff)
  then show ?thesis using Some assms(3) by simp
qed

lemma chain_pred_ring:
  assumes "ring_ok (lview l) ps" "z \<in> set ps" "lv_chain (the (lview l z)) = Some p"
  shows "chain_pred (hd ps) p l = Some z"
proof -
  let ?c = "\<lambda>q. lv_chain (the (lview l q))"
  have ps: "ps \<noteq> []" "distinct ps" "seg (lview l) (hd ps) ps" using assms(1) by (simp_all add: ring_ok_def)
  have "distinct (map Some (tl ps @ [hd ps]))" using ps(1,2) by (cases ps) (auto simp: distinct_map)
  then have inj: "inj_on ?c (set ps)" using seg_chains [OF ps(3,1)] distinct_map by metis
  have e: "map_option bml_chain (get_bml q l) = Some (?c q)" if "q \<in> set ps" for q
  proof -
    note v = ring_view [OF assms(1) that]
    then obtain x where "bml_pool l q = Some x" by (fastforce simp: lview_Some)
    then show ?thesis by (simp add: get_bml_def lview_def)
  qed
  have "find (\<lambda>q. map_option bml_chain (get_bml q l) = Some (Some p)) ps = Some z"
  proof (rule find_unique [OF assms(2)])
    show "map_option bml_chain (get_bml z l) = Some (Some p)" using e [OF assms(2)] assms(3) by simp
    fix y assume y: "y \<in> set ps" "map_option bml_chain (get_bml y l) = Some (Some p)"
    then have "?c y = ?c z" using e [OF y(1)] assms(3) by simp
    then show "y = z" using inj_onD [OF inj] y(1) assms(2) by blast
  qed
  then show ?thesis using chain_walk_ring [OF assms(1)] by (simp add: chain_pred_def)
qed

lemma uncount_spec:
  assumes "(bmi_writers b, bmi_readers b) = bump (w \<noteq> 0) (a, c)" "0 \<le> a" "0 \<le> c" "lv_rd (lv_of x) = (\<not> lv_wr (lv_of x))"
    "if lv_wr (lv_of x) then 0 < w else 0 < r"
  shows "\<exists>b'. bml_uncount x w r b = Some b' \<and> bmi_leases b' = bmi_leases b \<and>
    (bmi_writers b', bmi_readers b') = (if w + r = 1 then (a, c) else bump ((if lv_wr (lv_of x) then w - 1 else w) \<noteq> 0) (a, c))"
proof (cases "lv_wr (lv_of x)")
  case True
  then have w: "0 < w" "bmi_writers b = a + 1" "bmi_readers b = c" using assms(1,5) by (simp_all add: bump_def)
  show ?thesis
  proof (cases "w = 1")
    case one: True
    let ?b = "b\<lparr>bmi_writers := bmi_writers b - 1, bmi_readers := (if r \<noteq> 0 then bmi_readers b + 1 else bmi_readers b)\<rparr>"
    have "bml_uncount x w r b = Some ?b" using True one w assms(2) by (simp add: bml_uncount_def flag_lv)
    then show ?thesis using True one w by (intro exI [of _ ?b]) (simp add: bump_def)
  next
    case False
    then have "bml_uncount x w r b = Some b" using True by (simp add: bml_uncount_def flag_lv)
    then show ?thesis using True False w by (intro exI [of _ b]) (simp add: bump_def)
  qed
next
  case False
  then have r: "0 < r" "lv_rd (lv_of x)" using assms(4,5) by simp_all
  show ?thesis
  proof (cases "w = 0 \<and> r = 1")
    case True
    then have "bmi_writers b = a" "bmi_readers b = c + 1" using assms(1) by (simp_all add: bump_def)
    moreover from this have "bml_uncount x w r b = Some (b\<lparr>bmi_readers := bmi_readers b - 1\<rparr>)"
      using True False r assms(3) by (simp add: bml_uncount_def flag_lv)
    ultimately show ?thesis using True by (intro exI [of _ "b\<lparr>bmi_readers := bmi_readers b - 1\<rparr>"]) simp
  next
    case other: False
    then have "bml_uncount x w r b = Some b" using False r by (auto simp: bml_uncount_def flag_lv)
    moreover have "w + r \<noteq> 1" using other r by arith
    ultimately show ?thesis using False assms(1) by (intro exI [of _ b]) simp
  qed
qed

text \<open>The view after unlinking: the ring without the lease, and the list of first leases.\<close>

definition unlinked :: "bmap \<Rightarrow> lsrv \<Rightarrow> nat list list \<Rightarrow> nat list \<Rightarrow> nat list list \<Rightarrow> nat \<Rightarrow> bmap \<Rightarrow> lsrv \<Rightarrow> bool" where
  "unlinked b l A ps B p b' l' \<longleftrightarrow> (\<exists>qs rings'. rings_str (lview l') rings' \<and> core (lview l') = core (lview l) \<and>
     set qs = set ps - {p} \<and> length qs = length ps - 1 \<and> set (concat rings') = set (concat (A @ ps # B)) - {p} \<and>
     only (set (concat (A @ ps # B))) l l' \<and>
     bmi_leases b' = map hd rings' \<and> bmi_writers b' = bmi_writers b \<and> bmi_readers b' = bmi_readers b \<and>
     rcount (lview l') rings' = (if qs = [] then rcount (lview l) (A @ B) else bump (has_wr (lview l) qs) (rcount (lview l) (A @ B))))"

lemma ring_some: "ring_ok v ps \<Longrightarrow> p \<in> set ps \<Longrightarrow> v p \<noteq> None"
  using ring_view by blast

lemma has_wr_core: "core w = core v \<Longrightarrow> (\<And>p. p \<in> set qs \<Longrightarrow> v p \<noteq> None) \<Longrightarrow> has_wr w qs = has_wr v qs"
proof -
  assume a: "core w = core v" "\<And>p. p \<in> set qs \<Longrightarrow> v p \<noteq> None"
  have "lv_wr (the (w p)) = lv_wr (the (v p))" if "p \<in> set qs" for p
  proof -
    note ne = a(2) [OF that]
    then obtain x where x: "v p = Some x" by blast
    then show ?thesis using core_the [of w p v x] a(1) by auto
  qed
  then show ?thesis by (simp add: has_wr_def)
qed

lemma rings_split:
  assumes "rings_str v (A @ ps # B)"
  shows "rings_str v (A @ B)" "set ps \<inter> set (concat (A @ B)) = {}" "ring_ok v ps"
    "set (map hd (A @ B)) \<inter> set ps = {}"
proof -
  have d: "distinct (concat (A @ ps # B))" "distinct (map (ring_cli v) (A @ ps # B))" "list_all (ring_ok v) (A @ ps # B)"
    using assms by (simp_all add: rings_str_def)
  show ok: "ring_ok v ps" using d(3) by simp
  show s: "set ps \<inter> set (concat (A @ B)) = {}" using d(1) by auto
  have "distinct (concat (A @ B))" "distinct (map (ring_cli v) (A @ B))" using d(1,2) by auto
  then show r: "rings_str v (A @ B)" using d(3) by (simp add: rings_str_def)
  show "set (map hd (A @ B)) \<inter> set ps = {}" using heads_in [OF r] s by blast
qed

lemma unlink_inner:
  assumes "rings_ok (lview l) (A @ (xs @ p # ys) # B) (bview b)" "xs \<noteq> []" "bml_pool l p = Some x"
  shows "\<exists>b' l'. chain_pred (hd xs) p l = Some (last xs) \<and>
    bml_unlink p x (hd xs) (last xs) (length (xs @ p # ys)) b l = Some (b', l') \<and> unlinked b l A (xs @ p # ys) B p b' l'"
proof -
  let ?ps = "xs @ p # ys"
  have st: "rings_str (lview l) (A @ ?ps # B)" "bmi_leases b = map hd (A @ ?ps # B)" and ok: "ring_ok (lview l) ?ps"
    using assms(1) by (simp_all add: rings_ok_alt bview_def rings_str_def)
  have hd: "hd ?ps = hd xs" "last xs \<in> set ?ps" "hd xs \<in> set xs" using assms(2) by simp_all
  have d: "distinct ?ps" using ok by (simp add: ring_ok_def)
  obtain y where y: "bml_pool l (last xs) = Some y" using ring_view [OF ok hd(2)] by (auto simp: lview_Some)
  have lv: "lview l p = Some (lv_of x)" "lview l (last xs) = Some (lv_of y)" using assms(3) y by (simp_all add: lview_def)
  let ?l = "put_bml (last xs) (y\<lparr>bml_chain := bml_chain x\<rparr>) l"
  have v: "lview ?l = (lview l)(last xs \<mapsto> (lv_of y)\<lparr>lv_chain := lv_chain (lv_of x)\<rparr>)" by (simp add: lview_upd lv_of_link)
  note dr = ring_drop [OF ok assms(2) lv(2,1), folded v]
  have c: "core (lview ?l) = core (lview l)" using lv(2) by (auto simp: v core_def fun_eq_iff)
  have pred: "chain_pred (hd xs) p l = Some (last xs)"
    using chain_pred_ring [OF ok hd(2)] dr(1) lv(2) hd(1) by simp
  have "p \<noteq> hd ?ps" using hd(1,3) d by auto
  then have ch: "bml_flags x AND BML_CHAIN \<noteq> 0" using ring_view [OF ok, of p] lv(1) by (simp add: flag_lv)
  note sp = rings_split [OF st(1)]
  have "p \<in> set ?ps" by simp
  then have pn: "p \<notin> set (concat (A @ B))" using sp(2) by blast
  have nin: "p \<notin> set (bmi_leases b)"
  proof -
    have "p \<in> set ?ps" by simp
    then have "p \<notin> set (map hd (A @ B))" using sp(4) by blast
    moreover have "p \<noteq> hd xs" using hd(3) d by auto
    ultimately show ?thesis using st(2) hd(1) by simp
  qed
  have agree: "lview ?l q = lview l q" if "q \<notin> set ?ps" "q \<noteq> p" for q using that hd(2) by (auto simp: v)
  note put = rings_put [of "lview l" A ?ps B p "lview ?l", OF st(1) agree]
  have cli: "ring_cli (lview ?l) (xs @ ys) = ring_cli (lview l) ?ps"
    using core_ring(2) [OF c ok] assms(2) by (simp add: ring_cli_def)
  have new: "rings_str (lview ?l) (A @ (xs @ ys) # B)" by (rule put(3)) (use pn dr(2) cli in auto)
  have "rcount (lview ?l) (A @ B) = rcount (lview l) (A @ B)" by (rule put(2)) (use pn in auto)
  moreover have "has_wr (lview ?l) (xs @ ys) = has_wr (lview l) (xs @ ys)"
    by (rule has_wr_core [OF c], rule ring_some [OF ok]) auto
  ultimately have rc: "rcount (lview ?l) (A @ (xs @ ys) # B) =
      (if xs @ ys = [] then rcount (lview l) (A @ B) else bump (has_wr (lview l) (xs @ ys)) (rcount (lview l) (A @ B)))"
    unfolding rcount_mid using assms(2) by simp
  have qs: "set (xs @ ys) = set ?ps - {p}" using d by auto
  have st': "set (concat (A @ (xs @ ys) # B)) = set (concat (A @ ?ps # B)) - {p}" unfolding concat_mid qs using pn by blast
  have "length (xs @ ys) = length ?ps - 1" "bmi_leases b = map hd (A @ (xs @ ys) # B)" using st(2) assms(2) by simp_all
  moreover have "only (set (concat (A @ ?ps # B))) l ?l" unfolding only_def concat_mid using agree by auto
  ultimately have "unlinked b l A ?ps B p b ?l" unfolding unlinked_def using new c qs st' rc by blast
  moreover have "bml_unlink p x (hd xs) (last xs) (length ?ps) b l = Some (b, ?l)"
    using ch nin assms(2) upd_bml_Some [OF y] by (simp add: bml_unlink_def)
  ultimately show ?thesis using pred by blast
qed

lemma remove_head: "rings_str v (A @ (p # qs) # B) \<Longrightarrow> remove1 p (map hd (A @ (p # qs) # B)) = map hd (A @ B)"
proof -
  assume "rings_str v (A @ (p # qs) # B)"
  then have "set (map hd (A @ B)) \<inter> set (p # qs) = {}" by (rule rings_split)
  then have "p \<notin> set (map hd A)" by auto
  then show ?thesis by (simp add: remove1_append)
qed

lemma core_upd: "v p = Some x \<Longrightarrow> core (v(p \<mapsto> x\<lparr>lv_chain := c\<rparr>)) = core v" "v p = Some x \<Longrightarrow> core (v(p \<mapsto> x\<lparr>lv_ch := d\<rparr>)) = core v"
  by (auto simp: core_def fun_eq_iff)

lemma unlink_single:
  assumes "rings_ok (lview l) (A @ [p] # B) (bview b)" "bml_pool l p = Some x"
  shows "\<exists>b' l'. chain_pred p p l = Some p \<and> bml_unlink p x p p 1 b l = Some (b', l') \<and> unlinked b l A [p] B p b' l'"
proof -
  have st: "rings_str (lview l) (A @ [p] # B)" "bmi_leases b = map hd (A @ [p] # B)"
    using assms(1) by (simp_all add: rings_ok_alt bview_def)
  note sp = rings_split [OF st(1)]
  have lv: "lview l p = Some (lv_of x)" using assms(2) by (simp add: lview_def)
  have x: "\<not> lv_ch (lv_of x)" "bml_chain x = Some p" using sp(3) lv by (simp_all add: ring_ok_def)
  have ch: "bml_flags x AND BML_CHAIN = 0" using x(1) flag_lv(3) [of x] by blast
  let ?b = "b\<lparr>bmi_leases := remove1 p (bmi_leases b)\<rparr>"
  have pred: "chain_pred p p l = Some p" using chain_pred_ring [OF sp(3), of p p] lv x(2) by simp
  have "bml_unlink p x p p 1 b l = Some (?b, l)" using ch x(2) by (simp add: bml_unlink_def)
  moreover have "unlinked b l A [p] B p ?b l"
  proof -
    have "set (concat (A @ B)) = set (concat (A @ [p] # B)) - {p}" unfolding concat_mid using sp(2) by auto
    moreover have "bmi_leases ?b = map hd (A @ B)" using remove_head [OF st(1)] st(2) by simp
    ultimately show ?thesis unfolding unlinked_def using sp(1) by (intro exI [of _ "[]"] exI [of _ "A @ B"]) (simp add: only_def)
  qed
  ultimately show ?thesis using pred by blast
qed

lemma unlink_head:
  assumes "rings_ok (lview l) (A @ (p # n # ys) # B) (bview b)" "bml_pool l p = Some x"
  shows "\<exists>b' l'. chain_pred p p l = Some (last (n # ys)) \<and>
    bml_unlink p x p (last (n # ys)) (length (p # n # ys)) b l = Some (b', l') \<and> unlinked b l A (p # n # ys) B p b' l'"
proof -
  define m where "m = last (n # ys)"
  let ?ps = "p # n # ys"
  have st: "rings_str (lview l) (A @ ?ps # B)" "bmi_leases b = map hd (A @ ?ps # B)"
    using assms(1) by (simp_all add: rings_ok_alt bview_def)
  note sp = rings_split [OF st(1)] and ok = rings_split(3) [OF st(1)]
  have m: "m \<in> set (n # ys)" unfolding m_def by (rule last_in_set) simp
  have d: "distinct ?ps" using ok by (simp add: ring_ok_def)
  have lv: "lview l p = Some (lv_of x)" using assms(2) by (simp add: lview_def)
  obtain z where z: "bml_pool l n = Some z" "lv_ch (lv_of z)"
    using ring_view [OF ok, of n] d by (auto simp: lview_Some)
  have x: "\<not> lv_ch (lv_of x)" "bml_chain x = Some n" using ok lv by (auto simp: ring_ok_def)
  let ?k = "put_bml n (z\<lparr>bml_flags := bml_flags z AND NOT BML_CHAIN\<rparr>) l"
  have vk: "lview ?k = (lview l)(n \<mapsto> (lv_of z)\<lparr>lv_ch := False\<rparr>)" by (simp add: lview_upd lv_of_link)
  have "bml_pool ?k m \<noteq> None" using ring_some [OF ok, of m] m by (auto simp: lview_def)
  then obtain y where y: "bml_pool ?k m = Some y" by blast
  have ly: "lview ?k m = Some (lv_of y)" using y by (simp add: lview_def)
  let ?l = "put_bml m (y\<lparr>bml_chain := Some n\<rparr>) ?k"
  have v: "lview ?l = (lview l)(n \<mapsto> (lv_of z)\<lparr>lv_ch := False\<rparr>, m \<mapsto> (lv_of y)\<lparr>lv_chain := Some n\<rparr>)"
    by (simp only: lview_upd [of m] lv_of_link vk)
  have lz: "lview l n = Some (lv_of z)" using z(1) by (simp add: lview_def)
  note bh = ring_behead [OF ok lz ly [unfolded vk m_def], folded m_def, folded v]
  have "lview ?l = (lview ?k)(m \<mapsto> (lv_of y)\<lparr>lv_chain := Some n\<rparr>)" by (simp only: lview_upd [of m] lv_of_link)
  then have "core (lview ?l) = core (lview ?k)" using core_upd(1) [of "lview ?k" m "lv_of y" "Some n", OF ly] by simp
  moreover have "core (lview ?k) = core (lview l)" unfolding vk by (rule core_upd(2) [of "lview l" n "lv_of z" False, OF lz])
  ultimately have c: "core (lview ?l) = core (lview l)" by (rule trans)
  have "lv_chain (the (lview ?k m)) = lv_chain (the (lview l m))" unfolding vk by (simp add: lz)
  then have "lv_chain (the (lview l m)) = lv_chain (lv_of y)" unfolding ly by simp
  then have pred: "chain_pred p p l = Some m" using chain_pred_ring [OF ok, of m p] bh(1) m by simp
  have "p \<in> set ?ps" "n \<in> set ?ps" by simp_all
  then have pn: "p \<notin> set (concat (A @ B))" "n \<notin> set (map hd (A @ B))" using sp(2,4) by blast+
  have agree: "lview ?l q = lview l q" if "q \<notin> set ?ps" "q \<noteq> p" for q using that m unfolding v by auto
  note put = rings_put [of "lview l" A ?ps B p "lview ?l", OF st(1) agree]
  have "ring_cli (lview ?l) ?ps = ring_cli (lview l) ?ps" by (rule core_ring(2) [OF c ok])
  moreover have "lv_cli (the (lview l n)) = ring_cli (lview l) ?ps" using ring_view [OF ok, of n] by auto
  moreover have "lv_cli (the (lview ?l n)) = lv_cli (the (lview l n))"
    using core_the [of "lview ?l" n "lview l"] c lz by auto
  ultimately have cli: "ring_cli (lview ?l) (n # ys) = ring_cli (lview l) ?ps" by (simp add: ring_cli_def)
  have new: "rings_str (lview ?l) ((A @ B) @ [n # ys])" by (rule put(4)) (use pn bh(2) cli in auto)
  have "rcount (lview ?l) (A @ B) = rcount (lview l) (A @ B)" by (rule put(2)) (use pn in auto)
  moreover have "has_wr (lview ?l) (n # ys) = has_wr (lview l) (n # ys)"
    by (rule has_wr_core [OF c], rule ring_some [OF ok]) auto
  ultimately have rc: "rcount (lview ?l) ((A @ B) @ [n # ys]) =
      (if n # ys = [] then rcount (lview l) (A @ B) else bump (has_wr (lview l) (n # ys)) (rcount (lview l) (A @ B)))"
    using rcount_mid [of "lview ?l" "A @ B" "n # ys" "[]"] by simp
  let ?b = "b\<lparr>bmi_leases := map hd (A @ B) @ [n]\<rparr>"
  have qs: "set (n # ys) = set ?ps - {p}" using d by auto
  have "set (concat ((A @ B) @ [n # ys])) = set (n # ys) \<union> set (concat (A @ B))" by (simp only: concat_mid append_Nil2)
  then have st': "set (concat ((A @ B) @ [n # ys])) = set (concat (A @ ?ps # B)) - {p}"
    unfolding concat_mid [of A ?ps B] qs using pn(1) by blast
  have "length (n # ys) = length ?ps - 1" "bmi_leases ?b = map hd ((A @ B) @ [n # ys])" by simp_all
  moreover have "bmi_writers ?b = bmi_writers b" "bmi_readers ?b = bmi_readers b" by simp_all
  moreover have "only (set (concat (A @ ?ps # B))) l ?l" unfolding only_def concat_mid using agree by auto
  ultimately have "unlinked b l A ?ps B p ?b ?l" unfolding unlinked_def using new c qs st' rc by blast
  moreover have "bml_unlink p x p m (length ?ps) b l = Some (?b, ?l)"
  proof -
    have "bml_flags x AND BML_CHAIN = 0" "bml_flags z AND BML_CHAIN \<noteq> 0" using x(1) z(2) flag_lv(3) by blast+
    then show ?thesis using x(2) pn(2) z(1) upd_bml_Some [OF y] remove_head [OF st(1)] st(2)
      by (simp add: bml_unlink_def clr_bml_flags_def get_bml_def upd_bml_Some [OF z(1)] del: put_bml_same)
  qed
  ultimately show ?thesis unfolding m_def [symmetric] using pred by blast
qed

lemma unlink_spec:
  assumes "rings_ok (lview l) (A @ ps # B) (bview b)" "p \<in> set ps" "bml_pool l p = Some x"
  obtains t b' l' where "chain_pred (hd ps) p l = Some t" "bml_unlink p x (hd ps) t (length ps) b l = Some (b', l')"
    "unlinked b l A ps B p b' l'"
proof -
  obtain xs ys where ps: "ps = xs @ p # ys" using split_list [OF assms(2)] by blast
  show thesis
  proof (cases "xs = []")
    case False
    then show ?thesis using unlink_inner [of l A xs p ys B b x] assms(1,3) that unfolding ps by (metis hd_append2)
  next
    case True
    show ?thesis
    proof (cases ys)
      case Nil
      then show ?thesis using unlink_single [of l A p B b x] assms(1,3) that [of p] True unfolding ps by auto
    next
      case (Cons n zs)
      obtain b' l' where "chain_pred p p l = Some (last (n # zs))" "unlinked b l A (p # n # zs) B p b' l'"
        "bml_unlink p x p (last (n # zs)) (length (p # n # zs)) b l = Some (b', l')"
        using unlink_head [of l A p n zs B b x] assms(1,3) True Cons unfolding ps by auto
      then show ?thesis using that [of "last (n # zs)" b' l'] True Cons unfolding ps by simp
    qed
  qed
qed

lemma wr_rest:
  assumes "ring_ok v ps" "p \<in> set ps"
  shows "(\<exists>q \<in> set ps - {p}. lv_wr (the (v q))) \<longleftrightarrow> (if lv_wr (the (v p)) then nwr v ps - 1 else nwr v ps) \<noteq> 0"
proof -
  let ?W = "{q \<in> set ps. lv_wr (the (v q))}"
  have "distinct (filter (\<lambda>q. lv_wr (the (v q))) ps)" using assms(1) by (simp add: ring_ok_def)
  then have "nwr v ps = card ?W" using distinct_card by fastforce
  moreover have "card (?W - {p}) = (if lv_wr (the (v p)) then card ?W - 1 else card ?W)" using assms(2) by simp
  moreover have "(\<exists>q \<in> set ps - {p}. lv_wr (the (v q))) \<longleftrightarrow> card (?W - {p}) \<noteq> 0" by auto
  ultimately show ?thesis by simp
qed

text \<open>
  A lease that is linked is always removed without an abort, and the bmap then lists and counts exactly the
  others.
\<close>

lemma del_spec:
  assumes "rings_ok (lview l) rings (bview b)" "p \<in> set (concat rings)"
  obtains b' l' rings' where "mds_bmap_bml_del_locked p b l = Some (b', l')" "rings_ok (lview l') rings' (bview b')"
    "core (lview l') = core (lview l)" "set (concat rings') = set (concat rings) - {p}" "only (set (concat rings)) l l'"
proof -
  obtain ps where "ps \<in> set rings" and p: "p \<in> set ps" using assms(2) by auto
  then obtain A B where rs: "rings = A @ ps # B" using split_list by metis
  note ok = assms(1) [unfolded rs]
  have st: "rings_str (lview l) (A @ ps # B)" "rcount (lview l) (A @ ps # B) = (bmi_writers b, bmi_readers b)"
    using ok by (simp_all add: rings_ok_alt bview_def)
  have ring: "ring_ok (lview l) ps" using st(1) by (rule rings_split)
  obtain x where x: "bml_pool l p = Some x" "bml_cli_nidpid x = ring_cli (lview l) ps" "lv_rd (lv_of x) = (\<not> lv_wr (lv_of x))"
    using ring_view [OF ring p] by (auto simp: lview_Some)
  obtain h where h: "bml_pool l (hd ps) = Some h" "\<not> lv_ch (lv_of h)"
    using ring_view [OF ring conjunct1 [OF ring_hd [OF ring]]] by (auto simp: lview_Some)
  obtain t b1 l1 where u: "chain_pred (hd ps) p l = Some t" "bml_unlink p x (hd ps) t (length ps) b l = Some (b1, l1)"
    "unlinked b l A ps B p b1 l1" by (rule unlink_spec [OF ok p x(1)])
  define w r where wr: "w = nwr (lview l) ps" "r = nrd (lview l) ps"
  have n: "w + r = length ps" "has_wr (lview l) ps \<longleftrightarrow> w \<noteq> 0" using nwr_nrd [OF ring] by (simp_all add: wr)
  have len: "1 \<le> length ps" using p by (cases ps) simp_all
  have "w \<noteq> 0 \<or> r \<noteq> 0" "\<not> bml_flags h AND BML_CHAIN \<noteq> 0" using n(1) len h(2) by (auto simp: flag_lv)
  then have del: "mds_bmap_bml_del_locked p b l = bml_uncount x w r b1 \<bind> (\<lambda>b. Some (b, l1))"
    using dupls_find_ring [OF ok, folded wr] x(1,2) h(1) u(1,2) n(1) by (simp add: mds_bmap_bml_del_locked_def get_bml_def)
  obtain qs rings' where q: "rings_str (lview l1) rings'" "core (lview l1) = core (lview l)" "set qs = set ps - {p}"
    "length qs = length ps - 1" "set (concat rings') = set (concat (A @ ps # B)) - {p}" "only (set (concat (A @ ps # B))) l l1" "bmi_leases b1 = map hd rings'"
    "bmi_writers b1 = bmi_writers b" "bmi_readers b1 = bmi_readers b"
    "rcount (lview l1) rings' = (if qs = [] then rcount (lview l) (A @ B) else bump (has_wr (lview l) qs) (rcount (lview l) (A @ B)))"
    using u(3) unfolding unlinked_def by (elim exE conjE) (rule that)
  obtain a c where k: "rcount (lview l) (A @ B) = (a, c)" "0 \<le> a" "0 \<le> c" by (simp add: rcount_def)
  have cnt: "(bmi_writers b1, bmi_readers b1) = bump (w \<noteq> 0) (a, c)"
    using st(2) q(8,9) unfolding rcount_mid k(1) n(2) by simp
  have pos: "if lv_wr (lv_of x) then 0 < w else 0 < r" using p x(1,3) by (auto simp: wr lview_def filter_empty_conv intro!: bexI [of _ p])
  obtain b2 where b2: "bml_uncount x w r b1 = Some b2" "bmi_leases b2 = bmi_leases b1"
    "(bmi_writers b2, bmi_readers b2) = (if w + r = 1 then (a, c) else bump ((if lv_wr (lv_of x) then w - 1 else w) \<noteq> 0) (a, c))"
    using uncount_spec [OF cnt k(2,3) x(3) pos] by blast
  have "has_wr (lview l) qs \<longleftrightarrow> (if lv_wr (lv_of x) then w - 1 else w) \<noteq> 0"
    using wr_rest [OF ring p] x(1) unfolding has_wr_def q(3) wr(1) by (simp add: lview_def)
  moreover have "qs = [] \<longleftrightarrow> w + r = 1" using q(4) n(1) len by (cases qs) auto
  ultimately have "rings_ok (lview l1) rings' (bview b2)"
    unfolding rings_ok_alt using q(1,7,10) b2(2,3) k(1) by (simp add: bview_def)
  then show thesis using that [of b2 l1 rings'] del b2(1) q(2,5,6) by (simp add: rs)
qed

end
