(* ===== verification/Lease_Grant.thy ===== *)
theory Lease_Grant
  imports Lease_Inv
begin

text \<open>
  Granting and removing leases as their clients see it (\<open>mds_bmap_bml_add\<close> and \<open>mds_bmap_bml_del_locked\<close> of
  slashd/mds.c): what \<open>Lease_Inv\<close> shows of the rings and the counts, with the fact that a read lease is always
  answered. The assertions that can stop the server on the way are those of \<open>mdscoh_req\<close> on the connection of a
  lease and that of the timeout list; a lease connected as \<open>connected\<close> says and not yet in the list passes them.
\<close>

unbundle bit_operations_syntax

subsection \<open>Leases and their connections\<close>

text \<open>A lease has the connection of its client, unless it was restored at a restart.\<close>

definition connected :: "lsrv \<Rightarrow> nat list \<Rightarrow> bool" where
  "connected l ps \<longleftrightarrow> list_all (\<lambda>p. case bml_pool l p of None \<Rightarrow> False | Some x \<Rightarrow> bml_exp x = (bml_flags x AND BML_RECOVER = 0)) ps"

text \<open>What asking the holders \<open>qs\<close> for direct I/O leaves as it is, with \<open>p\<close> a lease that is none of them.\<close>

definition asked :: "nat list \<Rightarrow> nat \<Rightarrow> lsrv \<Rightarrow> lsrv \<Rightarrow> bool" where
  "asked qs p l k \<longleftrightarrow> connected k qs \<and> bml_pool k p = bml_pool l p"

lemma connected_put:
  assumes "connected l qs" "bml_exp y = (bml_flags y AND BML_RECOVER = 0)"
  shows "connected (put_bml q y l) qs"
  using assms by (auto simp: connected_def put_bml_def list_all_iff)

lemma recover_diocb:
  "(w OR BML_DIOCB) AND BML_RECOVER = w AND BML_RECOVER" "(w AND NOT BML_DIOCB) AND BML_RECOVER = w AND BML_RECOVER"
  by (simp_all add: bml_flag_defs bit.conj_disj_distrib2 and.assoc)

lemma coh_req_returns:
  assumes "connected l qs" "q \<in> set qs" "p \<noteq> q"
  shows "\<exists>b' l' rc. mdscoh_req env q b l = Some (b', l', rc) \<and> asked qs p l l'"
proof -
  obtain x where x: "bml_pool l q = Some x" "bml_exp x = (bml_flags x AND BML_RECOVER = 0)"
    using assms(1,2) by (auto simp: connected_def list_all_iff split: option.splits)
  have "asked qs p l l" "asked qs p l (put_bml q y l)" if "bml_exp y = (bml_flags y AND BML_RECOVER = 0)" for y
    using assms connected_put [OF assms(1) that, of q] by (simp_all add: asked_def put_bml_def)
  then show ?thesis using x by (simp add: mdscoh_req_def get_bml_def psc_assert_def recover_diocb Let_def asked_def assms(1))
qed

lemma dio_chain_returns:
  assumes "connected l qs" "set ps \<subseteq> set qs" "p \<notin> set qs"
  shows "\<exists>force' rc' b' l'. dio_chain env np ps force rc b l = Some (force', rc', b', l') \<and> asked qs p l l'"
  using assms
proof (induction ps arbitrary: force rc b l)
  case Nil
  then show ?case by (simp add: asked_def)
next
  case (Cons q ps)
  have q: "q \<in> set qs" "p \<noteq> q" using Cons.prems by auto
  obtain x where x: "bml_pool l q = Some x" using Cons.prems(1) q(1) by (auto simp: connected_def list_all_iff split: option.splits)
  obtain b' l' r where m: "mdscoh_req env q b l = Some (b', l', r)" "asked qs p l l'"
    using coh_req_returns [OF Cons.prems(1) q] by blast
  have here: "\<exists>force' rc' b' l'. dio_chain env np ps f r c l = Some (force', rc', b', l') \<and> asked qs p l l'" for f r c
    using Cons.IH [OF Cons.prems(1)] Cons.prems by simp
  have "\<exists>force' rc' c k. dio_chain env np ps f r b' l' = Some (force', rc', c, k) \<and> asked qs p l k" for f r
    using Cons.IH [of l' f r b'] Cons.prems m(2) by (auto simp: asked_def)
  then show ?case using here m(1) x by (simp add: get_bml_def)
qed

lemma dio_leases_returns:
  assumes "list_all (ring_ok (lview l)) rings" "connected l qs" "set (concat rings) \<subseteq> set qs" "p \<notin> set qs"
  shows "\<exists>force' rc' b' l'. dio_leases env np (map hd rings) force rc b l = Some (force', rc', b', l') \<and> asked qs p l l'"
  using assms
proof (induction rings arbitrary: force rc b l)
  case Nil
  then show ?case by (simp add: asked_def)
next
  case (Cons ps rings)
  then have w: "chain_walk l (hd ps) (hd ps) = Some ps" by (simp add: chain_walk_ring)
  obtain f1 r1 b1 l1 where c: "dio_chain env np ps force rc b l = Some (f1, r1, b1, l1)" "asked qs p l l1"
    using dio_chain_returns [OF Cons.prems(2), of ps p] Cons.prems(3,4) by (metis concat.simps(2) le_sup_iff set_append)
  have "lview l1 = lview l" using dio_chain_spec [of np ps force rc b l env] c(1) by (simp add: post_def dio_res_def frame_def)
  then obtain f2 r2 b2 l2 where "dio_leases env np (map hd rings) f1 r1 b1 l1 = Some (f2, r2, b2, l2)" "asked qs p l1 l2"
    using Cons.IH [of l1 f1 r1 b1] Cons.prems c(2) by (auto simp: asked_def)
  then show ?case using w c by (simp add: asked_def)
qed

lemma directio_returns:
  assumes "rings_ok (lview l) rings (bview b)" "connected l (concat rings)" "p \<notin> set (concat rings)"
  shows "\<exists>b' l' rc. mds_bmap_directio env rw want np b f l = Some (b', l', rc) \<and> bml_pool l' p = bml_pool l p"
proof -
  have r: "list_all (ring_ok (lview l)) rings" "bmi_leases b = map hd rings" using assms(1) by (simp_all add: rings_ok_def bview_def)
  then have b: "bmi_leases (clr_bcm_flags BMAPF_DIO b) = map hd rings" by (simp add: clr_bcm_flags_def)
  obtain f1 r1 b1 l1 where "dio_leases env np (map hd rings) False 0 (clr_bcm_flags BMAPF_DIO b) l = Some (f1, r1, b1, l1)"
      "bml_pool l1 p = bml_pool l p"
    using dio_leases_returns [OF r(1) assms(2) subset_refl assms(3)] unfolding asked_def by blast
  then show ?thesis unfolding mds_bmap_directio_def Let_def b by simp
qed

subsection \<open>A read lease is answered\<close>

lemma timeoq_flags:
  "(w OR BML_CHAIN) AND BML_TIMEOQ = w AND BML_TIMEOQ" "(w OR BML_BMI) AND BML_TIMEOQ = w AND BML_TIMEOQ"
  by (simp_all add: bml_flag_defs bit.conj_disj_distrib2 and.assoc)

text \<open>A lease that is not in the timeout list.\<close>

definition unqueued :: "nat \<Rightarrow> lsrv \<Rightarrow> bool" where
  "unqueued p l \<longleftrightarrow> (\<exists>x. bml_pool l p = Some x \<and> bml_flags x AND BML_TIMEOQ = 0)"

lemma link_unqueued:
  assumes "bml_link p obml b l = Some (b', l')" "unqueued p l"
  shows "unqueued p l'"
  using assms
  by (auto simp: bml_link_def unqueued_def upd_bml_def get_bml_def put_bml_def psc_assert_def timeoq_flags bind_eq_Some_conv
      split: option.splits if_splits)

lemma marked_unqueued: "unqueued p l \<Longrightarrow> \<exists>l'. set_bml_flags p BML_BMI l = Some l' \<and> unqueued p l'"
  by (auto simp: unqueued_def set_bml_flags_def upd_bml_def get_bml_def put_bml_def timeoq_flags)

lemma mdsi_returns: "unqueued p l \<Longrightarrow> \<exists>l' seq. mds_bmap_timeotbl_mdsi p BTE_ADD l = Some (l', seq)"
  by (auto simp: unqueued_def mds_bmap_timeotbl_mdsi_def get_bml_def put_bml_def getnextseq_pool split: prod.split)

definition cli_ok :: "cli \<Rightarrow> bool" where
  "cli_ok c \<longleftrightarrow> fst c \<noteq> 0 \<and> snd c \<noteq> 0 \<and> fst c \<noteq> LNET_NID_ANY \<and> snd c \<noteq> LNET_PID_ANY"

lemma read_returns:
  assumes "rings_ok (lview l) rings (bview b)" "connected l (concat rings)" "p \<notin> set (concat rings)"
    "bml_pool l p = Some x" "lv_rd (lv_of x) = (\<not> lv_wr (lv_of x))" "\<not> lv_ch (lv_of x)"
    "bml_flags x AND BML_TIMEOQ = 0" "cli_ok (bml_cli_nidpid x)" "bcm_flags b AND BMAPF_IOSASSIGNED = 0"
  shows "mds_bmap_bml_add env cfg rs p SL_READ prefios b f s l \<noteq> None"
proof -
  let ?b = "b\<lparr>bcm_opcnt := bcm_opcnt b + 1\<rparr>" and ?c = "bml_cli_nidpid x"
  have b: "rings_ok (lview l) rings (bview ?b)" using assms(1) by simp
  obtain b1 l1 rc where d: "mds_bmap_directio env SL_READ (bml_flags x AND BML_DIO \<noteq> 0) ?c ?b f l = Some (b1, l1, rc)"
    "bml_pool l1 p = bml_pool l p" using directio_returns [OF b assms(2,3)] by blast
  have fr: "lview l1 = lview l" "bview b1 = bview b"
    using directio_spec [OF b, of SL_READ "bml_flags x AND BML_DIO \<noteq> 0" ?c env f] d(1) by (simp_all add: post_def frame_def)
  obtain obml w r b2 l2 where k: "mds_bmap_dupls_find ?c b1 l1 = Some (obml, w, r)" "bml_link p obml b1 l1 = Some (b2, l2)"
    by (rule find_link [of l1 rings b1 p x]) (use assms fr d(2) in simp_all)
  have "unqueued p l1" using assms(4,7) d(2) by (simp add: unqueued_def)
  then obtain l3 where l3: "set_bml_flags p BML_BMI l2 = Some l3" "unqueued p l3"
    using marked_unqueued [OF link_unqueued [OF k(2)]] by blast
  obtain l4 seq where "mds_bmap_timeotbl_mdsi p BTE_ADD l3 = Some (l4, seq)" using mdsi_returns [OF l3(2)] by blast
  moreover obtain nid pid where c: "?c = (nid, pid)" by fastforce
  ultimately show ?thesis using assms(4,8,9) d(1) k l3(1)
    by (simp add: mds_bmap_bml_add_def get_bml_def psc_assert_def cli_ok_def c)
qed

subsection \<open>Granting and removing a lease\<close>

definition sample_bml :: "u64 \<Rightarrow> u32 \<Rightarrow> nat option \<Rightarrow> bml" where
  "sample_bml nid flags c = (sample_lease 1)\<lparr>bml_cli_nidpid := (nid, 1), bml_flags := flags, bml_exp := True, bml_chain := c\<rparr>"

text \<open>Client 1 has a read and a write lease, client 2 a read lease; the fourth lease, of client 3, is not linked yet.\<close>

definition sample_pool :: "u32 \<Rightarrow> lsrv" where
  "sample_pool dio = (sample_lsrv [])\<lparr>bml_pool := [0 \<mapsto> sample_bml 1 (BML_READ OR dio) (Some 1), 1 \<mapsto> sample_bml 1 (BML_WRITE OR BML_CHAIN OR dio) (Some 0),
     2 \<mapsto> sample_bml 2 (BML_READ OR dio) (Some 2), 3 \<mapsto> sample_bml 3 BML_READ None]\<rparr>"

definition sample_held :: bmap where
  "sample_held = (sample_cached [3])\<lparr>bmi_leases := [0, 2], bmi_writers := 1, bmi_readers := 1\<rparr>"

text \<open>
  C31. A lease is granted only as the leases of other clients allow. Let the leases linked to a bmap be in order: each
  client has one ring of leases, the list of the bmap has the first of every ring, and the bmap counts a client as a
  writer if it has a write lease and as a reader otherwise. A request to add a lease that is not linked then either
  fails with an error and leaves the rings and the counts as they are, or links exactly this lease, with the rings and
  the counts again in order and no client, mode or flag of another lease changed. The lease is linked against a
  conflict (a writer, readers when it is for writing, a wish for direct I/O or a switch to it under way) only if every
  lease of every other client is for direct I/O, and the bmap is then marked for direct I/O; only a lease restored
  at a restart is exempt. A request for reading is always answered; one for writing may still stop on an assertion
  about the I/O server of the bmap.
\<close>

theorem lease_grant:
  assumes "rings_ok (lview l) rings (bview b)" "connected l (concat rings)" "p \<notin> set (concat rings)"
    "bml_pool l p = Some x" "lv_rd (lv_of x) = (\<not> lv_wr (lv_of x))" "lv_wr (lv_of x) = (rw = SL_WRITE)" "\<not> lv_ch (lv_of x)"
    "bml_flags x AND BML_TIMEOQ = 0" "cli_ok (bml_cli_nidpid x)" "bcm_flags b AND BMAPF_IOSASSIGNED = 0"
  shows "case mds_bmap_bml_add env cfg rs p rw prefios b f s l of
      None \<Rightarrow> rw = SL_WRITE
    | Some (b', f', s', l', rc) \<Rightarrow>
        rc \<noteq> 0 \<and> bview b' = bview b \<and> lview l' = lview l \<or>
        (\<exists>rings'. rings_ok (lview l') rings' (bview b') \<and> set (concat rings') = insert p (set (concat rings)) \<and>
           core (lview l') = core (marked (lview l) p)) \<and>
        (bml_flags x AND BML_RECOVER = 0 \<and> conflict rw (bml_flags x AND BML_DIO \<noteq> 0) b \<longrightarrow>
           all_dio l (others l (bml_cli_nidpid x) (concat rings)) \<and>
           (others l (bml_cli_nidpid x) (concat rings) \<noteq> [] \<longrightarrow> bcm_flags b' AND BMAPF_DIO \<noteq> 0))"
proof (cases "mds_bmap_bml_add env cfg rs p rw prefios b f s l")
  case None
  then have "rw \<noteq> SL_READ" using read_returns [OF assms(1-5,7-10)] by blast
  then show ?thesis using None by (cases rw) simp_all
next
  case (Some r)
  then have "add_res rw x b l p rings r"
    using bml_add_spec [OF assms(1,4,3,5,7,6), of env cfg rs prefios f s] by (simp add: post_def)
  then show ?thesis unfolding Some flag_dio flag_bdio add_res_def added_ok_def frame_def by (auto split: prod.splits)
qed

text \<open>
  C35. A lease that is linked to a bmap is removed without fail. With the leases of the bmap in order, removing one of
  them runs into no assertion, and afterwards exactly the other leases are linked, again in order: a client that keeps
  leases keeps one ring, with a new first lease on the list if the first one was removed, and counts as a writer as
  long as it has a write lease and as a reader after that. No client, mode or flag of a lease changes, and the leases of
  other bmaps are left alone.
\<close>

theorem lease_remove:
  assumes "rings_ok (lview l) rings (bview b)" "p \<in> set (concat rings)"
  shows "\<exists>b' l' rings'. mds_bmap_bml_del_locked p b l = Some (b', l') \<and> rings_ok (lview l') rings' (bview b') \<and>
    set (concat rings') = set (concat rings) - {p} \<and> core (lview l') = core (lview l) \<and>
    (\<forall>q. q \<notin> set (concat rings) \<longrightarrow> lview l' q = lview l q)"
  by (rule del_spec [OF assms]) (auto simp: only_def)

subsection \<open>Examples\<close>

lemma sample_lv: "lv_of (sample_bml n w c) = \<lparr>lv_cli = (n, 1), lv_chain = c, lv_rd = bit w 0, lv_wr = bit w 1,
     lv_ch = bit w 7, lv_dio = bit w 2, lv_bmi = bit w 5, lv_fr = bit w 8, lv_own = bml_bmi (sample_lease 1)\<rparr>"
  by (simp add: lv_of_def sample_bml_def)

lemma sample_rings:
  assumes "dio \<in> {0, BML_DIO}"
  shows "rings_ok (lview (sample_pool dio)) [[0, 1], [2]] (bview sample_held)"
  using assms
  by (auto simp: rings_ok_def ring_ok_def ring_cli_def has_wr_def bview_def sample_held_def lview_def sample_pool_def sample_lv
      bml_flag_defs bit_or_iff bit_push_bit_iff bit_1_iff)

lemma sample_new: "bml_pool (sample_pool dio) 3 = Some (sample_bml 3 BML_READ None)" "connected (sample_pool 0) [0, 1, 2]"
    "connected (sample_pool BML_DIO) [0, 1, 2]" "cli_ok (bml_cli_nidpid (sample_bml 3 BML_READ None))"
  by (simp_all add: connected_def sample_pool_def sample_bml_def bml_flag_defs cli_ok_def LNET_NID_ANY_def LNET_PID_ANY_def)

lemma sample_held_fields: "bcm_flags sample_held AND BMAPF_IOSASSIGNED = 0" "conflict SL_READ False sample_held"
  by (simp_all add: sample_held_def sample_cached_def sample_bmap_def BMAPF_IOSASSIGNED_def flag_vals conflict_def)

lemma sample_directio:
  assumes "bmi_leases b = [0, 2]"
  shows "\<exists>b'. mds_bmap_directio env SL_READ False (3, 1) b f (sample_pool BML_DIO) = Some (b', sample_pool BML_DIO, 0)"
proof -
  have "ring_ok (lview (sample_pool BML_DIO)) [0, 1]" "ring_ok (lview (sample_pool BML_DIO)) [2]"
    using sample_rings [of BML_DIO] by (simp_all add: rings_ok_def)
  then have w: "chain_walk (sample_pool BML_DIO) 0 0 = Some [0, 1]" "chain_walk (sample_pool BML_DIO) 2 2 = Some [2]"
    using chain_walk_ring by fastforce+
  have "dio_chain env (3, 1) ps g 0 c (sample_pool BML_DIO) = Some (g \<or> ps \<noteq> [], 0, c, sample_pool BML_DIO)" if "set ps \<subseteq> {0, 1, 2}" for ps g c
    using that by (induction ps arbitrary: g) (auto simp: get_bml_def sample_pool_def sample_bml_def bml_flag_defs)
  then show ?thesis using assms by (simp add: mds_bmap_directio_def clr_bcm_flags_def w Let_def cong: if_cong del: dio_chain.simps)
qed

lemma sample_granted:
  assumes "mds_bmap_bml_add env cfg rs 3 SL_READ ios sample_held f s (sample_pool BML_DIO) = Some (b', f', s', l', rc)"
  shows "rc = 0"
proof -
  have "\<exists>b'. mds_bmap_directio env SL_READ False (3, 1) (sample_held\<lparr>bcm_opcnt := bcm_opcnt sample_held + 1\<rparr>) f (sample_pool BML_DIO) =
      Some (b', sample_pool BML_DIO, 0)" by (rule sample_directio) (simp add: sample_held_def)
  moreover have "bml_cli_nidpid (sample_bml 3 BML_READ None) = (3, 1)" "bml_flags (sample_bml 3 BML_READ None) AND BML_DIO = 0"
    by (simp_all add: sample_bml_def bml_flag_defs)
  ultimately show ?thesis using assms sample_new(1) [of BML_DIO]
    by (auto simp: mds_bmap_bml_add_def get_bml_def bind_eq_Some_conv split: prod.splits if_splits cong: if_cong)
qed

theorem lease_grant_witness:
  "(\<exists>b' f' s' l' rc. mds_bmap_bml_add sample_lenv all_fs [] 3 SL_READ 10 sample_held (sample_file [10] [3]) sample_slm (sample_pool 0) =
     Some (b', f', s', l', rc) \<and> rc \<noteq> 0 \<and> bview b' = bview sample_held \<and> lview l' = lview (sample_pool 0)) \<and>
   (\<exists>b' f' s' l' rings'. mds_bmap_bml_add sample_lenv all_fs [] 3 SL_READ 10 sample_held (sample_file [10] [3]) sample_slm (sample_pool BML_DIO) =
     Some (b', f', s', l', 0) \<and> rings_ok (lview l') rings' (bview b') \<and> set (concat rings') = {0, 1, 2, 3} \<and> bcm_flags b' AND BMAPF_DIO \<noteq> 0)"
proof -
  let ?x = "sample_bml 3 BML_READ None" and ?f = "sample_file [10] [3]"
  have x: "lv_rd (lv_of ?x)" "\<not> lv_wr (lv_of ?x)" "\<not> lv_ch (lv_of ?x)" "bml_flags ?x AND BML_TIMEOQ = 0"
    "bml_flags ?x AND BML_RECOVER = 0" "bml_flags ?x AND BML_DIO = 0" "bml_cli_nidpid ?x = (3, 1)"
    by (simp_all add: sample_lv) (simp_all add: sample_bml_def bml_flag_defs)
  have v: "lv_cli (the (lview (sample_pool d) 0)) = (1, 1)" "lv_cli (the (lview (sample_pool d) 1)) = (1, 1)"
    "lv_cli (the (lview (sample_pool d) 2)) = (2, 1)" for d
    by (simp_all add: lview_def sample_pool_def sample_lv)
  have nodio: "\<not> lv_dio (the (lview (sample_pool 0) 0))"
    by (simp add: lview_def sample_pool_def sample_lv bml_flag_defs)
  note grant = lease_grant [where p = 3 and x = ?x and rw = SL_READ and b = sample_held and env = sample_lenv and cfg = all_fs and rs = "[]"
      and prefios = 10 and f = ?f and s = sample_slm and rings = "[[0, 1], [2]]"]
  have a: "case mds_bmap_bml_add sample_lenv all_fs [] 3 SL_READ 10 sample_held ?f sample_slm (sample_pool 0) of
    None \<Rightarrow> False | Some (b', f', s', l', rc) \<Rightarrow> rc \<noteq> 0 \<and> bview b' = bview sample_held \<and> lview l' = lview (sample_pool 0)"
    using grant [OF sample_rings, of 0] sample_new sample_held_fields x v nodio
    by (auto split: option.splits)
  have c: "case mds_bmap_bml_add sample_lenv all_fs [] 3 SL_READ 10 sample_held ?f sample_slm (sample_pool BML_DIO) of
    None \<Rightarrow> False | Some (b', f', s', l', rc) \<Rightarrow>
      \<exists>rings'. rings_ok (lview l') rings' (bview b') \<and> set (concat rings') = {0, 1, 2, 3} \<and> bcm_flags b' AND BMAPF_DIO \<noteq> 0"
    using grant [OF sample_rings, of BML_DIO] sample_granted [of sample_lenv all_fs "[]" 10 ?f sample_slm] sample_new sample_held_fields x v
    by (auto split: option.splits simp: insert_commute)
  show ?thesis using a c sample_granted [of sample_lenv all_fs "[]" 10 ?f sample_slm] by (auto split: option.splits)
qed

theorem lease_remove_witness:
  "\<exists>b' l' rings'. mds_bmap_bml_del_locked 0 sample_held (sample_pool 0) = Some (b', l') \<and> rings_ok (lview l') rings' (bview b') \<and>
     set (concat rings') = {1, 2}"
  using lease_remove [OF sample_rings [of 0], of 0] by (auto simp: insert_Diff_if)

end
