(* ===== verification/Spec2Isabelle.thy ===== *)
theory Spec2Isabelle
  imports Prelude VBitmap_Count Odtable Journal_Scan Fault Lease_Grant
begin

text \<open>
  A verification development for the SLASH2 file system and its runtime library PFL.

  \<^bold>\<open>The program.\<close> SLASH2 spreads the data of a file over I/O systems. A file is cut into bmaps of 128 MiB, and the
  metadata server (\<^verbatim>\<open>slash2/slashd\<close>) keeps for every bmap which I/O systems have its data, are to receive it, or
  have garbage to reclaim. Its state survives crashes in metafiles, one per file, in a transaction journal and in
  on-disk tables, which are services of PFL (\<^verbatim>\<open>pfl\<close>).

  \<^bold>\<open>Conventions.\<close> An operation is a function of the state it changes. \<^const>\<open>None\<close> is a run that has no result: a failed
  \<^verbatim>\<open>psc_assert\<close>, a fatal error, an access outside an array, or a wait that only another thread can end. Error codes
  are results. Machine words keep their width where the code depends on it. Code that is not part of the
  repository, and the network, are arguments. Locks are not modelled: an operation is atomic, and interleavings are
  sequences of operations.

  \<^bold>\<open>Runtime library.\<close>
  \<^item> \<open>Prelude\<close>, \<open>Bytes\<close>: words, checked buffers, files as byte strings, and the contract \<open>byte_codec\<close> of a fixed-size
    encoding, which the integers and the records of the on-disk table satisfy.
  \<^item> \<open>VBitmap\<close>, \<open>VBitmap_Alloc\<close>, \<open>VBitmap_Count\<close>: \<^verbatim>\<open>pfl/vbitmap.c\<close>. The byte-wise routines are related to the list of
    bits; the search for a free bit is the first free bit in cyclic order.
  \<^item> \<open>Crc\<close>: \<^verbatim>\<open>pfl/crc.c\<close>. The table-driven checksum is the bit-serial one and sees every change within eight bytes.
  \<^item> \<open>Odtable\<close>: \<^verbatim>\<open>pfl/odtable.c\<close>. Every reachable table is recovered from its file; a table that was extended is not.
  \<^item> \<open>Journal\<close>, \<open>Journal_Inv\<close>, \<open>Journal_Distill\<close>, \<open>Journal_Scan\<close>: \<^verbatim>\<open>pfl/journal.c\<close>. Runs are the sequences of a step
    relation; its invariant gives that a write never takes the slot of a pending transaction, that entries are
    distilled in order and none is left out, and that replay after a crash hands over what was pending. A turn of the
    distill thread yields the entries it handed over also when it stops on an assertion afterwards. The scan is
    described for intact devices and for devices with damaged slots.
  \<^item> \<open>Sorted_Array\<close>, \<open>Dynarray\<close>, \<open>Fault\<close>: \<^verbatim>\<open>pfl/bsearch.c\<close>, \<^verbatim>\<open>pfl/dynarray.c\<close>, \<^verbatim>\<open>pfl/fault.c\<close>. The registry of fault
    points relies on the contract \<open>sorted_array\<close>, which the dynamic array satisfies.

  \<^bold>\<open>Metadata server.\<close>
  \<^item> \<open>Replica\<close>: the states of a bmap, three bits for each of 64 replicas, packed over byte boundaries
    (\<^verbatim>\<open>include/bmap.h\<close>), and the walks of \<^verbatim>\<open>repl_mds.c\<close>. The packed array satisfies the contract \<open>state_table\<close>; a walk
    with a sorted list of indexes, which the code searches with \<^verbatim>\<open>bsearch\<close> of the C library, is the translation of the
    list of states.
  \<^item> \<open>Inode\<close>: \<^verbatim>\<open>inode.c\<close> and the lookups of \<^verbatim>\<open>repl_mds.c\<close>. The table of I/O systems, split over two blocks, is a list.
  \<^item> \<open>Bmap_Mds\<close>: \<^verbatim>\<open>share/bmap.c\<close>, \<^verbatim>\<open>bmap_mds.c\<close>. The cache with its reference counts, and the record in the metafile.
  \<^item> \<open>Repl\<close>: \<^verbatim>\<open>repl_mds.c\<close>. Invalidation after a write, requests to add and remove replicas, the database worker and
    the bandwidth account.
  \<^item> \<open>Upsch\<close>: \<^verbatim>\<open>up_sched_res.c\<close>. The scheduler that turns queued states into requests to I/O systems, and the handlers
    of the answers. Its operations are analysed with a calculus of postconditions; the relation \<open>upsch_step\<close> puts
    them together with the operations of \<open>Repl\<close> and \<open>Bmap_Mds\<close>, with loads of the bmap from its record among them, and
    no sequence of steps loses the data of a bmap in memory or in the metafile.
    Invalidation is not one of these steps: it can take the last valid replica, which \<open>Repl\<close> states exactly.

  \<^bold>\<open>Leases.\<close> A client works on a bmap under a lease, for reading or writing. The first lease of a client is on the list
  of the bmap, its others hang on it in a ring; the bmap counts clients as readers or writers. When clients
  conflict, the holders are asked to switch to direct I/O, and a lease is not granted before they have.
  \<^item> \<open>Resm_Select\<close>: the choice of the I/O server of a write lease (\<^verbatim>\<open>slm_resm_select\<close> of \<^verbatim>\<open>mds.c\<close>). With valid replicas
    it ends with a server that has one.
  \<^item> \<open>Bmap_Timeo\<close>: the sequence numbers of leases and the list in which they time out (\<^verbatim>\<open>mds_bmap_timeo.c\<close>), and the
    watermark below which an I/O server refuses a lease (\<^verbatim>\<open>sliod/bmap_iod.c\<close>, \<^verbatim>\<open>sliod/ric.c\<close>).
  \<^item> \<open>Lease\<close>: the operations of \<^verbatim>\<open>mds.c\<close>, \<^verbatim>\<open>coh.c\<close> and \<^verbatim>\<open>rmc.c\<close> on leases: granting, upgrading, renewing, reassigning and
    releasing, the binding of a bmap to a server with its on-disk table and journal records, the timeout thread,
    and the restoration at start-up. Leases are in a pool indexed by numbers, which stand for pointers.
  \<^item> \<open>Lease_Inv\<close>, \<open>Lease_Grant\<close>: the rings and counts of a bmap stay in order when a lease is added or removed, a removal
    never fails, and a lease is granted against a conflict only when all others are for direct I/O. The operations
    composed of these, from the release on, are defined in \<open>Lease\<close>; no theorem is stated about them.

  \<^bold>\<open>Termination.\<close> Loops are structural recursions over the list they visit, or have a termination proof. Some
  are partial functions. The search for a free bit is proved to return on every well-formed bitmap. The loop that pages work in is proved to return when the number of rows of the resource is
  bounded. The search for a journal slot is proved to return once the pending transactions are synced and
  distilled. The walk along a ring of leases is proved to return the ring when the rings are in order.

  \<^bold>\<open>Assumptions worth knowing.\<close>
  \<^item> What a statement on the work database sees is an argument: the rows at that time, in any order. The order
    matters where a theorem says so.
  \<^item> A turn of the scheduler is modelled for the file of the first bmap on the queue. A test for a connection has the
    same answer throughout a turn. The code draws a new random start for every loop over the replicas or servers; in the
    model the start is a function of the number of elements, so two loops of one turn over equally many start alike.
  \<^item> While a worker still has to record the last change of a bmap (\<^verbatim>\<open>BMAPF_REPLMODWR\<close>), a further change waits. It has no
    value in the model, also in the middle of a turn that changes several replicas; the worker is a step of its own.
  \<^item> A write to a metafile takes place as a whole or, with an error code from the list \<^verbatim>\<open>mf_rcs\<close>, not at all.
  \<^item> The bandwidth accounts and the counters of references, readers and writers are integers without bounds.

  \<^bold>\<open>Not modelled.\<close> The client (\<^verbatim>\<open>mount_slash\<close>) and, apart from the check of lease numbers, the I/O server (\<^verbatim>\<open>sliod\<close>), which
  are concurrent programs around network requests and page caches; the callbacks on whole files; the namespace
  handlers (\<^verbatim>\<open>rmc.c\<close>) and most journal records of the metadata server (\<^verbatim>\<open>mdslog.c\<close>), which act on ZFS; remote procedure
  calls and batches; threads, locks, pools and wait queues; the remaining containers of PFL; control programs, tools and
  tests; and the third-party trees \<^verbatim>\<open>zfs-fuse\<close> and \<^verbatim>\<open>lnet-lite\<close>.
\<close>

end
